(* ===== verification/Weft_Prelude.thy ===== *)
theory Weft_Prelude
  imports Complex_Main "HOL-Library.Word" "HOL-Library.List_Lexorder" "HOL-Library.AList"
    "HOL-Library.Multiset"
begin

text \<open>
  Shared vocabulary of the development: JavaScript strings, byte arrays, numbers and
  untyped decoded values; the array methods the sources use; the fact collections and the
  generic lemmas on lists and association lists that the component theories rest on.

  \<^item> A JavaScript string is a list of 16-bit code units, ordered lexicographically by code
    unit, which is what \<open><\<close> on strings and \<open>toSorted()\<close> without a comparator do.
  \<^item> A \<open>Uint8Array\<close> is a list of bytes.
  \<^item> A finite number is a rational; rounding of IEEE doubles is not modelled.
  \<^item> A JavaScript \<open>Map\<close> is an association list in insertion order: \<open>AList.update\<close> keeps
    the position of an existing key and appends a new one, \<open>AList.delete\<close> removes it,
    \<open>map_of\<close> looks it up.
\<close>

section \<open>Fact collections\<close>

named_theorems js_defs \<open>definitions that model JavaScript library behaviour\<close>
named_theorems storage_defs \<open>definitions of storage operations\<close>
named_theorems inv_intros \<open>introduction rules that establish component invariants\<close>

section \<open>JavaScript values\<close>

type_synonym jsstring = "16 word list"
type_synonym bytes = "8 word list"

text \<open>A literal of the source as a string of code units.\<close>

definition js :: "string \<Rightarrow> jsstring" where
  "js s = map (\<lambda>c. of_nat (of_char c)) s"

datatype jsnum = JFin rat | JNaN | JInf | JNegInf

datatype jsval =
    JUndefined
  | JNull
  | JBool bool
  | JNumber jsnum
  | JString jsstring
  | JBytes bytes
  | JArray "jsval list"
  | JObject "(jsstring \<times> jsval) list"

text \<open>The MessagePack codec, a parameter of the operations that encode and decode stored values.\<close>

record value_codec =
  vc_encode :: "jsval \<Rightarrow> bytes"
  vc_decode :: "bytes \<Rightarrow> jsval option"

definition isFinite :: "jsnum \<Rightarrow> bool" where
  "isFinite n = (case n of JFin _ \<Rightarrow> True | _ \<Rightarrow> False)"

definition isInteger :: "jsnum \<Rightarrow> bool" where
  "isInteger n = (case n of JFin r \<Rightarrow> of_int \<lfloor>r\<rfloor> = r | _ \<Rightarrow> False)"

definition MAX_SAFE_INTEGER :: int where
  "MAX_SAFE_INTEGER = 9007199254740991"

definition isSafeInteger :: "jsnum \<Rightarrow> bool" where
  "isSafeInteger n =
     (case n of JFin r \<Rightarrow> of_int \<lfloor>r\<rfloor> = r \<and> \<bar>\<lfloor>r\<rfloor>\<bar> \<le> MAX_SAFE_INTEGER | _ \<Rightarrow> False)"

text \<open>
  The property \<open>k\<close> of a value whose \<open>typeof\<close> is \<open>'object'\<close> and that is not \<open>null\<close>: a
  missing property, and a named property of an array or byte array, is \<open>undefined\<close>.
\<close>

definition isObject :: "jsval \<Rightarrow> bool" where
  "isObject v = (case v of JObject _ \<Rightarrow> True | JArray _ \<Rightarrow> True | JBytes _ \<Rightarrow> True | _ \<Rightarrow> False)"

definition field :: "jsval \<Rightarrow> jsstring \<Rightarrow> jsval" where
  "field v k =
     (case v of
        JObject fs \<Rightarrow> (case map_of fs k of Some x \<Rightarrow> x | None \<Rightarrow> JUndefined)
      | _ \<Rightarrow> JUndefined)"

definition hasField :: "jsval \<Rightarrow> jsstring \<Rightarrow> bool" where
  "hasField v k = (case v of JObject fs \<Rightarrow> map_of fs k \<noteq> None | _ \<Rightarrow> False)"

definition isString :: "jsval \<Rightarrow> bool" where
  "isString v = (case v of JString _ \<Rightarrow> True | _ \<Rightarrow> False)"

definition isNumber :: "jsval \<Rightarrow> bool" where
  "isNumber v = (case v of JNumber _ \<Rightarrow> True | _ \<Rightarrow> False)"

declare isFinite_def [js_defs] isInteger_def [js_defs] isSafeInteger_def [js_defs]
  MAX_SAFE_INTEGER_def [js_defs] isObject_def [js_defs] field_def [js_defs]
  hasField_def [js_defs] isString_def [js_defs] isNumber_def [js_defs]

text \<open>
  \<open>a === b\<close>, \<open>a < b\<close> and \<open>a + b\<close> on numbers: \<open>NaN\<close> is different from itself and below
  nothing, and absorbs a sum.
\<close>

definition js_eq :: "jsnum \<Rightarrow> jsnum \<Rightarrow> bool" where
  "js_eq a b = (a = b \<and> a \<noteq> JNaN)"

fun js_less :: "jsnum \<Rightarrow> jsnum \<Rightarrow> bool" where
  "js_less (JFin a) (JFin b) = (a < b)"
| "js_less (JFin a) JInf = True"
| "js_less JNegInf (JFin b) = True"
| "js_less JNegInf JInf = True"
| "js_less a b = False"

fun js_add :: "jsnum \<Rightarrow> jsnum \<Rightarrow> jsnum" where
  "js_add (JFin a) (JFin b) = JFin (a + b)"
| "js_add (JFin a) JInf = JInf"
| "js_add (JFin a) JNegInf = JNegInf"
| "js_add JInf (JFin b) = JInf"
| "js_add JNegInf (JFin b) = JNegInf"
| "js_add JInf JInf = JInf"
| "js_add JNegInf JNegInf = JNegInf"
| "js_add a b = JNaN"

text \<open>Sequencing of computations that may throw.\<close>

definition and_then :: "'e + 'a \<Rightarrow> ('a \<Rightarrow> 'e + 'b) \<Rightarrow> 'e + 'b" where
  "and_then m f = (case m of Inl e \<Rightarrow> Inl e | Inr x \<Rightarrow> f x)"

lemma and_then_simps [simp]: "and_then (Inl e) f = Inl e" "and_then (Inr x) f = f x"
  by (simp_all add: and_then_def)

lemma and_then_Inr_iff: "and_then m f = Inr y \<longleftrightarrow> (\<exists>x. m = Inr x \<and> f x = Inr y)"
  by (cases m) simp_all

section \<open>Array methods\<close>

text \<open>\<open>findIndex\<close>, with \<open>None\<close> for the source's \<open>-1\<close>; \<open>js_index\<close> gives the number back.\<close>

fun find_index :: "('a \<Rightarrow> bool) \<Rightarrow> 'a list \<Rightarrow> nat option" where
  "find_index P [] = None"
| "find_index P (x # xs) = (if P x then Some 0 else map_option Suc (find_index P xs))"

definition js_index :: "nat option \<Rightarrow> int" where
  "js_index o' = (case o' of None \<Rightarrow> -1 | Some i \<Rightarrow> int i)"

text \<open>\<open>splice(i, 1)\<close> and \<open>splice(i, 0, x)\<close>.\<close>

definition remove_at :: "nat \<Rightarrow> 'a list \<Rightarrow> 'a list" where
  "remove_at i xs = take i xs @ drop (Suc i) xs"

definition insert_at :: "nat \<Rightarrow> 'a \<Rightarrow> 'a list \<Rightarrow> 'a list" where
  "insert_at i x xs = take i xs @ x # drop i xs"

lemma find_index_None_iff: "find_index P xs = None \<longleftrightarrow> (\<forall>x \<in> set xs. \<not> P x)"
  by (induction xs) auto

lemma find_index_Some:
  "find_index P xs = Some i \<Longrightarrow> i < length xs \<and> P (xs ! i) \<and> (\<forall>j < i. \<not> P (xs ! j))"
proof (induction xs arbitrary: i)
  case (Cons x xs)
  show ?case
  proof (cases "P x")
    case True
    with Cons.prems show ?thesis by simp
  next
    case False
    with Cons.prems obtain k where k: "find_index P xs = Some k" "i = Suc k" by auto
    with Cons.IH [OF k(1)] False show ?thesis by (auto simp: less_Suc_eq_0_disj)
  qed
qed simp

lemma find_index_SomeD:
  assumes "find_index P xs = Some i"
  shows "i < length xs" and "P (xs ! i)" and "j < i \<Longrightarrow> \<not> P (xs ! j)" and "xs ! i \<in> set xs"
  using find_index_Some [OF assms] by auto

lemma find_index_ex: "x \<in> set xs \<Longrightarrow> P x \<Longrightarrow> \<exists>i. find_index P xs = Some i"
  using find_index_None_iff [of P xs] by (cases "find_index P xs") auto

lemma find_index_append:
  "find_index P (xs @ ys) =
     (case find_index P xs of Some i \<Rightarrow> Some i
      | None \<Rightarrow> map_option (\<lambda>i. length xs + i) (find_index P ys))"
proof (induction xs)
  case Nil
  show ?case by (cases "find_index P ys") simp_all
next
  case (Cons x xs)
  then show ?case by (cases "find_index P ys") (auto split: option.splits)
qed

lemma find_index_update:
  "find_index P xs = Some i \<Longrightarrow> P v \<Longrightarrow> find_index P (xs[i := v]) = Some i"
  by (induction xs arbitrary: i) (auto split: if_splits)

lemma mset_remove_at: "i < length xs \<Longrightarrow> mset (remove_at i xs) + {#xs ! i#} = mset xs"
proof -
  assume i: "i < length xs"
  have "mset xs = mset (take i xs @ xs ! i # drop (Suc i) xs)"
    using i by (metis id_take_nth_drop)
  then show ?thesis by (simp add: remove_at_def)
qed

lemma set_remove_at_subset: "set (remove_at i xs) \<subseteq> set xs"
  by (auto simp: remove_at_def dest: in_set_takeD in_set_dropD)

lemma length_remove_at: "i < length xs \<Longrightarrow> length (remove_at i xs) = length xs - 1"
  by (simp add: remove_at_def)

lemma mset_insert_at: "mset (insert_at i x xs) = {#x#} + mset xs"
proof -
  have "mset (take i xs) + mset (drop i xs) = mset xs"
    by (metis append_take_drop_id mset_append)
  then show ?thesis by (simp add: insert_at_def)
qed

lemma set_insert_at [simp]: "set (insert_at i x xs) = insert x (set xs)"
  by (metis mset_insert_at set_mset_add_mset_insert set_mset_mset add_mset_add_single union_commute)

section \<open>Filters that keep the order of distinct lists\<close>

lemma distinct_map_filter: "distinct (map f xs) \<Longrightarrow> distinct (map f (filter P xs))"
  by (induction xs) auto

lemma distinct_map_update:
  "distinct (map f xs) \<Longrightarrow> i < length xs \<Longrightarrow> f v = f (xs ! i) \<Longrightarrow> distinct (map f (xs[i := v]))"
  by (metis length_map list_update_id map_update nth_map)

lemma map_update_same: "i < length xs \<Longrightarrow> f v = f (xs ! i) \<Longrightarrow> map f (xs[i := v]) = map f xs"
  by (simp add: map_update list_update_same_conv)

section \<open>Association lists as JavaScript maps\<close>

lemma map_of_alist_update [simp]: "map_of (AList.update k v xs) = (map_of xs)(k \<mapsto> v)"
  by (rule ext) (simp add: update_conv')

lemma map_of_alist_delete [simp]: "map_of (AList.delete k xs) = (map_of xs)(k := None)"
  by (rule ext) (simp add: delete_conv')

lemma distinct_alist_update [simp, intro]:
  "distinct (map fst xs) \<Longrightarrow> distinct (map fst (AList.update k v xs))"
  by (rule AList.distinct_update)

lemma distinct_alist_delete [simp, intro]:
  "distinct (map fst xs) \<Longrightarrow> distinct (map fst (AList.delete k xs))"
  by (rule AList.distinct_delete)

end
