(* ===== verification/Storage_Interface.thy ===== *)
theory Storage_Interface
  imports Weft_Prelude "HOL-Library.Sublist"
begin

text \<open>
  The key-value storage interface of \<open>src/src/storage\<close>: batch operations, scan options and
  their matching, the batch-size cap, the capability gate, the normalisation of bounded
  range deletes, the operations derived from \<open>get\<close>/\<open>scan\<close>/\<open>batch\<close> and their dispatchers.

  A TypeScript object that implements \<open>Storage\<close> is a record of operations over a state
  \<open>'s\<close>; an optional method is an \<open>option\<close> field. An operation returns an error or a value
  (\<open>Inl\<close>/\<open>Inr\<close>) together with the state it leaves behind; reads leave it unchanged and
  return the value only. Promises are resolved values, an async iterator is the list it
  yields: \<open>scan\<close> yields one point-in-time view, the \<open>snapshot\<close> scan consistency.
  The locale \<open>storage_spec\<close> is the contract the engine relies on.
\<close>

section \<open>Batch operations, conditions, scan options\<close>

datatype batch_operation = Put (op_key: jsstring) (op_value: bytes) | Delete (op_key: jsstring)

record conditional_batch_condition =
  cond_key :: jsstring
  expectedValue :: "bytes option"

record scan_options =
  so_limit :: "jsnum option"
  so_reverse :: bool
  so_gt :: "jsstring option"
  so_lt :: "jsstring option"
  so_gte :: "jsstring option"
  so_lte :: "jsstring option"

definition default_scan_options :: scan_options where
  "default_scan_options =
     \<lparr>so_limit = None, so_reverse = False, so_gt = None, so_lt = None, so_gte = None, so_lte = None\<rparr>"

datatype persistence = Ephemeral | LocalPersistence | RemotePersistence
datatype read_after_write = Linearizable | SessionConsistency | EventualConsistency
datatype scan_consistency = SnapshotScan | BestEffortScan

record storage_capabilities =
  persistence :: persistence
  readAfterWrite :: read_after_write
  scanConsistency :: scan_consistency
  atomicBatch :: bool
  conditionalBatch :: bool
  boundedRangeDelete :: bool

section \<open>Errors and the batch-size cap\<close>

datatype batch_limit_target = BatchOperations | ConditionalBatchConditions | ConditionalBatchOperations

datatype capability_failure = PersistenceNotDurable | ReadAfterWriteNotLinearizable
  | ScanNotSnapshot | AtomicBatchMissing | ConditionalBatchMissing

datatype storage_error =
    StorageBatchOperationLimitExceeded batch_limit_target nat
  | CapabilityRequired
  | ConditionalBatchNotImplemented
  | NotDurableForRecovery "capability_failure list"
  | DeleteRangeBoundNotString
  | DeleteRangeUnbounded
  | DeleteRangeLimitInvalid
  | BackendFailure

type_synonym ('s, 'a) storage_result = "(storage_error + 'a) \<times> 's"

definition MAX_BATCH_OPERATIONS :: nat where
  "MAX_BATCH_OPERATIONS = 10000"

definition assertStorageBatchOperationCount :: "batch_limit_target \<Rightarrow> nat \<Rightarrow> storage_error option" where
  "assertStorageBatchOperationCount target n =
     (if n > MAX_BATCH_OPERATIONS
      then Some (StorageBatchOperationLimitExceeded target n) else None)"

section \<open>Key ranges and value comparison\<close>

definition resolvePrefixRangeEnd :: "jsstring \<Rightarrow> jsstring" where
  "resolvePrefixRangeEnd pfx =
     (if length pfx > 0 then butlast pfx @ [last pfx + 1] else [255])"

definition matchesScanOptions :: "jsstring \<Rightarrow> scan_options \<Rightarrow> bool" where
  "matchesScanOptions key options =
     (if (case so_gt options of Some b \<Rightarrow> key \<le> b | None \<Rightarrow> False) then False
      else if (case so_gte options of Some b \<Rightarrow> key < b | None \<Rightarrow> False) then False
      else if (case so_lt options of Some b \<Rightarrow> key \<ge> b | None \<Rightarrow> False) then False
      else if (case so_lte options of Some b \<Rightarrow> key > b | None \<Rightarrow> False) then False
      else True)"

fun bytes_equal_from :: "bytes \<Rightarrow> bytes \<Rightarrow> bool" where
  "bytes_equal_from (x # xs) (y # ys) = (if x \<noteq> y then False else bytes_equal_from xs ys)"
| "bytes_equal_from _ _ = True"

definition storageValuesEqual :: "bytes option \<Rightarrow> bytes option \<Rightarrow> bool" where
  "storageValuesEqual left right =
     (case (left, right) of
        (Some l, Some r) \<Rightarrow> if length l \<noteq> length r then False else bytes_equal_from l r
      | (None, None) \<Rightarrow> True
      | _ \<Rightarrow> False)"

section \<open>Bounded range deletes\<close>

text \<open>The raw options are untyped at run time: the normaliser checks each of them.\<close>

record delete_range_options =
  dr_gt :: jsval
  dr_gte :: jsval
  dr_lt :: jsval
  dr_lte :: jsval
  dr_limit :: jsval

definition normalizeDeleteRangeLimit :: "jsval \<Rightarrow> storage_error + jsnum option" where
  "normalizeDeleteRangeLimit limit =
     (case limit of
        JUndefined \<Rightarrow> Inr None
      | JNumber n \<Rightarrow>
          (case n of
             JFin r \<Rightarrow> if \<not> isInteger n \<or> r < 0 then Inl DeleteRangeLimitInvalid else Inr (Some n)
           | _ \<Rightarrow> Inl DeleteRangeLimitInvalid)
      | _ \<Rightarrow> Inl DeleteRangeLimitInvalid)"

definition normalizeBound :: "jsval \<Rightarrow> storage_error + jsstring option" where
  "normalizeBound v =
     (case v of JUndefined \<Rightarrow> Inr None | JString s \<Rightarrow> Inr (Some s) | _ \<Rightarrow> Inl DeleteRangeBoundNotString)"

definition normalizeDeleteRangeOptions :: "delete_range_options \<Rightarrow> storage_error + scan_options" where
  "normalizeDeleteRangeOptions options =
     (case normalizeBound (dr_gt options) of Inl e \<Rightarrow> Inl e | Inr gt \<Rightarrow>
      (case normalizeBound (dr_gte options) of Inl e \<Rightarrow> Inl e | Inr gte \<Rightarrow>
       (case normalizeBound (dr_lt options) of Inl e \<Rightarrow> Inl e | Inr lt \<Rightarrow>
        (case normalizeBound (dr_lte options) of Inl e \<Rightarrow> Inl e | Inr lte \<Rightarrow>
          if gt = None \<and> gte = None \<and> lt = None \<and> lte = None then Inl DeleteRangeUnbounded
          else (case normalizeDeleteRangeLimit (dr_limit options) of
                  Inl e \<Rightarrow> Inl e
                | Inr limit \<Rightarrow> Inr \<lparr>so_limit = limit, so_reverse = False,
                    so_gt = gt, so_lt = lt, so_gte = gte, so_lte = lte\<rparr>)))))"

text \<open>The normalised options as the untyped object a caller passes on.\<close>

definition bound_value :: "jsstring option \<Rightarrow> jsval" where
  "bound_value b = (case b of None \<Rightarrow> JUndefined | Some s \<Rightarrow> JString s)"

definition as_delete_range :: "scan_options \<Rightarrow> delete_range_options" where
  "as_delete_range o' =
     \<lparr>dr_gt = bound_value (so_gt o'), dr_gte = bound_value (so_gte o'),
      dr_lt = bound_value (so_lt o'), dr_lte = bound_value (so_lte o'),
      dr_limit = (case so_limit o' of None \<Rightarrow> JUndefined | Some n \<Rightarrow> JNumber n)\<rparr>"

record delete_range_bound =
  bound_key :: jsstring
  bound_open :: bool

definition resolveLowerBound :: "jsstring \<Rightarrow> scan_options \<Rightarrow> delete_range_bound" where
  "resolveLowerBound pfx options =
     (let b0 = \<lparr>bound_key = pfx, bound_open = False\<rparr>;
          b1 = (case so_gte options of
                  Some k \<Rightarrow> if k > bound_key b0 then \<lparr>bound_key = k, bound_open = False\<rparr> else b0
                | None \<Rightarrow> b0)
      in (case so_gt options of
            Some k \<Rightarrow> if k \<ge> bound_key b1 then \<lparr>bound_key = k, bound_open = True\<rparr> else b1
          | None \<Rightarrow> b1))"

definition resolveUpperBound :: "jsstring \<Rightarrow> scan_options \<Rightarrow> delete_range_bound" where
  "resolveUpperBound pfx options =
     (let b0 = \<lparr>bound_key = resolvePrefixRangeEnd pfx, bound_open = True\<rparr>;
          b1 = (case so_lt options of
                  Some k \<Rightarrow> if k \<le> bound_key b0 then \<lparr>bound_key = k, bound_open = True\<rparr> else b0
                | None \<Rightarrow> b0)
      in (case so_lte options of
            Some k \<Rightarrow> if k < bound_key b1 then \<lparr>bound_key = k, bound_open = False\<rparr> else b1
          | None \<Rightarrow> b1))"

definition resolveDeleteRangeBounds ::
    "jsstring \<Rightarrow> scan_options \<Rightarrow> (delete_range_bound \<times> delete_range_bound) option" where
  "resolveDeleteRangeBounds pfx options =
     (let lower = resolveLowerBound pfx options; upper = resolveUpperBound pfx options
      in if bound_key lower > bound_key upper
            \<or> (bound_key lower = bound_key upper \<and> (bound_open lower \<or> bound_open upper))
         then None else Some (lower, upper))"

section \<open>The storage object\<close>

record 's storage =
  capabilities :: storage_capabilities
  get_op :: "'s \<Rightarrow> jsstring \<Rightarrow> storage_error + bytes option"
  put_op :: "'s \<Rightarrow> jsstring \<Rightarrow> bytes \<Rightarrow> ('s, unit) storage_result"
  delete_op :: "'s \<Rightarrow> jsstring \<Rightarrow> ('s, unit) storage_result"
  scan_op :: "'s \<Rightarrow> jsstring \<Rightarrow> scan_options \<Rightarrow> storage_error + (jsstring \<times> bytes) list"
  batch_op :: "'s \<Rightarrow> batch_operation list \<Rightarrow> ('s, unit) storage_result"
  conditional_batch_op :: "('s \<Rightarrow> conditional_batch_condition list \<Rightarrow> batch_operation list
                             \<Rightarrow> ('s, bool) storage_result) option"
  has_op :: "('s \<Rightarrow> jsstring \<Rightarrow> storage_error + bool) option"
  delete_prefix_op :: "('s \<Rightarrow> jsstring \<Rightarrow> ('s, nat) storage_result) option"
  delete_range_op :: "('s \<Rightarrow> jsstring \<Rightarrow> delete_range_options \<Rightarrow> ('s, nat) storage_result) option"
  keys_op :: "('s \<Rightarrow> jsstring \<Rightarrow> scan_options \<Rightarrow> storage_error + jsstring list) option"
  count_op :: "('s \<Rightarrow> jsstring \<Rightarrow> storage_error + nat) option"

section \<open>Derived operations\<close>

definition storageHasCore :: "'s storage \<Rightarrow> 's \<Rightarrow> jsstring \<Rightarrow> storage_error + bool" where
  "storageHasCore S s key = map_sum id (\<lambda>v. v \<noteq> None) (get_op S s key)"

definition storageKeysCore :: "'s storage \<Rightarrow> 's \<Rightarrow> jsstring \<Rightarrow> scan_options \<Rightarrow> storage_error + jsstring list" where
  "storageKeysCore S s pfx options = map_sum id (map fst) (scan_op S s pfx options)"

definition storageCountCore :: "'s storage \<Rightarrow> 's \<Rightarrow> jsstring \<Rightarrow> storage_error + nat" where
  "storageCountCore S s pfx = map_sum id length (storageKeysCore S s pfx default_scan_options)"

fun deleteKeysInCappedBatches ::
    "'s storage \<Rightarrow> 's \<Rightarrow> jsstring list \<Rightarrow> nat \<Rightarrow> batch_operation list \<Rightarrow> ('s, nat) storage_result" where
  "deleteKeysInCappedBatches S s [] deleted operations =
     (if length operations > 0
      then (case batch_op S s operations of
              (Inl e, s') \<Rightarrow> (Inl e, s')
            | (Inr _, s') \<Rightarrow> (Inr (deleted + length operations), s'))
      else (Inr deleted, s))"
| "deleteKeysInCappedBatches S s (key # keys) deleted operations =
     (let operations' = operations @ [Delete key]
      in if length operations' \<ge> MAX_BATCH_OPERATIONS
         then (case batch_op S s operations' of
                 (Inl e, s') \<Rightarrow> (Inl e, s')
               | (Inr _, s') \<Rightarrow>
                   deleteKeysInCappedBatches S s' keys (deleted + length operations') [])
         else deleteKeysInCappedBatches S s keys deleted operations')"

definition storageDeletePrefixCore :: "'s storage \<Rightarrow> 's \<Rightarrow> jsstring \<Rightarrow> ('s, nat) storage_result" where
  "storageDeletePrefixCore S s pfx =
     (case storageKeysCore S s pfx default_scan_options of
        Inl e \<Rightarrow> (Inl e, s)
      | Inr keys \<Rightarrow> deleteKeysInCappedBatches S s keys 0 [])"

definition storageDeleteRangeCore ::
    "'s storage \<Rightarrow> 's \<Rightarrow> jsstring \<Rightarrow> scan_options \<Rightarrow> ('s, nat) storage_result" where
  "storageDeleteRangeCore S s pfx options =
     (case storageKeysCore S s pfx options of
        Inl e \<Rightarrow> (Inl e, s)
      | Inr keys \<Rightarrow> deleteKeysInCappedBatches S s keys 0 [])"

section \<open>Dispatchers\<close>

definition storageHas :: "'s storage \<Rightarrow> 's \<Rightarrow> jsstring \<Rightarrow> storage_error + bool" where
  "storageHas S s key =
     (case has_op S of Some f \<Rightarrow> f s key | None \<Rightarrow> storageHasCore S s key)"

definition storageKeys :: "'s storage \<Rightarrow> 's \<Rightarrow> jsstring \<Rightarrow> scan_options \<Rightarrow> storage_error + jsstring list" where
  "storageKeys S s pfx options =
     (case keys_op S of Some f \<Rightarrow> f s pfx options | None \<Rightarrow> storageKeysCore S s pfx options)"

definition storageCount :: "'s storage \<Rightarrow> 's \<Rightarrow> jsstring \<Rightarrow> storage_error + nat" where
  "storageCount S s pfx =
     (case count_op S of Some f \<Rightarrow> f s pfx | None \<Rightarrow> storageCountCore S s pfx)"

definition storageDeletePrefix :: "'s storage \<Rightarrow> 's \<Rightarrow> jsstring \<Rightarrow> ('s, nat) storage_result" where
  "storageDeletePrefix S s pfx =
     (case delete_prefix_op S of Some f \<Rightarrow> f s pfx | None \<Rightarrow> storageDeletePrefixCore S s pfx)"

definition storageDeleteRange ::
    "'s storage \<Rightarrow> 's \<Rightarrow> jsstring \<Rightarrow> delete_range_options \<Rightarrow> ('s, nat) storage_result" where
  "storageDeleteRange S s pfx options =
     (case normalizeDeleteRangeOptions options of
        Inl e \<Rightarrow> (Inl e, s)
      | Inr normalized \<Rightarrow>
          (case delete_range_op S of
             Some f \<Rightarrow> f s pfx (as_delete_range normalized)
           | None \<Rightarrow> storageDeleteRangeCore S s pfx normalized))"

definition storageBatch :: "'s storage \<Rightarrow> 's \<Rightarrow> batch_operation list \<Rightarrow> ('s, unit) storage_result" where
  "storageBatch S s operations =
     (case assertStorageBatchOperationCount BatchOperations (length operations) of
        Some e \<Rightarrow> (Inl e, s)
      | None \<Rightarrow> batch_op S s operations)"

definition requireStorageCapability :: "'s storage \<Rightarrow> storage_error option" where
  "requireStorageCapability S =
     (if \<not> conditionalBatch (capabilities S) then Some CapabilityRequired else None)"

definition assertDurableStorageForRecovery :: "'s storage \<Rightarrow> storage_error option" where
  "assertDurableStorageForRecovery S =
     (let c = capabilities S;
          failures =
            (if persistence c \<noteq> LocalPersistence \<and> persistence c \<noteq> RemotePersistence
             then [PersistenceNotDurable] else [])
            @ (if readAfterWrite c \<noteq> Linearizable then [ReadAfterWriteNotLinearizable] else [])
            @ (if scanConsistency c \<noteq> SnapshotScan then [ScanNotSnapshot] else [])
            @ (if \<not> atomicBatch c then [AtomicBatchMissing] else [])
            @ (if \<not> conditionalBatch c then [ConditionalBatchMissing] else [])
      in if length failures > 0 then Some (NotDurableForRecovery failures) else None)"

definition storageConditionalBatch ::
    "'s storage \<Rightarrow> 's \<Rightarrow> conditional_batch_condition list \<Rightarrow> batch_operation list
     \<Rightarrow> ('s, bool) storage_result" where
  "storageConditionalBatch S s conditions operations =
     (case assertStorageBatchOperationCount ConditionalBatchConditions (length conditions) of
        Some e \<Rightarrow> (Inl e, s)
      | None \<Rightarrow>
     (case assertStorageBatchOperationCount ConditionalBatchOperations (length operations) of
        Some e \<Rightarrow> (Inl e, s)
      | None \<Rightarrow>
     (case requireStorageCapability S of
        Some e \<Rightarrow> (Inl e, s)
      | None \<Rightarrow>
     (case conditional_batch_op S of
        None \<Rightarrow> (Inl ConditionalBatchNotImplemented, s)
      | Some f \<Rightarrow> f s conditions operations))))"

declare storageHasCore_def [storage_defs] storageKeysCore_def [storage_defs]
  storageCountCore_def [storage_defs] storageDeletePrefixCore_def [storage_defs]
  storageDeleteRangeCore_def [storage_defs] storageHas_def [storage_defs]
  storageKeys_def [storage_defs] storageCount_def [storage_defs]
  storageDeletePrefix_def [storage_defs] storageDeleteRange_def [storage_defs]
  storageBatch_def [storage_defs] requireStorageCapability_def [storage_defs]
  storageConditionalBatch_def [storage_defs] assertStorageBatchOperationCount_def [storage_defs]

section \<open>The abstract contract\<close>

text \<open>A store is a partial map; a batch is the composition of its operations in order.\<close>

type_synonym store = "jsstring \<rightharpoonup> bytes"

fun apply_operation :: "batch_operation \<Rightarrow> store \<Rightarrow> store" where
  "apply_operation (Put k v) m = m(k \<mapsto> v)"
| "apply_operation (Delete k) m = m(k := None)"

definition apply_operations :: "batch_operation list \<Rightarrow> store \<Rightarrow> store" where
  "apply_operations ops m = fold apply_operation ops m"

definition conditions_hold :: "conditional_batch_condition list \<Rightarrow> store \<Rightarrow> bool" where
  "conditions_hold conds m = (\<forall>c \<in> set conds. m (cond_key c) = expectedValue c)"

text \<open>\<open>limitReached c n\<close> is the source's \<open>count >= limit\<close>.\<close>

definition limitReached :: "nat \<Rightarrow> jsnum \<Rightarrow> bool" where
  "limitReached c n =
     (case n of JFin r \<Rightarrow> r \<le> of_nat c | JNaN \<Rightarrow> False | JInf \<Rightarrow> False | JNegInf \<Rightarrow> True)"

fun take_limit :: "jsnum option \<Rightarrow> nat \<Rightarrow> 'a list \<Rightarrow> 'a list" where
  "take_limit lmt c [] = []"
| "take_limit lmt c (x # xs) =
     (if (case lmt of None \<Rightarrow> False | Some n \<Rightarrow> limitReached c n) then []
      else x # take_limit lmt (Suc c) xs)"

definition in_prefix_range :: "jsstring \<Rightarrow> jsstring \<Rightarrow> bool" where
  "in_prefix_range p k \<longleftrightarrow> p \<le> k \<and> k < resolvePrefixRangeEnd p"

definition scan_keys :: "store \<Rightarrow> jsstring \<Rightarrow> scan_options \<Rightarrow> jsstring list" where
  "scan_keys m p opts =
     (let ks = sorted_list_of_set {k \<in> dom m. in_prefix_range p k \<and> matchesScanOptions k opts}
      in take_limit (so_limit opts) 0 (if so_reverse opts then rev ks else ks))"

definition scan_entries :: "store \<Rightarrow> jsstring \<Rightarrow> scan_options \<Rightarrow> (jsstring \<times> bytes) list" where
  "scan_entries m p opts = map (\<lambda>k. (k, the (m k))) (scan_keys m p opts)"

lemma apply_operations_Nil [simp]: "apply_operations [] m = m"
  by (simp add: apply_operations_def)

lemma apply_operations_Cons [simp]:
  "apply_operations (x # xs) m = apply_operations xs (apply_operation x m)"
  by (simp add: apply_operations_def)

lemma apply_operations_append [simp]:
  "apply_operations (xs @ ys) m = apply_operations ys (apply_operations xs m)"
  by (simp add: apply_operations_def)

lemma apply_operations_other:
  "k \<notin> op_key ` set ops \<Longrightarrow> apply_operations ops m k = m k"
proof (induction ops arbitrary: m)
  case (Cons x xs)
  then show ?case by (cases x) auto
qed simp

lemma apply_deletes: "apply_operations (map Delete ks) m = m |` (- set ks)"
  by (induction ks arbitrary: m) (auto simp: restrict_map_def fun_eq_iff)

lemma dom_minus_subset: "dom (m(k := None)) \<subseteq> dom m"
  by auto

lemma dom_apply_operations: "finite (dom m) \<Longrightarrow> finite (dom (apply_operations ops m))"
proof (induction ops arbitrary: m)
  case (Cons x xs)
  have "finite (dom (apply_operation x m))"
    using Cons.prems by (cases x) (auto intro: finite_subset [OF dom_minus_subset])
  then show ?case by (simp add: Cons.IH)
qed simp

section \<open>Lemmas on comparison, ranges and bounds\<close>

lemma bytes_equal_from_iff: "length xs = length ys \<Longrightarrow> bytes_equal_from xs ys \<longleftrightarrow> xs = ys"
  by (induction xs ys rule: list_induct2) auto

lemma storageValuesEqual_iff [simp]: "storageValuesEqual l r \<longleftrightarrow> l = r"
  by (auto simp: storageValuesEqual_def bytes_equal_from_iff split: option.splits)

lemma prefix_range_single:
  assumes "c < c + (1 :: 16 word)"
  shows "[c] \<le> k \<and> k < [c + 1] \<longleftrightarrow> prefix [c] k"
proof (cases k)
  case (Cons x xs)
  have no_between: "\<not> (c < x \<and> x < c + 1)"
    using less_inc_imp_less_eq linorder_not_le by blast
  have "([c] \<le> k) = (c < x \<or> c = x)" "(k < [c + 1]) = (x < c + 1)" "prefix [c] k = (c = x)"
    by (simp_all add: Cons)
  then show ?thesis using no_between assms by blast
qed simp

lemma prefix_range_snoc:
  assumes "c < c + (1 :: 16 word)"
  shows "q @ [c] \<le> k \<and> k < q @ [c + 1] \<longleftrightarrow> prefix (q @ [c]) k"
proof (induction q arbitrary: k)
  case Nil
  show ?case using prefix_range_single [OF assms, of k] by simp
next
  case (Cons d q)
  show ?case
  proof (cases k)
    case (Cons x xs)
    then show ?thesis using Cons.IH [of xs] by (auto simp del: append_assoc)
  qed simp
qed

text \<open>
  For a non-empty prefix whose last code unit is not 0xFFFF, the half-open key range is
  exactly the set of keys that start with the prefix.
\<close>

lemma in_prefix_range_iff:
  assumes "p \<noteq> []" and "last p \<noteq> -1"
  shows "in_prefix_range p k \<longleftrightarrow> prefix p k"
proof -
  have "last p < last p + 1"
    using assms(2) by (simp add: inc_less_eq_iff flip: linorder_not_le)
  from prefix_range_snoc [OF this, of "butlast p" k] assms(1) show ?thesis
    by (simp add: in_prefix_range_def resolvePrefixRangeEnd_def)
qed

lemma normalizeBound_bound_value [simp]: "normalizeBound (bound_value b) = Inr b"
  by (simp add: normalizeBound_def bound_value_def split: option.splits)

lemma take_limit_None [simp]: "take_limit None c xs = xs"
  by (induction xs arbitrary: c) auto

lemma set_take_limit_subset: "set (take_limit lmt c xs) \<subseteq> set xs"
  by (induction xs arbitrary: c) auto

lemma take_limit_nat: "take_limit (Some (JFin (of_nat n))) c xs = take (n - c) xs"
proof (induction xs arbitrary: c)
  case (Cons x xs)
  show ?case
  proof (cases "n \<le> c")
    case True
    then show ?thesis by (simp add: limitReached_def)
  next
    case False
    then have "n - c = Suc (n - Suc c)" by simp
    with False Cons.IH [of "Suc c"] show ?thesis by (simp add: limitReached_def)
  qed
qed simp

lemma take_limit_map: "take_limit lmt c (map f xs) = map f (take_limit lmt c xs)"
  by (induction xs arbitrary: c) auto

section \<open>The interface locales\<close>

text \<open>
  What an adapter promises its clients: reads see the contents, writes and batches act on
  them as the abstract operations do, a batch over the cap is refused with the state
  unchanged, and a scan lists the matching keys in order. The clause on scans leaves the
  empty prefix out, on which adapters differ.
\<close>

locale storage_spec =
  fixes S :: "'s storage" and invar :: "'s \<Rightarrow> bool" and contents :: "'s \<Rightarrow> store"
  assumes get_spec: "invar s \<Longrightarrow> get_op S s k = Inr (contents s k)"
    and put_spec: "invar s \<Longrightarrow> put_op S s k v = (r, s') \<Longrightarrow>
          r = Inr () \<and> invar s' \<and> contents s' = (contents s)(k \<mapsto> v)"
    and delete_spec: "invar s \<Longrightarrow> delete_op S s k = (r, s') \<Longrightarrow>
          r = Inr () \<and> invar s' \<and> contents s' = (contents s)(k := None)"
    and batch_spec: "invar s \<Longrightarrow> length ops \<le> MAX_BATCH_OPERATIONS \<Longrightarrow> batch_op S s ops = (r, s') \<Longrightarrow>
          r = Inr () \<and> invar s' \<and> contents s' = apply_operations ops (contents s)"
    and batch_over: "length ops > MAX_BATCH_OPERATIONS \<Longrightarrow> batch_op S s ops =
          (Inl (StorageBatchOperationLimitExceeded BatchOperations (length ops)), s)"
    and scan_spec: "invar s \<Longrightarrow> p \<noteq> [] \<Longrightarrow>
          scan_op S s p opts = Inr (scan_entries (contents s) p opts)"
    and finite_contents: "invar s \<Longrightarrow> finite (dom (contents s))"
begin

lemma batch_ok:
  assumes "invar s" and "length ops \<le> MAX_BATCH_OPERATIONS"
  obtains s' where "batch_op S s ops = (Inr (), s')" and "invar s'"
    and "contents s' = apply_operations ops (contents s)"
  using batch_spec [OF assms] by (cases "batch_op S s ops") auto

lemma delete_keys_in_batches:
  assumes "invar s" and "length pending < MAX_BATCH_OPERATIONS"
  shows "\<exists>s'. deleteKeysInCappedBatches S s keys d (map Delete pending)
            = (Inr (d + length pending + length keys), s')
          \<and> invar s' \<and> contents s' = contents s |` (- (set pending \<union> set keys))"
  using assms
proof (induction keys arbitrary: s d pending)
  case Nil
  show ?case
  proof (cases "pending = []")
    case True
    with Nil.prems show ?thesis by (simp add: restrict_map_def fun_eq_iff)
  next
    case False
    have "length (map Delete pending) \<le> MAX_BATCH_OPERATIONS" using Nil.prems by simp
    then obtain s' where "batch_op S s (map Delete pending) = (Inr (), s')" "invar s'"
      "contents s' = apply_operations (map Delete pending) (contents s)"
      using batch_ok [OF Nil.prems(1)] by blast
    with False show ?thesis by (simp add: apply_deletes)
  qed
next
  case (Cons k keys)
  let ?ops = "map Delete (pending @ [k])"
  show ?case
  proof (cases "length ?ops \<ge> MAX_BATCH_OPERATIONS")
    case True
    have "length ?ops \<le> MAX_BATCH_OPERATIONS" using Cons.prems by simp
    then obtain s1 where s1: "batch_op S s ?ops = (Inr (), s1)" "invar s1"
      "contents s1 = apply_operations ?ops (contents s)"
      using batch_ok [OF Cons.prems(1)] by blast
    have "length ([]::jsstring list) < MAX_BATCH_OPERATIONS" by (simp add: MAX_BATCH_OPERATIONS_def)
    from Cons.IH [OF s1(2) this, of "d + length ?ops"] obtain s' where
      "deleteKeysInCappedBatches S s1 keys (d + length ?ops) [] = (Inr (d + length ?ops + length keys), s')"
      "invar s'" "contents s' = contents s1 |` (- set keys)"
      by auto
    with s1 True show ?thesis
      by (auto simp: Let_def apply_deletes restrict_map_def fun_eq_iff)
  next
    case False
    then have "length (pending @ [k]) < MAX_BATCH_OPERATIONS" by simp
    from Cons.IH [OF Cons.prems(1) this, of d] False show ?thesis
      by (auto simp: Let_def Un_commute insert_commute)
  qed
qed

lemma keys_core:
  assumes "invar s" and "p \<noteq> []"
  shows "storageKeysCore S s p opts = Inr (scan_keys (contents s) p opts)"
  using assms by (simp add: storageKeysCore_def scan_spec scan_entries_def comp_def)

text \<open>The derived deletes remove exactly the scanned keys, however many batches that takes.\<close>

lemma delete_range_core:
  assumes "invar s" and "p \<noteq> []"
  shows "\<exists>s'. storageDeleteRangeCore S s p opts
            = (Inr (length (scan_keys (contents s) p opts)), s')
          \<and> invar s' \<and> contents s' = contents s |` (- set (scan_keys (contents s) p opts))"
proof -
  have "length ([]::jsstring list) < MAX_BATCH_OPERATIONS" by (simp add: MAX_BATCH_OPERATIONS_def)
  from delete_keys_in_batches [OF assms(1) this, of "scan_keys (contents s) p opts" 0]
  show ?thesis by (simp add: storageDeleteRangeCore_def keys_core [OF assms])
qed

lemma delete_prefix_core:
  assumes "invar s" and "p \<noteq> []"
  shows "\<exists>s'. storageDeletePrefixCore S s p
            = (Inr (length (scan_keys (contents s) p default_scan_options)), s')
          \<and> invar s' \<and> contents s' = contents s |` (- {k. in_prefix_range p k})"
proof -
  have ks: "set (scan_keys (contents s) p default_scan_options)
      = {k \<in> dom (contents s). in_prefix_range p k}"
    using finite_contents [OF assms(1)]
    by (simp add: scan_keys_def default_scan_options_def matchesScanOptions_def)
  have "contents s |` (- {k \<in> dom (contents s). in_prefix_range p k})
      = contents s |` (- {k. in_prefix_range p k})"
    by (auto simp: restrict_map_def fun_eq_iff)
  with delete_range_core [OF assms, of default_scan_options] ks show ?thesis
    by (simp add: storageDeletePrefixCore_def storageDeleteRangeCore_def)
qed

end

text \<open>An adapter with compare-and-swap batches.\<close>

locale cas_storage_spec = storage_spec S invar contents
  for S :: "'s storage" and invar :: "'s \<Rightarrow> bool" and contents :: "'s \<Rightarrow> store" +
  fixes cb :: "'s \<Rightarrow> conditional_batch_condition list \<Rightarrow> batch_operation list \<Rightarrow> ('s, bool) storage_result"
  assumes cas_capability: "conditionalBatch (capabilities S)"
    and cas_method: "conditional_batch_op S = Some cb"
    and cas_spec: "invar s \<Longrightarrow> length conds \<le> MAX_BATCH_OPERATIONS \<Longrightarrow>
          length ops \<le> MAX_BATCH_OPERATIONS \<Longrightarrow> cb s conds ops = (r, s') \<Longrightarrow>
          (if conditions_hold conds (contents s)
           then r = Inr True \<and> invar s' \<and> contents s' = apply_operations ops (contents s)
           else r = Inr False \<and> s' = s)"
begin

lemma conditional_batch:
  assumes "invar s" and "length conds \<le> MAX_BATCH_OPERATIONS" and "length ops \<le> MAX_BATCH_OPERATIONS"
  shows "\<exists>s'. storageConditionalBatch S s conds ops = (Inr (conditions_hold conds (contents s)), s')
          \<and> invar s' \<and> (if conditions_hold conds (contents s)
               then contents s' = apply_operations ops (contents s) else s' = s)"
  using cas_spec [OF assms] assms cas_capability cas_method
  by (cases "cb s conds ops") (auto simp: storage_defs split: if_splits)

end

section \<open>Properties of ranges and range deletes\<close>

definition in_delete_bounds :: "delete_range_bound \<Rightarrow> delete_range_bound \<Rightarrow> jsstring \<Rightarrow> bool" where
  "in_delete_bounds lower upper k \<longleftrightarrow>
     (if bound_open lower then bound_key lower < k else bound_key lower \<le> k)
     \<and> (if bound_open upper then k < bound_key upper else k \<le> bound_key upper)"

lemma resolveLowerBound_iff:
  "(let b = resolveLowerBound p opts
    in if bound_open b then bound_key b < k else bound_key b \<le> k)
   \<longleftrightarrow> p \<le> k \<and> (\<forall>g. so_gte opts = Some g \<longrightarrow> g \<le> k) \<and> (\<forall>g. so_gt opts = Some g \<longrightarrow> g < k)"
  by (auto simp: resolveLowerBound_def Let_def split: option.splits)

lemma resolveUpperBound_iff:
  "(let b = resolveUpperBound p opts
    in if bound_open b then k < bound_key b else k \<le> bound_key b)
   \<longleftrightarrow> k < resolvePrefixRangeEnd p \<and> (\<forall>g. so_lt opts = Some g \<longrightarrow> k < g)
       \<and> (\<forall>g. so_lte opts = Some g \<longrightarrow> k \<le> g)"
  by (auto simp: resolveUpperBound_def Let_def split: option.splits)

lemma matchesScanOptions_iff:
  "matchesScanOptions k opts \<longleftrightarrow>
     (\<forall>g. so_gt opts = Some g \<longrightarrow> g < k) \<and> (\<forall>g. so_gte opts = Some g \<longrightarrow> g \<le> k)
     \<and> (\<forall>g. so_lt opts = Some g \<longrightarrow> k < g) \<and> (\<forall>g. so_lte opts = Some g \<longrightarrow> k \<le> g)"
  by (auto simp: matchesScanOptions_def not_le not_less split: option.splits)

lemma in_delete_bounds_iff:
  "in_delete_bounds (resolveLowerBound p opts) (resolveUpperBound p opts) k
   \<longleftrightarrow> in_prefix_range p k \<and> matchesScanOptions k opts"
  using resolveLowerBound_iff [of p opts k] resolveUpperBound_iff [of p opts k]
  by (auto simp: in_delete_bounds_def in_prefix_range_def matchesScanOptions_iff Let_def)

lemma empty_delete_bounds:
  "bound_key l > bound_key u \<or> (bound_key l = bound_key u \<and> (bound_open l \<or> bound_open u))
   \<Longrightarrow> \<not> in_delete_bounds l u k"
  by (auto simp: in_delete_bounds_def split: if_splits)

lemma normalized_options:
  assumes "normalizeDeleteRangeOptions opts = Inr n"
  shows "\<not> so_reverse n" and "so_limit n = None \<or> (\<exists>i. so_limit n = Some (JFin (of_nat i)))"
    and "so_gt n \<noteq> None \<or> so_gte n \<noteq> None \<or> so_lt n \<noteq> None \<or> so_lte n \<noteq> None"
proof -
  have lim: "l = None \<or> (\<exists>i. l = Some (JFin (of_nat i)))"
    if "normalizeDeleteRangeLimit v = Inr l" for v l
  proof -
    from that have "l = None \<or> (\<exists>r. l = Some (JFin r) \<and> of_int \<lfloor>r\<rfloor> = r \<and> 0 \<le> r)"
      by (auto simp: normalizeDeleteRangeLimit_def isInteger_def split: jsval.splits jsnum.splits if_splits)
    then show ?thesis
      by (metis of_int_of_nat_eq of_int_0_le_iff zero_le_imp_eq_int)
  qed
  show "\<not> so_reverse n" and "so_limit n = None \<or> (\<exists>i. so_limit n = Some (JFin (of_nat i)))"
    and "so_gt n \<noteq> None \<or> so_gte n \<noteq> None \<or> so_lt n \<noteq> None \<or> so_lte n \<noteq> None"
    using assms
    by (auto simp: normalizeDeleteRangeOptions_def dest: lim split: sum.splits if_splits)
qed

lemma normalize_as_delete_range:
  assumes "\<not> so_reverse n" and "so_limit n = None \<or> (\<exists>i. so_limit n = Some (JFin (of_nat i)))"
    and "so_gt n \<noteq> None \<or> so_gte n \<noteq> None \<or> so_lt n \<noteq> None \<or> so_lte n \<noteq> None"
  shows "normalizeDeleteRangeOptions (as_delete_range n) = Inr n"
proof -
  have "normalizeDeleteRangeLimit (case so_limit n of None \<Rightarrow> JUndefined | Some n \<Rightarrow> JNumber n) = Inr (so_limit n)"
    using assms(2) by (auto simp: normalizeDeleteRangeLimit_def isInteger_def)
  with assms(1,3) show ?thesis
    by (auto simp: normalizeDeleteRangeOptions_def as_delete_range_def)
qed

text \<open>
  The bounds a native adapter deletes between, computed by \<open>resolveDeleteRangeBounds\<close>
  from the prefix and the \<open>gt\<close>/\<open>gte\<close>/\<open>lt\<close>/\<open>lte\<close> options, contain a key exactly when a scan with
  these options would list it; \<open>null\<close> is returned only when no key can match.
\<close>

lemma resolveDeleteRangeBounds_exact:
  "(case resolveDeleteRangeBounds p opts of
      None \<Rightarrow> False
    | Some (lower, upper) \<Rightarrow> in_delete_bounds lower upper k)
   \<longleftrightarrow> in_prefix_range p k \<and> matchesScanOptions k opts"
  using in_delete_bounds_iff [of p opts k] empty_delete_bounds
  by (auto simp: resolveDeleteRangeBounds_def Let_def split: if_splits)

text \<open>
  Normalisation of range-delete options is idempotent: passing an already normalised
  object through \<open>normalizeDeleteRangeOptions\<close> again returns the same bounds and limit, never
  an unbounded or reversed delete.
\<close>

lemma normalizeDeleteRange_idempotent:
  assumes "normalizeDeleteRangeOptions opts = Inr n"
  shows "normalizeDeleteRangeOptions (as_delete_range n) = Inr n \<and> \<not> so_reverse n
     \<and> (so_gt n \<noteq> None \<or> so_gte n \<noteq> None \<or> so_lt n \<noteq> None \<or> so_lte n \<noteq> None)"
  using normalized_options [OF assms] normalize_as_delete_range by blast

text \<open>
  C31: \<open>resolvePrefixRangeEnd\<close> makes prefix scans exact for every non-empty prefix whose last
  code unit is below 0xFFFF, and only for those: for a prefix that ends in 0xFFFF the
  incremented code unit wraps to 0 and the range holds no key at all, and the range of the
  empty prefix leaves out every key that starts at or above U+00FF.
\<close>

lemma resolvePrefixRangeEnd_exact:
  "(p \<noteq> [] \<and> last p \<noteq> -1 \<longrightarrow> (\<forall>k. in_prefix_range p k \<longleftrightarrow> prefix p k))
   \<and> (p \<noteq> [] \<and> last p = -1 \<longrightarrow> (\<forall>k. \<not> in_prefix_range p k))
   \<and> (\<forall>k. in_prefix_range [] k \<longleftrightarrow> k < [255])"
proof (intro conjI impI allI)
  fix k
  assume "p \<noteq> [] \<and> last p = -1"
  then have "resolvePrefixRangeEnd p = butlast p @ [0]" and "p = butlast p @ [-1]"
    by (simp_all add: resolvePrefixRangeEnd_def) (metis append_butlast_last_id)
  moreover have "q @ [0] < q @ [-1 :: 16 word]" for q
    by (induction q) (auto simp: word_neq_0_conv [symmetric])
  ultimately have "resolvePrefixRangeEnd p < p" by metis
  then show "\<not> in_prefix_range p k" by (auto simp: in_prefix_range_def)
next
  fix k
  show "in_prefix_range [] k \<longleftrightarrow> k < [255]"
    by (simp add: in_prefix_range_def resolvePrefixRangeEnd_def)
qed (auto simp: in_prefix_range_iff)

end
