(* ===== verification/Memory_Storage.thy ===== *)
theory Memory_Storage
  imports Storage_Interface
begin

text \<open>
  \<open>src/src/storage/memory.ts\<close>: the in-memory adapter over a JavaScript \<open>Map\<close>, every method
  of the class, and its storage object \<open>memoryStorage\<close>. The interpretations at the end
  discharge the contract of \<open>Storage_Interface\<close> for it.
\<close>

section \<open>State and operations\<close>

record memory_storage =
  mem_data :: "(jsstring \<times> bytes) list"

definition newMemoryStorage :: memory_storage where
  "newMemoryStorage = \<lparr>mem_data = []\<rparr>"

definition memory_capabilities :: storage_capabilities where
  "memory_capabilities =
     \<lparr>persistence = Ephemeral, readAfterWrite = Linearizable, scanConsistency = SnapshotScan,
      atomicBatch = True, conditionalBatch = True, boundedRangeDelete = True\<rparr>"

definition memory_matchesPrefix :: "jsstring \<Rightarrow> jsstring \<Rightarrow> jsstring \<Rightarrow> bool" where
  "memory_matchesPrefix key pfx prefixEnd \<longleftrightarrow> key \<ge> pfx \<and> key < prefixEnd"

definition memory_collectSortedKeys :: "memory_storage \<Rightarrow> jsstring \<Rightarrow> jsstring \<Rightarrow> jsstring list" where
  "memory_collectSortedKeys m pfx prefixEnd =
     sort (filter (\<lambda>key. memory_matchesPrefix key pfx prefixEnd) (map fst (mem_data m)))"

definition memory_get :: "memory_storage \<Rightarrow> jsstring \<Rightarrow> storage_error + bytes option" where
  "memory_get m key = Inr (map_of (mem_data m) key)"

definition memory_put :: "memory_storage \<Rightarrow> jsstring \<Rightarrow> bytes \<Rightarrow> (memory_storage, unit) storage_result" where
  "memory_put m key v = (Inr (), m\<lparr>mem_data := AList.update key v (mem_data m)\<rparr>)"

definition memory_delete :: "memory_storage \<Rightarrow> jsstring \<Rightarrow> (memory_storage, unit) storage_result" where
  "memory_delete m key = (Inr (), m\<lparr>mem_data := AList.delete key (mem_data m)\<rparr>)"

text \<open>
  \<open>scan\<close> is a generator: it fixes the keys when it starts and reads each value when it comes to
  its key. \<open>ms i\<close> is the store when key number \<open>i\<close> is visited, and \<open>memory_scan\<close> the run during
  which nobody writes: the point-in-time view the storage contract promises.
\<close>

fun memory_scan_loop ::
    "(nat \<Rightarrow> memory_storage) \<Rightarrow> jsnum option \<Rightarrow> nat \<Rightarrow> nat \<Rightarrow> jsstring list \<Rightarrow> (jsstring \<times> bytes) list" where
  "memory_scan_loop ms lmt c i [] = []"
| "memory_scan_loop ms lmt c i (key # keys) =
     (if (case lmt of None \<Rightarrow> False | Some n \<Rightarrow> limitReached c n) then []
      else (case map_of (mem_data (ms i)) key of
              Some v \<Rightarrow> (key, v) # memory_scan_loop ms lmt (Suc c) (Suc i) keys
            | None \<Rightarrow> memory_scan_loop ms lmt c (Suc i) keys))"

definition memory_scan_during ::
    "(nat \<Rightarrow> memory_storage) \<Rightarrow> jsstring \<Rightarrow> scan_options \<Rightarrow> (jsstring \<times> bytes) list" where
  "memory_scan_during ms pfx options =
     (let prefixEnd = resolvePrefixRangeEnd pfx;
          keys = memory_collectSortedKeys (ms 0) pfx prefixEnd;
          keys1 = filter (\<lambda>key. matchesScanOptions key options) keys;
          keys2 = (if so_reverse options then rev keys1 else keys1)
      in memory_scan_loop ms (so_limit options) 0 0 keys2)"

definition memory_scan :: "memory_storage \<Rightarrow> jsstring \<Rightarrow> scan_options \<Rightarrow> storage_error + (jsstring \<times> bytes) list" where
  "memory_scan m pfx options = Inr (memory_scan_during (\<lambda>_. m) pfx options)"

fun memory_applyBatchOperations :: "memory_storage \<Rightarrow> batch_operation list \<Rightarrow> memory_storage" where
  "memory_applyBatchOperations m [] = m"
| "memory_applyBatchOperations m (Put k v # ops) =
     memory_applyBatchOperations (m\<lparr>mem_data := AList.update k v (mem_data m)\<rparr>) ops"
| "memory_applyBatchOperations m (Delete k # ops) =
     memory_applyBatchOperations (m\<lparr>mem_data := AList.delete k (mem_data m)\<rparr>) ops"

definition memory_batch :: "memory_storage \<Rightarrow> batch_operation list \<Rightarrow> (memory_storage, unit) storage_result" where
  "memory_batch m operations =
     (case assertStorageBatchOperationCount BatchOperations (length operations) of
        Some e \<Rightarrow> (Inl e, m)
      | None \<Rightarrow> (Inr (), memory_applyBatchOperations m operations))"

fun memory_checkConditions :: "memory_storage \<Rightarrow> conditional_batch_condition list \<Rightarrow> bool" where
  "memory_checkConditions m [] = True"
| "memory_checkConditions m (c # cs) =
     (if \<not> storageValuesEqual (map_of (mem_data m) (cond_key c)) (expectedValue c) then False
      else memory_checkConditions m cs)"

definition memory_conditionalBatch ::
    "memory_storage \<Rightarrow> conditional_batch_condition list \<Rightarrow> batch_operation list
     \<Rightarrow> (memory_storage, bool) storage_result" where
  "memory_conditionalBatch m conditions operations =
     (case assertStorageBatchOperationCount ConditionalBatchConditions (length conditions) of
        Some e \<Rightarrow> (Inl e, m)
      | None \<Rightarrow>
     (case assertStorageBatchOperationCount ConditionalBatchOperations (length operations) of
        Some e \<Rightarrow> (Inl e, m)
      | None \<Rightarrow>
          if memory_checkConditions m conditions
          then (Inr True, memory_applyBatchOperations m operations)
          else (Inr False, m)))"

definition memory_has :: "memory_storage \<Rightarrow> jsstring \<Rightarrow> storage_error + bool" where
  "memory_has m key = Inr (key \<in> set (map fst (mem_data m)))"

fun memory_deleteKeys :: "memory_storage \<Rightarrow> jsstring list \<Rightarrow> memory_storage" where
  "memory_deleteKeys m [] = m"
| "memory_deleteKeys m (key # keys) =
     memory_deleteKeys (m\<lparr>mem_data := AList.delete key (mem_data m)\<rparr>) keys"

definition memory_deletePrefix :: "memory_storage \<Rightarrow> jsstring \<Rightarrow> (memory_storage, nat) storage_result" where
  "memory_deletePrefix m pfx =
     (let prefixEnd = resolvePrefixRangeEnd pfx;
          keys = memory_collectSortedKeys m pfx prefixEnd
      in (Inr (length keys), memory_deleteKeys m keys))"

definition memory_deleteRange ::
    "memory_storage \<Rightarrow> jsstring \<Rightarrow> delete_range_options \<Rightarrow> (memory_storage, nat) storage_result" where
  "memory_deleteRange m pfx options =
     (case normalizeDeleteRangeOptions options of
        Inl e \<Rightarrow> (Inl e, m)
      | Inr normalized \<Rightarrow>
          let prefixEnd = resolvePrefixRangeEnd pfx;
              keys = filter (\<lambda>key. matchesScanOptions key normalized)
                       (memory_collectSortedKeys m pfx prefixEnd);
              bounded = (case so_limit normalized of
                           Some (JFin r) \<Rightarrow> take (nat \<lfloor>r\<rfloor>) keys
                         | _ \<Rightarrow> keys)
          in (Inr (length bounded), memory_deleteKeys m bounded))"

fun memory_keys_loop :: "jsnum option \<Rightarrow> nat \<Rightarrow> jsstring list \<Rightarrow> jsstring list" where
  "memory_keys_loop lmt c [] = []"
| "memory_keys_loop lmt c (key # keys) =
     (if (case lmt of None \<Rightarrow> False | Some n \<Rightarrow> limitReached c n) then []
      else key # memory_keys_loop lmt (Suc c) keys)"

definition memory_keys :: "memory_storage \<Rightarrow> jsstring \<Rightarrow> scan_options \<Rightarrow> storage_error + jsstring list" where
  "memory_keys m pfx options =
     (let prefixEnd = resolvePrefixRangeEnd pfx;
          keys = memory_collectSortedKeys m pfx prefixEnd;
          keys1 = filter (\<lambda>key. matchesScanOptions key options) keys;
          keys2 = (if so_reverse options then rev keys1 else keys1)
      in Inr (memory_keys_loop (so_limit options) 0 keys2))"

definition memory_count :: "memory_storage \<Rightarrow> jsstring \<Rightarrow> storage_error + nat" where
  "memory_count m pfx = Inr (length (memory_collectSortedKeys m pfx (resolvePrefixRangeEnd pfx)))"

definition memory_size :: "memory_storage \<Rightarrow> nat" where
  "memory_size m = length (mem_data m)"

definition memory_clear :: "memory_storage \<Rightarrow> memory_storage" where
  "memory_clear m = m\<lparr>mem_data := []\<rparr>"

definition memory_snapshot :: "memory_storage \<Rightarrow> (jsstring \<times> bytes) list" where
  "memory_snapshot m = fold (\<lambda>(k, v) copy. AList.update k v copy) (mem_data m) []"

definition memoryStorage :: "memory_storage storage" where
  "memoryStorage =
     \<lparr>capabilities = memory_capabilities, get_op = memory_get, put_op = memory_put,
      delete_op = memory_delete, scan_op = memory_scan, batch_op = memory_batch,
      conditional_batch_op = Some memory_conditionalBatch, has_op = Some memory_has,
      delete_prefix_op = Some memory_deletePrefix, delete_range_op = Some memory_deleteRange,
      keys_op = Some memory_keys, count_op = Some memory_count\<rparr>"

section \<open>Invariant and abstraction\<close>

definition memory_invar :: "memory_storage \<Rightarrow> bool" where
  "memory_invar m \<longleftrightarrow> distinct (map fst (mem_data m))"

definition memory_contents :: "memory_storage \<Rightarrow> store" where
  "memory_contents m = map_of (mem_data m)"

lemma memory_invar_new [simp, inv_intros]: "memory_invar newMemoryStorage"
  by (simp add: memory_invar_def newMemoryStorage_def)

lemma memory_contents_new [simp]: "memory_contents newMemoryStorage = Map.empty"
  by (simp add: memory_contents_def newMemoryStorage_def)

lemma memory_apply:
  "memory_contents (memory_applyBatchOperations m ops) = apply_operations ops (memory_contents m)"
  "memory_invar m \<Longrightarrow> memory_invar (memory_applyBatchOperations m ops)"
  by (induction m ops rule: memory_applyBatchOperations.induct)
    (auto simp: memory_contents_def memory_invar_def)

lemma memory_checkConditions_iff:
  "memory_checkConditions m cs \<longleftrightarrow> conditions_hold cs (memory_contents m)"
  by (induction m cs rule: memory_checkConditions.induct)
    (auto simp: conditions_hold_def memory_contents_def)

lemma memory_deleteKeys_spec:
  "memory_contents (memory_deleteKeys m ks) = memory_contents m |` (- set ks)"
  "memory_invar m \<Longrightarrow> memory_invar (memory_deleteKeys m ks)"
  by (induction m ks rule: memory_deleteKeys.induct)
    (auto simp: memory_contents_def memory_invar_def restrict_map_def fun_eq_iff)

lemma collectSortedKeys_eq:
  assumes "memory_invar m"
  shows "memory_collectSortedKeys m p (resolvePrefixRangeEnd p)
           = sorted_list_of_set {k \<in> dom (memory_contents m). in_prefix_range p k}"
proof -
  let ?ks = "filter (\<lambda>key. memory_matchesPrefix key p (resolvePrefixRangeEnd p)) (map fst (mem_data m))"
  have "set ?ks = {k \<in> dom (memory_contents m). in_prefix_range p k}"
    by (auto simp: memory_contents_def dom_map_of_conv_image_fst memory_matchesPrefix_def
        in_prefix_range_def)
  moreover have "distinct ?ks"
    using assms by (simp add: memory_invar_def)
  then have "sort ?ks = sorted_list_of_set (set ?ks)"
    by (simp only: sorted_list_of_set_sort_remdups distinct_remdups_id)
  ultimately show ?thesis
    by (simp only: memory_collectSortedKeys_def)
qed

lemma filter_sorted_list_of_set:
  assumes "finite A"
  shows "filter P (sorted_list_of_set A) = sorted_list_of_set {x \<in> A. P x}"
proof -
  let ?xs = "filter P (sorted_list_of_set A)"
  have "sorted_list_of_set (set ?xs) = ?xs"
    by (rule sorted_list_of_set.idem_if_sorted_distinct) (simp_all add: sorted_wrt_filter)
  moreover have "set ?xs = {x \<in> A. P x}" using assms by auto
  ultimately show ?thesis by simp
qed

lemma memory_keys_loop_eq: "memory_keys_loop lmt c ks = take_limit lmt c ks"
  by (induction lmt c ks rule: memory_keys_loop.induct) auto

lemma memory_scan_loop_eq:
  assumes "set ks \<subseteq> dom m" and "\<And>i k. k \<in> set ks \<Longrightarrow> memory_contents (ms i) k = m k"
  shows "memory_scan_loop ms lmt c i ks = map (\<lambda>k. (k, the (m k))) (take_limit lmt c ks)"
  using assms
proof (induction ms lmt c i ks rule: memory_scan_loop.induct)
  case (2 ms lmt c i key keys)
  have "map_of (mem_data (ms i)) key = m key" using 2(4) [of key i] by (simp add: memory_contents_def)
  moreover have "set keys \<subseteq> dom m" "\<And>i k. k \<in> set keys \<Longrightarrow> memory_contents (ms i) k = m k" using 2(3,4) by auto
  moreover have "key \<in> dom m" using 2(3) by simp
  ultimately show ?case using 2(1,2) by (auto split: option.splits)
qed simp

lemma memory_scan_loop_late:
  "memory_scan_loop ms None c i ks
     = List.map_filter (\<lambda>(j, k). map_option (Pair k) (memory_contents (ms j) k)) (List.enumerate i ks)"
  by (induction ks arbitrary: c i) (auto simp: map_filter_simps memory_contents_def split: option.splits)

lemma memory_finite [simp]: "finite (dom (memory_contents m))"
  by (simp add: memory_contents_def finite_dom_map_of)

lemma memory_selected_keys:
  assumes "memory_invar m"
  shows "filter (\<lambda>key. matchesScanOptions key opts)
           (memory_collectSortedKeys m p (resolvePrefixRangeEnd p))
         = sorted_list_of_set
             {k \<in> dom (memory_contents m). in_prefix_range p k \<and> matchesScanOptions k opts}"
  by (simp add: collectSortedKeys_eq [OF assms] filter_sorted_list_of_set conj_assoc)

lemma memory_keys_eq:
  "memory_invar m \<Longrightarrow> memory_keys m p opts = Inr (scan_keys (memory_contents m) p opts)"
  by (simp add: memory_keys_def Let_def memory_keys_loop_eq memory_selected_keys scan_keys_def)

lemma memory_scan_during_keys:
  assumes "memory_invar (ms 0)" and "so_limit opts = None"
  shows "memory_scan_during ms p opts
    = memory_scan_loop ms None 0 0 (scan_keys (memory_contents (ms 0)) p opts)"
  using assms by (simp add: memory_scan_during_def Let_def memory_selected_keys scan_keys_def)

text \<open>
  As long as nobody changes the entries in the range of a scan while it runs, reading them one
  at a time makes no difference.
\<close>

lemma memory_scan_stable:
  assumes "memory_invar (ms 0)"
    and "\<And>i k. k \<in> dom (memory_contents (ms 0)) \<Longrightarrow> in_prefix_range p k \<Longrightarrow>
           memory_contents (ms i) k = memory_contents (ms 0) k"
  shows "memory_scan_during ms p opts = scan_entries (memory_contents (ms 0)) p opts"
proof -
  let ?ks = "sorted_list_of_set
    {k \<in> dom (memory_contents (ms 0)). in_prefix_range p k \<and> matchesScanOptions k opts}"
  have "memory_scan_loop ms (so_limit opts) 0 0 ks
      = map (\<lambda>k. (k, the (memory_contents (ms 0) k))) (take_limit (so_limit opts) 0 ks)"
    if ks: "set ks = set ?ks" for ks
  proof (rule memory_scan_loop_eq)
    show "set ks \<subseteq> dom (memory_contents (ms 0))" using ks by auto
    show "memory_contents (ms i) k = memory_contents (ms 0) k" if "k \<in> set ks" for i k
      by (rule assms(2)) (use that ks in auto)
  qed
  from this [of ?ks] this [of "rev ?ks"] assms(1) show ?thesis
    by (cases "so_reverse opts")
      (simp_all add: memory_scan_during_def Let_def memory_selected_keys scan_entries_def scan_keys_def)
qed

lemma memory_scan_eq:
  assumes "memory_invar m"
  shows "memory_scan m p opts = Inr (scan_entries (memory_contents m) p opts)"
  unfolding memory_scan_def by (rule arg_cong [where f = Inr], rule memory_scan_stable) (rule assms, rule refl)

section \<open>The contract holds\<close>

interpretation mem: storage_spec memoryStorage memory_invar memory_contents
proof (unfold_locales, goal_cases)
  case (1 s k)
  then show ?case by (simp add: memoryStorage_def memory_get_def memory_contents_def)
next
  case (2 s k v r s')
  then show ?case
    by (auto simp: memoryStorage_def memory_put_def memory_contents_def memory_invar_def)
next
  case (3 s k r s')
  then show ?case
    by (auto simp: memoryStorage_def memory_delete_def memory_contents_def memory_invar_def)
next
  case (4 s ops r s')
  then show ?case
    by (auto simp: memoryStorage_def memory_batch_def assertStorageBatchOperationCount_def memory_apply)
next
  case (5 ops s)
  then show ?case
    by (simp add: memoryStorage_def memory_batch_def assertStorageBatchOperationCount_def)
next
  case (6 s p opts)
  then show ?case by (simp add: memoryStorage_def memory_scan_eq)
next
  case (7 s)
  then show ?case by simp
qed

interpretation mem_cas: cas_storage_spec memoryStorage memory_invar memory_contents memory_conditionalBatch
proof (unfold_locales, goal_cases)
  case 1
  show ?case by (simp add: memoryStorage_def memory_capabilities_def)
next
  case 2
  show ?case by (simp add: memoryStorage_def)
next
  case (3 s conds ops r s')
  then show ?case
    by (auto simp: memory_conditionalBatch_def assertStorageBatchOperationCount_def
        memory_checkConditions_iff memory_apply split: if_splits)
qed

section \<open>Properties\<close>

text \<open>
  C9: a conditional batch on the in-memory store is an atomic compare-and-swap: it reports
  whether every condition held at the instant of the call, and either applies every
  operation in order or leaves the store as it was.
\<close>

theorem memory_conditional_batch_atomic:
  assumes "memory_invar m" and "length conds \<le> MAX_BATCH_OPERATIONS"
    and "length ops \<le> MAX_BATCH_OPERATIONS"
  shows "\<exists>m'. storageConditionalBatch memoryStorage m conds ops
              = (Inr (conditions_hold conds (memory_contents m)), m')
          \<and> memory_invar m'
          \<and> (if conditions_hold conds (memory_contents m)
             then memory_contents m' = apply_operations ops (memory_contents m) else m' = m)"
  by (rule mem_cas.conditional_batch [OF assms])

theorem memory_conditional_batch_atomic_witness:
  "\<exists>m'. storageConditionalBatch memoryStorage newMemoryStorage
      [\<lparr>cond_key = [107], expectedValue = None\<rparr>] [Put [107] [1]] = (Inr True, m')
    \<and> memory_contents m' [107] = Some [1]"
proof -
  have "memory_invar newMemoryStorage"
    and "length [\<lparr>cond_key = [107], expectedValue = None\<rparr>] \<le> MAX_BATCH_OPERATIONS"
    and "length [Put [107] [1]] \<le> MAX_BATCH_OPERATIONS"
    by (simp_all add: MAX_BATCH_OPERATIONS_def)
  from memory_conditional_batch_atomic [OF this] show ?thesis
    by (auto simp: conditions_hold_def)
qed

text \<open>
  A forward scan without limit lists every stored entry under the prefix that satisfies
  the bounds, each exactly once, in strictly ascending key order.
\<close>

lemma memory_scan_prefix_sorted:
  assumes "memory_invar m" and "p \<noteq> []" and "last p \<noteq> -1"
    and "so_limit opts = None" and "\<not> so_reverse opts"
  shows "\<exists>es. memory_scan m p opts = Inr es \<and> sorted_wrt (<) (map fst es)
     \<and> set es = {(k, v). memory_contents m k = Some v \<and> prefix p k \<and> matchesScanOptions k opts}"
proof -
  let ?A = "{k \<in> dom (memory_contents m). prefix p k \<and> matchesScanOptions k opts}"
  have keys: "scan_keys (memory_contents m) p opts = sorted_list_of_set ?A"
    using assms by (simp add: scan_keys_def in_prefix_range_iff)
  have "memory_scan m p opts = Inr (map (\<lambda>k. (k, the (memory_contents m k))) (sorted_list_of_set ?A))"
    using assms(1) by (simp add: memory_scan_eq scan_entries_def keys)
  moreover have "finite ?A" by simp
  ultimately show ?thesis
    by (auto simp: comp_def strict_sorted_iff image_iff)
qed

text \<open>
  A scan of the in-memory store is not the snapshot its capabilities declare. Whatever is
  written while it runs, a scan without limit yields, for the keys that were in its range when it
  started and in their order, the value each has when the scan comes to it: an entry deleted
  meanwhile is skipped, one overwritten meanwhile comes with its new value, one inserted
  meanwhile is not seen.
\<close>

lemma memory_scan_reads_late:
  assumes "memory_invar (ms 0)" and "so_limit opts = None"
  shows "memory_scan_during ms p opts
    = List.map_filter (\<lambda>(i, k). map_option (Pair k) (memory_contents (ms i) k))
        (List.enumerate 0 (scan_keys (memory_contents (ms 0)) p opts))"
  unfolding memory_scan_during_keys [where ms = ms, OF assms] by (rule memory_scan_loop_late)

text \<open>
  C32: the adapter's native \<open>deleteRange\<close> and the generic fallback that scans and deletes in
  capped batches remove the same keys and report the same count, for every accepted option
  object (with a limit, the lowest keys in range).
\<close>

theorem memory_deleteRange_equals_fallback:
  assumes "memory_invar m" and "p \<noteq> []" and "normalizeDeleteRangeOptions opts = Inr n"
  shows "\<exists>c m1 m2. memory_deleteRange m p opts = (Inr c, m1)
     \<and> storageDeleteRangeCore memoryStorage m p n = (Inr c, m2)
     \<and> memory_contents m1 = memory_contents m2 \<and> memory_invar m1 \<and> memory_invar m2"
proof -
  let ?sel = "sorted_list_of_set
     {k \<in> dom (memory_contents m). in_prefix_range p k \<and> matchesScanOptions k n}"
  define ks where "ks = (case so_limit n of Some (JFin r) \<Rightarrow> take (nat \<lfloor>r\<rfloor>) ?sel | _ \<Rightarrow> ?sel)"
  have ks: "scan_keys (memory_contents m) p n = ks"
    using normalized_options [OF assms(3)] by (auto simp: scan_keys_def ks_def take_limit_nat)
  have native: "memory_deleteRange m p opts = (Inr (length ks), memory_deleteKeys m ks)"
    by (simp add: memory_deleteRange_def assms(3) Let_def memory_selected_keys [OF assms(1)] ks_def
        split: option.split jsnum.split)
  from mem.delete_range_core [OF assms(1,2), of n] obtain m2 where
    "storageDeleteRangeCore memoryStorage m p n = (Inr (length ks), m2)"
    "memory_invar m2" "memory_contents m2 = memory_contents m |` (- set ks)"
    unfolding ks by blast
  with native memory_deleteKeys_spec [of m ks] assms(1) show ?thesis by simp
qed

theorem memory_deleteRange_equals_fallback_witness:
  "\<exists>c m1 m2. memory_deleteRange \<lparr>mem_data = [([119, 98], [2]), ([119, 97], [1])]\<rparr> [119]
       \<lparr>dr_gt = JUndefined, dr_gte = JUndefined, dr_lt = JString [119, 98], dr_lte = JUndefined,
        dr_limit = JUndefined\<rparr> = (Inr c, m1)
     \<and> storageDeleteRangeCore memoryStorage \<lparr>mem_data = [([119, 98], [2]), ([119, 97], [1])]\<rparr> [119]
         \<lparr>so_limit = None, so_reverse = False, so_gt = None, so_lt = Some [119, 98], so_gte = None,
          so_lte = None\<rparr> = (Inr c, m2)
     \<and> memory_contents m1 = memory_contents m2"
proof -
  let ?m = "\<lparr>mem_data = [([119, 98], [2]), ([119, 97], [1])]\<rparr>"
  have "memory_invar ?m" "[119::16 word] \<noteq> []" by (simp_all add: memory_invar_def)
  moreover have "normalizeDeleteRangeOptions
      \<lparr>dr_gt = JUndefined, dr_gte = JUndefined, dr_lt = JString [119, 98], dr_lte = JUndefined,
       dr_limit = JUndefined\<rparr>
    = Inr \<lparr>so_limit = None, so_reverse = False, so_gt = None, so_lt = Some [119, 98], so_gte = None,
       so_lte = None\<rparr>"
    by (simp add: normalizeDeleteRangeOptions_def normalizeBound_def normalizeDeleteRangeLimit_def)
  ultimately show ?thesis using memory_deleteRange_equals_fallback by metis
qed

end
