(* ===== verification/Scoped_Storage.thy ===== *)
theory Scoped_Storage
  imports Memory_Storage
begin

text \<open>
  \<open>src/src/storage/scoped-storage.ts\<close>: the decorator that prefixes every key with a scope.
  The state of a scoped storage is the state of the storage it wraps. The lemmas show that
  the decorator preserves the storage contract, so every client proved against the contract
  works inside a scope, and that sibling scopes do not see each other.
\<close>

section \<open>Definitions\<close>

definition colon :: "16 word" where
  "colon = 58"

definition normalizeScopePrefix :: "jsstring \<Rightarrow> jsstring" where
  "normalizeScopePrefix p = rev (dropWhile (\<lambda>c. c = colon) (rev p))"

definition joinScopePrefixes :: "jsstring \<Rightarrow> jsstring \<Rightarrow> jsstring" where
  "joinScopePrefixes leftPrefix rightPrefix =
     (let l = normalizeScopePrefix leftPrefix; r = normalizeScopePrefix rightPrefix
      in if length l = 0 then r else if length r = 0 then l else l @ [colon] @ r)"

definition toInnerKey :: "jsstring \<Rightarrow> jsstring \<Rightarrow> jsstring" where
  "toInnerKey sp key =
     (if length sp = 0 then key
      else if length key = 0 then sp @ [colon] else sp @ [colon] @ key)"

definition toInnerOperations :: "jsstring \<Rightarrow> batch_operation list \<Rightarrow> batch_operation list" where
  "toInnerOperations sp operations =
     map (\<lambda>operation. case operation of
            Put k v \<Rightarrow> Put (toInnerKey sp k) v
          | Delete k \<Rightarrow> Delete (toInnerKey sp k)) operations"

definition toPublicKey :: "jsstring \<Rightarrow> jsstring \<Rightarrow> jsstring" where
  "toPublicKey sp key = (if length sp = 0 then key else drop (length sp + 1) key)"

definition toInnerOptions :: "jsstring \<Rightarrow> scan_options \<Rightarrow> scan_options" where
  "toInnerOptions sp options =
     \<lparr>so_limit = so_limit options, so_reverse = so_reverse options,
      so_gt = map_option (toInnerKey sp) (so_gt options),
      so_lt = map_option (toInnerKey sp) (so_lt options),
      so_gte = map_option (toInnerKey sp) (so_gte options),
      so_lte = map_option (toInnerKey sp) (so_lte options)\<rparr>"

definition toInnerConditions ::
    "jsstring \<Rightarrow> conditional_batch_condition list \<Rightarrow> conditional_batch_condition list" where
  "toInnerConditions sp conditions =
     map (\<lambda>c. \<lparr>cond_key = toInnerKey sp (cond_key c), expectedValue = expectedValue c\<rparr>) conditions"

definition scoped_batch ::
    "'s storage \<Rightarrow> jsstring \<Rightarrow> 's \<Rightarrow> batch_operation list \<Rightarrow> ('s, unit) storage_result" where
  "scoped_batch S sp s operations =
     (case assertStorageBatchOperationCount BatchOperations (length operations) of
        Some e \<Rightarrow> (Inl e, s)
      | None \<Rightarrow> batch_op S s (toInnerOperations sp operations))"

definition scoped_conditionalBatch ::
    "'s storage \<Rightarrow> jsstring \<Rightarrow> 's \<Rightarrow> conditional_batch_condition list \<Rightarrow> batch_operation list
     \<Rightarrow> ('s, bool) storage_result" where
  "scoped_conditionalBatch S sp s conditions operations =
     storageConditionalBatch S s (toInnerConditions sp conditions) (toInnerOperations sp operations)"

definition scoped_scan ::
    "'s storage \<Rightarrow> jsstring \<Rightarrow> 's \<Rightarrow> jsstring \<Rightarrow> scan_options \<Rightarrow> storage_error + (jsstring \<times> bytes) list" where
  "scoped_scan S sp s pfx options =
     map_sum id (map (\<lambda>(key, v). (toPublicKey sp key, v)))
       (scan_op S s (toInnerKey sp pfx) (toInnerOptions sp options))"

definition scoped_deleteRange ::
    "'s storage \<Rightarrow> jsstring \<Rightarrow> 's \<Rightarrow> jsstring \<Rightarrow> delete_range_options \<Rightarrow> ('s, nat) storage_result" where
  "scoped_deleteRange S sp s pfx options =
     (case normalizeDeleteRangeOptions options of
        Inl e \<Rightarrow> (Inl e, s)
      | Inr normalized \<Rightarrow>
          storageDeleteRange S s (toInnerKey sp pfx)
            (as_delete_range (toInnerOptions sp normalized)))"

definition scoped_keys ::
    "'s storage \<Rightarrow> jsstring \<Rightarrow> 's \<Rightarrow> jsstring \<Rightarrow> scan_options \<Rightarrow> storage_error + jsstring list" where
  "scoped_keys S sp s pfx options =
     map_sum id (map (toPublicKey sp))
       (storageKeys S s (toInnerKey sp pfx) (toInnerOptions sp options))"

text \<open>The storage object of \<open>new ScopedStorage(storage, prefix)\<close>.\<close>

definition scopedStorage :: "'s storage \<Rightarrow> jsstring \<Rightarrow> 's storage" where
  "scopedStorage S pfx =
     (let sp = normalizeScopePrefix pfx in
      \<lparr>capabilities = capabilities S,
       get_op = (\<lambda>s key. get_op S s (toInnerKey sp key)),
       put_op = (\<lambda>s key v. put_op S s (toInnerKey sp key) v),
       delete_op = (\<lambda>s key. delete_op S s (toInnerKey sp key)),
       scan_op = scoped_scan S sp,
       batch_op = scoped_batch S sp,
       conditional_batch_op = Some (scoped_conditionalBatch S sp),
       has_op = Some (\<lambda>s key. storageHas S s (toInnerKey sp key)),
       delete_prefix_op = Some (\<lambda>s p. storageDeletePrefix S s (toInnerKey sp p)),
       delete_range_op = Some (scoped_deleteRange S sp),
       keys_op = Some (scoped_keys S sp),
       count_op = Some (\<lambda>s p. storageCount S s (toInnerKey sp p))\<rparr>)"

text \<open>\<open>ScopedStorage.scoped\<close>: a scope within a scope of the same raw storage.\<close>

definition scoped_scoped :: "'s storage \<Rightarrow> jsstring \<Rightarrow> jsstring \<Rightarrow> 's storage" where
  "scoped_scoped S sp pfx = scopedStorage S (joinScopePrefixes sp pfx)"

section \<open>Key translation\<close>

definition scope_root :: "jsstring \<Rightarrow> jsstring" where
  "scope_root sp = (if sp = [] then [] else sp @ [colon])"

lemma toInnerKey_eq: "toInnerKey sp k = scope_root sp @ k"
  by (simp add: toInnerKey_def scope_root_def)

lemma toPublicKey_inner [simp]: "toPublicKey sp (scope_root sp @ k) = k"
  by (simp add: toPublicKey_def scope_root_def)

lemma append_le_iff [simp]: "(q @ a \<le> q @ (b :: jsstring)) \<longleftrightarrow> a \<le> b"
  by (induction q) auto

lemma append_less_iff [simp]: "(q @ a < q @ (b :: jsstring)) \<longleftrightarrow> a < b"
  by (induction q) auto

lemma prefix_between:
  "q @ a \<le> k \<Longrightarrow> k < q @ b \<Longrightarrow> \<exists>r. k = q @ (r :: jsstring)"
proof (induction q arbitrary: k)
  case (Cons d q)
  then obtain x xs where k: "k = x # xs" by (cases k) auto
  with Cons.prems have "x = d" and "q @ a \<le> xs" and "xs < q @ b" by auto
  with Cons.IH k show ?case by auto
qed simp

lemma rangeEnd_append: "p \<noteq> [] \<Longrightarrow> resolvePrefixRangeEnd (q @ p) = q @ resolvePrefixRangeEnd p"
  by (simp add: resolvePrefixRangeEnd_def butlast_append)

lemma in_range_append:
  "p \<noteq> [] \<Longrightarrow> in_prefix_range (q @ p) (q @ k) \<longleftrightarrow> in_prefix_range p k"
  by (simp add: in_prefix_range_def rangeEnd_append)

lemma in_range_inner:
  "p \<noteq> [] \<Longrightarrow> in_prefix_range (q @ p) k \<Longrightarrow> \<exists>r. k = q @ r"
  by (auto simp: in_prefix_range_def rangeEnd_append dest: prefix_between)

lemma matches_inner:
  "matchesScanOptions (scope_root sp @ k) (toInnerOptions sp opts) \<longleftrightarrow> matchesScanOptions k opts"
  by (auto simp: matchesScanOptions_iff toInnerOptions_def toInnerKey_eq)

lemma toInnerOptions_sel [simp]:
  "so_limit (toInnerOptions sp opts) = so_limit opts"
  "so_reverse (toInnerOptions sp opts) = so_reverse opts"
  by (simp_all add: toInnerOptions_def)

lemma sorted_list_of_set_append_image:
  assumes "finite A"
  shows "sorted_list_of_set ((@) q ` A) = map ((@) q) (sorted_list_of_set (A :: jsstring set))"
proof -
  let ?xs = "map ((@) q) (sorted_list_of_set A)"
  have "sorted ?xs"
    by (rule sorted_map_mono) (auto intro: monoI simp: mono_on_def)
  moreover have "distinct ?xs" by (simp add: distinct_map inj_on_def)
  ultimately have "sorted_list_of_set (set ?xs) = ?xs"
    by (rule sorted_list_of_set.idem_if_sorted_distinct)
  with assms show ?thesis by simp
qed

definition scoped_contents :: "jsstring \<Rightarrow> store \<Rightarrow> store" where
  "scoped_contents pfx m = (\<lambda>k. m (scope_root (normalizeScopePrefix pfx) @ k))"

lemma scoped_contents_empty: "scoped_contents pfx Map.empty = Map.empty"
  by (simp add: scoped_contents_def)

lemma scoped_contents_upd:
  "scoped_contents pfx (m(toInnerKey (normalizeScopePrefix pfx) k := v)) = (scoped_contents pfx m)(k := v)"
  by (simp add: scoped_contents_def toInnerKey_eq fun_eq_iff)

lemma scan_keys_inner:
  assumes "p \<noteq> []" and "finite (dom m)"
  shows "scan_keys m (scope_root (normalizeScopePrefix pfx) @ p) (toInnerOptions (normalizeScopePrefix pfx) opts)
     = map ((@) (scope_root (normalizeScopePrefix pfx))) (scan_keys (scoped_contents pfx m) p opts)"
proof -
  define sp where "sp = normalizeScopePrefix pfx"
  let ?q = "scope_root sp"
  let ?A = "{k \<in> dom (scoped_contents pfx m). in_prefix_range p k \<and> matchesScanOptions k opts}"
  have A: "{k \<in> dom m. in_prefix_range (?q @ p) k \<and> matchesScanOptions k (toInnerOptions sp opts)} = (@) ?q ` ?A"
  proof (intro equalityI subsetI)
    fix k assume k: "k \<in> {k \<in> dom m. in_prefix_range (?q @ p) k \<and> matchesScanOptions k (toInnerOptions sp opts)}"
    then obtain r where "k = ?q @ r" using in_range_inner [OF assms(1)] by blast
    with k assms(1) show "k \<in> (@) ?q ` ?A"
      by (auto simp: in_range_append matches_inner scoped_contents_def sp_def)
  qed (use assms(1) in \<open>auto simp: in_range_append matches_inner scoped_contents_def sp_def\<close>)
  have "(@) ?q ` ?A \<subseteq> dom m" by (auto simp: scoped_contents_def sp_def)
  then have "finite ((@) ?q ` ?A)" using assms(2) finite_subset by blast
  then have "finite ?A" by (rule finite_imageD) (simp add: inj_on_def)
  then show ?thesis unfolding sp_def [symmetric]
    by (simp add: scan_keys_def Let_def A sorted_list_of_set_append_image take_limit_map rev_map)
qed

lemma apply_inner:
  "scoped_contents pfx (apply_operations (toInnerOperations (normalizeScopePrefix pfx) ops) m)
     = apply_operations ops (scoped_contents pfx m)"
proof (induction ops arbitrary: m)
  case (Cons x xs)
  then show ?case
    by (cases x) (simp_all add: toInnerOperations_def toInnerKey_eq scoped_contents_def fun_upd_def fun_eq_iff)
qed (simp add: toInnerOperations_def)

lemma conditions_inner:
  "conditions_hold (toInnerConditions (normalizeScopePrefix pfx) conds) m
     \<longleftrightarrow> conditions_hold conds (scoped_contents pfx m)"
  by (simp add: conditions_hold_def toInnerConditions_def toInnerKey_eq scoped_contents_def)

lemma finite_scoped: "finite (dom m) \<Longrightarrow> finite (dom (scoped_contents pfx m))"
proof -
  let ?q = "scope_root (normalizeScopePrefix pfx)"
  assume "finite (dom m)"
  moreover have "(@) ?q ` dom (scoped_contents pfx m) \<subseteq> dom m" by (auto simp: scoped_contents_def)
  ultimately have "finite ((@) ?q ` dom (scoped_contents pfx m))" by (metis finite_subset)
  then show ?thesis by (rule finite_imageD) (simp add: inj_on_def)
qed

section \<open>The decorator preserves the contract\<close>

context storage_spec
begin

lemma scoped_storage_spec:
  "storage_spec (scopedStorage S pfx) invar (\<lambda>s. scoped_contents pfx (contents s))"
proof (unfold_locales, goal_cases)
  case (1 s k)
  then show ?case by (simp add: scopedStorage_def Let_def get_spec toInnerKey_eq scoped_contents_def)
next
  case (2 s k v r s')
  then show ?case
    using put_spec [of s "toInnerKey (normalizeScopePrefix pfx) k" v r s']
    by (simp add: scopedStorage_def Let_def scoped_contents_upd)
next
  case (3 s k r s')
  then show ?case
    using delete_spec [of s "toInnerKey (normalizeScopePrefix pfx) k" r s']
    by (simp add: scopedStorage_def Let_def scoped_contents_upd)
next
  case (4 s ops r s')
  then have len: "length (toInnerOperations (normalizeScopePrefix pfx) ops) \<le> MAX_BATCH_OPERATIONS"
    by (simp add: toInnerOperations_def)
  from 4 have "batch_op S s (toInnerOperations (normalizeScopePrefix pfx) ops) = (r, s')"
    by (simp add: scopedStorage_def Let_def scoped_batch_def assertStorageBatchOperationCount_def)
  from batch_spec [OF 4(1) len this] show ?case by (simp add: apply_inner)
next
  case (5 ops s)
  then show ?case
    by (simp add: scopedStorage_def Let_def scoped_batch_def assertStorageBatchOperationCount_def)
next
  case (6 s p opts)
  let ?q = "scope_root (normalizeScopePrefix pfx)"
  have "scan_op S s (?q @ p) (toInnerOptions (normalizeScopePrefix pfx) opts)
      = Inr (map (\<lambda>k. (?q @ k, the (contents s (?q @ k)))) (scan_keys (scoped_contents pfx (contents s)) p opts))"
    using 6 by (simp add: scan_spec scan_entries_def scan_keys_inner finite_contents comp_def)
  then show ?case
    by (simp add: scopedStorage_def Let_def scoped_scan_def toInnerKey_eq scan_entries_def comp_def
        scoped_contents_def)
next
  case (7 s)
  then show ?case by (simp add: finite_scoped finite_contents)
qed

end

context cas_storage_spec
begin

lemma scoped_cas_storage_spec:
  "cas_storage_spec (scopedStorage S pfx) invar (\<lambda>s. scoped_contents pfx (contents s))
     (scoped_conditionalBatch S (normalizeScopePrefix pfx))"
proof (rule cas_storage_spec.intro [OF scoped_storage_spec], unfold_locales, goal_cases)
  case 1
  show ?case using cas_capability by (simp add: scopedStorage_def Let_def)
next
  case 2
  show ?case by (simp add: scopedStorage_def Let_def)
next
  case (3 s conds ops r s')
  let ?c = "toInnerConditions (normalizeScopePrefix pfx) conds"
  let ?o = "toInnerOperations (normalizeScopePrefix pfx) ops"
  have "length ?c \<le> MAX_BATCH_OPERATIONS" "length ?o \<le> MAX_BATCH_OPERATIONS"
    using 3 by (simp_all add: toInnerConditions_def toInnerOperations_def)
  from conditional_batch [OF 3(1) this] 3(4) show ?case
    by (auto simp: scoped_conditionalBatch_def conditions_inner apply_inner split: if_splits)
qed

end

interpretation scoped_mem: cas_storage_spec "scopedStorage memoryStorage pfx" memory_invar
  "\<lambda>s. scoped_contents pfx (memory_contents s)"
  "scoped_conditionalBatch memoryStorage (normalizeScopePrefix pfx)"
  for pfx
  by (rule mem_cas.scoped_cas_storage_spec)

section \<open>Properties\<close>

lemma scope_roots_disjoint:
  assumes "\<not> prefix (scope_root a) (scope_root b)" and "\<not> prefix (scope_root b) (scope_root a)"
  shows "scope_root a @ j \<noteq> scope_root b @ k"
  using assms by (metis prefixI prefix_same_cases)

text \<open>
  C30: sibling scopes are isolated: a batch committed through one scope of a shared store
  changes the view of that scope as the batch says and leaves the view of every scope whose
  root is neither a prefix nor an extension of it exactly as it was.
\<close>

theorem scoped_batch_isolated:
  assumes "memory_invar m" and "length ops \<le> MAX_BATCH_OPERATIONS"
    and "\<not> prefix (scope_root (normalizeScopePrefix a)) (scope_root (normalizeScopePrefix b))"
    and "\<not> prefix (scope_root (normalizeScopePrefix b)) (scope_root (normalizeScopePrefix a))"
  shows "\<exists>m'. batch_op (scopedStorage memoryStorage a) m ops = (Inr (), m') \<and> memory_invar m'
     \<and> scoped_contents a (memory_contents m') = apply_operations ops (scoped_contents a (memory_contents m))
     \<and> scoped_contents b (memory_contents m') = scoped_contents b (memory_contents m)"
proof -
  let ?inner = "toInnerOperations (normalizeScopePrefix a) ops"
  have "length ?inner \<le> MAX_BATCH_OPERATIONS" using assms(2) by (simp add: toInnerOperations_def)
  then obtain m' where m': "batch_op memoryStorage m ?inner = (Inr (), m')" "memory_invar m'"
    "memory_contents m' = apply_operations ?inner (memory_contents m)"
    using mem.batch_ok [OF assms(1)] by blast
  have "scope_root (normalizeScopePrefix b) @ k \<notin> op_key ` set ?inner" for k
    using scope_roots_disjoint [OF assms(4,3)]
    by (auto simp: toInnerOperations_def toInnerKey_eq split: batch_operation.splits)
  then have "scoped_contents b (memory_contents m') = scoped_contents b (memory_contents m)"
    by (simp add: scoped_contents_def m'(3) apply_operations_other fun_eq_iff)
  moreover have "batch_op (scopedStorage memoryStorage a) m ops = (Inr (), m')"
    using m'(1) assms(2)
    by (simp add: scopedStorage_def Let_def scoped_batch_def assertStorageBatchOperationCount_def)
  ultimately show ?thesis using m'(2,3) by (auto simp: apply_inner)
qed

theorem scoped_batch_isolated_witness:
  "\<exists>m'. batch_op (scopedStorage memoryStorage [97]) newMemoryStorage [Put [107] [1]] = (Inr (), m')
     \<and> scoped_contents [97] (memory_contents m') [107] = Some [1]
     \<and> scoped_contents [98] (memory_contents m') [107] = None"
proof -
  have "memory_invar newMemoryStorage" "length [Put [107] [1]] \<le> MAX_BATCH_OPERATIONS"
    "\<not> prefix (scope_root (normalizeScopePrefix [97])) (scope_root (normalizeScopePrefix [98]))"
    "\<not> prefix (scope_root (normalizeScopePrefix [98])) (scope_root (normalizeScopePrefix [97]))"
    by (simp_all add: MAX_BATCH_OPERATIONS_def normalizeScopePrefix_def scope_root_def colon_def)
  from scoped_batch_isolated [OF this] show ?thesis
    by (auto simp: scoped_contents_empty)
qed

end
