(* ===== verification/Lock_Record.thy ===== *)
theory Lock_Record
  imports Weft_Prelude
begin

text \<open>
  \<open>src/src/core/concurrency-lock-record.ts\<close> and \<open>concurrency.ts\<close>: the durable lock record,
  its pure reducers, and the semaphore and mutex built on a compare-and-swap slot.

  A persisted record is untyped where the source treats it so: \<open>waiters\<close> may hold legacy
  strings or malformed entries, either field may not be an array. Entries of \<open>holders\<close> are
  taken as typed, as the source takes them. Times are rational milliseconds.
\<close>

section \<open>Records\<close>

record lock_holder =
  lh_holderId :: jsstring
  lh_leaseExpiresAt :: rat

record lock_waiter =
  lw_holderId :: jsstring
  lw_expiresAt :: rat

record lock_record =
  holders :: "lock_holder list"
  waiters :: "lock_waiter list"

text \<open>What a slot holds: \<open>None\<close> for a field that is not an array.\<close>

record raw_lock_record =
  raw_holders :: "lock_holder list option"
  raw_waiters :: "jsval list option"

record acquire_attempt =
  acquired :: bool
  aa_position :: int

definition MIN_LOCK_WAITER_TTL_MS :: rat where
  "MIN_LOCK_WAITER_TTL_MS = 30000"

definition initialLockRecord :: lock_record where
  "initialLockRecord = \<lparr>holders = [], waiters = []\<rparr>"

text \<open>How a typed record reads back from the slot.\<close>

definition waiter_value :: "lock_waiter \<Rightarrow> jsval" where
  "waiter_value w =
     JObject [(js ''holderId'', JString (lw_holderId w)),
              (js ''expiresAt'', JNumber (JFin (lw_expiresAt w)))]"

definition persist :: "lock_record \<Rightarrow> raw_lock_record" where
  "persist r = \<lparr>raw_holders = Some (holders r), raw_waiters = Some (map waiter_value (waiters r))\<rparr>"

section \<open>Reducers\<close>

definition normalizeWaiter :: "jsval \<Rightarrow> rat \<Rightarrow> lock_waiter option" where
  "normalizeWaiter entry fallbackExpiresAt =
     (case entry of
        JString s \<Rightarrow> Some \<lparr>lw_holderId = s, lw_expiresAt = fallbackExpiresAt\<rparr>
      | _ \<Rightarrow>
          if isObject entry
          then (case field entry (js ''holderId'') of
                  JString h \<Rightarrow>
                    Some \<lparr>lw_holderId = h,
                          lw_expiresAt = (case field entry (js ''expiresAt'') of
                                            JNumber (JFin t) \<Rightarrow> t
                                          | _ \<Rightarrow> fallbackExpiresAt)\<rparr>
                | _ \<Rightarrow> None)
          else None)"

definition normalizeLockRecord :: "raw_lock_record option \<Rightarrow> rat \<Rightarrow> lock_record" where
  "normalizeLockRecord current fallbackExpiresAt =
     (case current of
        None \<Rightarrow> initialLockRecord
      | Some r \<Rightarrow>
          \<lparr>holders = (case raw_holders r of Some hs \<Rightarrow> hs | None \<Rightarrow> []),
           waiters = List.map_filter (\<lambda>entry. normalizeWaiter entry fallbackExpiresAt)
                       (case raw_waiters r of Some ws \<Rightarrow> ws | None \<Rightarrow> [])\<rparr>)"

definition dropExpiredHolders :: "lock_holder list \<Rightarrow> rat \<Rightarrow> lock_holder list" where
  "dropExpiredHolders hs now = filter (\<lambda>h. lh_leaseExpiresAt h > now) hs"

definition dropExpiredLockWaiters :: "lock_waiter list \<Rightarrow> rat \<Rightarrow> lock_waiter list" where
  "dropExpiredLockWaiters ws now = filter (\<lambda>w. lw_expiresAt w > now) ws"

record acquire_options =
  ao_holderId :: jsstring
  ao_now :: rat
  ao_leaseMs :: rat
  ao_permits :: int
  ao_waiterTtlMs :: "rat option"

definition acquireTtl :: "acquire_options \<Rightarrow> rat" where
  "acquireTtl options =
     (case ao_waiterTtlMs options of
        Some t \<Rightarrow> t | None \<Rightarrow> max MIN_LOCK_WAITER_TTL_MS (ao_leaseMs options))"

definition reduceAcquire ::
    "raw_lock_record option \<Rightarrow> acquire_options \<Rightarrow> lock_record \<times> acquire_attempt" where
  "reduceAcquire current options =
     (let holderId = ao_holderId options; now = ao_now options;
          leaseMs = ao_leaseMs options; permits = ao_permits options;
          waiterTtlMs = acquireTtl options;
          record' = normalizeLockRecord current (now + waiterTtlMs);
          liveHolders = dropExpiredHolders (holders record') now;
          liveWaiters = dropExpiredLockWaiters (waiters record') now
      in case find_index (\<lambda>h. lh_holderId h = holderId) liveHolders of
           Some i \<Rightarrow>
             (\<lparr>holders = liveHolders[i := \<lparr>lh_holderId = holderId, lh_leaseExpiresAt = now + leaseMs\<rparr>],
               waiters = filter (\<lambda>w. lw_holderId w \<noteq> holderId) liveWaiters\<rparr>,
              \<lparr>acquired = True, aa_position = -1\<rparr>)
         | None \<Rightarrow>
             (let entry = \<lparr>lw_holderId = holderId, lw_expiresAt = now + waiterTtlMs\<rparr>;
                  ws = (case find_index (\<lambda>w. lw_holderId w = holderId) liveWaiters of
                          None \<Rightarrow> liveWaiters @ [entry]
                        | Some i \<Rightarrow> liveWaiters[i := entry]);
                  freePermits = permits - int (length liveHolders);
                  isNextInLine = (case ws of [] \<Rightarrow> False | w # _ \<Rightarrow> lw_holderId w = holderId)
              in if freePermits > 0 \<and> isNextInLine
                 then (\<lparr>holders = liveHolders @ [\<lparr>lh_holderId = holderId, lh_leaseExpiresAt = now + leaseMs\<rparr>],
                        waiters = drop 1 ws\<rparr>,
                       \<lparr>acquired = True, aa_position = -1\<rparr>)
                 else (\<lparr>holders = liveHolders, waiters = ws\<rparr>,
                       \<lparr>acquired = False,
                        aa_position = js_index (find_index (\<lambda>w. lw_holderId w = holderId) ws)\<rparr>)))"

definition reduceRelease ::
    "raw_lock_record option \<Rightarrow> jsstring \<Rightarrow> rat \<Rightarrow> rat option \<Rightarrow> lock_record" where
  "reduceRelease current holderId now waiterTtl =
     (let waiterTtlMs = (case waiterTtl of Some t \<Rightarrow> t | None \<Rightarrow> MIN_LOCK_WAITER_TTL_MS);
          record' = normalizeLockRecord current (now + waiterTtlMs)
      in \<lparr>holders = filter (\<lambda>h. lh_holderId h \<noteq> holderId) (dropExpiredHolders (holders record') now),
          waiters = filter (\<lambda>w. lw_holderId w \<noteq> holderId) (dropExpiredLockWaiters (waiters record') now)\<rparr>)"

definition reduceRenew ::
    "raw_lock_record option \<Rightarrow> jsstring \<Rightarrow> rat \<Rightarrow> rat \<Rightarrow> rat option \<Rightarrow> lock_record \<times> bool" where
  "reduceRenew current holderId now leaseMs waiterTtl =
     (let waiterTtlMs = (case waiterTtl of Some t \<Rightarrow> t | None \<Rightarrow> max MIN_LOCK_WAITER_TTL_MS leaseMs);
          record' = normalizeLockRecord current (now + waiterTtlMs);
          liveHolders = dropExpiredHolders (holders record') now
      in (\<lparr>holders = map (\<lambda>h. if lh_holderId h = holderId
                            then \<lparr>lh_holderId = holderId, lh_leaseExpiresAt = now + leaseMs\<rparr> else h)
                     liveHolders,
           waiters = waiters record'\<rparr>,
          \<exists>h \<in> set liveHolders. lh_holderId h = holderId))"

section \<open>Semaphore and mutex\<close>

datatype semaphore_error = InvalidPermits jsnum | InvalidLease jsnum

record durable_semaphore =
  sem_permits :: int
  sem_leaseMs :: rat
  sem_waiterTtlMs :: rat

definition assertValidPermits :: "jsnum \<Rightarrow> semaphore_error + int" where
  "assertValidPermits permits =
     (case permits of
        JFin r \<Rightarrow> if \<not> isInteger permits \<or> r < 1 then Inl (InvalidPermits permits) else Inr \<lfloor>r\<rfloor>
      | _ \<Rightarrow> Inl (InvalidPermits permits))"

definition assertValidLease :: "jsnum \<Rightarrow> semaphore_error + rat" where
  "assertValidLease leaseMs =
     (case leaseMs of
        JFin r \<Rightarrow> if r \<le> 0 then Inl (InvalidLease leaseMs) else Inr r
      | _ \<Rightarrow> Inl (InvalidLease leaseMs))"

definition DEFAULT_LEASE_MS :: rat where
  "DEFAULT_LEASE_MS = 30000"

definition MIN_WAITER_TTL_MS :: rat where
  "MIN_WAITER_TTL_MS = 30000"

definition newDurableSemaphore ::
    "jsnum option \<Rightarrow> jsnum option \<Rightarrow> jsnum option \<Rightarrow> semaphore_error + durable_semaphore" where
  "newDurableSemaphore optPermits optLease optTtl =
     (case assertValidPermits (case optPermits of Some p \<Rightarrow> p | None \<Rightarrow> JFin 1) of
        Inl e \<Rightarrow> Inl e
      | Inr permits \<Rightarrow>
     (case assertValidLease (case optLease of Some l \<Rightarrow> l | None \<Rightarrow> JFin DEFAULT_LEASE_MS) of
        Inl e \<Rightarrow> Inl e
      | Inr leaseMs \<Rightarrow>
     (case assertValidLease (case optTtl of Some t \<Rightarrow> t | None \<Rightarrow> JFin (max MIN_WAITER_TTL_MS leaseMs)) of
        Inl e \<Rightarrow> Inl e
      | Inr ttl \<Rightarrow> Inr \<lparr>sem_permits = permits, sem_leaseMs = leaseMs, sem_waiterTtlMs = ttl\<rparr>)))"

definition newDurableMutex :: "jsnum option \<Rightarrow> jsnum option \<Rightarrow> semaphore_error + durable_semaphore" where
  "newDurableMutex optLease optTtl = newDurableSemaphore (Some (JFin 1)) optLease optTtl"

text \<open>
  The compare-and-swap slot a semaphore works on: \<open>update\<close> runs the updater on the current
  value and stores the result, or fails (a conflict that outlasts its retries). The source's
  updater also assigns a captured variable; here it returns that value beside the record.
\<close>

type_synonym ('st, 'cur, 'new, 'x, 'e) slot_update =
  "'st \<Rightarrow> ('cur option \<Rightarrow> 'new \<times> 'x) \<Rightarrow> ('e + 'x) \<times> 'st"

definition semTryAcquire ::
    "durable_semaphore \<Rightarrow> ('st, raw_lock_record, lock_record, acquire_attempt, 'e) slot_update
     \<Rightarrow> 'st \<Rightarrow> jsstring \<Rightarrow> rat \<Rightarrow> jsnum option \<Rightarrow> jsnum option
     \<Rightarrow> ((semaphore_error + 'e) + acquire_attempt) \<times> 'st" where
  "semTryAcquire sem slotUpdate st holderId now optLease optTtl =
     (case assertValidLease (case optLease of Some l \<Rightarrow> l | None \<Rightarrow> JFin (sem_leaseMs sem)) of
        Inl e \<Rightarrow> (Inl (Inl e), st)
      | Inr leaseMs \<Rightarrow>
     (case assertValidLease (case optTtl of Some t \<Rightarrow> t | None \<Rightarrow> JFin (sem_waiterTtlMs sem)) of
        Inl e \<Rightarrow> (Inl (Inl e), st)
      | Inr ttl \<Rightarrow>
          (let (r, st') = slotUpdate st (\<lambda>current. reduceAcquire current
                 \<lparr>ao_holderId = holderId, ao_now = now, ao_leaseMs = leaseMs,
                  ao_permits = sem_permits sem, ao_waiterTtlMs = Some ttl\<rparr>)
           in (map_sum Inr id r, st'))))"

definition semRelease ::
    "durable_semaphore \<Rightarrow> ('st, raw_lock_record, lock_record, unit, 'e) slot_update
     \<Rightarrow> 'st \<Rightarrow> jsstring \<Rightarrow> rat \<Rightarrow> ('e + unit) \<times> 'st" where
  "semRelease sem slotUpdate st holderId now =
     slotUpdate st (\<lambda>current. (reduceRelease current holderId now (Some (sem_waiterTtlMs sem)), ()))"

definition semRenew ::
    "durable_semaphore \<Rightarrow> ('st, raw_lock_record, lock_record, bool, 'e) slot_update
     \<Rightarrow> 'st \<Rightarrow> jsstring \<Rightarrow> rat \<Rightarrow> jsnum option \<Rightarrow> ((semaphore_error + 'e) + bool) \<times> 'st" where
  "semRenew sem slotUpdate st holderId now optLease =
     (case assertValidLease (case optLease of Some l \<Rightarrow> l | None \<Rightarrow> JFin (sem_leaseMs sem)) of
        Inl e \<Rightarrow> (Inl (Inl e), st)
      | Inr leaseMs \<Rightarrow>
          (let (r, st') = slotUpdate st
                 (\<lambda>current. reduceRenew current holderId now leaseMs (Some (sem_waiterTtlMs sem)))
           in (map_sum Inr id r, st')))"

section \<open>Normalisation\<close>

lemma normalizeWaiter_value [simp]: "normalizeWaiter (waiter_value w) t = Some w"
proof -
  have "js ''holderId'' \<noteq> js ''expiresAt''" by (simp add: js_def)
  then show ?thesis by (simp add: normalizeWaiter_def waiter_value_def js_defs)
qed

lemma map_filter_waiter_value [simp]:
  "List.map_filter (\<lambda>entry. normalizeWaiter entry t) (map waiter_value ws) = ws"
  by (induction ws) (simp_all add: List.map_filter_simps)

lemma normalize_persist [simp]: "normalizeLockRecord (Some (persist r)) t = r"
  by (simp add: normalizeLockRecord_def persist_def)

section \<open>What an acquire attempt does\<close>

definition liveHoldersOf :: "raw_lock_record option \<Rightarrow> acquire_options \<Rightarrow> lock_holder list" where
  "liveHoldersOf cur opts =
     dropExpiredHolders (holders (normalizeLockRecord cur (ao_now opts + acquireTtl opts))) (ao_now opts)"

definition liveWaitersOf :: "raw_lock_record option \<Rightarrow> acquire_options \<Rightarrow> lock_waiter list" where
  "liveWaitersOf cur opts =
     dropExpiredLockWaiters (waiters (normalizeLockRecord cur (ao_now opts + acquireTtl opts))) (ao_now opts)"

text \<open>The queue after the caller has been registered or refreshed.\<close>

definition enqueued :: "raw_lock_record option \<Rightarrow> acquire_options \<Rightarrow> lock_waiter list" where
  "enqueued cur opts =
     (let entry = \<lparr>lw_holderId = ao_holderId opts, lw_expiresAt = ao_now opts + acquireTtl opts\<rparr>
      in case find_index (\<lambda>w. lw_holderId w = ao_holderId opts) (liveWaitersOf cur opts) of
           None \<Rightarrow> liveWaitersOf cur opts @ [entry]
         | Some i \<Rightarrow> (liveWaitersOf cur opts)[i := entry])"

definition grant_of :: "acquire_options \<Rightarrow> lock_holder" where
  "grant_of opts = \<lparr>lh_holderId = ao_holderId opts, lh_leaseExpiresAt = ao_now opts + ao_leaseMs opts\<rparr>"

text \<open>The three outcomes: renewal of a held permit, grant, denial.\<close>

lemma reduceAcquire_renewal:
  "find_index (\<lambda>h. lh_holderId h = ao_holderId opts) (liveHoldersOf cur opts) = Some i \<Longrightarrow>
   reduceAcquire cur opts =
     (\<lparr>holders = (liveHoldersOf cur opts)[i := grant_of opts],
       waiters = filter (\<lambda>w. lw_holderId w \<noteq> ao_holderId opts) (liveWaitersOf cur opts)\<rparr>,
      \<lparr>acquired = True, aa_position = -1\<rparr>)"
  by (simp add: reduceAcquire_def Let_def liveHoldersOf_def liveWaitersOf_def grant_of_def)

lemma reduceAcquire_new:
  "find_index (\<lambda>h. lh_holderId h = ao_holderId opts) (liveHoldersOf cur opts) = None \<Longrightarrow>
   reduceAcquire cur opts =
     (if int (length (liveHoldersOf cur opts)) < ao_permits opts
         \<and> lw_holderId (hd (enqueued cur opts)) = ao_holderId opts
      then (\<lparr>holders = liveHoldersOf cur opts @ [grant_of opts], waiters = tl (enqueued cur opts)\<rparr>,
            \<lparr>acquired = True, aa_position = -1\<rparr>)
      else (\<lparr>holders = liveHoldersOf cur opts, waiters = enqueued cur opts\<rparr>,
            \<lparr>acquired = False,
             aa_position = js_index (find_index (\<lambda>w. lw_holderId w = ao_holderId opts) (enqueued cur opts))\<rparr>))"
proof -
  assume none: "find_index (\<lambda>h. lh_holderId h = ao_holderId opts) (liveHoldersOf cur opts) = None"
  have nonempty: "enqueued cur opts \<noteq> []"
    by (auto simp: enqueued_def Let_def split: option.splits dest: find_index_SomeD)
  then have "(case enqueued cur opts of [] \<Rightarrow> False | w # _ \<Rightarrow> lw_holderId w = ao_holderId opts)
      \<longleftrightarrow> lw_holderId (hd (enqueued cur opts)) = ao_holderId opts"
    by (cases "enqueued cur opts") auto
  with none show ?thesis
    unfolding reduceAcquire_def Let_def liveHoldersOf_def liveWaitersOf_def grant_of_def enqueued_def
    by (simp add: drop_Suc)
qed

lemma enqueued_ids:
  "map lw_holderId (enqueued cur opts) =
     (if ao_holderId opts \<in> lw_holderId ` set (liveWaitersOf cur opts)
      then map lw_holderId (liveWaitersOf cur opts)
      else map lw_holderId (liveWaitersOf cur opts) @ [ao_holderId opts])"
proof (cases "find_index (\<lambda>w. lw_holderId w = ao_holderId opts) (liveWaitersOf cur opts)")
  case None
  then have "ao_holderId opts \<notin> lw_holderId ` set (liveWaitersOf cur opts)"
    by (auto simp: find_index_None_iff)
  with None show ?thesis by (simp add: enqueued_def Let_def)
next
  case (Some i)
  note i = find_index_SomeD [OF Some]
  then have "ao_holderId opts \<in> lw_holderId ` set (liveWaitersOf cur opts)" by (metis imageI)
  with Some i show ?thesis by (simp add: enqueued_def Let_def map_update_same)
qed

lemma enqueued_others:
  "filter (\<lambda>w. lw_holderId w \<noteq> ao_holderId opts) (enqueued cur opts)
     = filter (\<lambda>w. lw_holderId w \<noteq> ao_holderId opts) (liveWaitersOf cur opts)"
proof (cases "find_index (\<lambda>w. lw_holderId w = ao_holderId opts) (liveWaitersOf cur opts)")
  case (Some i)
  note i = find_index_SomeD [OF Some]
  let ?ws = "liveWaitersOf cur opts"
  have "?ws = take i ?ws @ ?ws ! i # drop (Suc i) ?ws" using i(1) by (rule id_take_nth_drop)
  then have "filter (\<lambda>w. lw_holderId w \<noteq> ao_holderId opts) ?ws
      = filter (\<lambda>w. lw_holderId w \<noteq> ao_holderId opts) (take i ?ws)
        @ filter (\<lambda>w. lw_holderId w \<noteq> ao_holderId opts) (drop (Suc i) ?ws)"
    using i(2) by (metis (mono_tags, lifting) filter.simps(2) filter_append)
  with Some i show ?thesis by (simp add: enqueued_def Let_def upd_conv_take_nth_drop)
qed (simp add: enqueued_def Let_def)

lemma enqueued_head:
  "lw_holderId (hd (enqueued cur opts)) = ao_holderId opts \<longleftrightarrow>
     (case liveWaitersOf cur opts of [] \<Rightarrow> True | w # _ \<Rightarrow> lw_holderId w = ao_holderId opts)"
  by (auto simp: enqueued_def Let_def split: list.splits option.splits nat.splits)

section \<open>The record invariant\<close>

definition lock_inv :: "int \<Rightarrow> lock_record \<Rightarrow> bool" where
  "lock_inv permits r \<longleftrightarrow>
     int (length (holders r)) \<le> permits
     \<and> distinct (map lh_holderId (holders r))
     \<and> distinct (map lw_holderId (waiters r))
     \<and> lh_holderId ` set (holders r) \<inter> lw_holderId ` set (waiters r) = {}"

lemma lock_inv_initial [simp, inv_intros]: "0 \<le> permits \<Longrightarrow> lock_inv permits initialLockRecord"
  by (simp add: lock_inv_def initialLockRecord_def)

lemma length_filter_int: "int (length xs) \<le> p \<Longrightarrow> int (length (filter P xs)) \<le> p"
  using length_filter_le [of P xs] by linarith

lemma lock_inv_sub:
  assumes "lock_inv p r"
  shows "lock_inv p \<lparr>holders = filter P (holders r), waiters = filter Q (waiters r)\<rparr>"
  using assms by (auto simp: lock_inv_def distinct_map_filter length_filter_int)

lemma lock_inv_live:
  assumes "lock_inv p (normalizeLockRecord cur (ao_now opts + acquireTtl opts))"
  shows "lock_inv p \<lparr>holders = liveHoldersOf cur opts, waiters = liveWaitersOf cur opts\<rparr>"
  unfolding liveHoldersOf_def liveWaitersOf_def dropExpiredHolders_def dropExpiredLockWaiters_def
  by (rule lock_inv_sub [OF assms])

lemma reduceAcquire_inv [inv_intros]:
  assumes "lock_inv (ao_permits opts) (normalizeLockRecord cur (ao_now opts + acquireTtl opts))"
  shows "lock_inv (ao_permits opts) (fst (reduceAcquire cur opts))"
proof -
  note live = lock_inv_live [OF assms, unfolded lock_inv_def, simplified]
  let ?h = "ao_holderId opts"
  show ?thesis
  proof (cases "find_index (\<lambda>h. lh_holderId h = ?h) (liveHoldersOf cur opts)")
    case (Some i)
    note i = find_index_SomeD [OF Some]
    have ids: "map lh_holderId ((liveHoldersOf cur opts)[i := grant_of opts]) = map lh_holderId (liveHoldersOf cur opts)"
      using i by (simp add: map_update_same grant_of_def)
    then have "lh_holderId ` set ((liveHoldersOf cur opts)[i := grant_of opts]) = lh_holderId ` set (liveHoldersOf cur opts)"
      by (metis list.set_map)
    with ids live show ?thesis
      by (auto simp: reduceAcquire_renewal [OF Some] lock_inv_def distinct_map_filter)
  next
    case None
    then have notHolder: "?h \<notin> lh_holderId ` set (liveHoldersOf cur opts)"
      by (auto simp: find_index_None_iff)
    have dist: "distinct (map lw_holderId (enqueued cur opts))"
      using live by (auto simp: enqueued_ids)
    have ids: "lw_holderId ` set (enqueued cur opts) = insert ?h (lw_holderId ` set (liveWaitersOf cur opts))"
      using enqueued_ids [of cur opts] by (metis (no_types, lifting) insert_absorb list.set_map
          list.simps(15) rotate1.simps(2) set_rotate1)
    have tl_ids: "lw_holderId ` set (tl (enqueued cur opts)) \<subseteq> lw_holderId ` set (enqueued cur opts) - {?h}"
      if "lw_holderId (hd (enqueued cur opts)) = ?h"
      using dist that by (cases "enqueued cur opts") auto
    have dis: "lh_holderId ` set (liveHoldersOf cur opts) \<inter> lw_holderId ` set (enqueued cur opts) = {}"
      using live notHolder ids by auto
    have tl_dis: "insert ?h (lh_holderId ` set (liveHoldersOf cur opts)) \<inter> lw_holderId ` set (tl (enqueued cur opts)) = {}"
      if "lw_holderId (hd (enqueued cur opts)) = ?h"
      using tl_ids [OF that] dis by auto
    from live notHolder dist dis tl_dis show ?thesis
      by (simp add: reduceAcquire_new [OF None] lock_inv_def grant_of_def distinct_tl map_tl)
  qed
qed

lemma reduceRelease_inv [inv_intros]:
  assumes "\<And>t. lock_inv p (normalizeLockRecord cur t)"
  shows "lock_inv p (reduceRelease cur holderId now ttl)"
  using lock_inv_sub [OF assms]
  by (simp add: reduceRelease_def Let_def dropExpiredHolders_def dropExpiredLockWaiters_def)

lemma lock_inv_same_ids:
  assumes "map lh_holderId hs' = map lh_holderId hs"
  shows "lock_inv p \<lparr>holders = hs', waiters = ws\<rparr> = lock_inv p \<lparr>holders = hs, waiters = ws\<rparr>"
proof -
  from assms have "length hs' = length hs" and "lh_holderId ` set hs' = lh_holderId ` set hs"
    by (metis length_map, metis list.set_map)
  with assms show ?thesis by (simp add: lock_inv_def)
qed

lemma reduceRenew_inv [inv_intros]:
  assumes "\<And>t. lock_inv p (normalizeLockRecord cur t)"
  shows "lock_inv p (fst (reduceRenew cur holderId now leaseMs ttl))"
proof -
  let ?f = "\<lambda>h. if lh_holderId h = holderId then \<lparr>lh_holderId = holderId, lh_leaseExpiresAt = now + leaseMs\<rparr> else h"
  have "map lh_holderId (map ?f hs) = map lh_holderId hs" for hs by simp
  from lock_inv_same_ids [OF this] lock_inv_sub [OF assms, where Q = "\<lambda>_. True"] show ?thesis
    unfolding reduceRenew_def Let_def dropExpiredHolders_def fst_conv by simp
qed

section \<open>Any interleaving of contenders\<close>

text \<open>
  One compare-and-swap transaction of a contender on the shared slot, at an arbitrary clock
  reading: the transactions of different contenders interleave in any order and their clocks
  need not agree.
\<close>

inductive lock_step :: "int \<Rightarrow> raw_lock_record option \<Rightarrow> raw_lock_record option \<Rightarrow> bool" for permits where
  acquire: "ao_permits opts = permits \<Longrightarrow>
     lock_step permits cur (Some (persist (fst (reduceAcquire cur opts))))"
| release: "lock_step permits cur (Some (persist (reduceRelease cur holderId now ttl)))"
| renew: "lock_step permits cur (Some (persist (fst (reduceRenew cur holderId now leaseMs ttl))))"

inductive lock_reachable :: "int \<Rightarrow> raw_lock_record option \<Rightarrow> bool" for permits where
  fresh: "lock_reachable permits None"
| initial: "lock_reachable permits (Some (persist initialLockRecord))"
| step: "lock_reachable permits cur \<Longrightarrow> lock_step permits cur cur' \<Longrightarrow> lock_reachable permits cur'"

lemma lock_reachable_inv:
  assumes "lock_reachable permits cur" and "0 \<le> permits"
  shows "lock_inv permits (normalizeLockRecord cur t)"
  using assms(1)
proof (induction arbitrary: t rule: lock_reachable.induct)
  case (step cur cur')
  from step.hyps(2) show ?case
  proof cases
    case (acquire opts)
    with step.IH reduceAcquire_inv [of opts cur] show ?thesis by simp
  qed (simp_all add: reduceRelease_inv reduceRenew_inv step.IH)
next
  case fresh
  show ?case using assms(2) by (simp add: normalizeLockRecord_def)
qed (simp add: assms(2))

section \<open>Properties\<close>

text \<open>
  C1: whatever contenders do to the slot, in any interleaving and with any clock readings, at
  no time do more than \<open>permits\<close> distinct contenders hold an unexpired lease.
\<close>

theorem lock_permits_never_exceeded:
  assumes "lock_reachable permits cur" and "0 \<le> permits"
  shows "int (card (lh_holderId ` {h \<in> set (holders (normalizeLockRecord cur t)). lh_leaseExpiresAt h > now}))
           \<le> permits"
proof -
  let ?hs = "holders (normalizeLockRecord cur t)"
  have "card (lh_holderId ` {h \<in> set ?hs. lh_leaseExpiresAt h > now}) \<le> card (set ?hs)"
    by (metis (no_types, lifting) List.finite_set card_image_le card_mono finite_subset
        le_trans mem_Collect_eq subsetI)
  also have "\<dots> \<le> length ?hs" by (rule card_length)
  finally show ?thesis using lock_reachable_inv [OF assms, of t] by (simp add: lock_inv_def)
qed

theorem lock_permits_never_exceeded_witness:
  "int (card (lh_holderId ` {h \<in> set (holders (normalizeLockRecord
      (Some (persist (fst (reduceAcquire None
        \<lparr>ao_holderId = [97], ao_now = 0, ao_leaseMs = 50, ao_permits = 1, ao_waiterTtlMs = None\<rparr>)))) 0)).
      lh_leaseExpiresAt h > 10})) \<le> 1"
proof -
  let ?o = "\<lparr>ao_holderId = [97], ao_now = 0, ao_leaseMs = 50, ao_permits = 1, ao_waiterTtlMs = None\<rparr>"
  have "lock_reachable 1 (Some (persist (fst (reduceAcquire None ?o))))"
    by (rule lock_reachable.step [OF lock_reachable.fresh], rule lock_step.acquire) simp
  from lock_permits_never_exceeded [OF this] show ?thesis by simp
qed

text \<open>
  An acquire attempt succeeds exactly when the caller already holds an unexpired lease,
  or a permit is free and no other unexpired waiter is ahead of it at the head of the queue.
\<close>

lemma reduceAcquire_granted_iff:
  "acquired (snd (reduceAcquire cur opts)) \<longleftrightarrow>
     ao_holderId opts \<in> lh_holderId ` set (liveHoldersOf cur opts)
     \<or> (int (length (liveHoldersOf cur opts)) < ao_permits opts
        \<and> (case liveWaitersOf cur opts of [] \<Rightarrow> True | w # _ \<Rightarrow> lw_holderId w = ao_holderId opts))"
proof (cases "find_index (\<lambda>h. lh_holderId h = ao_holderId opts) (liveHoldersOf cur opts)")
  case (Some i)
  from find_index_SomeD [OF Some] have "ao_holderId opts \<in> lh_holderId ` set (liveHoldersOf cur opts)"
    by (metis imageI)
  then show ?thesis by (simp add: reduceAcquire_renewal [OF Some])
next
  case None
  then have "ao_holderId opts \<notin> lh_holderId ` set (liveHoldersOf cur opts)"
    by (auto simp: find_index_None_iff)
  then show ?thesis by (simp add: reduceAcquire_new [OF None] enqueued_head)
qed

text \<open>
  The queue is first-in first-out: an attempt never reorders, drops or refreshes the other
  unexpired waiters, and a denied caller is in the queue at the reported position.
\<close>

lemma reduceAcquire_fifo:
  "filter (\<lambda>w. lw_holderId w \<noteq> ao_holderId opts) (waiters (fst (reduceAcquire cur opts)))
     = filter (\<lambda>w. lw_holderId w \<noteq> ao_holderId opts) (liveWaitersOf cur opts)
   \<and> (acquired (snd (reduceAcquire cur opts)) \<or>
      (\<exists>i < length (waiters (fst (reduceAcquire cur opts))).
         aa_position (snd (reduceAcquire cur opts)) = int i
         \<and> waiters (fst (reduceAcquire cur opts)) ! i
             = \<lparr>lw_holderId = ao_holderId opts, lw_expiresAt = ao_now opts + acquireTtl opts\<rparr>))"
proof (cases "find_index (\<lambda>h. lh_holderId h = ao_holderId opts) (liveHoldersOf cur opts)")
  case (Some i)
  then show ?thesis by (simp add: reduceAcquire_renewal)
next
  case None
  let ?entry = "\<lparr>lw_holderId = ao_holderId opts, lw_expiresAt = ao_now opts + acquireTtl opts\<rparr>"
  have tl: "filter (\<lambda>w. lw_holderId w \<noteq> ao_holderId opts) (tl (enqueued cur opts))
     = filter (\<lambda>w. lw_holderId w \<noteq> ao_holderId opts) (enqueued cur opts)"
    if "lw_holderId (hd (enqueued cur opts)) = ao_holderId opts"
    using that by (cases "enqueued cur opts") auto
  have pos: "\<exists>i < length (enqueued cur opts).
      js_index (find_index (\<lambda>w. lw_holderId w = ao_holderId opts) (enqueued cur opts)) = int i
      \<and> enqueued cur opts ! i = ?entry"
  proof (cases "find_index (\<lambda>w. lw_holderId w = ao_holderId opts) (liveWaitersOf cur opts)")
    case None
    then show ?thesis by (simp add: enqueued_def Let_def find_index_append js_index_def)
  next
    case (Some i)
    note i = find_index_SomeD [OF Some]
    have "enqueued cur opts ! i = ?entry" and len: "i < length (enqueued cur opts)"
      using Some i(1) by (simp_all add: enqueued_def Let_def)
    moreover have "find_index (\<lambda>w. lw_holderId w = ao_holderId opts) (enqueued cur opts) = Some i"
      using Some i by (simp add: enqueued_def Let_def find_index_update)
    ultimately show ?thesis by (auto simp: js_index_def)
  qed
  show ?thesis using tl pos by (simp add: reduceAcquire_new [OF None] enqueued_others)
qed

text \<open>
  A lease is never taken away early: a transaction of another contender at a time before
  the lease expires leaves the holder's entry in the record unchanged.
\<close>

lemma unexpired_lease_is_kept:
  assumes "h \<in> set (holders r)" and "now < lh_leaseExpiresAt h" and "holderId \<noteq> lh_holderId h"
  shows "h \<in> set (holders (fst (reduceAcquire (Some (persist r))
            \<lparr>ao_holderId = holderId, ao_now = now, ao_leaseMs = leaseMs, ao_permits = permits,
             ao_waiterTtlMs = ttl\<rparr>)))
     \<and> h \<in> set (holders (reduceRelease (Some (persist r)) holderId now ttl))
     \<and> h \<in> set (holders (fst (reduceRenew (Some (persist r)) holderId now leaseMs ttl)))"
proof (intro conjI)
  let ?o = "\<lparr>ao_holderId = holderId, ao_now = now, ao_leaseMs = leaseMs, ao_permits = permits,
             ao_waiterTtlMs = ttl\<rparr>"
  have live: "h \<in> set (liveHoldersOf (Some (persist r)) ?o)"
    using assms by (simp add: liveHoldersOf_def dropExpiredHolders_def)
  show "h \<in> set (holders (fst (reduceAcquire (Some (persist r)) ?o)))"
  proof (cases "find_index (\<lambda>h. lh_holderId h = ao_holderId ?o) (liveHoldersOf (Some (persist r)) ?o)")
    case (Some i)
    note i = find_index_SomeD [OF Some]
    from live obtain j where j: "j < length (liveHoldersOf (Some (persist r)) ?o)"
      "liveHoldersOf (Some (persist r)) ?o ! j = h" by (auto simp: in_set_conv_nth)
    with i assms(3) have "j \<noteq> i" by auto
    with j show ?thesis
      by (auto simp: reduceAcquire_renewal [OF Some] in_set_conv_nth intro!: exI [of _ j])
  next
    case None
    with live show ?thesis by (simp add: reduceAcquire_new)
  qed
  show "h \<in> set (holders (reduceRelease (Some (persist r)) holderId now ttl))"
    using assms by (simp add: reduceRelease_def Let_def dropExpiredHolders_def)
  have "h \<in> (\<lambda>h. if lh_holderId h = holderId
        then \<lparr>lh_holderId = holderId, lh_leaseExpiresAt = now + leaseMs\<rparr> else h) `
      set (dropExpiredHolders (holders r) now)"
    using assms by (intro image_eqI [of _ _ h]) (auto simp: dropExpiredHolders_def)
  then show "h \<in> set (holders (fst (reduceRenew (Some (persist r)) holderId now leaseMs ttl)))"
    unfolding reduceRenew_def Let_def normalize_persist fst_conv lock_record.simps list.set_map .
qed

text \<open>
  Crashed contenders cannot block the lock forever: once every recorded lease and every
  other recorded waiter entry has expired, the next attempt acquires a permit.
\<close>

lemma expired_contenders_do_not_block:
  assumes "\<forall>h \<in> set (holders r). lh_leaseExpiresAt h \<le> ao_now opts"
    and "\<forall>w \<in> set (waiters r). lw_holderId w = ao_holderId opts \<or> lw_expiresAt w \<le> ao_now opts"
    and "0 < ao_permits opts"
  shows "acquired (snd (reduceAcquire (Some (persist r)) opts))
     \<and> grant_of opts \<in> set (holders (fst (reduceAcquire (Some (persist r)) opts)))"
proof -
  have no_live: "liveHoldersOf (Some (persist r)) opts = []"
    using assms(1) by (auto simp: liveHoldersOf_def dropExpiredHolders_def filter_empty_conv not_less)
  have own: "lw_holderId w = ao_holderId opts" if "w \<in> set (liveWaitersOf (Some (persist r)) opts)" for w
    using that assms(2) by (auto simp: liveWaitersOf_def dropExpiredLockWaiters_def)
  then have head: "case liveWaitersOf (Some (persist r)) opts of [] \<Rightarrow> True | w # _ \<Rightarrow> lw_holderId w = ao_holderId opts"
    by (simp split: list.split)
  show ?thesis
    using head assms(3) no_live
      reduceAcquire_new [of opts "Some (persist r)"] enqueued_head [of "Some (persist r)" opts]
    by simp
qed

end
