(* ===== verification/Rate_Limit.thy ===== *)
theory Rate_Limit
  imports Lock_Record
begin

text \<open>
  \<open>src/src/core/rate-limit-record.ts\<close> and \<open>rate-limiter.ts\<close>: the durable token bucket, its
  pure reducers, and the limiter over a compare-and-swap slot (the slot of \<open>Lock_Record\<close>).

  A persisted \<open>tokens\<close> or \<open>refillAnchorAt\<close> is a finite number or, as \<open>None\<close>, something the
  normaliser replaces (not a number, \<open>NaN\<close>; for the anchor also an infinity). An infinite
  persisted token count is outside the model.
\<close>

section \<open>Records\<close>

record rate_waiter =
  rw_holderId :: jsstring
  rw_expiresAt :: rat

record rate_limit_record =
  tokens :: rat
  refillAnchorAt :: rat
  rl_waiters :: "rate_waiter list"

record raw_rate_record =
  raw_tokens :: "rat option"
  raw_refillAnchorAt :: "rat option"
  raw_rl_waiters :: "rate_waiter list option"

record rate_grant_attempt =
  granted :: bool
  rg_position :: int
  retryAfterMs :: rat

definition persist_rate :: "rate_limit_record \<Rightarrow> raw_rate_record" where
  "persist_rate r =
     \<lparr>raw_tokens = Some (tokens r), raw_refillAnchorAt = Some (refillAnchorAt r),
      raw_rl_waiters = Some (rl_waiters r)\<rparr>"

section \<open>Reducers\<close>

definition initialRateLimitRecord :: "rat \<Rightarrow> rat \<Rightarrow> rate_limit_record" where
  "initialRateLimitRecord capacity now = \<lparr>tokens = capacity, refillAnchorAt = now, rl_waiters = []\<rparr>"

definition normalizeRateRecord :: "raw_rate_record option \<Rightarrow> rat \<Rightarrow> rat \<Rightarrow> rate_limit_record" where
  "normalizeRateRecord current capacity now =
     (case current of
        None \<Rightarrow> initialRateLimitRecord capacity now
      | Some r \<Rightarrow>
          \<lparr>tokens = (case raw_tokens r of Some t \<Rightarrow> if t \<ge> 0 then t else 0 | None \<Rightarrow> 0),
           refillAnchorAt = (case raw_refillAnchorAt r of
                               Some a \<Rightarrow> if a \<ge> 0 then a else now | None \<Rightarrow> now),
           rl_waiters = (case raw_rl_waiters r of Some ws \<Rightarrow> ws | None \<Rightarrow> [])\<rparr>)"

definition refill :: "rate_limit_record \<Rightarrow> rat \<Rightarrow> rat \<Rightarrow> rat \<Rightarrow> rate_limit_record" where
  "refill r capacity refillIntervalMs now =
     (let elapsed = now - refillAnchorAt r in
      if tokens r \<ge> capacity then r\<lparr>tokens := capacity, refillAnchorAt := now\<rparr>
      else if elapsed < refillIntervalMs then r
      else let minted = of_int \<lfloor>elapsed / refillIntervalMs\<rfloor>;
               tokens' = min capacity (tokens r + minted);
               anchor' = (if tokens' \<ge> capacity then now
                          else refillAnchorAt r + minted * refillIntervalMs)
           in r\<lparr>tokens := tokens', refillAnchorAt := anchor'\<rparr>)"

definition dropExpiredRateWaiters :: "rate_waiter list \<Rightarrow> rat \<Rightarrow> rate_waiter list" where
  "dropExpiredRateWaiters ws now = filter (\<lambda>w. rw_expiresAt w > now) ws"

record rate_options =
  ro_holderId :: jsstring
  ro_now :: rat
  ro_capacity :: rat
  ro_refillIntervalMs :: rat
  ro_waiterTtlMs :: rat

definition reduceRateAcquire ::
    "raw_rate_record option \<Rightarrow> rate_options \<Rightarrow> rate_limit_record \<times> rate_grant_attempt" where
  "reduceRateAcquire current options =
     (let holderId = ro_holderId options; now = ro_now options; capacity = ro_capacity options;
          interval = ro_refillIntervalMs options;
          refilled = refill (normalizeRateRecord current capacity now) capacity interval now;
          liveWaiters = dropExpiredRateWaiters (rl_waiters refilled) now;
          entry = \<lparr>rw_holderId = holderId, rw_expiresAt = now + ro_waiterTtlMs options\<rparr>;
          ws = (case find_index (\<lambda>w. rw_holderId w = holderId) liveWaiters of
                  None \<Rightarrow> liveWaiters @ [entry]
                | Some i \<Rightarrow> liveWaiters[i := entry]);
          position = js_index (find_index (\<lambda>w. rw_holderId w = holderId) ws)
      in if position = 0 \<and> tokens refilled \<ge> 1
         then (\<lparr>tokens = tokens refilled - 1, refillAnchorAt = refillAnchorAt refilled,
                rl_waiters = drop 1 ws\<rparr>,
               \<lparr>granted = True, rg_position = -1, retryAfterMs = -1\<rparr>)
         else let needed = of_int position + 1 - tokens refilled;
                  accruedMs = now - refillAnchorAt refilled
              in (\<lparr>tokens = tokens refilled, refillAnchorAt = refillAnchorAt refilled, rl_waiters = ws\<rparr>,
                  \<lparr>granted = False, rg_position = position,
                   retryAfterMs = max 1 (needed * interval - accruedMs)\<rparr>))"

definition reduceRateWithdraw :: "raw_rate_record option \<Rightarrow> jsstring \<Rightarrow> rat \<Rightarrow> rate_limit_record" where
  "reduceRateWithdraw current holderId now =
     (let r = normalizeRateRecord current 0 now
      in \<lparr>tokens = tokens r, refillAnchorAt = refillAnchorAt r,
          rl_waiters = filter (\<lambda>w. rw_holderId w \<noteq> holderId) (dropExpiredRateWaiters (rl_waiters r) now)\<rparr>)"

section \<open>The limiter\<close>

definition MIN_RATE_WAITER_TTL_MS :: rat where
  "MIN_RATE_WAITER_TTL_MS = 30000"

datatype rate_label = CapacityLabel | RefillLabel | TtlLabel
datatype rate_error = NotPositiveInteger rate_label jsnum

record durable_rate_limiter =
  rate_capacity :: rat
  rate_refillIntervalMs :: rat
  rate_waiterTtlMs :: rat

definition assertPositiveInteger :: "jsnum \<Rightarrow> rate_label \<Rightarrow> rate_error + rat" where
  "assertPositiveInteger v label =
     (case v of
        JFin r \<Rightarrow> if \<not> isInteger v \<or> r \<le> 0 then Inl (NotPositiveInteger label v) else Inr r
      | _ \<Rightarrow> Inl (NotPositiveInteger label v))"

definition newDurableRateLimiter ::
    "jsnum option \<Rightarrow> jsnum \<Rightarrow> jsnum option \<Rightarrow> rate_error + durable_rate_limiter" where
  "newDurableRateLimiter optCapacity refillInterval optTtl =
     (case assertPositiveInteger (case optCapacity of Some c \<Rightarrow> c | None \<Rightarrow> JFin 1) CapacityLabel of
        Inl e \<Rightarrow> Inl e
      | Inr capacity \<Rightarrow>
     (case assertPositiveInteger refillInterval RefillLabel of
        Inl e \<Rightarrow> Inl e
      | Inr interval \<Rightarrow>
     (case assertPositiveInteger
             (case optTtl of Some t \<Rightarrow> t | None \<Rightarrow> JFin (max MIN_RATE_WAITER_TTL_MS (4 * interval))) TtlLabel of
        Inl e \<Rightarrow> Inl e
      | Inr ttl \<Rightarrow> Inr \<lparr>rate_capacity = capacity, rate_refillIntervalMs = interval, rate_waiterTtlMs = ttl\<rparr>)))"

definition rate_options_of :: "durable_rate_limiter \<Rightarrow> jsstring \<Rightarrow> rat \<Rightarrow> rate_options" where
  "rate_options_of l holderId now =
     \<lparr>ro_holderId = holderId, ro_now = now, ro_capacity = rate_capacity l,
      ro_refillIntervalMs = rate_refillIntervalMs l, ro_waiterTtlMs = rate_waiterTtlMs l\<rparr>"

definition rateTryAcquire ::
    "durable_rate_limiter \<Rightarrow> ('st, raw_rate_record, rate_limit_record, rate_grant_attempt, 'e) slot_update
     \<Rightarrow> 'st \<Rightarrow> jsstring \<Rightarrow> rat \<Rightarrow> ('e + rate_grant_attempt) \<times> 'st" where
  "rateTryAcquire l slotUpdate st holderId now =
     slotUpdate st (\<lambda>current. reduceRateAcquire current (rate_options_of l holderId now))"

definition rateWithdraw ::
    "('st, raw_rate_record, rate_limit_record, unit, 'e) slot_update
     \<Rightarrow> 'st \<Rightarrow> jsstring \<Rightarrow> rat \<Rightarrow> ('e + unit) \<times> 'st" where
  "rateWithdraw slotUpdate st holderId now =
     slotUpdate st (\<lambda>current. (reduceRateWithdraw current holderId now, ()))"

section \<open>Lemmas\<close>

lemma normalize_persist_rate [simp]:
  "0 \<le> tokens r \<Longrightarrow> 0 \<le> refillAnchorAt r \<Longrightarrow> normalizeRateRecord (Some (persist_rate r)) c now = r"
  by (simp add: normalizeRateRecord_def persist_rate_def)

text \<open>
  The potential of a bucket at a time: its tokens plus the fraction of an interval accrued
  since the anchor. Refilling never raises it, a grant lowers it by one, the passage of time
  raises it by one per interval: the accounting behind the rate bound.
\<close>

definition potential :: "rate_limit_record \<Rightarrow> rat \<Rightarrow> rat \<Rightarrow> rat" where
  "potential r interval t = tokens r + (t - refillAnchorAt r) / interval"

lemma floor_intervals:
  assumes "0 < (interval :: rat)"
  shows "of_int \<lfloor>elapsed / interval\<rfloor> * interval \<le> elapsed"
    and "elapsed < (of_int \<lfloor>elapsed / interval\<rfloor> + 1) * interval"
proof -
  have "of_int \<lfloor>elapsed / interval\<rfloor> \<le> elapsed / interval" by (rule of_int_floor_le)
  with assms show "of_int \<lfloor>elapsed / interval\<rfloor> * interval \<le> elapsed" by (simp add: le_divide_eq)
  have "elapsed / interval < of_int \<lfloor>elapsed / interval\<rfloor> + 1" by linarith
  with assms show "elapsed < (of_int \<lfloor>elapsed / interval\<rfloor> + 1) * interval" by (simp add: divide_less_eq)
qed

definition bucket_ok :: "rate_limit_record \<Rightarrow> rat \<Rightarrow> rat \<Rightarrow> bool" where
  "bucket_ok r capacity now \<longleftrightarrow> 0 \<le> tokens r \<and> tokens r \<le> capacity
     \<and> 0 \<le> refillAnchorAt r \<and> refillAnchorAt r \<le> now"

lemma refill_spec:
  assumes "0 < interval" and "0 < capacity" and "bucket_ok r capacity now"
  shows "bucket_ok (refill r capacity interval now) capacity now"
    and "potential (refill r capacity interval now) interval now \<le> potential r interval now"
    and "rl_waiters (refill r capacity interval now) = rl_waiters r"
proof -
  let ?e = "now - refillAnchorAt r"
  let ?m = "of_int \<lfloor>?e / interval\<rfloor> :: rat"
  have e: "0 \<le> ?e" using assms(3) by (simp add: bucket_ok_def)
  have m: "0 \<le> ?m" using e assms(1) by simp
  note f = floor_intervals [OF assms(1), of ?e]
  have anchor: "refillAnchorAt r + ?m * interval \<le> now" using f(1) by simp
  have div: "?e / interval = ?m + (?e - ?m * interval) / interval"
    using assms(1) by (simp add: field_simps)
  have frac: "0 \<le> (?e - ?m * interval) / interval" using f(1) assms(1) by simp
  have full: "0 \<le> ?e / interval" using e assms(1) by simp
  have pos: "0 \<le> refillAnchorAt r + ?m * interval"
    using assms m by (simp add: bucket_ok_def)
  show "bucket_ok (refill r capacity interval now) capacity now"
    using assms anchor m pos by (auto simp: refill_def Let_def bucket_ok_def min_def)
  show "potential (refill r capacity interval now) interval now \<le> potential r interval now"
  proof -
    consider "tokens r \<ge> capacity" | "tokens r < capacity" "?e < interval"
      | "tokens r < capacity" "\<not> ?e < interval" "tokens r + ?m \<ge> capacity"
      | "tokens r < capacity" "\<not> ?e < interval" "tokens r + ?m < capacity"
      by linarith
    then show ?thesis
    proof cases
      case 4
      then have "refill r capacity interval now
          = r\<lparr>tokens := tokens r + ?m, refillAnchorAt := refillAnchorAt r + ?m * interval\<rparr>"
        by (simp add: refill_def Let_def)
      moreover have "(now - (refillAnchorAt r + ?m * interval)) / interval = ?e / interval - ?m"
        using assms(1) by (simp add: field_simps)
      ultimately show ?thesis by (simp add: potential_def)
    next
      case 3
      then have "refill r capacity interval now = r\<lparr>tokens := capacity, refillAnchorAt := now\<rparr>"
        by (simp add: refill_def Let_def)
      with 3 div frac show ?thesis by (simp add: potential_def)
    qed (use full in \<open>simp_all add: refill_def Let_def potential_def\<close>)
  qed
  show "rl_waiters (refill r capacity interval now) = rl_waiters r"
    by (simp add: refill_def Let_def)
qed

lemma acquire_tokens:
  assumes "0 < ro_refillIntervalMs opts" and "0 < ro_capacity opts"
    and "bucket_ok (normalizeRateRecord cur (ro_capacity opts) (ro_now opts)) (ro_capacity opts) (ro_now opts)"
  shows "bucket_ok (fst (reduceRateAcquire cur opts)) (ro_capacity opts) (ro_now opts)"
    and "potential (fst (reduceRateAcquire cur opts)) (ro_refillIntervalMs opts) (ro_now opts)
           + (if granted (snd (reduceRateAcquire cur opts)) then 1 else 0)
         \<le> potential (normalizeRateRecord cur (ro_capacity opts) (ro_now opts))
              (ro_refillIntervalMs opts) (ro_now opts)"
  using refill_spec [OF assms]
  by (auto simp: reduceRateAcquire_def Let_def bucket_ok_def potential_def)

lemma potential_elapse:
  "0 < interval \<Longrightarrow> potential r interval t' = potential r interval t + (t' - t) / interval"
  by (simp add: potential_def field_simps)

section \<open>Runs of one bucket\<close>

text \<open>
  A run is the sequence of reductions applied to one slot, each with the caller and the
  caller's clock. The limiter's configuration is the one record all callers share.
\<close>

datatype rate_event = Attempt jsstring rat | Withdraw jsstring rat

primrec event_time :: "rate_event \<Rightarrow> rat" where
  "event_time (Attempt h t) = t"
| "event_time (Withdraw h t) = t"

primrec rate_step :: "durable_rate_limiter \<Rightarrow> rate_limit_record \<Rightarrow> rate_event \<Rightarrow> rate_limit_record \<times> nat" where
  "rate_step l r (Attempt h t) =
     (case reduceRateAcquire (Some (persist_rate r)) (rate_options_of l h t) of
        (r', a) \<Rightarrow> (r', if granted a then 1 else 0))"
| "rate_step l r (Withdraw h t) = (reduceRateWithdraw (Some (persist_rate r)) h t, 0)"

primrec rate_run :: "durable_rate_limiter \<Rightarrow> rate_limit_record \<Rightarrow> rate_event list \<Rightarrow> rate_limit_record \<times> nat" where
  "rate_run l r [] = (r, 0)"
| "rate_run l r (e # es) =
     (case rate_step l r e of (r', n) \<Rightarrow> case rate_run l r' es of (r'', m) \<Rightarrow> (r'', n + m))"

definition clock_monotone :: "rat \<Rightarrow> rate_event list \<Rightarrow> bool" where
  "clock_monotone t es \<longleftrightarrow> sorted (t # map event_time es)"

definition limiter_ok :: "durable_rate_limiter \<Rightarrow> bool" where
  "limiter_ok l \<longleftrightarrow> 0 < rate_capacity l \<and> 0 < rate_refillIntervalMs l"

lemma newDurableRateLimiter_ok:
  "newDurableRateLimiter c i t = Inr l \<Longrightarrow> limiter_ok l"
  by (auto simp: newDurableRateLimiter_def assertPositiveInteger_def limiter_ok_def
      split: sum.splits option.splits jsnum.splits if_splits)

lemma rate_step_accounting:
  assumes l: "limiter_ok l" and r: "bucket_ok r (rate_capacity l) t" and t: "t \<le> event_time e"
  shows "bucket_ok (fst (rate_step l r e)) (rate_capacity l) (event_time e)"
    and "potential (fst (rate_step l r e)) (rate_refillIntervalMs l) (event_time e)
           + of_nat (snd (rate_step l r e))
         \<le> potential r (rate_refillIntervalMs l) t + (event_time e - t) / rate_refillIntervalMs l"
proof -
  have r': "bucket_ok r (rate_capacity l) (event_time e)"
    using r t by (auto simp: bucket_ok_def)
  have n: "normalizeRateRecord (Some (persist_rate r)) c now = r" for c now
    using r by (simp add: bucket_ok_def)
  have el: "potential r (rate_refillIntervalMs l) (event_time e)
      = potential r (rate_refillIntervalMs l) t + (event_time e - t) / rate_refillIntervalMs l"
    using l by (intro potential_elapse) (simp add: limiter_ok_def)
  have "bucket_ok (fst (rate_step l r e)) (rate_capacity l) (event_time e) \<and>
    potential (fst (rate_step l r e)) (rate_refillIntervalMs l) (event_time e)
           + of_nat (snd (rate_step l r e)) \<le> potential r (rate_refillIntervalMs l) (event_time e)"
  proof (cases e)
    case (Attempt h now)
    then show ?thesis
      using acquire_tokens [of "rate_options_of l h now" "Some (persist_rate r)"] l r'
      by (auto simp: n rate_options_of_def limiter_ok_def split: prod.splits)
  next
    case (Withdraw h now)
    then show ?thesis
      using r' by (simp add: n reduceRateWithdraw_def bucket_ok_def potential_def)
  qed
  then show "bucket_ok (fst (rate_step l r e)) (rate_capacity l) (event_time e)"
    and "potential (fst (rate_step l r e)) (rate_refillIntervalMs l) (event_time e)
           + of_nat (snd (rate_step l r e))
         \<le> potential r (rate_refillIntervalMs l) t + (event_time e - t) / rate_refillIntervalMs l"
    by (simp_all add: el)
qed

lemma rate_run_accounting:
  assumes "limiter_ok l" and "bucket_ok r (rate_capacity l) t" and "clock_monotone t es"
    and "last (t # map event_time es) \<le> T"
  shows "potential (fst (rate_run l r es)) (rate_refillIntervalMs l) T + of_nat (snd (rate_run l r es))
         \<le> potential r (rate_refillIntervalMs l) t + (T - t) / rate_refillIntervalMs l
       \<and> bucket_ok (fst (rate_run l r es)) (rate_capacity l) T"
  using assms(2-4)
proof (induction es arbitrary: r t)
  case Nil
  then have "potential r (rate_refillIntervalMs l) T
      = potential r (rate_refillIntervalMs l) t + (T - t) / rate_refillIntervalMs l"
    using assms(1) by (intro potential_elapse) (simp add: limiter_ok_def)
  with Nil show ?case by (auto simp: bucket_ok_def)
next
  case (Cons e es)
  let ?r = "fst (rate_step l r e)" and ?i = "rate_refillIntervalMs l"
  have t: "t \<le> event_time e" and m: "clock_monotone (event_time e) es"
    using Cons.prems by (auto simp: clock_monotone_def)
  note st = rate_step_accounting [OF assms(1) Cons.prems(1) t]
  have lst: "last (event_time e # map event_time es) \<le> T" using Cons.prems(3) by simp
  note ih = Cons.IH [OF st(1) m lst]
  have "(T - event_time e) / ?i + (event_time e - t) / ?i = (T - t) / ?i"
    by (simp add: add_divide_distrib [symmetric])
  with ih st(2) show ?case by (simp add: split_beta)
qed

lemma find_index_hd:
  "find_index P xs = Some 0 \<longleftrightarrow> xs \<noteq> [] \<and> P (hd xs)"
  by (cases xs) (auto split: option.splits)

lemma acquire_denied_at_head:
  assumes "\<not> granted (snd (reduceRateAcquire cur opts))"
    and "rg_position (snd (reduceRateAcquire cur opts)) = 0"
  defines "r0 \<equiv> refill (normalizeRateRecord cur (ro_capacity opts) (ro_now opts))
                 (ro_capacity opts) (ro_refillIntervalMs opts) (ro_now opts)"
  shows "tokens r0 < 1"
    and "tokens (fst (reduceRateAcquire cur opts)) = tokens r0"
    and "refillAnchorAt (fst (reduceRateAcquire cur opts)) = refillAnchorAt r0"
    and "retryAfterMs (snd (reduceRateAcquire cur opts))
         = max 1 ((1 - tokens r0) * ro_refillIntervalMs opts - (ro_now opts - refillAnchorAt r0))"
    and "\<exists>ws. rl_waiters (fst (reduceRateAcquire cur opts))
              = \<lparr>rw_holderId = ro_holderId opts, rw_expiresAt = ro_now opts + ro_waiterTtlMs opts\<rparr> # ws"
proof -
  let ?live = "dropExpiredRateWaiters (rl_waiters r0) (ro_now opts)"
  let ?e = "\<lparr>rw_holderId = ro_holderId opts, rw_expiresAt = ro_now opts + ro_waiterTtlMs opts\<rparr>"
  let ?P = "\<lambda>w. rw_holderId w = ro_holderId opts"
  let ?ws = "case find_index ?P ?live of None \<Rightarrow> ?live @ [?e] | Some i \<Rightarrow> ?live[i := ?e]"
  have pos: "js_index (find_index ?P ?ws) = 0" and tok: "tokens r0 < 1"
    and ws: "rl_waiters (fst (reduceRateAcquire cur opts)) = ?ws"
    using assms(1,2) unfolding reduceRateAcquire_def Let_def r0_def [symmetric]
    by (auto split: if_splits)
  show "tokens r0 < 1" by (rule tok)
  show "tokens (fst (reduceRateAcquire cur opts)) = tokens r0"
    and "refillAnchorAt (fst (reduceRateAcquire cur opts)) = refillAnchorAt r0"
    and "retryAfterMs (snd (reduceRateAcquire cur opts))
         = max 1 ((1 - tokens r0) * ro_refillIntervalMs opts - (ro_now opts - refillAnchorAt r0))"
    using pos tok unfolding reduceRateAcquire_def Let_def r0_def [symmetric] by auto
  have "find_index ?P ?ws = Some 0"
    using pos by (cases "find_index ?P ?ws") (auto simp: js_index_def split: option.splits)
  then have hd: "?ws \<noteq> [] \<and> ?P (hd ?ws)" by (simp add: find_index_hd)
  have "hd ?ws = ?e"
  proof (cases "find_index ?P ?live")
    case None
    with hd show ?thesis
      by (cases ?live) (auto simp: find_index_None_iff)
  next
    case (Some i)
    with hd have "find_index ?P ?live = Some 0 \<or> i \<noteq> 0" by (cases i) auto
    moreover have "\<not> (i \<noteq> 0)"
    proof
      assume "i \<noteq> 0"
      with Some hd have "find_index ?P ?live = Some 0"
        by (cases ?live; cases i) (auto simp: find_index_hd split: option.splits)
      with Some \<open>i \<noteq> 0\<close> show False by simp
    qed
    ultimately show ?thesis using Some hd by (cases ?live) auto
  qed
  then show "\<exists>ws. rl_waiters (fst (reduceRateAcquire cur opts)) = ?e # ws"
    using hd ws by (metis list.collapse)
qed

lemma acquire_granted_at_head:
  assumes "tokens (refill (normalizeRateRecord cur (ro_capacity opts) (ro_now opts))
                 (ro_capacity opts) (ro_refillIntervalMs opts) (ro_now opts)) \<ge> 1"
    and "rl_waiters (refill (normalizeRateRecord cur (ro_capacity opts) (ro_now opts))
                 (ro_capacity opts) (ro_refillIntervalMs opts) (ro_now opts)) = w # ws"
    and "rw_holderId w = ro_holderId opts" and "ro_now opts < rw_expiresAt w"
  shows "granted (snd (reduceRateAcquire cur opts))"
  using assms by (simp add: reduceRateAcquire_def Let_def dropExpiredRateWaiters_def js_index_def)

lemma refill_one_interval:
  assumes "0 < interval" "1 \<le> capacity" "0 \<le> tokens r" "tokens r < capacity"
    "interval \<le> now - refillAnchorAt r"
  shows "1 \<le> tokens (refill r capacity interval now)"
proof -
  have "1 \<le> \<lfloor>(now - refillAnchorAt r) / interval\<rfloor>"
    using assms by (simp add: le_floor_iff le_divide_eq)
  then have "(1::rat) \<le> of_int \<lfloor>(now - refillAnchorAt r) / interval\<rfloor>" by linarith
  with assms(3) have "1 \<le> tokens r + of_int \<lfloor>(now - refillAnchorAt r) / interval\<rfloor>" by linarith
  with assms show ?thesis by (auto simp: refill_def Let_def)
qed

section \<open>Properties\<close>

text \<open>
  C11: the rate bound. Starting from a full bucket at time \<open>t0\<close>, however many contenders
  attempt and withdraw in whatever order, as long as the callers' clock does not run backwards,
  the number of grants up to time \<open>T\<close> is at most the capacity plus one per refill interval
  elapsed.
\<close>

theorem rate_bound:
  assumes "newDurableRateLimiter c i w = Inr l" and "0 \<le> t0"
    and "clock_monotone t0 es" and "last (t0 # map event_time es) \<le> T"
  shows "of_nat (snd (rate_run l (initialRateLimitRecord (rate_capacity l) t0) es))
         \<le> rate_capacity l + (T - t0) / rate_refillIntervalMs l"
proof -
  let ?r = "initialRateLimitRecord (rate_capacity l) t0"
  have l: "limiter_ok l" using assms(1) by (rule newDurableRateLimiter_ok)
  have b: "bucket_ok ?r (rate_capacity l) t0"
    using l assms(2) by (simp add: bucket_ok_def initialRateLimitRecord_def limiter_ok_def)
  note acc = rate_run_accounting [OF l b assms(3,4)]
  have "0 \<le> potential (fst (rate_run l ?r es)) (rate_refillIntervalMs l) T"
    using acc l by (auto simp: potential_def bucket_ok_def limiter_ok_def)
  moreover have "potential ?r (rate_refillIntervalMs l) t0 = rate_capacity l"
    by (simp add: potential_def initialRateLimitRecord_def)
  ultimately show ?thesis using acc by simp
qed

theorem rate_bound_witness:
  "of_nat (snd (rate_run \<lparr>rate_capacity = 1, rate_refillIntervalMs = 30000, rate_waiterTtlMs = 120000\<rparr>
       (initialRateLimitRecord 1 1000)
       [Attempt [1] 1000, Attempt [2] 2000, Withdraw [2] 3000, Attempt [3] 31000]))
     \<le> (1 + (31000 - 1000) / 30000 :: rat)"
  using rate_bound [of None "JFin 30000" None
      "\<lparr>rate_capacity = 1, rate_refillIntervalMs = 30000, rate_waiterTtlMs = 120000\<rparr>" 1000
      "[Attempt [1] 1000, Attempt [2] 2000, Withdraw [2] 3000, Attempt [3] 31000]" 31000]
  by (simp add: newDurableRateLimiter_def assertPositiveInteger_def clock_monotone_def
      MIN_RATE_WAITER_TTL_MS_def js_defs)

text \<open>
  When \<open>retryAfterMs\<close> is enough: a contender at the head of the queue that is denied (the token
  count being a whole number, as the limiter keeps it) and retries no earlier than the reported
  delay and before its waiter entry expires is granted a token, provided nothing else has been
  written to the slot in between.
\<close>

lemma retryAfterMs_suffices:
  assumes "limiter_ok l" and "1 \<le> rate_capacity l" and "bucket_ok r (rate_capacity l) now"
    and "tokens r \<in> \<int>" and "rate_capacity l \<in> \<int>"
    and "reduceRateAcquire (Some (persist_rate r)) (rate_options_of l h now) = (r', a)"
    and "\<not> granted a" and "rg_position a = 0"
    and "retryAfterMs a \<le> d" and "d < rate_waiterTtlMs l"
  shows "granted (snd (reduceRateAcquire (Some (persist_rate r')) (rate_options_of l h (now + d))))"
proof -
  let ?o = "rate_options_of l h now" and ?o' = "rate_options_of l h (now + d)"
  let ?c = "rate_capacity l" and ?i = "rate_refillIntervalMs l"
  let ?r0 = "refill r ?c ?i now"
  have n: "normalizeRateRecord (Some (persist_rate r)) c t = r" for c t
    using assms(3) by (simp add: bucket_ok_def)
  have li: "0 < ?i" "0 < ?c" using assms(1) by (simp_all add: limiter_ok_def)
  have i: "0 < ?i" by (rule li)
  note sp = refill_spec [OF li assms(3)]
  have int: "tokens ?r0 \<in> \<int>" using assms(4,5) by (auto simp: refill_def Let_def min_def)
  have D: "tokens ?r0 < 1" "tokens r' = tokens ?r0" "refillAnchorAt r' = refillAnchorAt ?r0"
    "retryAfterMs a = max 1 ((1 - tokens ?r0) * ?i - (now - refillAnchorAt ?r0))"
    "\<exists>ws. rl_waiters r' = \<lparr>rw_holderId = h, rw_expiresAt = now + rate_waiterTtlMs l\<rparr> # ws"
    using acquire_denied_at_head [of "Some (persist_rate r)" ?o] assms(6-8)
    by (simp_all add: n rate_options_of_def)
  from int D(1) sp(1) have t0: "tokens ?r0 = 0"
    by (auto simp: bucket_ok_def elim!: Ints_cases)
  have ok': "bucket_ok r' ?c (now + d)"
    using sp(1) D(2,3,4) assms(9) by (auto simp: bucket_ok_def)
  have n': "normalizeRateRecord (Some (persist_rate r')) c t = r'" for c t
    using ok' by (simp add: bucket_ok_def)
  have tok: "1 \<le> tokens (refill r' ?c ?i (now + d))"
    using D t0 assms(2,9) i by (intro refill_one_interval) auto
  have "rl_waiters (refill r' ?c ?i (now + d)) = rl_waiters r'"
    by (simp add: refill_def Let_def)
  with D(5) obtain ws where
    "rl_waiters (refill r' ?c ?i (now + d)) = \<lparr>rw_holderId = h, rw_expiresAt = now + rate_waiterTtlMs l\<rparr> # ws"
    by auto
  with tok assms(10) show ?thesis
    by (intro acquire_granted_at_head
        [where w = "\<lparr>rw_holderId = h, rw_expiresAt = now + rate_waiterTtlMs l\<rparr>" and ws = ws])
      (simp_all add: n' rate_options_of_def)
qed

text \<open>
  C33: withdrawing from a slot nobody has used yet writes an empty bucket. The first contender
  after it is denied and told to wait, although a fresh bucket starts full and a withdrawal is
  meant to leave the token count untouched.
\<close>

theorem withdraw_of_fresh_slot_empties_it:
  assumes "limiter_ok l" and "0 \<le> now" and "1 \<le> rate_capacity l"
  shows "granted (snd (reduceRateAcquire None (rate_options_of l h now)))
    \<and> \<not> granted (snd (reduceRateAcquire (Some (persist_rate (reduceRateWithdraw None h' now)))
                          (rate_options_of l h now)))"
  using assms
  by (simp_all add: reduceRateAcquire_def reduceRateWithdraw_def Let_def refill_def limiter_ok_def
      normalizeRateRecord_def initialRateLimitRecord_def persist_rate_def rate_options_of_def
      dropExpiredRateWaiters_def js_index_def)

theorem withdraw_of_fresh_slot_empties_it_witness:
  "\<not> granted (snd (reduceRateAcquire (Some (persist_rate (reduceRateWithdraw None [1] 1000)))
       (rate_options_of \<lparr>rate_capacity = 1, rate_refillIntervalMs = 30000, rate_waiterTtlMs = 120000\<rparr>
          [2] 1000)))"
  using withdraw_of_fresh_slot_empties_it
    [of "\<lparr>rate_capacity = 1, rate_refillIntervalMs = 30000, rate_waiterTtlMs = 120000\<rparr>" 1000 "[2]" "[1]"]
  by (simp add: limiter_ok_def)

text \<open>
  With the default waiter lifetime, a contender that is fifth in the queue of an empty
  bucket and sleeps for exactly the reported \<open>retryAfterMs\<close> finds its own entry expired: the
  delay is five intervals, the lifetime four.
\<close>

definition five_waiting :: rate_limit_record where
  "five_waiting = \<lparr>tokens = 0, refillAnchorAt = 0,
     rl_waiters = map (\<lambda>h. \<lparr>rw_holderId = [h], rw_expiresAt = 120000\<rparr>) [1, 2, 3, 4]\<rparr>"

lemma waiter_expires_before_retry:
  "\<exists>l r' a. newDurableRateLimiter None (JFin 30000) None = Inr l
     \<and> reduceRateAcquire (Some (persist_rate five_waiting)) (rate_options_of l [5] 0) = (r', a)
     \<and> \<not> granted a \<and> rg_position a = 4 \<and> retryAfterMs a = 150000
     \<and> map rw_expiresAt (filter (\<lambda>w. rw_holderId w = [5]) (rl_waiters r')) = [120000]"
  by (simp add: newDurableRateLimiter_def assertPositiveInteger_def MIN_RATE_WAITER_TTL_MS_def js_defs
      reduceRateAcquire_def Let_def refill_def five_waiting_def persist_rate_def
      normalizeRateRecord_def rate_options_of_def dropExpiredRateWaiters_def js_index_def)

end
