(* ===== verification/Storage_Keys.thy ===== *)
theory Storage_Keys
  imports Storage_Interface
begin

text \<open>
  The key layout of \<open>src/src/storage/interface.ts\<close>: \<open>encodeStorageKeyComponent\<close> and its decoder,
  sortable numbers, and the \<open>KEYS\<close> registry.

  \<open>encodeURIComponent\<close> and \<open>decodeURIComponent\<close> are modelled as the language defines them:
  UTF-16 code units are combined into code points, code points outside the unreserved set are
  written as percent-escaped UTF-8 octets, and a lone surrogate (on encoding) or a malformed
  escape (on decoding) throws, here \<open>None\<close>. A key builder that throws gives \<open>None\<close>.
  A number written into a key is a natural number below the range where \<open>String\<close> switches to
  exponent notation.
\<close>

section \<open>Percent encoding\<close>

definition unreserved :: "nat \<Rightarrow> bool" where
  "unreserved c \<longleftrightarrow> (48 \<le> c \<and> c \<le> 57) \<or> (65 \<le> c \<and> c \<le> 90) \<or> (97 \<le> c \<and> c \<le> 122)
     \<or> c \<in> {33, 39, 40, 41, 42, 45, 46, 95, 126}"

definition hexDigit :: "nat \<Rightarrow> nat" where
  "hexDigit n = (if n < 10 then 48 + n else 55 + n)"

definition percentOctet :: "nat \<Rightarrow> jsstring" where
  "percentOctet b = map of_nat [37, hexDigit (b div 16), hexDigit (b mod 16)]"

definition utf8Octets :: "nat \<Rightarrow> nat list" where
  "utf8Octets cp =
     (if cp < 0x80 then [cp]
      else if cp < 0x800 then [0xC0 + cp div 64, 0x80 + cp mod 64]
      else if cp < 0x10000 then [0xE0 + cp div 4096, 0x80 + cp div 64 mod 64, 0x80 + cp mod 64]
      else [0xF0 + cp div 262144, 0x80 + cp div 4096 mod 64, 0x80 + cp div 64 mod 64, 0x80 + cp mod 64])"

definition percentEncode :: "nat \<Rightarrow> jsstring" where
  "percentEncode cp = concat (map percentOctet (utf8Octets cp))"

definition isHighSurrogate :: "nat \<Rightarrow> bool" where
  "isHighSurrogate c \<longleftrightarrow> 0xD800 \<le> c \<and> c \<le> 0xDBFF"

definition isLowSurrogate :: "nat \<Rightarrow> bool" where
  "isLowSurrogate c \<longleftrightarrow> 0xDC00 \<le> c \<and> c \<le> 0xDFFF"

fun encodeURIComponent :: "jsstring \<Rightarrow> jsstring option" where
  "encodeURIComponent [] = Some []"
| "encodeURIComponent (c # cs) =
     (let n = unat c in
      if unreserved n then map_option (\<lambda>r. c # r) (encodeURIComponent cs)
      else if isLowSurrogate n then None
      else if \<not> isHighSurrogate n then map_option (\<lambda>r. percentEncode n @ r) (encodeURIComponent cs)
      else (case cs of
              [] \<Rightarrow> None
            | d # ds \<Rightarrow>
                let m = unat d in
                if \<not> isLowSurrogate m then None
                else map_option (\<lambda>r. percentEncode ((n - 0xD800) * 0x400 + (m - 0xDC00) + 0x10000) @ r)
                       (encodeURIComponent ds)))"

definition hexValue :: "nat \<Rightarrow> nat option" where
  "hexValue c =
     (if 48 \<le> c \<and> c \<le> 57 then Some (c - 48)
      else if 65 \<le> c \<and> c \<le> 70 then Some (c - 55)
      else if 97 \<le> c \<and> c \<le> 102 then Some (c - 87) else None)"

fun decodeOctet :: "jsstring \<Rightarrow> (nat \<times> jsstring) option" where
  "decodeOctet (p # a # b # r) =
     (if unat p \<noteq> 37 then None
      else case hexValue (unat a) of
        None \<Rightarrow> None
      | Some x \<Rightarrow> (case hexValue (unat b) of None \<Rightarrow> None | Some y \<Rightarrow> Some (16 * x + y, r)))"
| "decodeOctet _ = None"

fun decodeContinuation :: "nat \<Rightarrow> nat \<Rightarrow> jsstring \<Rightarrow> (nat \<times> jsstring) option" where
  "decodeContinuation 0 acc s = Some (acc, s)"
| "decodeContinuation (Suc k) acc s =
     (case decodeOctet s of
        None \<Rightarrow> None
      | Some (b, r) \<Rightarrow>
          if 0x80 \<le> b \<and> b < 0xC0 then decodeContinuation k (acc * 64 + (b - 0x80)) r else None)"

definition validCodePoint :: "nat \<Rightarrow> nat \<Rightarrow> bool" where
  "validCodePoint k cp \<longleftrightarrow>
     (k = 1 \<longrightarrow> 0x80 \<le> cp)
     \<and> (k = 2 \<longrightarrow> 0x800 \<le> cp \<and> \<not> isHighSurrogate cp \<and> \<not> isLowSurrogate cp)
     \<and> (k = 3 \<longrightarrow> 0x10000 \<le> cp \<and> cp \<le> 0x10FFFF)"

definition decodeCodePoint :: "jsstring \<Rightarrow> (nat \<times> jsstring) option" where
  "decodeCodePoint s =
     (case decodeOctet s of
        None \<Rightarrow> None
      | Some (b, r) \<Rightarrow>
          if b < 0x80 then Some (b, r)
          else if b < 0xC0 \<or> 0xF8 \<le> b then None
          else let k = (if b < 0xE0 then 1 else if b < 0xF0 then 2 else 3);
                   lead = (if b < 0xE0 then b - 0xC0 else if b < 0xF0 then b - 0xE0 else b - 0xF0)
               in case decodeContinuation k lead r of
                    None \<Rightarrow> None
                  | Some (cp, r') \<Rightarrow> if validCodePoint k cp then Some (cp, r') else None)"

definition utf16Units :: "nat \<Rightarrow> jsstring" where
  "utf16Units cp =
     (if cp < 0x10000 then [of_nat cp]
      else [of_nat (0xD800 + (cp - 0x10000) div 0x400), of_nat (0xDC00 + (cp - 0x10000) mod 0x400)])"

lemma decodeOctet_shorter: "decodeOctet s = Some (b, r) \<Longrightarrow> length r < length s"
  by (cases s rule: decodeOctet.cases) (auto split: option.splits if_splits)

lemma decodeContinuation_shorter: "decodeContinuation k acc s = Some (b, r) \<Longrightarrow> length r \<le> length s"
proof (induction k arbitrary: acc s)
  case (Suc k)
  then show ?case
    by (fastforce split: option.splits prod.splits if_splits dest: decodeOctet_shorter)
qed simp

lemma decodeCodePoint_shorter: "decodeCodePoint s = Some (cp, r) \<Longrightarrow> length r < length s"
  by (fastforce simp: decodeCodePoint_def Let_def split: option.splits prod.splits if_splits
      dest: decodeOctet_shorter decodeContinuation_shorter)

function decodeURIComponent :: "jsstring \<Rightarrow> jsstring option" where
  "decodeURIComponent [] = Some []"
| "decodeURIComponent (c # cs) =
     (if unat c \<noteq> 37 then map_option (\<lambda>r. c # r) (decodeURIComponent cs)
      else case decodeCodePoint (c # cs) of
             None \<Rightarrow> None
           | Some (cp, r) \<Rightarrow> map_option (\<lambda>r'. utf16Units cp @ r') (decodeURIComponent r))"
  by pat_completeness auto
termination
  by (relation "measure length") (auto dest: decodeCodePoint_shorter)

definition encodeStorageKeyComponent :: "jsstring \<Rightarrow> jsstring option" where
  "encodeStorageKeyComponent v = encodeURIComponent v"

text \<open>\<open>None\<close> is the \<open>URIError\<close> of the throwing decoder and the \<open>null\<close> of the other.\<close>

definition decodeStorageKeyComponent :: "jsstring \<Rightarrow> jsstring option" where
  "decodeStorageKeyComponent v = decodeURIComponent v"

definition tryDecodeStorageKeyComponent :: "jsstring \<Rightarrow> jsstring option" where
  "tryDecodeStorageKeyComponent v = decodeURIComponent v"

section \<open>Sortable numbers\<close>

fun decimalDigits :: "nat \<Rightarrow> nat list" where
  "decimalDigits n = (if n < 10 then [48 + n] else decimalDigits (n div 10) @ [48 + n mod 10])"

declare decimalDigits.simps [simp del]

definition numberString :: "nat \<Rightarrow> jsstring" where
  "numberString n = map of_nat (decimalDigits n)"

definition padStart :: "jsstring \<Rightarrow> nat \<Rightarrow> 16 word \<Rightarrow> jsstring" where
  "padStart s w c = replicate (w - length s) c @ s"

definition formatSortableTimestamp :: "nat \<Rightarrow> jsstring" where
  "formatSortableTimestamp t = padStart (numberString t) 16 48"

definition paddedSequence :: "nat \<Rightarrow> jsstring" where
  "paddedSequence n = padStart (numberString n) 10 48"

section \<open>The registry\<close>

text \<open>
  A template literal is a list of parts; \<open>Enc\<close> is an interpolated
  \<open>encodeStorageKeyComponent\<close>, \<open>Raw\<close> an interpolated string. Evaluating the template throws
  when any encoding does.
\<close>

datatype key_part = Lit string | Enc jsstring | Raw jsstring

fun renderPart :: "key_part \<Rightarrow> jsstring option" where
  "renderPart (Lit s) = Some (js s)"
| "renderPart (Enc s) = encodeStorageKeyComponent s"
| "renderPart (Raw s) = Some s"

fun renderKey :: "key_part list \<Rightarrow> jsstring option" where
  "renderKey [] = Some []"
| "renderKey (p # ps) =
     (case renderPart p of
        None \<Rightarrow> None
      | Some a \<Rightarrow> map_option (\<lambda>b. a @ b) (renderKey ps))"

definition KEYS_workflow where
  "KEYS_workflow i = renderKey [Lit ''wf:'', Enc i]"
definition KEYS_checkpoint where
  "KEYS_checkpoint i = renderKey [Lit ''wf:'', Enc i, Lit '':ckpt'']"
definition KEYS_checkpointHistory where
  "KEYS_checkpointHistory i step = renderKey [Lit ''wf:'', Enc i, Lit '':ckpt:'', Raw (paddedSequence step)]"
definition KEYS_timelinePrefix where
  "KEYS_timelinePrefix i = renderKey [Lit ''wf:'', Enc i, Lit '':timeline:'']"
definition KEYS_timeline where
  "KEYS_timeline i step = renderKey [Lit ''wf:'', Enc i, Lit '':timeline:'', Raw (paddedSequence step)]"
definition KEYS_schedule where
  "KEYS_schedule i = renderKey [Lit ''schedule:'', Enc i]"
definition KEYS_scheduleTick where
  "KEYS_scheduleTick fireAt i =
     renderKey [Lit ''schedule-due:'', Raw (padStart (numberString fireAt) 16 48), Lit '':'', Enc i]"
definition KEYS_scheduleRun where
  "KEYS_scheduleRun w = renderKey [Lit ''schedule-run:'', Enc w]"
definition KEYS_scheduleRunLink where
  "KEYS_scheduleRunLink w = renderKey [Lit ''schedule-run-link:'', Enc w]"
definition KEYS_eventPrefix where
  "KEYS_eventPrefix w = renderKey [Lit ''ev:'', Enc w, Lit '':'']"
definition KEYS_event where
  "KEYS_event w n = renderKey [Lit ''ev:'', Enc w, Lit '':'', Raw (paddedSequence n)]"
definition KEYS_eventHead where
  "KEYS_eventHead w = renderKey [Lit ''ev:'', Enc w, Lit '':head'']"
definition KEYS_eventWatermark where
  "KEYS_eventWatermark w = renderKey [Lit ''ev:'', Enc w, Lit '':watermark'']"
definition SIGNAL_SORT_CLASS_START where
  "SIGNAL_SORT_CLASS_START = ''0''"
definition SIGNAL_SORT_CLASS_NORMAL where
  "SIGNAL_SORT_CLASS_NORMAL = ''1''"
definition signalStorageKey where
  "signalStorageKey w name i sortClass =
     renderKey [Lit ''sig:'', Enc w, Lit '':'', Enc name, Lit '':'', Lit sortClass, Lit '':'', Enc i]"
definition KEYS_signal where
  "KEYS_signal w name i = signalStorageKey w name i SIGNAL_SORT_CLASS_NORMAL"
definition KEYS_startSignal where
  "KEYS_startSignal w name i = signalStorageKey w name i SIGNAL_SORT_CLASS_START"
definition KEYS_deadline where
  "KEYS_deadline t w = renderKey [Lit ''wf-deadline:'', Raw (formatSortableTimestamp t), Lit '':'', Enc w]"
definition KEYS_terminalCleanup where
  "KEYS_terminalCleanup t i = renderKey [Lit ''wf-cleanup:'', Raw (formatSortableTimestamp t), Lit '':'', Enc i]"
definition KEYS_teardownTimer where
  "KEYS_teardownTimer t i = renderKey [Lit ''wf-teardown:'', Raw (formatSortableTimestamp t), Lit '':'', Enc i]"
definition KEYS_delayedStart where
  "KEYS_delayedStart t w = renderKey [Lit ''wf-delayed:'', Raw (formatSortableTimestamp t), Lit '':'', Enc w]"
definition KEYS_terminalWorkflow where
  "KEYS_terminalWorkflow t w = renderKey [Lit ''wf-terminal:'', Raw (formatSortableTimestamp t), Lit '':'', Enc w]"
definition KEYS_startIdempotency where
  "KEYS_startIdempotency k = renderKey [Lit ''start-idem:'', Enc k]"
definition KEYS_liveness where
  "KEYS_liveness i = renderKey [Lit ''liveness:'', Enc i]"
definition KEYS_leaseEpoch :: jsstring where
  "KEYS_leaseEpoch = js ''lease:epoch''"
definition KEYS_leaseHolder :: jsstring where
  "KEYS_leaseHolder = js ''lease:holder''"
definition KEYS_workflowConcurrency where
  "KEYS_workflowConcurrency t p = renderKey [Lit ''wf-concurrency:'', Enc t, Lit '':'', Enc p]"
definition KEYS_workflowConcurrencyHolder where
  "KEYS_workflowConcurrencyHolder w = renderKey [Lit ''wf-concurrency-holder:'', Enc w]"
definition KEYS_teardownOwed where
  "KEYS_teardownOwed w = renderKey [Lit ''wf-teardown-needed:'', Enc w]"
definition KEYS_stateExecution where
  "KEYS_stateExecution w k = renderKey [Lit ''state:execution:'', Enc w, Lit '':'', Enc k]"
definition KEYS_stateWorkflow where
  "KEYS_stateWorkflow t k = renderKey [Lit ''state:workflow-scope:default:'', Enc t, Lit '':'', Enc k]"

section \<open>The encoding is injective and free of separators\<close>

lemma unat_of_nat16 [simp]: "n < 65536 \<Longrightarrow> unat (of_nat n :: 16 word) = n"
  by (simp add: unat_of_nat)

lemma unat16_bound: "unat (c :: 16 word) < 65536"
  using unsigned_less [of c] by simp

lemma hexValue_hexDigit [simp]: "n < 16 \<Longrightarrow> hexValue (hexDigit n) = Some n"
  by (auto simp: hexValue_def hexDigit_def)

lemma hexDigit_bound: "n < 16 \<Longrightarrow> hexDigit n < 71"
  by (simp add: hexDigit_def)

lemma decodeOctet_percentOctet [simp]:
  assumes "b < 256"
  shows "decodeOctet (percentOctet b @ r) = Some (b, r)"
proof -
  have "b div 16 < 16" "b mod 16 < 16" using assms by auto
  then show ?thesis
    using hexDigit_bound [of "b div 16"] hexDigit_bound [of "b mod 16"]
    by (simp add: percentOctet_def)
qed

lemma decodeCodePoint_percentEncode:
  assumes "cp \<le> 0x10FFFF" and "\<not> isHighSurrogate cp" and "\<not> isLowSurrogate cp"
  shows "decodeCodePoint (percentEncode cp @ r) = Some (cp, r)"
proof -
  consider "cp < 0x80" | "0x80 \<le> cp" "cp < 0x800" | "0x800 \<le> cp" "cp < 0x10000" | "0x10000 \<le> cp"
    by linarith
  then show ?thesis
  proof cases
    case 2
    define q where "q = cp div 64"
    define m where "m = cp mod 64"
    have "cp = q * 64 + m" "m < 64" by (simp_all add: q_def m_def)
    moreover have "q < 32" using 2 by (auto simp: q_def)
    moreover have "percentEncode cp = percentOctet (0xC0 + q) @ percentOctet (0x80 + m)"
      using 2 by (simp add: percentEncode_def utf8Octets_def q_def m_def)
    ultimately show ?thesis using 2 by (simp add: decodeCodePoint_def validCodePoint_def)
  next
    case 3
    then have b: "cp div 4096 < 16" by auto
    have "(cp div 4096 * 64 + cp div 64 mod 64) = cp div 64"
      using div_mult_mod_eq [of "cp div 64" 64] by (simp add: div_mult2_eq [symmetric])
    then have "(cp div 4096 * 64 + cp div 64 mod 64) * 64 + cp mod 64 = cp" by simp
    then show ?thesis using 3 b assms
      by (simp add: percentEncode_def utf8Octets_def decodeCodePoint_def validCodePoint_def
          numeral_2_eq_2)
  next
    case 4
    then have b: "cp div 262144 < 8" using assms by auto
    have a: "(cp div 262144 * 64 + cp div 4096 mod 64) = cp div 4096"
      using div_mult_mod_eq [of "cp div 4096" 64] by (simp add: div_mult2_eq [symmetric])
    have "(cp div 4096 * 64 + cp div 64 mod 64) = cp div 64"
      using div_mult_mod_eq [of "cp div 64" 64] by (simp add: div_mult2_eq [symmetric])
    with a have "((cp div 262144 * 64 + cp div 4096 mod 64) * 64 + cp div 64 mod 64) * 64 + cp mod 64 = cp"
      by simp
    then show ?thesis using 4 b assms
      by (simp add: percentEncode_def utf8Octets_def decodeCodePoint_def validCodePoint_def
          numeral_3_eq_3)
  qed (simp add: percentEncode_def utf8Octets_def decodeCodePoint_def)
qed

lemma percentEncode_head: "\<exists>r. percentEncode cp = 37 # r"
  by (simp add: percentEncode_def utf8Octets_def percentOctet_def)

lemma decode_percentEncode:
  assumes "cp \<le> 0x10FFFF" and "\<not> isHighSurrogate cp" and "\<not> isLowSurrogate cp"
  shows "decodeURIComponent (percentEncode cp @ r) = map_option (\<lambda>r'. utf16Units cp @ r') (decodeURIComponent r)"
proof -
  obtain t where t: "percentEncode cp = 37 # t" using percentEncode_head by blast
  with decodeCodePoint_percentEncode [OF assms, of r] show ?thesis by simp
qed

lemma utf16Units_bmp: "utf16Units (unat c) = [c]"
  using unat16_bound [of c] by (simp add: utf16Units_def)

lemma utf16Units_pair:
  assumes "isHighSurrogate (unat c)" and "isLowSurrogate (unat d)"
  shows "utf16Units ((unat c - 0xD800) * 0x400 + (unat d - 0xDC00) + 0x10000) = [c, d]"
proof -
  define x y where "x = unat c - 0xD800" and "y = unat d - 0xDC00"
  have "y < 0x400" "unat d = 0xDC00 + y" "unat c = 0xD800 + x"
    using assms by (auto simp: isLowSurrogate_def isHighSurrogate_def x_def y_def)
  moreover from this have "of_nat (0xDC00 + y) = d" "of_nat (0xD800 + x) = c"
    by (metis of_nat_unat ucast_id)+
  ultimately show ?thesis by (simp add: utf16Units_def)
qed

lemma decode_encode: "encodeURIComponent s = Some e \<Longrightarrow> decodeURIComponent e = Some s"
proof (induction s arbitrary: e rule: encodeURIComponent.induct)
  case (2 c cs)
  let ?n = "unat c"
  consider (plain) "unreserved ?n"
    | (bmp) "\<not> unreserved ?n" "\<not> isLowSurrogate ?n" "\<not> isHighSurrogate ?n"
    | (pair) "\<not> unreserved ?n" "\<not> isLowSurrogate ?n" "isHighSurrogate ?n"
    using 2(4) by (auto simp: Let_def split: if_splits)
  then show ?case
  proof cases
    case plain
    then obtain e' where "encodeURIComponent cs = Some e'" "e = c # e'"
      using 2(4) by (auto simp: Let_def)
    moreover have "?n \<noteq> 37" using plain by (auto simp: unreserved_def)
    ultimately show ?thesis using 2(1) [OF refl plain] by simp
  next
    case bmp
    then obtain e' where "encodeURIComponent cs = Some e'" "e = percentEncode ?n @ e'"
      using 2(4) by (auto simp: Let_def)
    moreover have "?n \<le> 0x10FFFF" using unat16_bound [of c] by simp
    ultimately show ?thesis
      using 2(2) [OF refl] bmp by (simp add: decode_percentEncode utf16Units_bmp)
  next
    case pair
    with 2(4) obtain d ds e' where d: "cs = d # ds" "isLowSurrogate (unat d)"
      "encodeURIComponent ds = Some e'"
      "e = percentEncode ((?n - 0xD800) * 0x400 + (unat d - 0xDC00) + 0x10000) @ e'"
      by (auto simp: Let_def split: list.splits if_splits)
    have "decodeURIComponent e' = Some ds" using 2(3) [OF refl] pair d by simp
    moreover have "decodeURIComponent e
        = map_option (\<lambda>r'. [c, d] @ r') (decodeURIComponent e')"
      unfolding d(4) utf16Units_pair [OF pair(3) d(2), symmetric]
      using pair(3) d(2)
      by (intro decode_percentEncode) (auto simp: isHighSurrogate_def isLowSurrogate_def)
    ultimately show ?thesis using d(1) by simp
  qed
qed simp

definition colonUnit :: "16 word" where "colonUnit = 58"

lemma colon_notin_percentOctet: "b < 256 \<Longrightarrow> colonUnit \<notin> set (percentOctet b)"
proof -
  assume "b < 256"
  then have "b div 16 < 16" "b mod 16 < 16" by auto
  then have "hexDigit (b div 16) < 65536 \<and> hexDigit (b div 16) \<noteq> 58"
    "hexDigit (b mod 16) < 65536 \<and> hexDigit (b mod 16) \<noteq> 58"
    by (auto simp: hexDigit_def)
  then show ?thesis
    by (auto simp: percentOctet_def colonUnit_def dest!: arg_cong [where f = unat])
qed

lemma utf8Octets_bound: "cp \<le> 0x10FFFF \<Longrightarrow> b \<in> set (utf8Octets cp) \<Longrightarrow> b < 256"
  by (auto simp: utf8Octets_def split: if_splits)

lemma colon_notin_percentEncode: "cp \<le> 0x10FFFF \<Longrightarrow> colonUnit \<notin> set (percentEncode cp)"
  using colon_notin_percentOctet utf8Octets_bound by (auto simp: percentEncode_def)

lemma encode_no_colon: "encodeURIComponent s = Some e \<Longrightarrow> colonUnit \<notin> set e"
proof (induction s arbitrary: e rule: encodeURIComponent.induct)
  case (2 c cs)
  let ?n = "unat c"
  have bound: "?n \<le> 0x10FFFF" using unat16_bound [of c] by simp
  have pair_bound: "(?n - 0xD800) * 0x400 + (m - 0xDC00) + 0x10000 \<le> 0x10FFFF"
    if "isHighSurrogate ?n" "isLowSurrogate m" for m
    using that by (auto simp: isHighSurrogate_def isLowSurrogate_def)
  have "c \<noteq> colonUnit" if "unreserved ?n" using that by (auto simp: unreserved_def colonUnit_def)
  with 2 show ?case
    using colon_notin_percentEncode [OF bound] colon_notin_percentEncode [OF pair_bound]
    by (auto simp: Let_def split: if_splits list.splits)
qed simp

section \<open>Order of padded numbers\<close>

lemma replicate_of_numeral: "replicate (numeral k) x = x # replicate (pred_numeral k) x"
  by (simp add: numeral_eq_Suc)

fun fixedDigits :: "nat \<Rightarrow> nat \<Rightarrow> nat list" where
  "fixedDigits 0 n = []"
| "fixedDigits (Suc w) n = fixedDigits w (n div 10) @ [48 + n mod 10]"

lemma length_fixedDigits [simp]: "length (fixedDigits w n) = w"
  by (induction w arbitrary: n) auto

lemma fixedDigits_0: "fixedDigits w 0 = replicate w 48"
  by (induction w) (auto simp: replicate_append_same)

lemma pad_decimalDigits:
  "n < 10 ^ Suc w \<Longrightarrow> length (decimalDigits n) \<le> Suc w
     \<and> replicate (Suc w - length (decimalDigits n)) 48 @ decimalDigits n = fixedDigits (Suc w) n"
proof (induction w arbitrary: n)
  case 0
  then show ?case by (simp add: decimalDigits.simps)
next
  case (Suc w)
  show ?case
  proof (cases "n < 10")
    case True
    then show ?thesis by (simp add: decimalDigits.simps fixedDigits_0)
  next
    case False
    have "n div 10 < 10 ^ Suc w" using Suc.prems by auto
    from Suc.IH [OF this] False show ?thesis
      by (subst (1 2 3) decimalDigits.simps) simp
  qed
qed

lemma padStart_fixed:
  assumes "n < 10 ^ w" and "0 < w"
  shows "padStart (numberString n) w 48 = map of_nat (fixedDigits w n)"
proof -
  obtain v where v: "w = Suc v" using assms(2) by (cases w) auto
  have "fixedDigits w n = replicate (w - length (decimalDigits n)) 48 @ decimalDigits n"
    using pad_decimalDigits [of n v] assms(1) v by simp
  then show ?thesis by (simp add: padStart_def numberString_def)
qed

lemma less_snoc:
  "length xs = length ys \<Longrightarrow> (xs @ [a] < ys @ [b :: 'a :: linorder]) \<longleftrightarrow> xs < ys \<or> xs = ys \<and> a < b"
  by (induction xs ys rule: list_induct2) auto

lemma append_less [simp]: "(p @ xs < p @ ys) \<longleftrightarrow> (xs < (ys :: 'a :: linorder list))"
  by (induction p) auto

lemma digit_less: "a < 10 \<Longrightarrow> b < 10 \<Longrightarrow> (of_nat (48 + a) :: 16 word) < of_nat (48 + b) \<longleftrightarrow> a < b"
  by (simp only: word_less_nat_alt unat_of_nat16) simp

lemma fixedDigits_eq_iff:
  "n < 10 ^ w \<Longrightarrow> m < 10 ^ w \<Longrightarrow>
   map (of_nat :: nat \<Rightarrow> 16 word) (fixedDigits w n) = map of_nat (fixedDigits w m) \<longleftrightarrow> n = m"
proof (induction w arbitrary: n m)
  case (Suc w)
  have "n div 10 < 10 ^ w" "m div 10 < 10 ^ w" using Suc.prems by auto
  moreover have "(of_nat (48 + n mod 10) :: 16 word) = of_nat (48 + m mod 10) \<longleftrightarrow> n mod 10 = m mod 10"
    using digit_less [of "n mod 10" "m mod 10"] digit_less [of "m mod 10" "n mod 10"]
    by (metis linorder_neqE_nat mod_less_divisor order_less_irrefl zero_less_numeral)
  ultimately show ?case
    using Suc.IH by (simp del: of_nat_add) (metis div_mult_mod_eq)
qed simp

lemma decimal_order:
  "a < 10 \<Longrightarrow> b < 10 \<Longrightarrow> (x * 10 + a < y * 10 + (b :: nat)) \<longleftrightarrow> x < y \<or> x = y \<and> a < b"
  by (cases x y rule: linorder_cases) auto

lemma fixedDigits_less_iff:
  "n < 10 ^ w \<Longrightarrow> m < 10 ^ w \<Longrightarrow>
   map (of_nat :: nat \<Rightarrow> 16 word) (fixedDigits w n) < map of_nat (fixedDigits w m) \<longleftrightarrow> n < m"
proof (induction w arbitrary: n m)
  case (Suc w)
  have d: "n div 10 < 10 ^ w" "m div 10 < 10 ^ w" using Suc.prems by auto
  have "n < m \<longleftrightarrow> n div 10 < m div 10 \<or> n div 10 = m div 10 \<and> n mod 10 < m mod 10"
    using decimal_order [of "n mod 10" "m mod 10" "n div 10" "m div 10"] by simp
  then show ?case
    using Suc.IH [OF d] fixedDigits_eq_iff [OF d] digit_less [of "n mod 10" "m mod 10"]
    by (simp add: less_snoc del: of_nat_add)
qed simp

lemma paddedSequence_less_iff:
  "n < 10 ^ 10 \<Longrightarrow> m < 10 ^ 10 \<Longrightarrow> paddedSequence n < paddedSequence m \<longleftrightarrow> n < m"
  unfolding paddedSequence_def by (simp only: padStart_fixed fixedDigits_less_iff zero_less_numeral)

lemma formatSortableTimestamp_less_iff:
  "n < 10 ^ 16 \<Longrightarrow> m < 10 ^ 16 \<Longrightarrow> formatSortableTimestamp n < formatSortableTimestamp m \<longleftrightarrow> n < m"
  unfolding formatSortableTimestamp_def
  by (simp only: padStart_fixed fixedDigits_less_iff zero_less_numeral)

section \<open>Keys do not collide\<close>

text \<open>
  The key families the engine's recovery, timers, leases, signals and state slots read and
  write, each with the arguments of its builder.
\<close>

datatype storage_key =
    WorkflowKey jsstring | CheckpointKey jsstring | CheckpointHistoryKey jsstring nat
  | TimelineKey jsstring nat | ScheduleKey jsstring | ScheduleTickKey nat jsstring
  | ScheduleRunKey jsstring | ScheduleRunLinkKey jsstring
  | EventKey jsstring nat | EventHeadKey jsstring | EventWatermarkKey jsstring
  | SignalKey jsstring jsstring jsstring | StartSignalKey jsstring jsstring jsstring
  | DeadlineKey nat jsstring | TerminalCleanupKey nat jsstring | TeardownTimerKey nat jsstring
  | DelayedStartKey nat jsstring | TerminalWorkflowKey nat jsstring
  | StartIdempotencyKey jsstring | LivenessKey jsstring | LeaseEpochKey | LeaseHolderKey
  | WorkflowConcurrencyKey jsstring jsstring | WorkflowConcurrencyHolderKey jsstring
  | TeardownOwedKey jsstring | StateExecutionKey jsstring jsstring | StateWorkflowKey jsstring jsstring

fun storageKey :: "storage_key \<Rightarrow> jsstring option" where
  "storageKey (WorkflowKey i) = KEYS_workflow i"
| "storageKey (CheckpointKey i) = KEYS_checkpoint i"
| "storageKey (CheckpointHistoryKey i n) = KEYS_checkpointHistory i n"
| "storageKey (TimelineKey i n) = KEYS_timeline i n"
| "storageKey (ScheduleKey i) = KEYS_schedule i"
| "storageKey (ScheduleTickKey t i) = KEYS_scheduleTick t i"
| "storageKey (ScheduleRunKey w) = KEYS_scheduleRun w"
| "storageKey (ScheduleRunLinkKey w) = KEYS_scheduleRunLink w"
| "storageKey (EventKey w n) = KEYS_event w n"
| "storageKey (EventHeadKey w) = KEYS_eventHead w"
| "storageKey (EventWatermarkKey w) = KEYS_eventWatermark w"
| "storageKey (SignalKey w n i) = KEYS_signal w n i"
| "storageKey (StartSignalKey w n i) = KEYS_startSignal w n i"
| "storageKey (DeadlineKey t w) = KEYS_deadline t w"
| "storageKey (TerminalCleanupKey t i) = KEYS_terminalCleanup t i"
| "storageKey (TeardownTimerKey t i) = KEYS_teardownTimer t i"
| "storageKey (DelayedStartKey t w) = KEYS_delayedStart t w"
| "storageKey (TerminalWorkflowKey t w) = KEYS_terminalWorkflow t w"
| "storageKey (StartIdempotencyKey k) = KEYS_startIdempotency k"
| "storageKey (LivenessKey i) = KEYS_liveness i"
| "storageKey LeaseEpochKey = Some KEYS_leaseEpoch"
| "storageKey LeaseHolderKey = Some KEYS_leaseHolder"
| "storageKey (WorkflowConcurrencyKey t p) = KEYS_workflowConcurrency t p"
| "storageKey (WorkflowConcurrencyHolderKey w) = KEYS_workflowConcurrencyHolder w"
| "storageKey (TeardownOwedKey w) = KEYS_teardownOwed w"
| "storageKey (StateExecutionKey w k) = KEYS_stateExecution w k"
| "storageKey (StateWorkflowKey t k) = KEYS_stateWorkflow t k"

text \<open>Splitting a key at its separators recovers the components it was built from.\<close>

fun splitColon :: "jsstring \<Rightarrow> jsstring list" where
  "splitColon [] = [[]]"
| "splitColon (c # cs) =
     (if c = colonUnit then [] # splitColon cs
      else (case splitColon cs of [] \<Rightarrow> [[c]] | p # ps \<Rightarrow> (c # p) # ps))"

datatype key_component = Tag string | Arg jsstring | Num nat nat

fun keyComponents :: "storage_key \<Rightarrow> key_component list" where
  "keyComponents (WorkflowKey i) = [Tag ''wf'', Arg i]"
| "keyComponents (CheckpointKey i) = [Tag ''wf'', Arg i, Tag ''ckpt'']"
| "keyComponents (CheckpointHistoryKey i n) = [Tag ''wf'', Arg i, Tag ''ckpt'', Num 10 n]"
| "keyComponents (TimelineKey i n) = [Tag ''wf'', Arg i, Tag ''timeline'', Num 10 n]"
| "keyComponents (ScheduleKey i) = [Tag ''schedule'', Arg i]"
| "keyComponents (ScheduleTickKey t i) = [Tag ''schedule-due'', Num 16 t, Arg i]"
| "keyComponents (ScheduleRunKey w) = [Tag ''schedule-run'', Arg w]"
| "keyComponents (ScheduleRunLinkKey w) = [Tag ''schedule-run-link'', Arg w]"
| "keyComponents (EventKey w n) = [Tag ''ev'', Arg w, Num 10 n]"
| "keyComponents (EventHeadKey w) = [Tag ''ev'', Arg w, Tag ''head'']"
| "keyComponents (EventWatermarkKey w) = [Tag ''ev'', Arg w, Tag ''watermark'']"
| "keyComponents (SignalKey w n i) = [Tag ''sig'', Arg w, Arg n, Tag ''1'', Arg i]"
| "keyComponents (StartSignalKey w n i) = [Tag ''sig'', Arg w, Arg n, Tag ''0'', Arg i]"
| "keyComponents (DeadlineKey t w) = [Tag ''wf-deadline'', Num 16 t, Arg w]"
| "keyComponents (TerminalCleanupKey t i) = [Tag ''wf-cleanup'', Num 16 t, Arg i]"
| "keyComponents (TeardownTimerKey t i) = [Tag ''wf-teardown'', Num 16 t, Arg i]"
| "keyComponents (DelayedStartKey t w) = [Tag ''wf-delayed'', Num 16 t, Arg w]"
| "keyComponents (TerminalWorkflowKey t w) = [Tag ''wf-terminal'', Num 16 t, Arg w]"
| "keyComponents (StartIdempotencyKey k) = [Tag ''start-idem'', Arg k]"
| "keyComponents (LivenessKey i) = [Tag ''liveness'', Arg i]"
| "keyComponents LeaseEpochKey = [Tag ''lease'', Tag ''epoch'']"
| "keyComponents LeaseHolderKey = [Tag ''lease'', Tag ''holder'']"
| "keyComponents (WorkflowConcurrencyKey t p) = [Tag ''wf-concurrency'', Arg t, Arg p]"
| "keyComponents (WorkflowConcurrencyHolderKey w) = [Tag ''wf-concurrency-holder'', Arg w]"
| "keyComponents (TeardownOwedKey w) = [Tag ''wf-teardown-needed'', Arg w]"
| "keyComponents (StateExecutionKey w k) = [Tag ''state'', Tag ''execution'', Arg w, Arg k]"
| "keyComponents (StateWorkflowKey t k) =
     [Tag ''state'', Tag ''workflow-scope'', Tag ''default'', Arg t, Arg k]"

fun component_is :: "key_component \<Rightarrow> jsstring \<Rightarrow> bool" where
  "component_is (Tag t) s \<longleftrightarrow> s = js t"
| "component_is (Arg a) s \<longleftrightarrow> encodeURIComponent a = Some s"
| "component_is (Num w n) s \<longleftrightarrow> s = padStart (numberString n) w 48"

lemma splitColon_no_colon: "colonUnit \<notin> set a \<Longrightarrow> splitColon a = [a]"
  by (induction a) auto

lemma splitColon_colon: "colonUnit \<notin> set a \<Longrightarrow> splitColon (a @ colonUnit # r) = a # splitColon r"
  by (induction a) auto

lemma of_char16: "(of_nat (of_char c) :: 16 word) = of_nat (of_char d) \<longleftrightarrow> c = (d :: char)"
proof
  assume "(of_nat (of_char c) :: 16 word) = of_nat (of_char d)"
  then have "unat (of_nat (of_char c) :: 16 word) = unat (of_nat (of_char d) :: 16 word)" by simp
  moreover have "of_char c < (256::nat)" "of_char d < (256::nat)"
    by (rule nat_of_char_less_256)+
  ultimately have "(of_char c :: nat) = of_char d" by simp
  then show "c = d" by simp
qed simp

lemma js_eq_iff [simp]: "js a = js b \<longleftrightarrow> a = b"
  by (auto simp: js_def of_char16 intro!: map_injective [of "\<lambda>c. of_nat (of_char c) :: 16 word"] injI)

lemma decimalDigits_range: "d \<in> set (decimalDigits n) \<Longrightarrow> 48 \<le> d \<and> d \<le> 57"
proof (induction n rule: decimalDigits.induct)
  case (1 n)
  then show ?case by (subst (asm) (2) decimalDigits.simps) (auto split: if_splits)
qed

lemma padded_range: "c \<in> set (padStart (numberString n) w 48) \<Longrightarrow> 48 \<le> unat c \<and> unat c \<le> 57"
  by (auto simp: padStart_def numberString_def dest!: decimalDigits_range)

lemma colon_padded: "colonUnit \<notin> set (padStart (numberString n) w 48)"
  using padded_range [of colonUnit n w] by (auto simp: colonUnit_def)

lemmas keys_defs =
  KEYS_workflow_def KEYS_checkpoint_def KEYS_checkpointHistory_def KEYS_timeline_def
  KEYS_schedule_def KEYS_scheduleTick_def KEYS_scheduleRun_def KEYS_scheduleRunLink_def
  KEYS_event_def KEYS_eventHead_def KEYS_eventWatermark_def signalStorageKey_def KEYS_signal_def
  KEYS_startSignal_def SIGNAL_SORT_CLASS_START_def SIGNAL_SORT_CLASS_NORMAL_def
  KEYS_deadline_def KEYS_terminalCleanup_def KEYS_teardownTimer_def KEYS_delayedStart_def
  KEYS_terminalWorkflow_def KEYS_startIdempotency_def KEYS_liveness_def KEYS_leaseEpoch_def
  KEYS_leaseHolder_def KEYS_workflowConcurrency_def KEYS_workflowConcurrencyHolder_def
  KEYS_teardownOwed_def KEYS_stateExecution_def KEYS_stateWorkflow_def
  encodeStorageKeyComponent_def formatSortableTimestamp_def paddedSequence_def

lemmas split_simps =
  splitColon_colon [unfolded colonUnit_def] splitColon_no_colon [unfolded colonUnit_def]
  colon_padded [unfolded colonUnit_def] encode_no_colon [unfolded colonUnit_def]

lemma storageKey_components:
  "storageKey k = Some s \<Longrightarrow> list_all2 component_is (keyComponents k) (splitColon s)"
  by (cases k) (auto simp: keys_defs js_def colonUnit_def split_simps split: option.splits)

text \<open>The numbers of a key fit the widths the registry pads them to.\<close>

fun component_fits :: "key_component \<Rightarrow> bool" where
  "component_fits (Num w n) \<longleftrightarrow> 0 < w \<and> n < 10 ^ w"
| "component_fits _ \<longleftrightarrow> True"

definition numbers_fit :: "storage_key \<Rightarrow> bool" where
  "numbers_fit k = list_all component_fits (keyComponents k)"

text \<open>
  Two components that can stand at the same place of two keys of the registry: of the same
  kind, or a number against a word that does not start with a digit.
\<close>

fun comparable :: "key_component \<Rightarrow> key_component \<Rightarrow> bool" where
  "comparable (Tag t) (Tag u) \<longleftrightarrow> True"
| "comparable (Arg a) (Arg b) \<longleftrightarrow> True"
| "comparable (Num w n) (Num v m) \<longleftrightarrow> w = v"
| "comparable (Num w n) (Tag t) \<longleftrightarrow> t \<noteq> [] \<and> hd t \<in> {CHR ''h'', CHR ''w''}"
| "comparable (Tag t) (Num w n) \<longleftrightarrow> t \<noteq> [] \<and> hd t \<in> {CHR ''h'', CHR ''w''}"
| "comparable _ _ \<longleftrightarrow> False"

lemma padded_ne_js:
  assumes "hd t \<in> {CHR ''h'', CHR ''w''}" and "t \<noteq> []"
  shows "padStart (numberString n) w 48 \<noteq> js t"
proof
  assume eq: "padStart (numberString n) w 48 = js t"
  have "of_nat (of_char (hd t)) \<in> set (js t)" using assms(2) by (cases t) (auto simp: js_def)
  with eq have "unat (of_nat (of_char (hd t)) :: 16 word) \<le> 57" using padded_range by metis
  moreover from assms(1) have "hd t = CHR ''h'' \<or> hd t = CHR ''w''" by auto
  ultimately show False by (elim disjE) simp_all
qed

lemma component_unique:
  assumes "comparable x y" and "component_fits x" and "component_fits y"
    and "component_is x s" and "component_is y s"
  shows "x = y"
proof (cases x)
  case (Arg a)
  with assms obtain b where "y = Arg b" by (cases y) auto
  with Arg assms(4,5) show ?thesis by (metis component_is.simps(2) decode_encode option.inject)
next
  case (Num w n)
  show ?thesis
  proof (cases y)
    case (Num v m)
    with assms \<open>x = Num w n\<close> show ?thesis by (auto simp: padStart_fixed fixedDigits_eq_iff)
  qed (use Num assms padded_ne_js in auto)
next
  case (Tag t)
  with assms show ?thesis using padded_ne_js [of t] by (cases y) auto
qed

lemma components_unique:
  assumes "list_all2 component_is xs cs" and "list_all2 component_is ys cs"
    and "list_all2 comparable xs ys" and "list_all component_fits xs" and "list_all component_fits ys"
  shows "xs = ys"
  using assms(3,1,2,4,5)
proof (induction xs ys arbitrary: cs rule: list_all2_induct)
  case (Cons x xs y ys)
  then show ?case by (auto simp: list_all2_Cons1 dest: component_unique)
qed simp

lemma storageKey_head:
  assumes "storageKey a = Some s" and "storageKey b = Some s"
  shows "hd (keyComponents a) = hd (keyComponents b) \<and> length (keyComponents a) = length (keyComponents b)"
proof -
  have tag: "\<exists>t cs. keyComponents k = Tag t # cs" for k by (cases k) auto
  obtain t cs u ds where k: "keyComponents a = Tag t # cs" "keyComponents b = Tag u # ds"
    using tag by meson
  note c = storageKey_components [OF assms(1)] storageKey_components [OF assms(2)]
  have "length (keyComponents a) = length (keyComponents b)" using c [THEN list_all2_lengthD] by simp
  with c k show ?thesis by (auto simp: list_all2_Cons1)
qed

lemma keyComponents_comparable:
  "hd (keyComponents a) = hd (keyComponents b) \<and> length (keyComponents a) = length (keyComponents b) \<Longrightarrow>
   list_all2 comparable (keyComponents a) (keyComponents b)"
  by (cases a; cases b; simp)

lemma keyComponents_inject: "keyComponents a = keyComponents b \<Longrightarrow> a = b"
  by (cases a; cases b; simp)

section \<open>Properties\<close>

text \<open>
  Percent-encoding a storage-key component is undone by decoding it, on every string
  without a lone surrogate (on which encoding throws), and its output never contains the
  separator \<open>:\<close>.
\<close>

lemma storage_key_component_roundtrip:
  assumes "encodeStorageKeyComponent s = Some e"
  shows "decodeStorageKeyComponent e = Some s \<and> tryDecodeStorageKeyComponent e = Some s
     \<and> colonUnit \<notin> set e"
  using assms
  by (simp add: encodeStorageKeyComponent_def decodeStorageKeyComponent_def
      tryDecodeStorageKeyComponent_def decode_encode encode_no_colon)

text \<open>
  C17: the 27 key families modelled here are collision-free (workflow and checkpoint records,
  timelines, schedules with their timers and runs, event logs, signals, workflow timers and the
  terminal index, start idempotency, liveness, lease, workflow concurrency, owed teardown, atomic
  state): two of their keys, of the same family or of different ones, are equal only when the
  family and every argument are equal, as long as the sequence numbers and timestamps fit the
  widths they are padded to. Each of these builders percent-encodes or pads every argument. The builders left out, several of
  which insert an argument as it is (\<open>op:\<close>, \<open>upd:\<close>, \<open>blob:\<close>), are not covered.
\<close>

theorem keys_never_collide:
  assumes "storageKey a \<noteq> None" and "numbers_fit a" and "numbers_fit b"
  shows "storageKey a = storageKey b \<longleftrightarrow> a = b"
proof
  assume eq: "storageKey a = storageKey b"
  obtain s where s: "storageKey a = Some s" "storageKey b = Some s" using assms(1) eq by auto
  show "a = b"
  proof (rule keyComponents_inject, rule components_unique)
    show "list_all2 component_is (keyComponents a) (splitColon s)"
      and "list_all2 component_is (keyComponents b) (splitColon s)"
      using s by (simp_all add: storageKey_components)
    show "list_all2 comparable (keyComponents a) (keyComponents b)"
      by (rule keyComponents_comparable [OF storageKey_head [OF s]])
  qed (use assms(2,3) in \<open>simp_all add: numbers_fit_def\<close>)
qed simp

theorem keys_never_collide_witness:
  "storageKey (SignalKey [97] [98, 58] [99]) \<noteq> storageKey (SignalKey [97] [98] [58, 99])"
  using keys_never_collide [of "SignalKey [97] [98, 58] [99]" "SignalKey [97] [98] [58, 99]"]
  by (simp add: numbers_fit_def KEYS_signal_def signalStorageKey_def encodeStorageKeyComponent_def
      unreserved_def isLowSurrogate_def isHighSurrogate_def)

text \<open>
  An event log is stored in order: under one workflow, the key of a lower sequence number
  is the smaller key, so an ascending scan replays the events in the order they were appended.
\<close>

lemma event_keys_ordered:
  assumes "KEYS_event w i = Some k" and "KEYS_event w j = Some k'"
    and "i < 10 ^ 10" and "j < 10 ^ 10"
  shows "k < k' \<longleftrightarrow> i < j"
  using assms by (auto simp: KEYS_event_def paddedSequence_less_iff split: option.splits)

text \<open>
  A prefix scan of one workflow's event log sees the events of that workflow only, even
  when one workflow id is a prefix of another or contains the separator.
\<close>

lemma event_prefix_isolated:
  assumes "KEYS_eventPrefix w = Some p" and "KEYS_event w' n = Some k" and "n < 10 ^ 10"
  shows "in_prefix_range p k \<longleftrightarrow> w' = w"
proof -
  obtain e where e: "encodeURIComponent w = Some e" "p = js ''ev:'' @ e @ js '':''"
    using assms(1) by (auto simp: KEYS_eventPrefix_def encodeStorageKeyComponent_def split: option.splits)
  obtain e' where e': "encodeURIComponent w' = Some e'"
    "k = js ''ev:'' @ e' @ js '':'' @ paddedSequence n"
    using assms(2) by (auto simp: KEYS_event_def encodeStorageKeyComponent_def split: option.splits)
  have colon: "js '':'' = [colonUnit]" by (simp add: js_def colonUnit_def)
  have "e = e'" if pre: "prefix p k"
  proof -
    obtain r where "k = p @ r" using pre by (auto simp: prefix_def)
    then have "e' @ colonUnit # paddedSequence n = e @ colonUnit # r" by (simp add: e e' colon)
    then have "splitColon (e' @ colonUnit # paddedSequence n) = splitColon (e @ colonUnit # r)" by simp
    then show ?thesis
      using encode_no_colon [OF e(1)] encode_no_colon [OF e'(1)] by (simp add: splitColon_colon)
  qed
  moreover have "prefix p k" if "w' = w" using that e e' by (simp add: prefix_def)
  moreover have "w = w'" if "e = e'" using decode_encode e(1) e'(1) that by (metis option.inject)
  moreover have "in_prefix_range p k \<longleftrightarrow> prefix p k"
    by (rule in_prefix_range_iff) (simp_all add: e colon colonUnit_def)
  ultimately show ?thesis by blast
qed

end
