(* ===== verification/Atomic_State.thy ===== *)
theory Atomic_State
  imports Memory_Storage Storage_Keys Lock_Record
begin

text \<open>
  \<open>src/src/core/atomic-state.ts\<close>: compare-and-swap state slots. A slot is a data key and a
  version key; a mutation reads both, computes the next value and commits it under the
  condition that the version is unchanged, retrying on conflict.

  The value codec (\<open>src/src/core/codec\<close>, a wrapper of the \<open>@msgpack/msgpack\<close> package) is a parameter:
  the encoders, and the decoders with \<open>None\<close> for a throw. What the code relies on is
  \<open>codec_ok\<close>, the round trip of values and version numbers. Values are those the encoder accepts.

  Other processes act on the same store between the steps of a mutation. An
  \<open>interference\<close> says what they do at each of the three points where the code awaits: before
  the reads, between the two reads (issued together, served independently), and between the
  reads and the commit.
\<close>

section \<open>Keys\<close>

definition MAX_ATOMIC_STATE_KEY_LENGTH :: nat where
  "MAX_ATOMIC_STATE_KEY_LENGTH = 256"

definition RESERVED_ATOMIC_STATE_KEYS :: "jsstring list" where
  "RESERVED_ATOMIC_STATE_KEYS = [js ''__proto__'', js ''constructor'', js ''prototype'']"

datatype atomic_state_scope = ExecutionScope jsstring | WorkflowScope jsstring

datatype atomic_error =
    StateKeyLength
  | StateKeyReserved jsstring
  | StateKeyMalformed
  | StateStorageError storage_error
  | StateDecodeError
  | StateVersionCorrupt jsstring
  | AtomicStateConflictError jsstring nat

definition assertValidAtomicStateKey :: "jsstring \<Rightarrow> atomic_error option" where
  "assertValidAtomicStateKey key =
     (if length key = 0 \<or> length key > MAX_ATOMIC_STATE_KEY_LENGTH then Some StateKeyLength
      else if key \<in> set RESERVED_ATOMIC_STATE_KEYS then Some (StateKeyReserved key)
      else None)"

definition atomicStateDataKey :: "atomic_state_scope \<Rightarrow> jsstring \<Rightarrow> atomic_error + jsstring" where
  "atomicStateDataKey scope key =
     (case assertValidAtomicStateKey key of
        Some e \<Rightarrow> Inl e
      | None \<Rightarrow>
          (case (case scope of
                   ExecutionScope owner \<Rightarrow> KEYS_stateExecution owner key
                 | WorkflowScope wt \<Rightarrow> KEYS_stateWorkflow wt key) of
             None \<Rightarrow> Inl StateKeyMalformed
           | Some k \<Rightarrow> Inr k))"

definition atomicStateVersionKey :: "jsstring \<Rightarrow> jsstring" where
  "atomicStateVersionKey dataKey = dataKey @ js '':version''"

section \<open>Reads and commits\<close>

record ('cur, 'new) codec =
  enc_value :: "'new \<Rightarrow> bytes"
  dec_value :: "bytes \<Rightarrow> 'cur option"
  enc_version :: "int \<Rightarrow> bytes"
  dec_version :: "bytes \<Rightarrow> jsval option"

record 'cur atomic_snapshot =
  snap_value :: "'cur option"
  snap_version :: int

definition decodeAtomicStateVersion ::
    "('cur, 'new) codec \<Rightarrow> bytes \<Rightarrow> jsstring \<Rightarrow> atomic_error + int" where
  "decodeAtomicStateVersion C raw dataKey =
     (case dec_version C raw of
        None \<Rightarrow> Inl StateDecodeError
      | Some v \<Rightarrow>
          (case v of
             JNumber (JFin r) \<Rightarrow>
               if \<not> isInteger (JFin r) \<or> r < 0 then Inl (StateVersionCorrupt dataKey) else Inr \<lfloor>r\<rfloor>
           | _ \<Rightarrow> Inl (StateVersionCorrupt dataKey)))"

text \<open>The two reads are served at the states \<open>sv\<close> (the value) and \<open>sn\<close> (the version).\<close>

definition readAtomicStateSnapshot ::
    "'s storage \<Rightarrow> ('cur, 'new) codec \<Rightarrow> 's \<Rightarrow> 's \<Rightarrow> jsstring \<Rightarrow> 'cur option
     \<Rightarrow> atomic_error + 'cur atomic_snapshot" where
  "readAtomicStateSnapshot S C sv sn dataKey initial =
     (case (get_op S sv dataKey, get_op S sn (atomicStateVersionKey dataKey)) of
        (Inl e, _) \<Rightarrow> Inl (StateStorageError e)
      | (_, Inl e) \<Rightarrow> Inl (StateStorageError e)
      | (Inr rawValue, Inr rawVersion) \<Rightarrow>
          (case (case rawVersion of
                   None \<Rightarrow> Inr 0
                 | Some raw \<Rightarrow> decodeAtomicStateVersion C raw dataKey) of
             Inl e \<Rightarrow> Inl e
           | Inr version \<Rightarrow>
               (case rawValue of
                  Some raw \<Rightarrow>
                    (case dec_value C raw of
                       None \<Rightarrow> Inl StateDecodeError
                     | Some v \<Rightarrow> Inr \<lparr>snap_value = Some v, snap_version = version\<rparr>)
                | None \<Rightarrow>
                    if rawVersion = None
                    then Inr \<lparr>snap_value = initial, snap_version = version\<rparr>
                    else Inr \<lparr>snap_value = None, snap_version = version\<rparr>)))"

definition versionCondition :: "('cur, 'new) codec \<Rightarrow> jsstring \<Rightarrow> int \<Rightarrow> conditional_batch_condition" where
  "versionCondition C dataKey expectedVersion =
     \<lparr>cond_key = atomicStateVersionKey dataKey,
      expectedValue = (if expectedVersion = 0 then None else Some (enc_version C expectedVersion))\<rparr>"

record commit_result =
  cr_applied :: bool
  cr_version :: int

definition commitAtomicState ::
    "'s storage \<Rightarrow> ('cur, 'new) codec \<Rightarrow> 's \<Rightarrow> jsstring \<Rightarrow> int \<Rightarrow> batch_operation
     \<Rightarrow> (atomic_error + commit_result) \<times> 's" where
  "commitAtomicState S C s dataKey expectedVersion dataOperation =
     (case requireStorageCapability S of
        Some e \<Rightarrow> (Inl (StateStorageError e), s)
      | None \<Rightarrow>
          (let nextVersion = expectedVersion + 1 in
           case storageConditionalBatch S s [versionCondition C dataKey expectedVersion]
                  [dataOperation, Put (atomicStateVersionKey dataKey) (enc_version C nextVersion)] of
             (Inl e, s') \<Rightarrow> (Inl (StateStorageError e), s')
           | (Inr applied, s') \<Rightarrow>
               (Inr \<lparr>cr_applied = applied,
                     cr_version = (if applied then nextVersion else expectedVersion)\<rparr>, s')))"

definition commitAtomicStateValue ::
    "'s storage \<Rightarrow> ('cur, 'new) codec \<Rightarrow> 's \<Rightarrow> jsstring \<Rightarrow> int \<Rightarrow> 'new
     \<Rightarrow> (atomic_error + commit_result) \<times> 's" where
  "commitAtomicStateValue S C s dataKey expectedVersion v =
     commitAtomicState S C s dataKey expectedVersion (Put dataKey (enc_value C v))"

definition commitAtomicStateDelete ::
    "'s storage \<Rightarrow> ('cur, 'new) codec \<Rightarrow> 's \<Rightarrow> jsstring \<Rightarrow> int
     \<Rightarrow> (atomic_error + commit_result) \<times> 's" where
  "commitAtomicStateDelete S C s dataKey expectedVersion =
     commitAtomicState S C s dataKey expectedVersion (Delete dataKey)"

section \<open>The optimistic mutation loop\<close>

definition ATOMIC_STATE_BASE_DELAY_MS :: nat where "ATOMIC_STATE_BASE_DELAY_MS = 5"
definition ATOMIC_STATE_MAX_DELAY_MS :: nat where "ATOMIC_STATE_MAX_DELAY_MS = 100"

text \<open>The pause before the next attempt; \<open>random\<close> is what \<open>Math.random()\<close> returned.\<close>

definition retryDelay :: "rat \<Rightarrow> nat \<Rightarrow> int" where
  "retryDelay random attempt =
     \<lfloor>random * of_nat (min ATOMIC_STATE_MAX_DELAY_MS (ATOMIC_STATE_BASE_DELAY_MS * 2 ^ attempt))\<rfloor>"

record ('s, 'cur, 'new) atomic_state =
  as_storage :: "'s storage"
  as_codec :: "('cur, 'new) codec"
  as_dataKey :: jsstring
  as_maxRetries :: nat
  as_initial :: "'cur option"

definition newAtomicState ::
    "'s storage \<Rightarrow> ('cur, 'new) codec \<Rightarrow> jsstring \<Rightarrow> nat option \<Rightarrow> 'cur option
     \<Rightarrow> ('s, 'cur, 'new) atomic_state" where
  "newAtomicState S C dataKey maxRetries initial =
     \<lparr>as_storage = S, as_codec = C, as_dataKey = dataKey,
      as_maxRetries = (case maxRetries of Some n \<Rightarrow> n | None \<Rightarrow> 10), as_initial = initial\<rparr>"

text \<open>A change event carries the new value, the previous value and the new version.\<close>

datatype ('cur, 'new) atomic_event =
    ChangeEvent "'new option" "'cur option" int
  | ConflictEvent jsstring nat
  | ExhaustedEvent jsstring nat

record 's interference =
  before_reads :: "'s \<Rightarrow> 's"
  between_reads :: "'s \<Rightarrow> 's"
  before_commit :: "'s \<Rightarrow> 's"

definition quiet :: "'s interference" where
  "quiet = \<lparr>before_reads = id, between_reads = id, before_commit = id\<rparr>"

type_synonym ('s, 'cur, 'new, 'x) mutation =
  "'cur atomic_snapshot \<Rightarrow> 's \<Rightarrow> (atomic_error + commit_result \<times> 'x \<times> 'new option) \<times> 's"

text \<open>
  The loop of \<open>#runOptimisticMutation\<close>: the list gives the interference of each remaining
  attempt, so its length is the number of attempts left.
\<close>

fun runOptimisticMutation ::
    "('s, 'cur, 'new) atomic_state \<Rightarrow> ('s, 'cur, 'new, 'x) mutation \<Rightarrow> nat \<Rightarrow> 's interference list \<Rightarrow> 's
     \<Rightarrow> (atomic_error + 'x) \<times> 's \<times> ('cur, 'new) atomic_event list" where
  "runOptimisticMutation A mutate attempt [] s =
     (Inl (AtomicStateConflictError (as_dataKey A) (as_maxRetries A)), s,
      [ExhaustedEvent (as_dataKey A) (as_maxRetries A)])"
| "runOptimisticMutation A mutate attempt (env # envs) s =
     (let sv = before_reads env s; sn = between_reads env sv; sc = before_commit env sn in
      case readAtomicStateSnapshot (as_storage A) (as_codec A) sv sn (as_dataKey A) (as_initial A) of
        Inl e \<Rightarrow> (Inl e, sc, [])
      | Inr snapshot \<Rightarrow>
          (case mutate snapshot sc of
             (Inl e, s') \<Rightarrow> (Inl e, s', [])
           | (Inr (c, result, eventValue), s') \<Rightarrow>
               if cr_applied c
               then (Inr result, s', [ChangeEvent eventValue (snap_value snapshot) (cr_version c)])
               else case runOptimisticMutation A mutate (Suc attempt) envs s' of
                      (r, s'', evs) \<Rightarrow> (r, s'', ConflictEvent (as_dataKey A) (Suc attempt) # evs)))"

text \<open>
  \<open>update\<close>: the updater also returns what the caller's closure captures (as for the slots of
  \<open>Lock_Record\<close>). \<open>set\<close>, \<open>increment\<close>, \<open>append\<close> and the other helpers are updates.
\<close>

definition updateMutation ::
    "('s, 'cur, 'new) atomic_state \<Rightarrow> ('cur option \<Rightarrow> 'new \<times> 'x) \<Rightarrow> ('s, 'cur, 'new, 'x) mutation" where
  "updateMutation A updater snapshot s =
     (let (v, x) = updater (snap_value snapshot) in
      case commitAtomicStateValue (as_storage A) (as_codec A) s (as_dataKey A) (snap_version snapshot) v of
        (Inl e, s') \<Rightarrow> (Inl e, s')
      | (Inr c, s') \<Rightarrow> (Inr (c, x, Some v), s'))"

definition deleteMutation :: "('s, 'cur, 'new) atomic_state \<Rightarrow> ('s, 'cur, 'new, unit) mutation" where
  "deleteMutation A snapshot s =
     (case commitAtomicStateDelete (as_storage A) (as_codec A) s (as_dataKey A) (snap_version snapshot) of
        (Inl e, s') \<Rightarrow> (Inl e, s')
      | (Inr c, s') \<Rightarrow> (Inr (c, (), None), s'))"

definition atomicGet :: "('s, 'cur, 'new) atomic_state \<Rightarrow> 's \<Rightarrow> 's \<Rightarrow> atomic_error + 'cur option" where
  "atomicGet A sv sn =
     map_sum id snap_value
       (readAtomicStateSnapshot (as_storage A) (as_codec A) sv sn (as_dataKey A) (as_initial A))"

definition attempts :: "('s, 'cur, 'new) atomic_state \<Rightarrow> (nat \<Rightarrow> 's interference) \<Rightarrow> 's interference list" where
  "attempts A env = map env [0..<as_maxRetries A]"

definition atomicUpdate ::
    "('s, 'cur, 'new) atomic_state \<Rightarrow> (nat \<Rightarrow> 's interference) \<Rightarrow> 's \<Rightarrow> ('cur option \<Rightarrow> 'new \<times> 'x)
     \<Rightarrow> (atomic_error + 'x) \<times> 's \<times> ('cur, 'new) atomic_event list" where
  "atomicUpdate A env s updater = runOptimisticMutation A (updateMutation A updater) 0 (attempts A env) s"

definition atomicSet ::
    "('s, 'cur, 'new) atomic_state \<Rightarrow> (nat \<Rightarrow> 's interference) \<Rightarrow> 's \<Rightarrow> 'new
     \<Rightarrow> (atomic_error + 'new) \<times> 's \<times> ('cur, 'new) atomic_event list" where
  "atomicSet A env s v = atomicUpdate A env s (\<lambda>_. (v, v))"

definition atomicDelete ::
    "('s, 'cur, 'new) atomic_state \<Rightarrow> (nat \<Rightarrow> 's interference) \<Rightarrow> 's
     \<Rightarrow> (atomic_error + unit) \<times> 's \<times> ('cur, 'new) atomic_event list" where
  "atomicDelete A env s = runOptimisticMutation A (deleteMutation A) 0 (attempts A env) s"

definition incrementUpdater :: "int \<Rightarrow> int option \<Rightarrow> int \<times> int" where
  "incrementUpdater amount current =
     (let n = (case current of Some c \<Rightarrow> c | None \<Rightarrow> 0) + amount in (n, n))"

definition atomicIncrement ::
    "('s, int, int) atomic_state \<Rightarrow> (nat \<Rightarrow> 's interference) \<Rightarrow> 's \<Rightarrow> int
     \<Rightarrow> (atomic_error + int) \<times> 's \<times> (int, int) atomic_event list" where
  "atomicIncrement A env s amount =
     atomicUpdate A env s (incrementUpdater amount)"

definition atomicAppend ::
    "('s, 'a list, 'a list) atomic_state \<Rightarrow> (nat \<Rightarrow> 's interference) \<Rightarrow> 's \<Rightarrow> 'a
     \<Rightarrow> (atomic_error + 'a list) \<times> 's \<times> ('a list, 'a list) atomic_event list" where
  "atomicAppend A env s item =
     atomicUpdate A env s (\<lambda>current. let n = (case current of Some c \<Rightarrow> c | None \<Rightarrow> []) @ [item] in (n, n))"

definition atomicRemoveFirst ::
    "('s, 'a list, 'a list) atomic_state \<Rightarrow> (nat \<Rightarrow> 's interference) \<Rightarrow> 's
     \<Rightarrow> (atomic_error + 'a option) \<times> 's \<times> ('a list, 'a list) atomic_event list" where
  "atomicRemoveFirst A env s =
     atomicUpdate A env s
       (\<lambda>current. case (case current of Some c \<Rightarrow> c | None \<Rightarrow> []) of [] \<Rightarrow> ([], None) | x # xs \<Rightarrow> (xs, Some x))"

definition atomicRemoveLast ::
    "('s, 'a list, 'a list) atomic_state \<Rightarrow> (nat \<Rightarrow> 's interference) \<Rightarrow> 's
     \<Rightarrow> (atomic_error + 'a option) \<times> 's \<times> ('a list, 'a list) atomic_event list" where
  "atomicRemoveLast A env s =
     atomicUpdate A env s
       (\<lambda>current. let xs = (case current of Some c \<Rightarrow> c | None \<Rightarrow> [])
                  in if xs = [] then ([], None) else (butlast xs, Some (last xs)))"

section \<open>The slot as the other processes keep it\<close>

text \<open>
  \<open>view v\<close> is the decoded form of a value written as \<open>v\<close>.
\<close>

definition codec_ok :: "('cur, 'new) codec \<Rightarrow> ('new \<Rightarrow> 'cur) \<Rightarrow> bool" where
  "codec_ok C view \<longleftrightarrow> (\<forall>v. dec_value C (enc_value C v) = Some (view v))
     \<and> (\<forall>n. dec_version C (enc_version C n) = Some (JNumber (JFin (of_int n))))"

definition slot_version :: "('cur, 'new) codec \<Rightarrow> jsstring \<Rightarrow> store \<Rightarrow> int" where
  "slot_version C k m =
     (case m (atomicStateVersionKey k) of
        None \<Rightarrow> 0
      | Some raw \<Rightarrow> (case decodeAtomicStateVersion C raw k of Inr n \<Rightarrow> n | Inl _ \<Rightarrow> 0))"

definition slot_value :: "('cur, 'new) codec \<Rightarrow> 'cur option \<Rightarrow> jsstring \<Rightarrow> store \<Rightarrow> 'cur option" where
  "slot_value C initial k m =
     (case m k of
        Some raw \<Rightarrow> dec_value C raw
      | None \<Rightarrow> if m (atomicStateVersionKey k) = None then initial else None)"

text \<open>Well-formed: never written, or a positive version; the value, if any, decodes.\<close>

definition slot_wf :: "('cur, 'new) codec \<Rightarrow> jsstring \<Rightarrow> store \<Rightarrow> bool" where
  "slot_wf C k m \<longleftrightarrow>
     (case m (atomicStateVersionKey k) of
        None \<Rightarrow> True
      | Some raw \<Rightarrow> \<exists>n > 0. raw = enc_version C n)
     \<and> (case m k of None \<Rightarrow> True | Some raw \<Rightarrow> dec_value C raw \<noteq> None)"

text \<open>
  What a process may do to the slot: leave it alone, or advance its version. Every commit of
  this module does one of the two (\<open>commit_step\<close>).
\<close>

definition slot_step :: "('cur, 'new) codec \<Rightarrow> jsstring \<Rightarrow> store \<Rightarrow> store \<Rightarrow> bool" where
  "slot_step C k m m' \<longleftrightarrow> slot_wf C k m' \<and>
     (m' k = m k \<and> m' (atomicStateVersionKey k) = m (atomicStateVersionKey k)
      \<or> slot_version C k m < slot_version C k m')"

lemma versionKey_neq [simp]: "atomicStateVersionKey k \<noteq> k" "k \<noteq> atomicStateVersionKey k"
  by (simp_all add: atomicStateVersionKey_def js_def)

lemma decode_version_enc:
  "codec_ok C view \<Longrightarrow> 0 \<le> n \<Longrightarrow> decodeAtomicStateVersion C (enc_version C n) k = Inr n"
  by (simp add: codec_ok_def decodeAtomicStateVersion_def isInteger_def)

lemma slot_version_enc:
  "codec_ok C view \<Longrightarrow> 0 \<le> n \<Longrightarrow> m (atomicStateVersionKey k) = Some (enc_version C n) \<Longrightarrow>
   slot_version C k m = n"
  by (simp add: slot_version_def decode_version_enc)

lemma slot_wf_version:
  assumes "codec_ok C view" and "slot_wf C k m"
  shows "0 \<le> slot_version C k m"
    and "m (atomicStateVersionKey k)
         = (if slot_version C k m = 0 then None else Some (enc_version C (slot_version C k m)))"
  using assms by (auto simp: slot_wf_def slot_version_def decode_version_enc split: option.splits)

lemma slot_step_refl: "slot_wf C k m \<Longrightarrow> slot_step C k m m"
  by (simp add: slot_step_def)

lemma slot_step_version: "slot_step C k m m' \<Longrightarrow> slot_version C k m \<le> slot_version C k m'"
  by (auto simp: slot_step_def slot_version_def)

lemma slot_step_trans:
  "slot_step C k m1 m2 \<Longrightarrow> slot_step C k m2 m3 \<Longrightarrow> slot_step C k m1 m3"
  using slot_step_version [of C k m1 m2] slot_step_version [of C k m2 m3]
  by (auto simp: slot_step_def)

lemma slot_step_same_version:
  "slot_step C k m m' \<Longrightarrow> slot_version C k m = slot_version C k m' \<Longrightarrow>
   m' k = m k \<and> m' (atomicStateVersionKey k) = m (atomicStateVersionKey k)"
  by (auto simp: slot_step_def)

text \<open>
  Well-behaved interference: whatever happens at an awaited point keeps the storage invariant
  and is a \<open>slot_step\<close>. \<open>atomic_reads\<close> says that nothing happens between the two reads.
\<close>

definition well_behaved ::
    "('s \<Rightarrow> bool) \<Rightarrow> ('s \<Rightarrow> store) \<Rightarrow> ('cur, 'new) codec \<Rightarrow> jsstring \<Rightarrow> ('s \<Rightarrow> 's) \<Rightarrow> bool" where
  "well_behaved okst contents C k f \<longleftrightarrow>
     (\<forall>s. okst s \<longrightarrow> slot_wf C k (contents s) \<longrightarrow> okst (f s) \<and> slot_step C k (contents s) (contents (f s)))"

lemma well_behavedD:
  "well_behaved okst contents C k f \<Longrightarrow> okst s \<Longrightarrow> slot_wf C k (contents s) \<Longrightarrow>
   okst (f s) \<and> slot_step C k (contents s) (contents (f s))"
  by (simp add: well_behaved_def)

definition interference_ok ::
    "('s \<Rightarrow> bool) \<Rightarrow> ('s \<Rightarrow> store) \<Rightarrow> ('cur, 'new) codec \<Rightarrow> jsstring \<Rightarrow> 's interference \<Rightarrow> bool" where
  "interference_ok okst contents C k e \<longleftrightarrow>
     well_behaved okst contents C k (before_reads e) \<and> well_behaved okst contents C k (before_commit e)"

definition atomic_reads :: "'s interference \<Rightarrow> bool" where
  "atomic_reads e \<longleftrightarrow> between_reads e = id"

definition committed ::
    "('cur, 'new) codec \<Rightarrow> jsstring \<Rightarrow> store \<Rightarrow> batch_operation \<Rightarrow> store" where
  "committed C k m op =
     (apply_operation op m)(atomicStateVersionKey k \<mapsto> enc_version C (slot_version C k m + 1))"

lemma committed_step:
  assumes "codec_ok C view" and "slot_wf C k m" and "op = Put k (enc_value C v) \<or> op = Delete k"
  shows "slot_step C k m (committed C k m op)"
    and "slot_version C k (committed C k m op) = slot_version C k m + 1"
proof -
  have v: "0 \<le> slot_version C k m" by (rule slot_wf_version [OF assms(1,2)])
  then show ver: "slot_version C k (committed C k m op) = slot_version C k m + 1"
    by (intro slot_version_enc [OF assms(1)]) (simp_all add: committed_def)
  have "slot_wf C k (committed C k m op)"
    using assms v by (auto simp: slot_wf_def committed_def codec_ok_def intro!: exI [of _ "slot_version C k m + 1"])
  with ver show "slot_step C k m (committed C k m op)" by (simp add: slot_step_def)
qed

text \<open>
  The store at the commit of attempt \<open>i\<close> when no earlier attempt committed: \<open>s\<close> changed by the
  interference of the attempts up to \<open>i\<close> and by nothing else.
\<close>

fun storeAtCommit :: "'s interference list \<Rightarrow> nat \<Rightarrow> 's \<Rightarrow> 's" where
  "storeAtCommit [] i s = s"
| "storeAtCommit (e # es) i s =
     (let sc = before_commit e (between_reads e (before_reads e s)) in
      case i of 0 \<Rightarrow> sc | Suc j \<Rightarrow> storeAtCommit es j sc)"

context cas_storage_spec
begin

lemma read_atomic:
  assumes "codec_ok C view" and "invar s" and "slot_wf C k (contents s)"
  shows "readAtomicStateSnapshot S C s s k initial
         = Inr \<lparr>snap_value = slot_value C initial k (contents s), snap_version = slot_version C k (contents s)\<rparr>"
  using assms
  by (auto simp: readAtomicStateSnapshot_def get_spec slot_value_def slot_version_def slot_wf_def
      decode_version_enc split: option.splits)

lemma commit_cas:
  assumes "codec_ok C view" and "invar s" and "slot_wf C k (contents s)" and "0 \<le> n"
  shows "\<exists>s'. commitAtomicState S C s k n op
            = (Inr \<lparr>cr_applied = (slot_version C k (contents s) = n),
                    cr_version = (if slot_version C k (contents s) = n then n + 1 else n)\<rparr>, s')
          \<and> invar s' \<and> (if slot_version C k (contents s) = n
               then contents s' = committed C k (contents s) op else s' = s)"
proof -
  let ?m = "contents s"
  have eq: "?m (atomicStateVersionKey k) = (if n = 0 then None else Some (enc_version C n))
      \<longleftrightarrow> slot_version C k ?m = n"
  proof
    assume "?m (atomicStateVersionKey k) = (if n = 0 then None else Some (enc_version C n))"
    then show "slot_version C k ?m = n"
      using slot_version_enc [OF assms(1,4), of ?m k]
      by (cases "n = 0") (simp_all add: slot_version_def)
  qed (use slot_wf_version(2) [OF assms(1,3)] in simp)
  have "length [versionCondition C k n] \<le> MAX_BATCH_OPERATIONS"
    "length [op, Put (atomicStateVersionKey k) (enc_version C (n + 1))] \<le> MAX_BATCH_OPERATIONS"
    by (simp_all add: MAX_BATCH_OPERATIONS_def)
  from conditional_batch [OF assms(2) this] show ?thesis
    using cas_capability eq
    by (auto simp: commitAtomicState_def requireStorageCapability_def conditions_hold_def
        versionCondition_def committed_def Let_def split: if_splits)
qed

text \<open>
  An optimistic mutation built from one commit: if it returns a value at attempt \<open>i\<close>, the
  earlier attempts only reported conflicts and the commit took effect on the very store the
  others left behind at that instant, computed from the value current in it; if it does not,
  it reports exhaustion; in both cases the slot only moved forward.
\<close>

lemma mutation_linearizable:
  assumes A: "as_storage A = S" and C: "codec_ok (as_codec A) view"
    and mut: "\<And>snap s. mutate snap s =
        (case commitAtomicState S (as_codec A) s (as_dataKey A) (snap_version snap) (oper (snap_value snap)) of
           (Inl e, s') \<Rightarrow> (Inl e, s') | (Inr c, s') \<Rightarrow> (Inr (c, res (snap_value snap), ev (snap_value snap)), s'))"
    and oper: "\<And>v. (\<exists>w. oper v = Put (as_dataKey A) (enc_value (as_codec A) w)) \<or> oper v = Delete (as_dataKey A)"
    and envs: "list_all (\<lambda>e. interference_ok invar contents (as_codec A) (as_dataKey A) e \<and> atomic_reads e) envs"
    and inv: "invar s" "slot_wf (as_codec A) (as_dataKey A) (contents s)"
  shows "\<exists>r s' evs. runOptimisticMutation A mutate n envs s = (r, s', evs) \<and> invar s'
      \<and> slot_step (as_codec A) (as_dataKey A) (contents s) (contents s')
      \<and> (case r of
           Inr x \<Rightarrow> \<exists>i sc v. i < length envs \<and> sc = storeAtCommit envs i s
               \<and> v = slot_value (as_codec A) (as_initial A) (as_dataKey A) (contents sc)
               \<and> x = res v
               \<and> contents s' = committed (as_codec A) (as_dataKey A) (contents sc) (oper v)
               \<and> evs = map (\<lambda>j. ConflictEvent (as_dataKey A) (Suc (n + j))) [0..<i]
                   @ [ChangeEvent (ev v) v (slot_version (as_codec A) (as_dataKey A) (contents sc) + 1)]
         | Inl e \<Rightarrow> e = AtomicStateConflictError (as_dataKey A) (as_maxRetries A)
               \<and> list_all (\<lambda>e. before_commit e \<noteq> id) envs)"
  using envs inv
proof (induction envs arbitrary: s n)
  case Nil
  then show ?case by (simp add: slot_step_refl)
next
  case (Cons e envs)
  let ?C = "as_codec A" and ?k = "as_dataKey A"
  define sv where "sv = before_reads e s"
  define sc where "sc = before_commit e sv"
  let ?v = "slot_value ?C (as_initial A) ?k (contents sv)"
  let ?n = "slot_version ?C ?k (contents sv)"
  have e: "between_reads e sv = sv" "well_behaved invar contents ?C ?k (before_reads e)"
    "well_behaved invar contents ?C ?k (before_commit e)"
    using Cons.prems(1) by (simp_all add: interference_ok_def atomic_reads_def)
  have sv: "invar sv" "slot_step ?C ?k (contents s) (contents sv)"
    using e(2) Cons.prems(2,3) by (simp_all add: well_behaved_def sv_def)
  then have wf: "slot_wf ?C ?k (contents sv)" by (simp add: slot_step_def)
  have sc: "invar sc" "slot_step ?C ?k (contents sv) (contents sc)"
    using e(3) sv(1) wf by (simp_all add: well_behaved_def sc_def)
  then have wfc: "slot_wf ?C ?k (contents sc)" by (simp add: slot_step_def)
  have s_sc: "slot_step ?C ?k (contents s) (contents sc)"
    by (rule slot_step_trans [OF sv(2) sc(2)])
  have store0: "storeAtCommit (e # envs) 0 s = sc"
    and store_Suc: "\<And>j. storeAtCommit (e # envs) (Suc j) s = storeAtCommit envs j sc"
    by (simp_all add: e(1) flip: sv_def sc_def)
  obtain s1 where s1: "commitAtomicState S ?C sc ?k ?n (oper ?v)
      = (Inr \<lparr>cr_applied = (slot_version ?C ?k (contents sc) = ?n),
              cr_version = (if slot_version ?C ?k (contents sc) = ?n then ?n + 1 else ?n)\<rparr>, s1)"
    "invar s1" "if slot_version ?C ?k (contents sc) = ?n
      then contents s1 = committed ?C ?k (contents sc) (oper ?v) else s1 = sc"
    using commit_cas [OF C sc(1) wfc slot_wf_version(1) [OF C wf]] by blast
  have m: "mutate \<lparr>snap_value = ?v, snap_version = ?n\<rparr> sc
      = (Inr (\<lparr>cr_applied = (slot_version ?C ?k (contents sc) = ?n),
               cr_version = (if slot_version ?C ?k (contents sc) = ?n then ?n + 1 else ?n)\<rparr>, res ?v, ev ?v), s1)"
    by (simp add: mut s1(1))
  have run: "runOptimisticMutation A mutate n (e # envs) s
      = (if slot_version ?C ?k (contents sc) = ?n then (Inr (res ?v), s1, [ChangeEvent (ev ?v) ?v (?n + 1)])
         else case runOptimisticMutation A mutate (Suc n) envs s1 of
                (r, s'', evs) \<Rightarrow> (r, s'', ConflictEvent ?k (Suc n) # evs))"
    using m by (simp add: A e(1) read_atomic [OF C sv(1) wf] Let_def flip: sv_def sc_def)
  show ?case
  proof (cases "slot_version ?C ?k (contents sc) = ?n")
    case True
    then have same: "slot_value ?C (as_initial A) ?k (contents sc) = ?v"
      using slot_step_same_version [OF sc(2)] unfolding slot_value_def by (metis (no_types, lifting))
    have "slot_step ?C ?k (contents sc) (contents s1)"
      using s1(3) True oper [of ?v] committed_step(1) [OF C wfc] by auto
    with slot_step_trans [OF s_sc this] s1 True same store0 show ?thesis
      by (auto simp: run simp del: runOptimisticMutation.simps storeAtCommit.simps intro!: exI [of _ 0])
  next
    case False
    then have "sc \<noteq> sv" by auto
    then have "before_commit e \<noteq> id" by (auto simp: sc_def)
    moreover from False s1 have "s1 = sc" by simp
    moreover have envs: "list_all (\<lambda>e. interference_ok invar contents ?C ?k e \<and> atomic_reads e) envs"
      using Cons.prems(1) by simp
    moreover obtain r s' evs where ih: "runOptimisticMutation A mutate (Suc n) envs sc = (r, s', evs)"
      "invar s'" "slot_step ?C ?k (contents sc) (contents s')"
      "case r of
           Inr x \<Rightarrow> \<exists>i sc' v. i < length envs \<and> sc' = storeAtCommit envs i sc
               \<and> v = slot_value ?C (as_initial A) ?k (contents sc') \<and> x = res v
               \<and> contents s' = committed ?C ?k (contents sc') (oper v)
               \<and> evs = map (\<lambda>j. ConflictEvent ?k (Suc (Suc n + j))) [0..<i]
                   @ [ChangeEvent (ev v) v (slot_version ?C ?k (contents sc') + 1)]
         | Inl e \<Rightarrow> e = AtomicStateConflictError ?k (as_maxRetries A)
               \<and> list_all (\<lambda>e. before_commit e \<noteq> id) envs"
      using Cons.IH [OF envs sc(1) wfc, of "Suc n"] by blast
    ultimately have out: "runOptimisticMutation A mutate n (e # envs) s
        = (r, s', ConflictEvent ?k (Suc n) # evs)" "before_commit e \<noteq> id"
      using False by (simp_all add: run del: runOptimisticMutation.simps)
    show ?thesis
    proof (cases r)
      case (Inl err)
      with ih out slot_step_trans [OF s_sc ih(3)] show ?thesis by simp
    next
      case (Inr x)
      with ih(4) obtain i where "i < length envs"
        "x = res (slot_value ?C (as_initial A) ?k (contents (storeAtCommit envs i sc)))"
        "contents s' = committed ?C ?k (contents (storeAtCommit envs i sc))
           (oper (slot_value ?C (as_initial A) ?k (contents (storeAtCommit envs i sc))))"
        "evs = map (\<lambda>j. ConflictEvent ?k (Suc (Suc n + j))) [0..<i]
           @ [ChangeEvent (ev (slot_value ?C (as_initial A) ?k (contents (storeAtCommit envs i sc))))
                (slot_value ?C (as_initial A) ?k (contents (storeAtCommit envs i sc)))
                (slot_version ?C ?k (contents (storeAtCommit envs i sc)) + 1)]"
        by auto
      with Inr ih(2) out slot_step_trans [OF s_sc ih(3)] show ?thesis
        by (auto simp: store_Suc map_upt_Suc simp del: storeAtCommit.simps upt_Suc
            runOptimisticMutation.simps intro!: exI [of _ "Suc i"])
    qed
  qed
qed

end

lemma updateMutation_commit:
  "updateMutation A upd snap s =
     (case commitAtomicState (as_storage A) (as_codec A) s (as_dataKey A) (snap_version snap)
             (Put (as_dataKey A) (enc_value (as_codec A) (fst (upd (snap_value snap))))) of
        (Inl e, s') \<Rightarrow> (Inl e, s')
      | (Inr c, s') \<Rightarrow> (Inr (c, snd (upd (snap_value snap)), Some (fst (upd (snap_value snap)))), s'))"
  by (simp add: updateMutation_def commitAtomicStateValue_def split_beta)

context cas_storage_spec
begin

lemma update_linearizable:
  assumes A: "as_storage A = S" and C: "codec_ok (as_codec A) view"
    and envs: "\<And>i. interference_ok invar contents (as_codec A) (as_dataKey A) (env i) \<and> atomic_reads (env i)"
    and inv: "invar s" "slot_wf (as_codec A) (as_dataKey A) (contents s)"
  shows "\<exists>r s' evs. atomicUpdate A env s upd = (r, s', evs) \<and> invar s'
      \<and> slot_step (as_codec A) (as_dataKey A) (contents s) (contents s')
      \<and> (case r of
           Inr x \<Rightarrow> \<exists>i sc v. i < length (attempts A env) \<and> sc = storeAtCommit (attempts A env) i s
               \<and> v = slot_value (as_codec A) (as_initial A) (as_dataKey A) (contents sc)
               \<and> x = snd (upd v)
               \<and> contents s' = committed (as_codec A) (as_dataKey A) (contents sc)
                    (Put (as_dataKey A) (enc_value (as_codec A) (fst (upd v))))
               \<and> evs = map (\<lambda>j. ConflictEvent (as_dataKey A) (Suc (0 + j))) [0..<i]
                   @ [ChangeEvent (Some (fst (upd v))) v
                        (slot_version (as_codec A) (as_dataKey A) (contents sc) + 1)]
         | Inl e \<Rightarrow> e = AtomicStateConflictError (as_dataKey A) (as_maxRetries A)
               \<and> (\<forall>i < as_maxRetries A. before_commit (env i) \<noteq> id))"
proof -
  have "list_all (\<lambda>e. interference_ok invar contents (as_codec A) (as_dataKey A) e \<and> atomic_reads e) (attempts A env)"
    using envs by (simp add: attempts_def list_all_iff)
  note envs' = this
  have all: "list_all (\<lambda>e. before_commit e \<noteq> id) (attempts A env)
      \<longleftrightarrow> (\<forall>i < as_maxRetries A. before_commit (env i) \<noteq> id)"
    by (auto simp: attempts_def list_all_iff)
  show ?thesis
    unfolding atomicUpdate_def all [symmetric]
    by (rule mutation_linearizable [where mutate = "updateMutation A upd" and ev = "\<lambda>v. Some (fst (upd v))"
          and oper = "\<lambda>v. Put (as_dataKey A) (enc_value (as_codec A) (fst (upd v)))"
          and res = "\<lambda>v. snd (upd v)", OF A C _ _ envs' inv])
      (auto simp: updateMutation_commit A)
qed

text \<open>Hence a mutation by another process is itself well-behaved interference.\<close>

lemma update_well_behaved:
  assumes "as_storage A = S" and "codec_ok (as_codec A) view"
    and "\<And>i. interference_ok invar contents (as_codec A) (as_dataKey A) (env i) \<and> atomic_reads (env i)"
  shows "well_behaved invar contents (as_codec A) (as_dataKey A) (\<lambda>s. fst (snd (atomicUpdate A env s upd)))"
  unfolding well_behaved_def
proof (intro allI impI)
  fix s assume "invar s" "slot_wf (as_codec A) (as_dataKey A) (contents s)"
  from update_linearizable [where env = env and upd = upd, OF assms this]
  show "invar (fst (snd (atomicUpdate A env s upd)))
      \<and> slot_step (as_codec A) (as_dataKey A) (contents s) (contents (fst (snd (atomicUpdate A env s upd))))"
    by auto
qed

text \<open>
  A commit of another process between the two reads of the first attempt goes unnoticed: the
  version read is the one after it, the value read the one before it.
\<close>

lemma torn_update:
  assumes A: "as_storage A = S" and C: "codec_ok (as_codec A) view" and "0 < as_maxRetries A"
    and env: "env 0 = quiet\<lparr>between_reads := w\<rparr>"
    and w: "well_behaved invar contents (as_codec A) (as_dataKey A) w"
    and inv: "invar s" "slot_wf (as_codec A) (as_dataKey A) (contents s)"
    and adv: "slot_version (as_codec A) (as_dataKey A) (contents s)
                < slot_version (as_codec A) (as_dataKey A) (contents (w s))"
    and v: "v = Option.bind (contents s (as_dataKey A)) (dec_value (as_codec A))"
  shows "\<exists>s'. atomicUpdate A env s upd = (Inr (snd (upd v)), s', [ChangeEvent (Some (fst (upd v))) v
              (slot_version (as_codec A) (as_dataKey A) (contents (w s)) + 1)])
      \<and> contents s' = committed (as_codec A) (as_dataKey A) (contents (w s))
           (Put (as_dataKey A) (enc_value (as_codec A) (fst (upd v))))"
proof -
  let ?C = "as_codec A" and ?k = "as_dataKey A"
  let ?n = "slot_version ?C ?k (contents (w s))"
  have ws: "invar (w s)" "slot_wf ?C ?k (contents (w s))"
    using well_behavedD [OF w inv] by (auto simp: slot_step_def)
  have "?n \<noteq> 0" using adv slot_wf_version(1) [OF C inv(2)] by simp
  then have "contents (w s) (atomicStateVersionKey ?k) = Some (enc_version ?C ?n)" and "0 \<le> ?n"
    using slot_wf_version [OF C ws(2)] by simp_all
  then have rd: "readAtomicStateSnapshot S ?C s (w s) ?k (as_initial A)
      = Inr \<lparr>snap_value = v, snap_version = ?n\<rparr>"
    using inv ws C
    by (auto simp: readAtomicStateSnapshot_def get_spec slot_wf_def decode_version_enc v split: option.splits)
  obtain s' where s': "commitAtomicState S ?C (w s) ?k ?n (Put ?k (enc_value ?C (fst (upd v))))
      = (Inr \<lparr>cr_applied = True, cr_version = ?n + 1\<rparr>, s')"
    "contents s' = committed ?C ?k (contents (w s)) (Put ?k (enc_value ?C (fst (upd v))))"
    using commit_cas [OF C ws \<open>0 \<le> ?n\<close>, of "Put ?k (enc_value ?C (fst (upd v)))"] by auto
  obtain m where "as_maxRetries A = Suc m" using assms(3) by (cases "as_maxRetries A") auto
  then have "attempts A env = env 0 # map (\<lambda>i. env (Suc i)) [0..<m]"
    by (simp add: attempts_def map_upt_Suc del: upt_Suc)
  with rd s' show ?thesis
    by (simp add: atomicUpdate_def env quiet_def A updateMutation_commit)
qed

lemma quiet_ok: "interference_ok invar contents C k quiet \<and> atomic_reads quiet"
  by (simp add: interference_ok_def well_behaved_def quiet_def atomic_reads_def slot_step_refl)

end

section \<open>A concrete codec\<close>

text \<open>Numbers in unary after a sign byte: an instance on which \<open>codec_ok\<close> holds.\<close>

definition unaryEncode :: "int \<Rightarrow> bytes" where
  "unaryEncode n = (if n < 0 then 1 else 0) # replicate (nat \<bar>n\<bar>) 0"

definition unaryDecode :: "bytes \<Rightarrow> int option" where
  "unaryDecode b =
     (case b of [] \<Rightarrow> None | c # r \<Rightarrow> Some (if c = 1 then - int (length r) else int (length r)))"

definition unaryCodec :: "(int, int) codec" where
  "unaryCodec = \<lparr>enc_value = unaryEncode, dec_value = unaryDecode, enc_version = unaryEncode,
     dec_version = (\<lambda>b. map_option (\<lambda>n. JNumber (JFin (of_int n))) (unaryDecode b))\<rparr>"

lemma unary_roundtrip [simp]: "unaryDecode (unaryEncode n) = Some n"
  by (simp add: unaryDecode_def unaryEncode_def)

lemma unaryCodec_ok: "codec_ok unaryCodec id"
  by (simp add: codec_ok_def unaryCodec_def)

lemma slot_wf_unwritten: "m k = None \<Longrightarrow> m (atomicStateVersionKey k) = None \<Longrightarrow> slot_wf C k m"
  by (simp add: slot_wf_def)

text \<open>
  Two contenders for one counter: the second commits its increment while the first, on its
  first attempt, is between its reads and its commit (\<open>contended\<close>), or between its two reads
  (\<open>torn\<close>).
\<close>

definition counter :: "(memory_storage, int, int) atomic_state" where
  "counter = newAtomicState memoryStorage unaryCodec [107] None (Some 0)"

definition rival :: "memory_storage \<Rightarrow> memory_storage" where
  "rival s = fst (snd (atomicIncrement counter (\<lambda>_. quiet) s 1))"

definition contended :: "nat \<Rightarrow> memory_storage interference" where
  "contended i = (if i = 0 then quiet\<lparr>before_commit := rival\<rparr> else quiet)"

definition torn :: "nat \<Rightarrow> memory_storage interference" where
  "torn i = (if i = 0 then quiet\<lparr>between_reads := rival\<rparr> else quiet)"

text \<open>The store after the counter was written: its value and its version.\<close>

definition counter_state :: "int \<Rightarrow> int \<Rightarrow> memory_storage" where
  "counter_state v n =
     \<lparr>mem_data = [([107], unaryEncode v), (atomicStateVersionKey [107], unaryEncode n)]\<rparr>"

lemma counter_simps [simp]:
  "as_storage counter = memoryStorage" "as_codec counter = unaryCodec" "as_dataKey counter = [107]"
  "as_maxRetries counter = 10" "as_initial counter = Some 0"
  by (simp_all add: counter_def newAtomicState_def)

lemma unaryCodec_enc [simp]: "enc_value unaryCodec = unaryEncode" "enc_version unaryCodec = unaryEncode"
  "dec_value unaryCodec = unaryDecode"
  by (simp_all add: unaryCodec_def)

lemma counter_state_ok:
  "0 < n \<Longrightarrow> memory_invar (counter_state v n) \<and> slot_wf unaryCodec [107] (memory_contents (counter_state v n))"
  by (auto simp: counter_state_def memory_invar_def memory_contents_def slot_wf_def intro!: exI [of _ n])

lemma rival_well_behaved: "well_behaved memory_invar memory_contents unaryCodec [107] rival"
  using mem_cas.update_well_behaved [of counter id "\<lambda>_. quiet" "incrementUpdater 1"]
    mem_cas.quiet_ok [of unaryCodec "[107]"]
  by (simp add: rival_def [abs_def] atomicIncrement_def unaryCodec_ok)

lemma contended_ok:
  "interference_ok memory_invar memory_contents unaryCodec [107] (contended i) \<and> atomic_reads (contended i)"
proof -
  have "well_behaved memory_invar memory_contents unaryCodec [107] id"
    using mem_cas.quiet_ok [of unaryCodec "[107]"] by (auto simp: interference_ok_def quiet_def)
  then show ?thesis
    using rival_well_behaved
    by (auto simp: contended_def interference_ok_def quiet_def atomic_reads_def)
qed

lemma contended_later: "before_commit (contended 2) = id"
  by (simp add: contended_def quiet_def)

lemma empty_invar: "memory_invar newMemoryStorage"
  by (simp add: newMemoryStorage_def memory_invar_def)

lemma empty_slot_wf [simp]: "slot_wf C k Map.empty"
  by (simp add: slot_wf_unwritten)

section \<open>Properties\<close>

text \<open>
  C3: no lost updates. Let the other processes do anything to the in-memory storage before the
  reads of each attempt and between its reads and its commit, as long as they write the slot
  only through version-advancing commits, and let no write separate the two reads of an
  attempt. A successful \<open>update\<close> then commits at some attempt \<open>i\<close>, and with \<open>sc\<close> the very store
  the others have left behind at the instant of that commit (\<open>storeAtCommit\<close>) it stores the
  updater applied to the value current in \<open>sc\<close>, advances the version of \<open>sc\<close> by one, leaves
  every other key as in \<open>sc\<close>, and reports \<open>i\<close> conflicts followed by that change.
\<close>

theorem atomic_update_linearizable:
  assumes "as_storage A = memoryStorage" and "codec_ok (as_codec A) view"
    and "\<And>i. interference_ok memory_invar memory_contents (as_codec A) (as_dataKey A) (env i)"
    and "\<And>i. atomic_reads (env i)"
    and "memory_invar s" and "slot_wf (as_codec A) (as_dataKey A) (memory_contents s)"
    and "atomicUpdate A env s upd = (Inr x, s', evs)"
  shows "\<exists>i sc v n. i < as_maxRetries A \<and> sc = memory_contents (storeAtCommit (attempts A env) i s)
     \<and> v = slot_value (as_codec A) (as_initial A) (as_dataKey A) sc
     \<and> n = slot_version (as_codec A) (as_dataKey A) sc + 1
     \<and> x = snd (upd v)
     \<and> memory_contents s' = sc
         (as_dataKey A \<mapsto> enc_value (as_codec A) (fst (upd v)),
          atomicStateVersionKey (as_dataKey A) \<mapsto> enc_version (as_codec A) n)
     \<and> evs = map (\<lambda>j. ConflictEvent (as_dataKey A) (Suc j)) [0..<i] @ [ChangeEvent (Some (fst (upd v))) v n]"
  using mem_cas.update_linearizable
    [where env = env and upd = upd, OF assms(1,2) conjI [OF assms(3,4)] assms(5,6)] assms(7)
  by (auto simp: committed_def attempts_def)

text \<open>
  At the contended counter: the rival's increment lands before the commit of the first attempt,
  the second attempt commits on top of it.
\<close>

theorem atomic_update_linearizable_witness:
  "\<exists>s' evs. atomicUpdate counter contended newMemoryStorage (incrementUpdater 1) = (Inr 2, s', evs)
     \<and> (\<exists>i sc v n. i < 10 \<and> sc = memory_contents (storeAtCommit (attempts counter contended) i newMemoryStorage)
     \<and> v = slot_value unaryCodec (Some 0) [107] sc \<and> n = slot_version unaryCodec [107] sc + 1
     \<and> 2 = snd (incrementUpdater 1 v)
     \<and> memory_contents s' = sc
         ([107] \<mapsto> unaryEncode (fst (incrementUpdater 1 v)), atomicStateVersionKey [107] \<mapsto> unaryEncode n)
     \<and> evs = map (\<lambda>j. ConflictEvent [107] (Suc j)) [0..<i]
         @ [ChangeEvent (Some (fst (incrementUpdater 1 v))) v n])"
proof -
  have "fst (atomicUpdate counter contended newMemoryStorage (incrementUpdater 1)) = Inr 2" by code_simp
  then obtain s' evs where run:
    "atomicUpdate counter contended newMemoryStorage (incrementUpdater 1) = (Inr 2, s', evs)"
    by (metis prod.collapse)
  have "codec_ok (as_codec counter) id" by (simp add: unaryCodec_ok)
  from atomic_update_linearizable [OF _ this _ _ _ _ run] contended_ok empty_slot_wf
  have "\<exists>i sc v n. i < 10 \<and> sc = memory_contents (storeAtCommit (attempts counter contended) i newMemoryStorage)
     \<and> v = slot_value unaryCodec (Some 0) [107] sc \<and> n = slot_version unaryCodec [107] sc + 1
     \<and> 2 = snd (incrementUpdater 1 v)
     \<and> memory_contents s' = sc
         ([107] \<mapsto> unaryEncode (fst (incrementUpdater 1 v)), atomicStateVersionKey [107] \<mapsto> unaryEncode n)
     \<and> evs = map (\<lambda>j. ConflictEvent [107] (Suc j)) [0..<i]
         @ [ChangeEvent (Some (fst (incrementUpdater 1 v))) v n]"
    by (simp add: empty_invar)
  with run show ?thesis by blast
qed

text \<open>
  An \<open>update\<close> makes progress: if on one of its attempts no other process commits between
  the reads and the commit, it returns a value rather than \<open>AtomicStateConflictError\<close>.
\<close>

lemma atomic_update_progress:
  assumes "as_storage A = memoryStorage" and "codec_ok (as_codec A) view"
    and "\<And>i. interference_ok memory_invar memory_contents (as_codec A) (as_dataKey A) (env i)"
    and "\<And>i. atomic_reads (env i)"
    and "memory_invar s" and "slot_wf (as_codec A) (as_dataKey A) (memory_contents s)"
    and "i < as_maxRetries A" and "before_commit (env i) = id"
  shows "\<exists>x s' evs. atomicUpdate A env s upd = (Inr x, s', evs)"
proof (cases "fst (atomicUpdate A env s upd)")
  case (Inl e)
  then have "\<forall>i < as_maxRetries A. before_commit (env i) \<noteq> id"
    using mem_cas.update_linearizable
      [where env = env and upd = upd, OF assms(1,2) conjI [OF assms(3,4)] assms(5,6)]
    by auto
  with assms(7,8) show ?thesis by auto
next
  case (Inr x)
  then show ?thesis by (metis prod.collapse)
qed

text \<open>
  A stale writer cannot overwrite. Once the slot's version differs from the version a
  process read, its commit of a value or of a delete is not applied and changes nothing; a
  commit at the current version is applied and advances the version by exactly one.
\<close>

lemma stale_commit_rejected:
  assumes "codec_ok C view" and "memory_invar s" and "slot_wf C k (memory_contents s)" and "0 \<le> n"
  shows "case commitAtomicStateValue memoryStorage C s k n v of
           (Inr c, s') \<Rightarrow> if slot_version C k (memory_contents s) = n
              then cr_applied c \<and> slot_version C k (memory_contents s') = n + 1
                 \<and> slot_value C initial k (memory_contents s') = Some (view v)
              else \<not> cr_applied c \<and> s' = s
         | _ \<Rightarrow> False"
proof -
  let ?op = "Put k (enc_value C v)"
  have "slot_value C initial k (committed C k (memory_contents s) ?op) = Some (view v)"
    using assms(1) by (simp add: slot_value_def committed_def codec_ok_def)
  with mem_cas.commit_cas [OF assms, of ?op] committed_step(2) [OF assms(1,3), of ?op v]
  show ?thesis by (auto simp: commitAtomicStateValue_def)
qed

text \<open>
  C35: the hypothesis on the reads cannot be dropped. \<open>readAtomicStateSnapshot\<close> issues the two
  \<open>get\<close> calls together and nothing ties their answers to one instant. On any storage that keeps
  the compare-and-swap contract, let another process \<open>w\<close> commit to the slot after the value was
  read and before the version was read. The update then succeeds at its first attempt and
  stores the updater applied to the value from before \<open>w\<close>, over the value \<open>w\<close> wrote, under the
  version after the one \<open>w\<close> wrote: the commit of \<open>w\<close> is lost and nobody is told. This needs a
  storage that serves reads asynchronously, such as the database adapters; \<open>MemoryStorage\<close>
  answers both reads in one turn of the event loop.
\<close>

theorem torn_read_loses_update:
  assumes "cas_storage_spec (as_storage A) invar contents cb" and "codec_ok (as_codec A) view"
    and "0 < as_maxRetries A" and "env 0 = quiet\<lparr>between_reads := w\<rparr>"
    and "well_behaved invar contents (as_codec A) (as_dataKey A) w"
    and "invar s" and "slot_wf (as_codec A) (as_dataKey A) (contents s)"
    and "slot_version (as_codec A) (as_dataKey A) (contents s)
           < slot_version (as_codec A) (as_dataKey A) (contents (w s))"
    and "contents s (as_dataKey A) = Some raw" and "dec_value (as_codec A) raw = Some v"
  shows "\<exists>s'. atomicUpdate A env s upd = (Inr (snd (upd (Some v))), s',
            [ChangeEvent (Some (fst (upd (Some v)))) (Some v)
               (slot_version (as_codec A) (as_dataKey A) (contents (w s)) + 1)])
     \<and> contents s' = (contents (w s))
          (as_dataKey A \<mapsto> enc_value (as_codec A) (fst (upd (Some v))),
           atomicStateVersionKey (as_dataKey A) \<mapsto> enc_version (as_codec A)
             (slot_version (as_codec A) (as_dataKey A) (contents (w s)) + 1))"
  using cas_storage_spec.torn_update [where upd = upd and env = env, OF assms(1) refl assms(2-8) refl] assms(9,10)
  by (simp add: committed_def)

text \<open>
  Two increments of a counter at 5 both succeed and leave it at 6: the contract of the storage
  is instantiated by the in-memory model, its two reads taken apart.
\<close>

theorem torn_read_loses_update_witness:
  "\<exists>s'. atomicUpdate counter torn (counter_state 5 1) (incrementUpdater 1)
          = (Inr 6, s', [ChangeEvent (Some 6) (Some 5) 3])
     \<and> memory_contents s' = (memory_contents (counter_state 6 2))
          ([107] \<mapsto> unaryEncode 6, atomicStateVersionKey [107] \<mapsto> unaryEncode 3)"
proof -
  have rival: "rival (counter_state 5 1) = counter_state 6 2" by code_simp
  have vs: "slot_version unaryCodec [107] (memory_contents (counter_state 5 1)) = 1"
    "slot_version unaryCodec [107] (memory_contents (counter_state 6 2)) = 2" by code_simp+
  have raw: "memory_contents (counter_state 5 1) [107] = Some (unaryEncode 5)"
    by (simp add: counter_state_def memory_contents_def)
  have upd: "incrementUpdater 1 (Some 5) = (6, 6)" by code_simp
  have torn0: "torn 0 = quiet\<lparr>between_reads := rival\<rparr>" by (simp add: torn_def)
  have cas: "cas_storage_spec (as_storage counter) memory_invar memory_contents memory_conditionalBatch"
    using mem_cas.cas_storage_spec_axioms by simp
  have ok: "codec_ok (as_codec counter) id" by (simp add: unaryCodec_ok)
  show ?thesis
    using torn_read_loses_update [where env = torn and w = rival and s = "counter_state 5 1"
        and upd = "incrementUpdater 1" and raw = "unaryEncode 5" and v = 5, OF cas ok]
      rival_well_behaved counter_state_ok [of 1 5]
    by (simp add: rival vs raw upd torn0)
qed

end
