(* ===== verification/Lease.thy ===== *)
theory Lease
  imports Memory_Storage Storage_Keys
begin

text \<open>
  Lease-fenced single-writer ownership: \<open>src/src/core/engine/lease-codec.ts\<close>,
  \<open>lease-manager.ts\<close>, \<open>lease-health.ts\<close>, \<open>lease-deposition.ts\<close> and \<open>fenced-write.ts\<close>.

  An instance keeps the state of its lease manager and its \<open>deposed\<close> flag; all instances share
  one store with the keys \<open>lease:epoch\<close> and \<open>lease:holder\<close>. Every call that awaits the storage
  takes the state of the store it is served at, so that the calls of several instances can be
  interleaved. Clock readings are arguments.

  The holder record is stored as JSON text. \<open>JSON.stringify\<close> of a holder record and \<open>JSON.parse\<close>
  are a parameter (\<open>None\<close> for a parse error); the safety results do not depend on it, the
  results on live leases and handoff use \<open>json_ok\<close>, the round trip of holder records.
\<close>

section \<open>Codecs\<close>

text \<open>\<open>DataView.setBigUint64\<close> and \<open>getBigUint64\<close>, big-endian.\<close>

definition encodeEpoch :: "nat \<Rightarrow> bytes" where
  "encodeEpoch epoch = map (\<lambda>i. of_nat (epoch div 256 ^ i mod 256)) [7, 6, 5, 4, 3, 2, 1, 0]"

fun bigEndian :: "bytes \<Rightarrow> nat \<Rightarrow> nat" where
  "bigEndian [] acc = acc"
| "bigEndian (b # bs) acc = bigEndian bs (acc * 256 + unat b)"

text \<open>
  \<open>Number(value)\<close> is exact up to \<open>2^53\<close>, and above it gives a number that is not a safe
  integer, so comparing the exact value decides as the source does.
\<close>

definition decodeEpoch :: "bytes \<Rightarrow> nat option" where
  "decodeEpoch raw =
     (if length raw \<noteq> 8 then None
      else let v = bigEndian raw 0 in
        if int v \<le> MAX_SAFE_INTEGER \<and> 1 \<le> v \<and> int v < MAX_SAFE_INTEGER then Some v else None)"

record lease_holder_record =
  hr_holderId :: jsstring
  hr_expiresAt :: int
  hr_epoch :: nat

record json =
  json_stringify :: "jsval \<Rightarrow> bytes"
  json_parse :: "bytes \<Rightarrow> jsval option"

definition holder_value :: "lease_holder_record \<Rightarrow> jsval" where
  "holder_value r = JObject
     [(js ''holderId'', JString (hr_holderId r)),
      (js ''expiresAt'', JNumber (JFin (of_int (hr_expiresAt r)))),
      (js ''epoch'', JNumber (JFin (of_nat (hr_epoch r))))]"

definition encodeHolder :: "json \<Rightarrow> lease_holder_record \<Rightarrow> bytes" where
  "encodeHolder J r = json_stringify J (holder_value r)"

definition safeInteger :: "jsval \<Rightarrow> int option" where
  "safeInteger v =
     (case v of JNumber (JFin r) \<Rightarrow> if isSafeInteger (JFin r) then Some \<lfloor>r\<rfloor> else None | _ \<Rightarrow> None)"

definition decodeHolder :: "json \<Rightarrow> bytes \<Rightarrow> lease_holder_record option" where
  "decodeHolder J raw =
     (case json_parse J raw of
        None \<Rightarrow> None
      | Some parsed \<Rightarrow>
          if \<not> isObject parsed then None
          else (case (field parsed (js ''holderId''), safeInteger (field parsed (js ''expiresAt'')),
                      safeInteger (field parsed (js ''epoch''))) of
                  (JString h, Some x, Some e) \<Rightarrow>
                    if x < 0 \<or> e < 1 then None
                    else Some \<lparr>hr_holderId = h, hr_expiresAt = x, hr_epoch = nat e\<rparr>
                | _ \<Rightarrow> None))"

section \<open>The lease manager\<close>

datatype lease_lost_reason = Deposed | RenewalUnconfirmable

record lease_manager =
  lm_holderId :: jsstring
  lm_ttlMs :: int
  lm_waitTimeoutMs :: int
  lm_acquirePollIntervalMs :: int
  lm_stopped :: bool
  heldEpoch :: "nat option"
  heldEpochBytes :: "bytes option"
  lastHolderBytes :: "bytes option"
  leaseLost :: bool
  leaseLostReason :: "lease_lost_reason option"
  heldSince :: "int option"
  lastRenewedAt :: "int option"

definition DEFAULT_ACQUIRE_POLL_INTERVAL_MS :: int where
  "DEFAULT_ACQUIRE_POLL_INTERVAL_MS = 1000"

definition createLeaseManager :: "jsstring \<Rightarrow> int \<Rightarrow> int \<Rightarrow> int option \<Rightarrow> lease_manager" where
  "createLeaseManager holderId ttlMs waitTimeoutMs acquirePollIntervalMs =
     \<lparr>lm_holderId = holderId, lm_ttlMs = ttlMs, lm_waitTimeoutMs = waitTimeoutMs,
      lm_acquirePollIntervalMs =
        (case acquirePollIntervalMs of Some n \<Rightarrow> n | None \<Rightarrow> DEFAULT_ACQUIRE_POLL_INTERVAL_MS),
      lm_stopped = False,
      heldEpoch = None, heldEpochBytes = None, lastHolderBytes = None, leaseLost = False,
      leaseLostReason = None, heldSince = None, lastRenewedAt = None\<rparr>"

datatype lease_error =
    EngineLeaseCorrupted
  | EngineLeaseAcquisitionTimeout int "jsstring option"
  | LeaseStorageError storage_error

text \<open>\<open>onLeaseLost\<close> is called at most once; the second component says whether it is.\<close>

definition reportLeaseLost :: "lease_manager \<Rightarrow> lease_lost_reason \<Rightarrow> lease_manager \<times> bool" where
  "reportLeaseLost M reason =
     (if leaseLost M then (M, False)
      else (M\<lparr>leaseLost := True, leaseLostReason := Some reason\<rparr>, True))"

record lease_view =
  lv_epochRaw :: "bytes option"
  lv_holderRaw :: "bytes option"
  lv_epoch :: "nat option"
  lv_holder :: "lease_holder_record option"

text \<open>The holder is read first (at \<open>sh\<close>), then the epoch (at \<open>se\<close>).\<close>

definition readState :: "'s storage \<Rightarrow> json \<Rightarrow> 's \<Rightarrow> 's \<Rightarrow> storage_error + lease_view" where
  "readState S J sh se =
     (case get_op S sh KEYS_leaseHolder of
        Inl e \<Rightarrow> Inl e
      | Inr holderRaw \<Rightarrow>
          (case get_op S se KEYS_leaseEpoch of
             Inl e \<Rightarrow> Inl e
           | Inr epochRaw \<Rightarrow>
               Inr \<lparr>lv_epochRaw = epochRaw, lv_holderRaw = holderRaw,
                    lv_epoch = Option.bind epochRaw decodeEpoch,
                    lv_holder = Option.bind holderRaw (decodeHolder J)\<rparr>))"

definition takeOwnership ::
    "'s storage \<Rightarrow> json \<Rightarrow> lease_manager \<Rightarrow> 's \<Rightarrow> int \<Rightarrow> bytes option \<Rightarrow> bytes option \<Rightarrow> nat
     \<Rightarrow> (lease_error + bool) \<times> lease_manager \<times> 's" where
  "takeOwnership S J M s now expectedEpochBytes expectedHolderBytes nextEpoch =
     (let acquiredAt = now;
          holderBytes = encodeHolder J
            \<lparr>hr_holderId = lm_holderId M, hr_expiresAt = acquiredAt + lm_ttlMs M, hr_epoch = nextEpoch\<rparr>
      in case storageConditionalBatch S s
                [\<lparr>cond_key = KEYS_leaseEpoch, expectedValue = expectedEpochBytes\<rparr>,
                 \<lparr>cond_key = KEYS_leaseHolder, expectedValue = expectedHolderBytes\<rparr>]
                [Put KEYS_leaseEpoch (encodeEpoch nextEpoch), Put KEYS_leaseHolder holderBytes] of
           (Inl e, s') \<Rightarrow> (Inl (LeaseStorageError e), M, s')
         | (Inr committed, s') \<Rightarrow>
             (Inr committed,
              if committed
              then M\<lparr>heldEpoch := Some nextEpoch, heldEpochBytes := Some (encodeEpoch nextEpoch),
                     lastHolderBytes := Some holderBytes, heldSince := Some acquiredAt,
                     lastRenewedAt := Some acquiredAt\<rparr>
              else M, s'))"

text \<open>The part of \<open>tryAcquireOnce\<close> after \<open>readState\<close>; \<open>nowLive\<close> and \<open>nowTake\<close> are its clock readings.\<close>

definition acquireFrom ::
    "'s storage \<Rightarrow> json \<Rightarrow> lease_manager \<Rightarrow> 's \<Rightarrow> lease_view \<Rightarrow> int \<Rightarrow> int
     \<Rightarrow> (lease_error + bool) \<times> lease_manager \<times> 's" where
  "acquireFrom S J M s v nowLive nowTake =
     (if lv_epochRaw v \<noteq> None \<and> lv_epoch v = None then (Inl EngineLeaseCorrupted, M, s)
      else if lv_epochRaw v = None \<and> lv_holderRaw v \<noteq> None then (Inl EngineLeaseCorrupted, M, s)
      else let holderLive = (case lv_holder v of None \<Rightarrow> False | Some h \<Rightarrow> nowLive < hr_expiresAt h) in
        if holderLive then (Inr False, M, s)
        else let nextEpoch = (case lv_epoch v of Some e \<Rightarrow> e | None \<Rightarrow> 0) + 1 in
          if int nextEpoch \<ge> MAX_SAFE_INTEGER then (Inl EngineLeaseCorrupted, M, s)
          else takeOwnership S J M s nowTake (lv_epochRaw v) (lv_holderRaw v) nextEpoch)"

text \<open>What happens around one attempt: the states its awaits are served at, and its clock.\<close>

record 's lease_interference =
  li_between_reads :: "'s \<Rightarrow> 's"
  li_before_cas :: "'s \<Rightarrow> 's"
  li_before_diagnostic :: "'s \<Rightarrow> 's"
  li_stopped :: bool
  li_nowTop :: int
  li_nowLive :: int
  li_nowTake :: int
  li_nowAfter :: int

definition tryAcquireOnce ::
    "'s storage \<Rightarrow> json \<Rightarrow> lease_manager \<Rightarrow> 's lease_interference \<Rightarrow> 's
     \<Rightarrow> (lease_error + bool) \<times> lease_manager \<times> 's" where
  "tryAcquireOnce S J M I s =
     (let se = li_between_reads I s; sc = li_before_cas I se in
      case readState S J s se of
        Inl e \<Rightarrow> (Inl (LeaseStorageError e), M, sc)
      | Inr v \<Rightarrow> acquireFrom S J M sc v (li_nowLive I) (li_nowTake I))"

text \<open>
  The wait-for-handoff loop, over the iterations' surroundings. It runs as long as iterations
  are given: \<open>None\<close> means it is still waiting when they run out. \<open>Inr True\<close> is a return with
  the lease, \<open>Inr False\<close> the return of a stopped manager. The pause between two iterations,
  \<open>delay(acquirePollIntervalMs)\<close>, shows in their clock readings; \<open>paced\<close> says how.
\<close>

fun acquireLoop ::
    "'s storage \<Rightarrow> json \<Rightarrow> int \<Rightarrow> int \<Rightarrow> bool \<Rightarrow> jsstring option \<Rightarrow> lease_manager
     \<Rightarrow> 's lease_interference list \<Rightarrow> 's \<Rightarrow> (lease_error + bool) option \<times> lease_manager \<times> 's" where
  "acquireLoop S J startedAt deadline firstAttempt lastHolderId M [] s = (None, M, s)"
| "acquireLoop S J startedAt deadline firstAttempt lastHolderId M (I # Is) s =
     (let M = M\<lparr>lm_stopped := lm_stopped M \<or> li_stopped I\<rparr> in
      if lm_stopped M then (Some (Inr False), M, s)
      else if \<not> firstAttempt \<and> li_nowTop I \<ge> deadline
      then (Some (Inl (EngineLeaseAcquisitionTimeout (li_nowTop I - startedAt) lastHolderId)), M, s)
      else case tryAcquireOnce S J M I s of
        (Inl e, M', s') \<Rightarrow> (Some (Inl e), M', s')
      | (Inr True, M', s') \<Rightarrow> (Some (Inr True), M', s')
      | (Inr False, M', s') \<Rightarrow>
          (let sd = li_before_diagnostic I s' in
           case get_op S sd KEYS_leaseHolder of
             Inl e \<Rightarrow> (Some (Inl (LeaseStorageError e)), M', sd)
           | Inr raw \<Rightarrow>
               (let lastHolderId = map_option hr_holderId (Option.bind raw (decodeHolder J)) in
                if li_nowAfter I \<ge> deadline
                then (Some (Inl (EngineLeaseAcquisitionTimeout (li_nowAfter I - startedAt) lastHolderId)), M', sd)
                else acquireLoop S J startedAt deadline False lastHolderId M' Is sd)))"

definition acquire ::
    "'s storage \<Rightarrow> json \<Rightarrow> lease_manager \<Rightarrow> int \<Rightarrow> 's lease_interference list \<Rightarrow> 's
     \<Rightarrow> (lease_error + bool) option \<times> lease_manager \<times> 's" where
  "acquire S J M startedAt Is s =
     acquireLoop S J startedAt (startedAt + lm_waitTimeoutMs M) True None M Is s"

text \<open>
  What the clock does around the iterations from time \<open>t\<close> on: it does not run backwards, and
  each \<open>delay\<close> between two iterations lets at least \<open>poll\<close> milliseconds of it pass.
\<close>

fun paced :: "int \<Rightarrow> int \<Rightarrow> 's lease_interference list \<Rightarrow> bool" where
  "paced poll t [] = True"
| "paced poll t (I # Is) =
     (t \<le> li_nowTop I \<and> li_nowTop I \<le> li_nowLive I \<and> li_nowLive I \<le> li_nowTake I \<and> li_nowTake I \<le> li_nowAfter I
      \<and> paced poll (li_nowAfter I + poll) Is)"

text \<open>One renewal; the last component is the reason reported through \<open>onLeaseLost\<close>, if any.\<close>

definition renewOnce ::
    "'s storage \<Rightarrow> json \<Rightarrow> lease_manager \<Rightarrow> 's \<Rightarrow> int \<Rightarrow> int
     \<Rightarrow> lease_manager \<times> 's \<times> lease_lost_reason option" where
  "renewOnce S J M s now nowAfterFailure =
     (if lm_stopped M \<or> leaseLost M then (M, s, None)
      else case (heldEpoch M, lastHolderBytes M) of
        (Some epoch, Some lastBytes) \<Rightarrow>
          (let holderBytes = encodeHolder J
                 \<lparr>hr_holderId = lm_holderId M, hr_expiresAt = now + lm_ttlMs M, hr_epoch = epoch\<rparr>
           in case storageConditionalBatch S s
                     [\<lparr>cond_key = KEYS_leaseHolder, expectedValue = Some lastBytes\<rparr>]
                     [Put KEYS_leaseHolder holderBytes] of
                (Inl _, s') \<Rightarrow>
                  (let priorExpiry = (case decodeHolder J lastBytes of Some h \<Rightarrow> hr_expiresAt h | None \<Rightarrow> 0) in
                   if nowAfterFailure \<ge> priorExpiry
                   then case reportLeaseLost M RenewalUnconfirmable of
                          (M', called) \<Rightarrow> (M', s', if called then Some RenewalUnconfirmable else None)
                   else (M, s', None))
              | (Inr committed, s') \<Rightarrow>
                  if committed
                  then (M\<lparr>lastHolderBytes := Some holderBytes, lastRenewedAt := Some now\<rparr>, s', None)
                  else case reportLeaseLost M Deposed of
                         (M', called) \<Rightarrow> (M', s', if called then Some Deposed else None))
      | _ \<Rightarrow> (M, s, None))"

definition currentEpochBytes :: "lease_manager \<Rightarrow> bytes option" where
  "currentEpochBytes M = heldEpochBytes M"

record last_known_lease =
  lk_holderId :: jsstring
  lk_heldSince :: int
  lk_expiresAt :: int
  lk_lastRenewedAt :: int
  lk_fencingEpoch :: nat

datatype lease_manager_health =
    NoLease
  | Healthy last_known_lease
  | Contested "lease_lost_reason option" last_known_lease

definition health :: "json \<Rightarrow> lease_manager \<Rightarrow> int \<Rightarrow> lease_manager_health" where
  "health J M now =
     (if lm_stopped M then NoLease
      else case (Option.bind (lastHolderBytes M) (decodeHolder J), heldEpoch M, heldSince M, lastRenewedAt M) of
        (Some holder, Some epoch, Some since, Some renewed) \<Rightarrow>
          (let lease = \<lparr>lk_holderId = hr_holderId holder, lk_heldSince = since,
                        lk_expiresAt = hr_expiresAt holder, lk_lastRenewedAt = renewed,
                        lk_fencingEpoch = epoch\<rparr>
           in case leaseLostReason M of
                Some reason \<Rightarrow> Contested (Some reason) lease
              | None \<Rightarrow> if now \<ge> hr_expiresAt holder then Contested None lease else Healthy lease)
      | _ \<Rightarrow> NoLease)"

text \<open>
  \<open>release\<close> awaits a renewal in flight before its own write; here that renewal is a
  \<open>renewOnce\<close> that comes before it.
\<close>

definition release :: "'s storage \<Rightarrow> lease_manager \<Rightarrow> 's \<Rightarrow> bool \<times> lease_manager \<times> 's" where
  "release S M s =
     (let M = M\<lparr>lm_stopped := True\<rparr> in
      case lastHolderBytes M of
        None \<Rightarrow> (True, M, s)
      | Some lastBytes \<Rightarrow>
          (case storageConditionalBatch S s
                  [\<lparr>cond_key = KEYS_leaseHolder, expectedValue = Some lastBytes\<rparr>]
                  [Delete KEYS_leaseHolder] of
             (Inl _, s') \<Rightarrow> (False, M, s')
           | (Inr deleted, s') \<Rightarrow> (deleted, if deleted then M\<lparr>lastHolderBytes := None\<rparr> else M, s')))"

definition stop :: "lease_manager \<Rightarrow> lease_manager" where
  "stop M = M\<lparr>lm_stopped := True\<rparr>"

section \<open>Fenced writes\<close>

record engine_internals =
  ownershipLease :: bool
  deposed :: bool
  leaseManager :: "lease_manager option"
  depositionWarnings :: nat

datatype engine_error = EngineDeposedError | EngineLeaseNotHeldError | EngineStorageError storage_error

text \<open>The flag, the warning (counted) and, on a later tick, the teardown.\<close>

definition handleDeposition :: "engine_internals \<Rightarrow> engine_internals" where
  "handleDeposition E =
     (if deposed E then E else E\<lparr>deposed := True, depositionWarnings := depositionWarnings E + 1\<rparr>)"

definition assertLeaseHeldForEngineWork :: "engine_internals \<Rightarrow> engine_error option" where
  "assertLeaseHeldForEngineWork E =
     (if \<not> ownershipLease E then None
      else let held = (\<not> deposed E \<and> (case leaseManager E of None \<Rightarrow> False
                         | Some M \<Rightarrow> currentEpochBytes M \<noteq> None))
           in if \<not> held then Some EngineLeaseNotHeldError else None)"

definition resolveFenceEpochOrHalt :: "engine_internals \<Rightarrow> (engine_error + bytes option) \<times> engine_internals" where
  "resolveFenceEpochOrHalt E =
     (if deposed E then (Inl EngineDeposedError, E)
      else if \<not> ownershipLease E then (Inr None, E)
      else case Option.bind (leaseManager E) currentEpochBytes of
             None \<Rightarrow> (Inl EngineDeposedError, handleDeposition E)
           | Some b \<Rightarrow> (Inr (Some b), E))"

definition epochBytesEqual :: "bytes \<Rightarrow> bytes option \<Rightarrow> bool" where
  "epochBytesEqual a b =
     (case b of None \<Rightarrow> False | Some b' \<Rightarrow> if length a \<noteq> length b' then False else bytes_equal_from a b')"

definition isDeposed :: "'s storage \<Rightarrow> 's \<Rightarrow> bytes \<Rightarrow> bool" where
  "isDeposed S s held =
     (case get_op S s KEYS_leaseEpoch of
        Inl _ \<Rightarrow> True
      | Inr None \<Rightarrow> True
      | Inr (Some raw) \<Rightarrow>
          if decodeEpoch raw = None then True else \<not> epochBytesEqual held (Some raw))"

datatype fenced_commit_result = Committed | LostRace

text \<open>\<open>later\<close> is what other instances do between the failed write and the re-read of the epoch.\<close>

definition fencedCommit ::
    "'s storage \<Rightarrow> engine_internals \<Rightarrow> 's \<Rightarrow> ('s \<Rightarrow> 's) \<Rightarrow> batch_operation list
     \<Rightarrow> conditional_batch_condition list \<Rightarrow> (engine_error + fenced_commit_result) \<times> engine_internals \<times> 's" where
  "fencedCommit S E s later operations baseConditions =
     (case resolveFenceEpochOrHalt E of
        (Inl e, E') \<Rightarrow> (Inl e, E', s)
      | (Inr None, E') \<Rightarrow>
          if length baseConditions = 0
          then (case batch_op S s operations of
                  (Inl e, s') \<Rightarrow> (Inl (EngineStorageError e), E', s')
                | (Inr _, s') \<Rightarrow> (Inr Committed, E', s'))
          else (case storageConditionalBatch S s baseConditions operations of
                  (Inl e, s') \<Rightarrow> (Inl (EngineStorageError e), E', s')
                | (Inr committed, s') \<Rightarrow> (Inr (if committed then Committed else LostRace), E', s'))
      | (Inr (Some epochBytes), E') \<Rightarrow>
          (case storageConditionalBatch S s
                  (baseConditions @ [\<lparr>cond_key = KEYS_leaseEpoch, expectedValue = Some epochBytes\<rparr>])
                  operations of
             (Inl e, s') \<Rightarrow> (Inl (EngineStorageError e), E', s')
           | (Inr committed, s') \<Rightarrow>
               if committed then (Inr Committed, E', s')
               else if isDeposed S (later s') epochBytes
               then (Inl EngineDeposedError, handleDeposition E', later s')
               else (Inr LostRace, E', later s')))"

definition commitFencedEngineWrite ::
    "'s storage \<Rightarrow> engine_internals \<Rightarrow> 's \<Rightarrow> ('s \<Rightarrow> 's) \<Rightarrow> batch_operation list
     \<Rightarrow> conditional_batch_condition list \<Rightarrow> 'e
     \<Rightarrow> ((engine_error + 'e) + unit) \<times> engine_internals \<times> 's" where
  "commitFencedEngineWrite S E s later operations baseConditions onLostRace =
     (case fencedCommit S E s later operations baseConditions of
        (Inl e, E', s') \<Rightarrow> (Inl (Inl e), E', s')
      | (Inr LostRace, E', s') \<Rightarrow> (Inl (Inr onLostRace), E', s')
      | (Inr Committed, E', s') \<Rightarrow> (Inr (), E', s'))"

definition commitFencedEngineWriteAllowingPreconditionFailure ::
    "'s storage \<Rightarrow> engine_internals \<Rightarrow> 's \<Rightarrow> ('s \<Rightarrow> 's) \<Rightarrow> batch_operation list
     \<Rightarrow> conditional_batch_condition list \<Rightarrow> (engine_error + bool) \<times> engine_internals \<times> 's" where
  "commitFencedEngineWriteAllowingPreconditionFailure S E s later operations baseConditions =
     (case fencedCommit S E s later operations baseConditions of
        (r, E', s') \<Rightarrow> (map_sum id (\<lambda>x. x = Committed) r, E', s'))"

section \<open>Lemmas on the codecs\<close>

definition epoch_in_range :: "nat \<Rightarrow> bool" where
  "epoch_in_range n \<longleftrightarrow> 1 \<le> n \<and> int n < MAX_SAFE_INTEGER"

lemma length_encodeEpoch [simp]: "length (encodeEpoch n) = 8"
  by (simp add: encodeEpoch_def)

lemma div_power_step: "j = Suc i \<Longrightarrow> (n div 256 ^ j) * 256 + n div 256 ^ i mod 256 = (n div 256 ^ i :: nat)"
  by (metis div_mult2_eq div_mult_mod_eq power_Suc2)

lemma bigEndian_encodeEpoch:
  assumes "n < 256 ^ 8"
  shows "bigEndian (encodeEpoch n) 0 = n"
proof -
  let ?d = "\<lambda>i. n div 256 ^ i"
  have u: "unat (of_nat (k mod 256) :: 8 word) = k mod 256" for k :: nat
    by (simp add: unat_of_nat)
  have top: "?d 7 mod 256 = ?d 7" using assms by (simp add: div_mult2_eq [symmetric] less_mult_imp_div_less)
  have st: "?d 7 * 256 + ?d 6 mod 256 = ?d 6" "?d 6 * 256 + ?d 5 mod 256 = ?d 5"
    "?d 5 * 256 + ?d 4 mod 256 = ?d 4" "?d 4 * 256 + ?d 3 mod 256 = ?d 3"
    "?d 3 * 256 + ?d 2 mod 256 = ?d 2" "?d 2 * 256 + ?d 1 mod 256 = ?d 1"
    "?d 1 * 256 + ?d 0 mod 256 = ?d 0"
    by (rule div_power_step, simp)+
  show ?thesis
    unfolding encodeEpoch_def list.map bigEndian.simps u unfolding top mult_zero_left add_0 st by simp
qed

lemma decodeEpoch_encodeEpoch [simp]:
  "epoch_in_range n \<Longrightarrow> decodeEpoch (encodeEpoch n) = Some n"
proof -
  assume n: "epoch_in_range n"
  then have "n < 256 ^ 8" by (simp add: epoch_in_range_def MAX_SAFE_INTEGER_def)
  with n show ?thesis
    by (simp add: decodeEpoch_def bigEndian_encodeEpoch epoch_in_range_def)
qed

lemma decodeEpoch_range: "decodeEpoch raw = Some n \<Longrightarrow> epoch_in_range n"
  by (auto simp: decodeEpoch_def epoch_in_range_def Let_def split: if_splits)

lemma encodeEpoch_inj: "epoch_in_range n \<Longrightarrow> epoch_in_range k \<Longrightarrow> encodeEpoch n = encodeEpoch k \<Longrightarrow> n = k"
  by (metis decodeEpoch_encodeEpoch option.inject)

lemma lease_keys_neq [simp]: "KEYS_leaseEpoch \<noteq> KEYS_leaseHolder" "KEYS_leaseHolder \<noteq> KEYS_leaseEpoch"
  by (simp_all add: KEYS_leaseEpoch_def KEYS_leaseHolder_def)

definition json_ok :: "json \<Rightarrow> bool" where
  "json_ok J \<longleftrightarrow> (\<forall>r. json_parse J (json_stringify J (holder_value r)) = Some (holder_value r))"

lemma decodeHolder_encodeHolder:
  assumes "json_ok J" and "0 \<le> hr_expiresAt r" and "hr_expiresAt r \<le> MAX_SAFE_INTEGER"
    and "epoch_in_range (hr_epoch r)"
  shows "decodeHolder J (encodeHolder J r) = Some r"
proof -
  have "\<bar>int (hr_epoch r)\<bar> \<le> MAX_SAFE_INTEGER" "\<bar>hr_expiresAt r\<bar> \<le> MAX_SAFE_INTEGER"
    using assms by (simp_all add: epoch_in_range_def)
  with assms show ?thesis
    by (simp add: decodeHolder_def encodeHolder_def json_ok_def holder_value_def isObject_def
        field_def safeInteger_def isSafeInteger_def epoch_in_range_def)
qed

section \<open>The system of instances\<close>

text \<open>
  \<open>current_epoch\<close> is the stored high-water mark. An acquisition may act on whatever bytes an
  earlier read returned, hence the arbitrary view in \<open>AcquireStep\<close>: reads and writes of
  different instances interleave freely.
\<close>

definition current_epoch :: "store \<Rightarrow> nat" where
  "current_epoch m =
     (case m KEYS_leaseEpoch of
        None \<Rightarrow> 0
      | Some raw \<Rightarrow> (case decodeEpoch raw of None \<Rightarrow> 0 | Some n \<Rightarrow> n))"

definition epoch_wf :: "store \<Rightarrow> bool" where
  "epoch_wf m \<longleftrightarrow>
     (case m KEYS_leaseEpoch of None \<Rightarrow> True | Some raw \<Rightarrow> \<exists>n. epoch_in_range n \<and> raw = encodeEpoch n)"

definition view_ok :: "json \<Rightarrow> lease_view \<Rightarrow> bool" where
  "view_ok J v \<longleftrightarrow> lv_epoch v = Option.bind (lv_epochRaw v) decodeEpoch
     \<and> lv_holder v = Option.bind (lv_holderRaw v) (decodeHolder J)"

definition instance_epoch :: "engine_internals \<Rightarrow> nat option" where
  "instance_epoch E = Option.bind (leaseManager E) heldEpoch"

record 's lease_system =
  ls_store :: 's
  ls_instance :: "nat \<Rightarrow> engine_internals"

definition spares_lease :: "batch_operation list \<Rightarrow> bool" where
  "spares_lease ops \<longleftrightarrow> KEYS_leaseEpoch \<notin> op_key ` set ops \<and> KEYS_leaseHolder \<notin> op_key ` set ops"

inductive lease_step :: "'s storage \<Rightarrow> json \<Rightarrow> 's lease_system \<Rightarrow> 's lease_system \<Rightarrow> bool"
  for S J where
  AcquireStep:
    "\<lbrakk>leaseManager (ls_instance \<sigma> i) = Some M; view_ok J v;
      acquireFrom S J M (ls_store \<sigma>) v nowLive nowTake = (r, M', s')\<rbrakk>
     \<Longrightarrow> lease_step S J \<sigma> (\<sigma>\<lparr>ls_store := s',
           ls_instance := (ls_instance \<sigma>)(i := (ls_instance \<sigma> i)\<lparr>leaseManager := Some M'\<rparr>)\<rparr>)"
| RenewStep:
    "\<lbrakk>leaseManager (ls_instance \<sigma> i) = Some M;
      renewOnce S J M (ls_store \<sigma>) now nowFail = (M', s', lost);
      E' = (ls_instance \<sigma> i)\<lparr>leaseManager := Some M'\<rparr>\<rbrakk>
     \<Longrightarrow> lease_step S J \<sigma> (\<sigma>\<lparr>ls_store := s',
           ls_instance := (ls_instance \<sigma>)(i := if lost = Some Deposed then handleDeposition E' else E')\<rparr>)"
| ReleaseStep:
    "\<lbrakk>leaseManager (ls_instance \<sigma> i) = Some M; release S M (ls_store \<sigma>) = (r, M', s')\<rbrakk>
     \<Longrightarrow> lease_step S J \<sigma> (\<sigma>\<lparr>ls_store := s',
           ls_instance := (ls_instance \<sigma>)(i := (ls_instance \<sigma> i)\<lparr>leaseManager := Some M'\<rparr>)\<rparr>)"
| StopStep:
    "\<lbrakk>leaseManager (ls_instance \<sigma> i) = Some M\<rbrakk>
     \<Longrightarrow> lease_step S J \<sigma> (\<sigma>\<lparr>ls_instance :=
           (ls_instance \<sigma>)(i := (ls_instance \<sigma> i)\<lparr>leaseManager := Some (stop M)\<rparr>)\<rparr>)"
| WriteStep:
    "\<lbrakk>ownershipLease (ls_instance \<sigma> i); spares_lease ops;
      length ops \<le> MAX_BATCH_OPERATIONS; length conds < MAX_BATCH_OPERATIONS;
      fencedCommit S (ls_instance \<sigma> i) (ls_store \<sigma>) id ops conds = (r, E', s')\<rbrakk>
     \<Longrightarrow> lease_step S J \<sigma> (\<sigma>\<lparr>ls_store := s', ls_instance := (ls_instance \<sigma>)(i := E')\<rparr>)"

text \<open>
  Boot: the store may carry an epoch of earlier generations, no instance holds a lease yet.
\<close>

definition lease_initial :: "('s \<Rightarrow> bool) \<Rightarrow> ('s \<Rightarrow> store) \<Rightarrow> 's lease_system \<Rightarrow> bool" where
  "lease_initial okst contents \<sigma> \<longleftrightarrow> okst (ls_store \<sigma>) \<and> epoch_wf (contents (ls_store \<sigma>))
     \<and> (\<forall>i. case leaseManager (ls_instance \<sigma> i) of
             None \<Rightarrow> True | Some M \<Rightarrow> heldEpoch M = None \<and> heldEpochBytes M = None)"

inductive lease_reachable :: "'s storage \<Rightarrow> json \<Rightarrow> ('s \<Rightarrow> bool) \<Rightarrow> ('s \<Rightarrow> store) \<Rightarrow> 's lease_system \<Rightarrow> bool"
  for S J okst contents where
  Boot: "lease_initial okst contents \<sigma> \<Longrightarrow> lease_reachable S J okst contents \<sigma>"
| Step: "lease_reachable S J okst contents \<sigma> \<Longrightarrow> lease_step S J \<sigma> \<sigma>' \<Longrightarrow> lease_reachable S J okst contents \<sigma>'"

text \<open>
  The invariant: no instance holds an epoch above the mark, the bytes an instance fences with
  are those of its epoch, and no two instances hold the same epoch.
\<close>

definition manager_ok :: "nat \<Rightarrow> lease_manager \<Rightarrow> bool" where
  "manager_ok cur M \<longleftrightarrow> heldEpochBytes M = map_option encodeEpoch (heldEpoch M)
     \<and> (\<forall>n. heldEpoch M = Some n \<longrightarrow> epoch_in_range n \<and> n \<le> cur)"

definition lease_inv :: "('s \<Rightarrow> bool) \<Rightarrow> ('s \<Rightarrow> store) \<Rightarrow> 's lease_system \<Rightarrow> bool" where
  "lease_inv okst contents \<sigma> \<longleftrightarrow> okst (ls_store \<sigma>) \<and> epoch_wf (contents (ls_store \<sigma>))
     \<and> (\<forall>i M. leaseManager (ls_instance \<sigma> i) = Some M \<longrightarrow> manager_ok (current_epoch (contents (ls_store \<sigma>))) M)
     \<and> (\<forall>i j n. instance_epoch (ls_instance \<sigma> i) = Some n \<longrightarrow> instance_epoch (ls_instance \<sigma> j) = Some n
          \<longrightarrow> i = j)"

lemma current_epoch_enc:
  "epoch_in_range n \<Longrightarrow> m KEYS_leaseEpoch = Some (encodeEpoch n) \<Longrightarrow> current_epoch m = n"
  by (simp add: current_epoch_def)

lemma epoch_wf_current:
  assumes "epoch_wf m"
  shows "m KEYS_leaseEpoch = (if current_epoch m = 0 then None else Some (encodeEpoch (current_epoch m)))"
    and "current_epoch m \<noteq> 0 \<Longrightarrow> epoch_in_range (current_epoch m)"
  using assms by (auto simp: epoch_wf_def current_epoch_def epoch_in_range_def split: option.splits)

lemma current_epoch_cong:
  "m' KEYS_leaseEpoch = m KEYS_leaseEpoch \<Longrightarrow> current_epoch m' = current_epoch m \<and> epoch_wf m' = epoch_wf m"
  by (simp add: current_epoch_def epoch_wf_def)

lemma manager_ok_mono: "manager_ok c M \<Longrightarrow> c \<le> c' \<Longrightarrow> manager_ok c' M"
  by (auto simp: manager_ok_def)

lemma handleDeposition_manager [simp]: "leaseManager (handleDeposition E) = leaseManager E"
  by (simp add: handleDeposition_def)

lemma lease_inv_same_epochs:
  assumes "lease_inv okst contents \<sigma>" and "okst s'"
    and "contents s' KEYS_leaseEpoch = contents (ls_store \<sigma>) KEYS_leaseEpoch"
    and "\<And>M'. leaseManager E' = Some M' \<Longrightarrow> \<exists>M. leaseManager (ls_instance \<sigma> i) = Some M
            \<and> heldEpoch M' = heldEpoch M \<and> heldEpochBytes M' = heldEpochBytes M"
  shows "lease_inv okst contents (\<sigma>\<lparr>ls_store := s', ls_instance := (ls_instance \<sigma>)(i := E')\<rparr>)"
proof -
  note cur = current_epoch_cong [of "contents s'" "contents (ls_store \<sigma>)", OF assms(3)]
  have "instance_epoch E' = Some n \<Longrightarrow> instance_epoch (ls_instance \<sigma> i) = Some n" for n
    using assms(4) by (cases "leaseManager E'") (auto simp: instance_epoch_def)
  moreover have "manager_ok (current_epoch (contents (ls_store \<sigma>))) M'" if M': "leaseManager E' = Some M'" for M'
  proof -
    obtain M where "leaseManager (ls_instance \<sigma> i) = Some M" "heldEpoch M' = heldEpoch M"
      "heldEpochBytes M' = heldEpochBytes M" using assms(4) [OF M'] by blast
    moreover from this have "manager_ok (current_epoch (contents (ls_store \<sigma>))) M"
      using assms(1) by (simp add: lease_inv_def)
    ultimately show ?thesis by (simp add: manager_ok_def)
  qed
  ultimately show ?thesis using assms(1,2) cur by (auto simp: lease_inv_def)
qed

context cas_storage_spec
begin

lemma small_batch:
  assumes "invar s" and "length conds \<le> 2" and "length ops \<le> 2"
  shows "\<exists>s'. storageConditionalBatch S s conds ops = (Inr (conditions_hold conds (contents s)), s')
          \<and> invar s' \<and> (if conditions_hold conds (contents s)
               then contents s' = apply_operations ops (contents s) else s' = s)"
  using assms by (intro conditional_batch) (simp_all add: MAX_BATCH_OPERATIONS_def)

lemma take_ownership:
  assumes "invar s"
  shows "\<exists>s' hb. invar s' \<and>
     (if contents s KEYS_leaseEpoch = eb \<and> contents s KEYS_leaseHolder = hbo
      then takeOwnership S J M s now eb hbo n =
             (Inr True, M\<lparr>heldEpoch := Some n, heldEpochBytes := Some (encodeEpoch n),
                lastHolderBytes := Some hb, heldSince := Some now, lastRenewedAt := Some now\<rparr>, s')
        \<and> hb = encodeHolder J \<lparr>hr_holderId = lm_holderId M, hr_expiresAt = now + lm_ttlMs M, hr_epoch = n\<rparr>
        \<and> contents s' = (contents s)(KEYS_leaseEpoch \<mapsto> encodeEpoch n, KEYS_leaseHolder \<mapsto> hb)
      else takeOwnership S J M s now eb hbo n = (Inr False, M, s) \<and> s' = s)"
proof -
  let ?conds = "[\<lparr>cond_key = KEYS_leaseEpoch, expectedValue = eb\<rparr>,
                 \<lparr>cond_key = KEYS_leaseHolder, expectedValue = hbo\<rparr>]"
  let ?hb = "encodeHolder J \<lparr>hr_holderId = lm_holderId M, hr_expiresAt = now + lm_ttlMs M, hr_epoch = n\<rparr>"
  let ?ops = "[Put KEYS_leaseEpoch (encodeEpoch n), Put KEYS_leaseHolder ?hb]"
  obtain s' where s': "storageConditionalBatch S s ?conds ?ops = (Inr (conditions_hold ?conds (contents s)), s')"
    "invar s'" "if conditions_hold ?conds (contents s)
               then contents s' = apply_operations ?ops (contents s) else s' = s"
    using small_batch [OF assms, of ?conds ?ops] by auto
  then show ?thesis
    by (intro exI [of _ s'] exI [of _ ?hb]) (auto simp: takeOwnership_def Let_def conditions_hold_def)
qed

lemma acquire_from_outcome:
  assumes "invar s" and "epoch_wf (contents s)" and "view_ok J v"
    and "acquireFrom S J M s v nowLive nowTake = (r, M', s')"
  shows "invar s'"
    and "r = Inr True \<and> epoch_in_range (current_epoch (contents s) + 1)
           \<and> heldEpoch M' = Some (current_epoch (contents s) + 1)
           \<and> heldEpochBytes M' = Some (encodeEpoch (current_epoch (contents s) + 1))
           \<and> contents s' KEYS_leaseEpoch = Some (encodeEpoch (current_epoch (contents s) + 1))
         \<or> r \<noteq> Inr True \<and> M' = M \<and> s' = s"
proof -
  let ?n = "(case lv_epoch v of Some e \<Rightarrow> e | None \<Rightarrow> 0) + 1"
  consider (same) "r \<noteq> Inr True" "M' = M" "s' = s"
    | (take) "takeOwnership S J M s nowTake (lv_epochRaw v) (lv_holderRaw v) ?n = (r, M', s')"
        "lv_epochRaw v \<noteq> None \<longrightarrow> lv_epoch v \<noteq> None" "int ?n < MAX_SAFE_INTEGER"
    using assms(4) by (auto simp: acquireFrom_def Let_def split: if_splits)
  then have "invar s' \<and> (r = Inr True \<and> epoch_in_range (current_epoch (contents s) + 1)
           \<and> heldEpoch M' = Some (current_epoch (contents s) + 1)
           \<and> heldEpochBytes M' = Some (encodeEpoch (current_epoch (contents s) + 1))
           \<and> contents s' KEYS_leaseEpoch = Some (encodeEpoch (current_epoch (contents s) + 1))
         \<or> r \<noteq> Inr True \<and> M' = M \<and> s' = s)"
  proof cases
    case same
    with assms(1) show ?thesis by simp
  next
    case take
    show ?thesis
    proof (cases "contents s KEYS_leaseEpoch = lv_epochRaw v \<and> contents s KEYS_leaseHolder = lv_holderRaw v")
      case True
      then have "?n = current_epoch (contents s) + 1"
        using assms(3) by (auto simp: current_epoch_def view_ok_def split: option.splits)
      moreover have "epoch_in_range ?n" using take(3) by (simp add: epoch_in_range_def)
      ultimately show ?thesis using take_ownership [OF assms(1), of "lv_epochRaw v" "lv_holderRaw v" J M nowTake ?n]
          take(1) True by auto
    next
      case False
      then show ?thesis using take_ownership [OF assms(1), of "lv_epochRaw v" "lv_holderRaw v" J M nowTake ?n]
          take(1) by auto
    qed
  qed
  then show "invar s'"
    and "r = Inr True \<and> epoch_in_range (current_epoch (contents s) + 1)
           \<and> heldEpoch M' = Some (current_epoch (contents s) + 1)
           \<and> heldEpochBytes M' = Some (encodeEpoch (current_epoch (contents s) + 1))
           \<and> contents s' KEYS_leaseEpoch = Some (encodeEpoch (current_epoch (contents s) + 1))
         \<or> r \<noteq> Inr True \<and> M' = M \<and> s' = s" by blast+
qed

lemma renew_outcome:
  assumes "invar s" and "renewOnce S J M s now nowFail = (M', s', lost)"
  shows "invar s' \<and> contents s' KEYS_leaseEpoch = contents s KEYS_leaseEpoch
     \<and> heldEpoch M' = heldEpoch M \<and> heldEpochBytes M' = heldEpochBytes M"
proof (cases "lm_stopped M \<or> leaseLost M \<or> heldEpoch M = None \<or> lastHolderBytes M = None")
  case True
  with assms show ?thesis by (auto simp: renewOnce_def split: option.splits)
next
  case False
  then obtain e b where eb: "heldEpoch M = Some e" "lastHolderBytes M = Some b" by auto
  let ?conds = "[\<lparr>cond_key = KEYS_leaseHolder, expectedValue = Some b\<rparr>]"
  let ?ops = "[Put KEYS_leaseHolder (encodeHolder J
                 \<lparr>hr_holderId = lm_holderId M, hr_expiresAt = now + lm_ttlMs M, hr_epoch = e\<rparr>)]"
  obtain t where "storageConditionalBatch S s ?conds ?ops = (Inr (conditions_hold ?conds (contents s)), t)"
    "invar t" "if conditions_hold ?conds (contents s)
               then contents t = apply_operations ?ops (contents s) else t = s"
    using small_batch [OF assms(1), of ?conds ?ops] by auto
  with assms(2) False eb show ?thesis
    by (auto simp: renewOnce_def reportLeaseLost_def Let_def split: if_splits)
qed

lemma release_outcome:
  assumes "invar s" and "release S M s = (r, M', s')"
  shows "invar s' \<and> contents s' KEYS_leaseEpoch = contents s KEYS_leaseEpoch
     \<and> heldEpoch M' = heldEpoch M \<and> heldEpochBytes M' = heldEpochBytes M"
proof (cases "lastHolderBytes M")
  case None
  with assms show ?thesis by (auto simp: release_def)
next
  case (Some b)
  let ?conds = "[\<lparr>cond_key = KEYS_leaseHolder, expectedValue = Some b\<rparr>]"
  obtain t where "storageConditionalBatch S s ?conds [Delete KEYS_leaseHolder]
      = (Inr (conditions_hold ?conds (contents s)), t)"
    "invar t" "if conditions_hold ?conds (contents s)
               then contents t = apply_operations [Delete KEYS_leaseHolder] (contents s) else t = s"
    using small_batch [OF assms(1), of ?conds "[Delete KEYS_leaseHolder]"] by auto
  with assms(2) Some show ?thesis by (auto simp: release_def Let_def split: if_splits)
qed

lemma fenced_commit_outcome:
  assumes "invar s" and "ownershipLease E" and "leaseManager E = Some M"
    and "manager_ok (current_epoch (contents s)) M" and "epoch_wf (contents s)"
    and "length ops \<le> MAX_BATCH_OPERATIONS" and "length conds < MAX_BATCH_OPERATIONS"
    and "fencedCommit S E s id ops conds = (r, E', s')"
  shows "leaseManager E' = Some M" and "invar s'"
    and "r = Inr Committed \<and> contents s' = apply_operations ops (contents s)
           \<and> heldEpoch M = Some (current_epoch (contents s)) \<and> \<not> deposed E
         \<or> s' = s \<and> (r = Inr LostRace \<and> heldEpoch M = Some (current_epoch (contents s))
                       \<or> r = Inl EngineDeposedError \<and> deposed E')"
proof -
  have "leaseManager E' = Some M \<and> invar s' \<and>
      (r = Inr Committed \<and> contents s' = apply_operations ops (contents s)
           \<and> heldEpoch M = Some (current_epoch (contents s)) \<and> \<not> deposed E
         \<or> s' = s \<and> (r = Inr LostRace \<and> heldEpoch M = Some (current_epoch (contents s))
                       \<or> r = Inl EngineDeposedError \<and> deposed E'))"
  proof (cases "deposed E \<or> heldEpoch M = None")
    case True
    have "heldEpoch M = None \<Longrightarrow> heldEpochBytes M = None" using assms(4) by (simp add: manager_ok_def)
    with True obtain E1 where E1: "resolveFenceEpochOrHalt E = (Inl EngineDeposedError, E1)"
      "leaseManager E1 = Some M" "deposed E1"
      using assms(2,3)
      by (cases "deposed E") (auto simp: resolveFenceEpochOrHalt_def currentEpochBytes_def handleDeposition_def)
    with assms(1,8) show ?thesis by (auto simp: fencedCommit_def)
  next
    case False
    then obtain n where n: "heldEpoch M = Some n" by auto
    then have bytes: "heldEpochBytes M = Some (encodeEpoch n)" and range: "epoch_in_range n"
      using assms(4) by (simp_all add: manager_ok_def)
    let ?conds = "conds @ [\<lparr>cond_key = KEYS_leaseEpoch, expectedValue = Some (encodeEpoch n)\<rparr>]"
    obtain t where t: "storageConditionalBatch S s ?conds ops = (Inr (conditions_hold ?conds (contents s)), t)"
      "invar t" "if conditions_hold ?conds (contents s)
               then contents t = apply_operations ops (contents s) else t = s"
      using conditional_batch [OF assms(1) _ assms(6), of ?conds] assms(7) by auto
    have cur: "contents s KEYS_leaseEpoch = Some (encodeEpoch n) \<longleftrightarrow> current_epoch (contents s) = n"
    proof
      assume "current_epoch (contents s) = n"
      moreover have "n \<noteq> 0" using range by (simp add: epoch_in_range_def)
      ultimately show "contents s KEYS_leaseEpoch = Some (encodeEpoch n)"
        using epoch_wf_current(1) [OF assms(5)] by simp
    qed (rule current_epoch_enc [where m = "contents s", OF range])
    have dep: "isDeposed S s (encodeEpoch n) \<longleftrightarrow> contents s KEYS_leaseEpoch \<noteq> Some (encodeEpoch n)"
      using get_spec [OF assms(1)] range
      by (auto simp: isDeposed_def epochBytesEqual_def bytes_equal_from_iff split: option.splits)
    show ?thesis
      using assms(2,3,8) False bytes n t cur dep
      by (auto simp: fencedCommit_def resolveFenceEpochOrHalt_def currentEpochBytes_def
          handleDeposition_def conditions_hold_def split: if_splits)
  qed
  then show "leaseManager E' = Some M" and "invar s'"
    and "r = Inr Committed \<and> contents s' = apply_operations ops (contents s)
           \<and> heldEpoch M = Some (current_epoch (contents s)) \<and> \<not> deposed E
         \<or> s' = s \<and> (r = Inr LostRace \<and> heldEpoch M = Some (current_epoch (contents s))
                       \<or> r = Inl EngineDeposedError \<and> deposed E')" by blast+
qed

lemma fenced_commit_no_manager:
  assumes "ownershipLease E" and "leaseManager E = None"
    and "fencedCommit S E s id ops conds = (r, E', s')"
  shows "leaseManager E' = None \<and> s' = s \<and> r = Inl EngineDeposedError"
  using assms by (auto simp: fencedCommit_def resolveFenceEpochOrHalt_def split: if_splits)

lemma acquire_step_inv:
  assumes inv: "lease_inv invar contents \<sigma>" and M: "leaseManager (ls_instance \<sigma> i) = Some M"
    and v: "view_ok J v" and acq: "acquireFrom S J M (ls_store \<sigma>) v nowLive nowTake = (r, M', s')"
  shows "lease_inv invar contents (\<sigma>\<lparr>ls_store := s',
           ls_instance := (ls_instance \<sigma>)(i := (ls_instance \<sigma> i)\<lparr>leaseManager := Some M'\<rparr>)\<rparr>)"
proof -
  let ?m = "contents (ls_store \<sigma>)"
  have st: "invar (ls_store \<sigma>)" "epoch_wf ?m" using inv by (simp_all add: lease_inv_def)
  note o = acquire_from_outcome [OF st v acq]
  show ?thesis
  proof (cases "r = Inr True")
    case False
    with o show ?thesis using M by (intro lease_inv_same_epochs [OF inv]) auto
  next
    case True
    let ?n = "current_epoch ?m + 1"
    have n: "epoch_in_range ?n" "heldEpoch M' = Some ?n" "heldEpochBytes M' = Some (encodeEpoch ?n)"
      "contents s' KEYS_leaseEpoch = Some (encodeEpoch ?n)"
      using o(2) True by auto
    have cur: "current_epoch (contents s') = ?n" by (rule current_epoch_enc [where m = "contents s'", OF n(1) n(4)])
    have wf: "epoch_wf (contents s')" using n(1,4) by (auto simp: epoch_wf_def)
    have below: "instance_epoch (ls_instance \<sigma> j) \<noteq> Some ?n" for j
    proof
      assume "instance_epoch (ls_instance \<sigma> j) = Some ?n"
      then obtain Mj where "leaseManager (ls_instance \<sigma> j) = Some Mj" "heldEpoch Mj = Some ?n"
        by (cases "leaseManager (ls_instance \<sigma> j)") (auto simp: instance_epoch_def)
      moreover from this have "manager_ok (current_epoch ?m) Mj" using inv by (auto simp: lease_inv_def)
      ultimately show False by (simp add: manager_ok_def)
    qed
    have "manager_ok ?n Mj" if Mj: "leaseManager (ls_instance \<sigma> j) = Some Mj" for j Mj
    proof (rule manager_ok_mono)
      show "manager_ok (current_epoch ?m) Mj" using inv Mj by (auto simp: lease_inv_def)
    qed simp
    moreover have "manager_ok ?n M'" using n by (simp add: manager_ok_def)
    moreover have "instance_epoch ((ls_instance \<sigma> i)\<lparr>leaseManager := Some M'\<rparr>) = Some ?n"
      using n(2) by (simp add: instance_epoch_def)
    ultimately show ?thesis using inv o(1) wf cur below
      by (auto simp: lease_inv_def simp del: One_nat_def)
  qed
qed

lemma lease_step_inv:
  assumes "lease_step S J \<sigma> \<sigma>'" and inv: "lease_inv invar contents \<sigma>"
  shows "lease_inv invar contents \<sigma>'"
  using assms(1)
proof cases
  case (AcquireStep i M v nowLive nowTake r M' s')
  then show ?thesis using acquire_step_inv [OF inv] by simp
next
  case (RenewStep i M now nowFail M' s' lost E')
  have "invar (ls_store \<sigma>)" using inv by (simp add: lease_inv_def)
  from renew_outcome [OF this RenewStep(3)] RenewStep show ?thesis
    by (auto intro!: lease_inv_same_epochs [OF inv])
next
  case (ReleaseStep i M r M' s')
  have "invar (ls_store \<sigma>)" using inv by (simp add: lease_inv_def)
  from release_outcome [OF this ReleaseStep(3)] ReleaseStep show ?thesis
    by (auto intro!: lease_inv_same_epochs [OF inv])
next
  case (StopStep i M)
  have "lease_inv invar contents (\<sigma>\<lparr>ls_store := ls_store \<sigma>, ls_instance :=
      (ls_instance \<sigma>)(i := (ls_instance \<sigma> i)\<lparr>leaseManager := Some (stop M)\<rparr>)\<rparr>)"
    using StopStep inv by (intro lease_inv_same_epochs [OF inv]) (auto simp: stop_def lease_inv_def)
  with StopStep show ?thesis by simp
next
  case (WriteStep i ops conds r E' s')
  let ?E = "ls_instance \<sigma> i"
  have st: "invar (ls_store \<sigma>)" "epoch_wf (contents (ls_store \<sigma>))" using inv by (simp_all add: lease_inv_def)
  show ?thesis
  proof (cases "leaseManager ?E")
    case None
    note o = fenced_commit_no_manager [OF WriteStep(2) None WriteStep(6)]
    then show ?thesis unfolding WriteStep(1) using st by (intro lease_inv_same_epochs [OF inv]) auto
  next
    case (Some M)
    then have ok: "manager_ok (current_epoch (contents (ls_store \<sigma>))) M"
      using inv by (auto simp: lease_inv_def)
    note o = fenced_commit_outcome [OF st(1) WriteStep(2) Some ok st(2) WriteStep(4,5,6)]
    have "contents s' KEYS_leaseEpoch = contents (ls_store \<sigma>) KEYS_leaseEpoch"
      using o(3) WriteStep(3) apply_operations_other [of KEYS_leaseEpoch ops]
      by (auto simp: spares_lease_def)
    with o Some show ?thesis unfolding WriteStep(1) by (intro lease_inv_same_epochs [OF inv]) auto
  qed
qed

lemma reachable_lease_inv:
  "lease_reachable S J invar contents \<sigma> \<Longrightarrow> lease_inv invar contents \<sigma>"
proof (induction rule: lease_reachable.induct)
  case (Boot \<sigma>)
  then have "leaseManager (ls_instance \<sigma> i) = Some M \<Longrightarrow> heldEpoch M = None \<and> heldEpochBytes M = None" for i M
    by (auto simp: lease_initial_def dest!: spec [of _ i])
  then show ?case using Boot
    by (auto simp: lease_initial_def lease_inv_def manager_ok_def instance_epoch_def bind_eq_Some_conv)
next
  case (Step \<sigma> \<sigma>')
  then show ?case by (blast intro: lease_step_inv)
qed

lemma lease_step_epoch:
  assumes "lease_step S J \<sigma> \<sigma>'" and inv: "lease_inv invar contents \<sigma>"
  defines "c \<equiv> current_epoch (contents (ls_store \<sigma>))" and "c' \<equiv> current_epoch (contents (ls_store \<sigma>'))"
  shows "c' = c \<and> (\<forall>i. instance_epoch (ls_instance \<sigma>' i) = instance_epoch (ls_instance \<sigma> i))
     \<or> c' = c + 1 \<and> (\<exists>i. instance_epoch (ls_instance \<sigma>' i) = Some c'
          \<and> (\<forall>j. j \<noteq> i \<longrightarrow> instance_epoch (ls_instance \<sigma>' j) = instance_epoch (ls_instance \<sigma> j)))"
proof -
  have st: "invar (ls_store \<sigma>)" "epoch_wf (contents (ls_store \<sigma>))" using inv by (simp_all add: lease_inv_def)
  note cong = current_epoch_cong [THEN conjunct1]
  show ?thesis
    using assms(1)
  proof cases
    case (AcquireStep i M v nowLive nowTake r M' s')
    from acquire_from_outcome [OF st AcquireStep(3,4)]
    consider "M' = M" "s' = ls_store \<sigma>" | "epoch_in_range (c + 1)" "heldEpoch M' = Some (c + 1)"
      "contents s' KEYS_leaseEpoch = Some (encodeEpoch (c + 1))"
      by (auto simp: c_def)
    then show ?thesis
    proof cases
      case 1
      with AcquireStep show ?thesis by (simp add: c_def c'_def instance_epoch_def)
    next
      case 2
      have "c' = c + 1" unfolding c'_def AcquireStep(1)
        using current_epoch_enc [of "c + 1" "contents s'", OF 2(1) 2(3)] by simp
      with 2 AcquireStep(1) show ?thesis by (auto simp: instance_epoch_def)
    qed
  next
    case (RenewStep i M now nowFail M' s' lost E')
    with renew_outcome [OF st(1) RenewStep(3)] show ?thesis
      using cong [of "contents s'" "contents (ls_store \<sigma>)"] by (auto simp: c_def c'_def instance_epoch_def)
  next
    case (ReleaseStep i M r M' s')
    with release_outcome [OF st(1) ReleaseStep(3)] show ?thesis
      using cong [of "contents s'" "contents (ls_store \<sigma>)"] by (auto simp: c_def c'_def instance_epoch_def)
  next
    case (StopStep i M)
    then show ?thesis by (simp add: c_def c'_def instance_epoch_def stop_def)
  next
    case (WriteStep i ops conds r E' s')
    show ?thesis
    proof (cases "leaseManager (ls_instance \<sigma> i)")
      case None
      with fenced_commit_no_manager [OF WriteStep(2) None WriteStep(6)] WriteStep(1)
      show ?thesis by (auto simp: c_def c'_def instance_epoch_def)
    next
      case (Some M)
      then have ok: "manager_ok (current_epoch (contents (ls_store \<sigma>))) M"
        using inv by (auto simp: lease_inv_def)
      note o = fenced_commit_outcome [OF st(1) WriteStep(2) Some ok st(2) WriteStep(4,5,6)]
      have "contents s' KEYS_leaseEpoch = contents (ls_store \<sigma>) KEYS_leaseEpoch"
        using o(3) WriteStep(3) apply_operations_other [of KEYS_leaseEpoch ops]
        by (auto simp: spares_lease_def)
      then show ?thesis using o(1) Some WriteStep(1) cong [of "contents s'" "contents (ls_store \<sigma>)"]
        by (auto simp: c_def c'_def instance_epoch_def)
    qed
  qed
qed

lemma reachable_fenced_commit:
  assumes "lease_reachable S J invar contents \<sigma>" and "ownershipLease (ls_instance \<sigma> i)"
    and "length ops \<le> MAX_BATCH_OPERATIONS" and "length conds < MAX_BATCH_OPERATIONS"
    and "fencedCommit S (ls_instance \<sigma> i) (ls_store \<sigma>) id ops conds = (r, E', s')"
  shows "r = Inr Committed \<and> instance_epoch (ls_instance \<sigma> i) = Some (current_epoch (contents (ls_store \<sigma>)))
       \<or> s' = ls_store \<sigma> \<and> (r = Inl EngineDeposedError
           \<or> instance_epoch (ls_instance \<sigma> i) = Some (current_epoch (contents (ls_store \<sigma>))))"
proof -
  have inv: "lease_inv invar contents \<sigma>" by (rule reachable_lease_inv [OF assms(1)])
  then have st: "invar (ls_store \<sigma>)" "epoch_wf (contents (ls_store \<sigma>))" by (simp_all add: lease_inv_def)
  show ?thesis
  proof (cases "leaseManager (ls_instance \<sigma> i)")
    case None
    with fenced_commit_no_manager [OF assms(2) None assms(5)] show ?thesis by simp
  next
    case (Some M)
    then have ok: "manager_ok (current_epoch (contents (ls_store \<sigma>))) M"
      using inv by (auto simp: lease_inv_def)
    from fenced_commit_outcome(3) [OF st(1) assms(2) Some ok st(2) assms(3,4,5)] Some
    show ?thesis by (auto simp: instance_epoch_def)
  qed
qed

lemma quiet_attempt:
  assumes "invar s" and "li_between_reads I = id" and "li_before_cas I = id"
    and "contents s KEYS_leaseEpoch = Some (encodeEpoch n)" and "epoch_in_range n" and "epoch_in_range (n + 1)"
    and "tryAcquireOnce S J M I s = (r, M', s')"
  shows "if (case Option.bind (contents s KEYS_leaseHolder) (decodeHolder J) of
               None \<Rightarrow> False | Some h \<Rightarrow> li_nowLive I < hr_expiresAt h)
         then r = Inr False \<and> M' = M \<and> s' = s
         else r = Inr True \<and> heldEpoch M' = Some (n + 1) \<and> current_epoch (contents s') = n + 1"
proof -
  let ?v = "\<lparr>lv_epochRaw = Some (encodeEpoch n), lv_holderRaw = contents s KEYS_leaseHolder,
             lv_epoch = Some n, lv_holder = Option.bind (contents s KEYS_leaseHolder) (decodeHolder J)\<rparr>"
  have read: "readState S J s s = Inr ?v"
    using assms(4,5) get_spec [OF assms(1)] by (simp add: readState_def)
  have run: "acquireFrom S J M s ?v (li_nowLive I) (li_nowTake I) = (r, M', s')"
    using assms(2,3,7) read by (simp add: tryAcquireOnce_def)
  have lt: "int (n + 1) < MAX_SAFE_INTEGER" using assms(6) by (simp add: epoch_in_range_def)
  show ?thesis
  proof (cases "case Option.bind (contents s KEYS_leaseHolder) (decodeHolder J) of
               None \<Rightarrow> False | Some h \<Rightarrow> li_nowLive I < hr_expiresAt h")
    case True
    with run show ?thesis by (simp add: acquireFrom_def Let_def)
  next
    case False
    with run lt have "takeOwnership S J M s (li_nowTake I) (Some (encodeEpoch n))
        (contents s KEYS_leaseHolder) (n + 1) = (r, M', s')"
      by (simp add: acquireFrom_def Let_def)
    with take_ownership [OF assms(1), of "Some (encodeEpoch n)" "contents s KEYS_leaseHolder" J M "li_nowTake I" "n + 1"]
    have "r = Inr True \<and> heldEpoch M' = Some (n + 1) \<and> contents s' KEYS_leaseEpoch = Some (encodeEpoch (n + 1))"
      using assms(4) by auto
    with False current_epoch_enc [OF assms(6), of "contents s'"] show ?thesis by simp
  qed
qed

lemma release_cas:
  assumes "invar s" and "lastHolderBytes M = Some b"
  shows "\<exists>s'. release S M s =
      (contents s KEYS_leaseHolder = Some b,
       if contents s KEYS_leaseHolder = Some b then M\<lparr>lm_stopped := True, lastHolderBytes := None\<rparr>
       else M\<lparr>lm_stopped := True\<rparr>, s') \<and> invar s'
    \<and> (if contents s KEYS_leaseHolder = Some b
       then contents s' = (contents s)(KEYS_leaseHolder := None) else s' = s)"
proof -
  let ?conds = "[\<lparr>cond_key = KEYS_leaseHolder, expectedValue = Some b\<rparr>]"
  from small_batch [OF assms(1), of ?conds "[Delete KEYS_leaseHolder]"] show ?thesis
    by (auto simp: release_def assms(2) conditions_hold_def split: if_splits)
qed

lemma renew_deposed:
  assumes "invar s" and "heldEpoch M = Some n" and "lastHolderBytes M = Some b"
    and "\<not> lm_stopped M" and "\<not> leaseLost M" and "contents s KEYS_leaseHolder \<noteq> Some b"
  shows "renewOnce S J M s now nowFail = (M\<lparr>leaseLost := True, leaseLostReason := Some Deposed\<rparr>, s, Some Deposed)"
proof -
  let ?conds = "[\<lparr>cond_key = KEYS_leaseHolder, expectedValue = Some b\<rparr>]"
  let ?ops = "[Put KEYS_leaseHolder (encodeHolder J
                 \<lparr>hr_holderId = lm_holderId M, hr_expiresAt = now + lm_ttlMs M, hr_epoch = n\<rparr>)]"
  have "storageConditionalBatch S s ?conds ?ops = (Inr False, s)"
    using small_batch [OF assms(1), of ?conds ?ops] assms(6) by (auto simp: conditions_hold_def)
  with assms show ?thesis by (simp add: renewOnce_def Let_def reportLeaseLost_def)
qed

end

lemma tryAcquireOnce_no_timeout:
  "fst (tryAcquireOnce S J M I s) \<noteq> Inl (EngineLeaseAcquisitionTimeout e h)"
  by (auto simp: tryAcquireOnce_def acquireFrom_def takeOwnership_def Let_def split: sum.splits prod.splits)

text \<open>One iteration: it ends the loop at once, or only before the deadline goes on to the next.\<close>

lemma acquireLoop_iteration:
  assumes "acquireLoop S J startedAt deadline first lastId M (I # Is) s = res"
  shows "(\<exists>r. fst res = Some r
            \<and> (\<forall>Js. acquireLoop S J startedAt deadline first lastId M (I # Js) s = res)
            \<and> (r = Inr True \<longrightarrow> first \<or> li_nowTop I < deadline)
            \<and> (\<forall>e h. r = Inl (EngineLeaseAcquisitionTimeout e h) \<longrightarrow>
                 deadline \<le> startedAt + e \<and> (e = li_nowTop I - startedAt \<or> e = li_nowAfter I - startedAt)))
       \<or> (li_nowAfter I < deadline \<and> (\<exists>lastId' M' s'. \<forall>Js.
            acquireLoop S J startedAt deadline first lastId M (I # Js) s
              = acquireLoop S J startedAt deadline False lastId' M' Js s'))"
proof -
  let ?M = "M\<lparr>lm_stopped := lm_stopped M \<or> li_stopped I\<rparr>"
  obtain out M' s' where once: "tryAcquireOnce S J ?M I s = (out, M', s')" by (metis prod.collapse)
  consider "lm_stopped ?M" | "\<not> lm_stopped ?M" "\<not> first" "deadline \<le> li_nowTop I"
    | e where "\<not> lm_stopped ?M" "first \<or> li_nowTop I < deadline" "out = Inl e"
    | "\<not> lm_stopped ?M" "first \<or> li_nowTop I < deadline" "out = Inr True"
    | "\<not> lm_stopped ?M" "first \<or> li_nowTop I < deadline" "out = Inr False"
    by (cases out) (fastforce simp: not_le)+
  then show ?thesis
  proof cases
    case 3
    with once tryAcquireOnce_no_timeout [of S J ?M I s] assms show ?thesis by (auto simp: Let_def)
  next
    case 5
    with once assms show ?thesis
      by (cases "get_op S (li_before_diagnostic I s') KEYS_leaseHolder";
          cases "deadline \<le> li_nowAfter I") (force simp: Let_def)+
  qed (use assms once in \<open>auto simp: Let_def\<close>)
qed

lemma acquireLoop_window:
  assumes "paced poll t Is" and "0 < poll" and "length Is = Suc n" and "deadline \<le> t + poll * int n"
  shows "\<exists>i r. i < length Is
     \<and> fst (acquireLoop S J startedAt deadline first lastId M Is s) = Some r
     \<and> acquireLoop S J startedAt deadline first lastId M (take (Suc i) Is) s
         = acquireLoop S J startedAt deadline first lastId M Is s
     \<and> (i = 0 \<or> t + poll * (int i - 1) < deadline)
     \<and> (r = Inr True \<longrightarrow> first \<and> i = 0 \<or> li_nowTop (Is ! i) < deadline)
     \<and> (\<forall>e h. r = Inl (EngineLeaseAcquisitionTimeout e h) \<longrightarrow> deadline \<le> startedAt + e)"
  using assms
proof (induction Is arbitrary: t n first lastId M s)
  case (Cons I Is)
  from acquireLoop_iteration [OF refl, of S J startedAt deadline first lastId M I Is s]
  show ?case
  proof (elim disjE exE conjE)
    fix r assume "fst (acquireLoop S J startedAt deadline first lastId M (I # Is) s) = Some r"
      "\<forall>Js. acquireLoop S J startedAt deadline first lastId M (I # Js) s
              = acquireLoop S J startedAt deadline first lastId M (I # Is) s"
      "r = Inr True \<longrightarrow> first \<or> li_nowTop I < deadline"
      "\<forall>e h. r = Inl (EngineLeaseAcquisitionTimeout e h) \<longrightarrow>
         deadline \<le> startedAt + e \<and> (e = li_nowTop I - startedAt \<or> e = li_nowAfter I - startedAt)"
    then show ?thesis
      by (intro exI [of _ 0] exI [of _ r]) (simp del: acquireLoop.simps)
  next
    fix lastId' M' s' assume after: "li_nowAfter I < deadline"
      and rest: "\<forall>Js. acquireLoop S J startedAt deadline first lastId M (I # Js) s
              = acquireLoop S J startedAt deadline False lastId' M' Js s'"
    have t: "t \<le> li_nowAfter I" and paced: "paced poll (li_nowAfter I + poll) Is"
      using Cons.prems(1) by simp_all
    have "n \<noteq> 0" using Cons.prems(4) t after by (cases n) auto
    then obtain k where n: "n = Suc k" by (cases n) auto
    then have "length Is = Suc k" "deadline \<le> li_nowAfter I + poll + poll * int k"
      using Cons.prems(3,4) t by (simp_all add: algebra_simps)
    from Cons.IH [OF paced Cons.prems(2) this, where first = False and lastId = lastId' and M = M' and s = s']
    obtain i r where i: "i < length Is"
      "fst (acquireLoop S J startedAt deadline False lastId' M' Is s') = Some r"
      "acquireLoop S J startedAt deadline False lastId' M' (take (Suc i) Is) s'
         = acquireLoop S J startedAt deadline False lastId' M' Is s'"
      "i = 0 \<or> li_nowAfter I + poll + poll * (int i - 1) < deadline"
      "r = Inr True \<longrightarrow> li_nowTop (Is ! i) < deadline"
      "\<forall>e h. r = Inl (EngineLeaseAcquisitionTimeout e h) \<longrightarrow> deadline \<le> startedAt + e"
      by auto
    have "t + poll * int i < deadline"
      using i(4) t after by (auto simp: algebra_simps)
    with i rest show ?thesis
      by (intro exI [of _ "Suc i"] exI [of _ r]) (simp del: acquireLoop.simps)
  qed
qed simp

lemmas lease_eval = createLeaseManager_def
  readState_def acquireFrom_def takeOwnership_def memoryStorage_def memory_get_def newMemoryStorage_def
  storageConditionalBatch_def requireStorageCapability_def assertStorageBatchOperationCount_def
  memory_capabilities_def memory_conditionalBatch_def memory_contents_def MAX_BATCH_OPERATIONS_def
  MAX_SAFE_INTEGER_def Let_def

section \<open>A concrete system\<close>

text \<open>
  A JSON stand-in that stores holder records as a sign byte, two unary numbers and the code
  units of the id, on which \<open>json_ok\<close> holds, and a takeover of instance 0 by instance 1.
\<close>

definition unary :: "nat \<Rightarrow> bytes" where
  "unary n = replicate n 0 @ [1]"

fun readUnary :: "bytes \<Rightarrow> nat \<times> bytes" where
  "readUnary [] = (0, [])"
| "readUnary (b # bs) = (if b = 0 then (case readUnary bs of (n, r) \<Rightarrow> (Suc n, r)) else (0, bs))"

lemma readUnary_unary [simp]: "readUnary (unary n @ r) = (n, r)"
  by (induction n) (simp_all add: unary_def)

definition splitUnit :: "16 word \<Rightarrow> bytes" where
  "splitUnit c = [of_nat (unat c div 256), of_nat (unat c mod 256)]"

fun joinUnits :: "bytes \<Rightarrow> jsstring" where
  "joinUnits (a # b # r) = of_nat (unat a * 256 + unat b) # joinUnits r"
| "joinUnits _ = []"

lemma joinUnits_split [simp]: "joinUnits (concat (map splitUnit cs)) = cs"
proof (induction cs)
  case (Cons c cs)
  have "unat c div 256 < 256" using unat16_bound [of c] by auto
  then have "unat (of_nat (unat c div 256) :: 8 word) * 256 + unat (of_nat (unat c mod 256) :: 8 word) = unat c"
    by (simp add: unat_of_nat)
  then have "(of_nat (unat (of_nat (unat c div 256) :: 8 word) * 256 + unat (of_nat (unat c mod 256) :: 8 word)) :: 16 word) = c"
    by (metis of_nat_unat ucast_id)
  with Cons show ?case by (simp only: list.map concat.simps splitUnit_def append.simps joinUnits.simps)
qed simp

definition plainStringify :: "jsval \<Rightarrow> bytes" where
  "plainStringify v =
     (case (field v (js ''holderId''), field v (js ''expiresAt''), field v (js ''epoch'')) of
        (JString h, JNumber (JFin x), JNumber (JFin e)) \<Rightarrow>
          (if x < 0 then 1 else 0) # unary (nat \<bar>\<lfloor>x\<rfloor>\<bar>) @ unary (nat \<lfloor>e\<rfloor>) @ concat (map splitUnit h)
      | _ \<Rightarrow> [])"

definition plainParse :: "bytes \<Rightarrow> jsval option" where
  "plainParse b =
     (case b of
        [] \<Rightarrow> None
      | c # r \<Rightarrow>
          let (x, r') = readUnary r; (e, r'') = readUnary r'
          in Some (holder_value \<lparr>hr_holderId = joinUnits r'',
                   hr_expiresAt = (if c = 1 then - int x else int x), hr_epoch = e\<rparr>))"

definition plainJson :: json where
  "plainJson = \<lparr>json_stringify = plainStringify, json_parse = plainParse\<rparr>"

lemma plainJson_ok: "json_ok plainJson"
  by (simp add: json_ok_def plainJson_def plainStringify_def plainParse_def holder_value_def field_def)

definition boot_engine :: "nat \<Rightarrow> engine_internals" where
  "boot_engine i = \<lparr>ownershipLease = True, deposed = False,
     leaseManager = Some (createLeaseManager [of_nat i] 5 60 None), depositionWarnings = 0\<rparr>"

definition boot_system :: "memory_storage lease_system" where
  "boot_system = \<lparr>ls_store = newMemoryStorage, ls_instance = boot_engine\<rparr>"

definition system_acquire ::
    "memory_storage lease_system \<Rightarrow> nat \<Rightarrow> int \<Rightarrow> memory_storage lease_system" where
  "system_acquire \<sigma> i now =
     (case (leaseManager (ls_instance \<sigma> i), readState memoryStorage plainJson (ls_store \<sigma>) (ls_store \<sigma>)) of
        (Some M, Inr v) \<Rightarrow>
          (case acquireFrom memoryStorage plainJson M (ls_store \<sigma>) v now now of
             (r, M', s') \<Rightarrow> \<sigma>\<lparr>ls_store := s',
                ls_instance := (ls_instance \<sigma>)(i := (ls_instance \<sigma> i)\<lparr>leaseManager := Some M'\<rparr>)\<rparr>)
      | _ \<Rightarrow> \<sigma>)"

definition takeover :: "memory_storage lease_system" where
  "takeover = system_acquire (system_acquire boot_system 0 10) 1 15"

abbreviation memory_lease_reachable where
  "memory_lease_reachable J \<equiv> lease_reachable memoryStorage J memory_invar memory_contents"

lemma readState_view_ok: "readState S J sh se = Inr v \<Longrightarrow> view_ok J v"
  by (auto simp: readState_def view_ok_def split: sum.splits)

lemma system_acquire_reachable:
  assumes "memory_lease_reachable plainJson \<sigma>"
  shows "memory_lease_reachable plainJson (system_acquire \<sigma> i now)"
proof (cases "leaseManager (ls_instance \<sigma> i)")
  case None
  then show ?thesis using assms by (simp add: system_acquire_def)
next
  case (Some M)
  show ?thesis
  proof (cases "readState memoryStorage plainJson (ls_store \<sigma>) (ls_store \<sigma>)")
    case (Inl e)
    then show ?thesis using assms Some by (simp add: system_acquire_def)
  next
    case (Inr v)
    obtain r M' s' where "acquireFrom memoryStorage plainJson M (ls_store \<sigma>) v now now = (r, M', s')"
      using prod_cases3 by blast
    with lease_step.AcquireStep [OF Some readState_view_ok [OF Inr] this] assms Some Inr show ?thesis
      by (auto simp: system_acquire_def intro: lease_reachable.Step)
  qed
qed

lemma boot_reachable: "memory_lease_reachable J boot_system"
  by (intro lease_reachable.Boot)
    (simp add: lease_initial_def boot_system_def boot_engine_def createLeaseManager_def epoch_wf_def
      newMemoryStorage_def memory_invar_def memory_contents_def)

lemma takeover_reachable: "memory_lease_reachable plainJson takeover"
  unfolding takeover_def by (intro system_acquire_reachable boot_reachable)

text \<open>The takeover in closed form: what each instance and the store hold after it.\<close>

definition holder_bytes :: "nat \<Rightarrow> int \<Rightarrow> nat \<Rightarrow> bytes" where
  "holder_bytes i now n =
     encodeHolder plainJson \<lparr>hr_holderId = [of_nat i], hr_expiresAt = now + 5, hr_epoch = n\<rparr>"

definition held_manager :: "nat \<Rightarrow> int \<Rightarrow> nat \<Rightarrow> lease_manager" where
  "held_manager i now n = (createLeaseManager [of_nat i] 5 60 None)\<lparr>heldEpoch := Some n,
     heldEpochBytes := Some (encodeEpoch n), lastHolderBytes := Some (holder_bytes i now n),
     heldSince := Some now, lastRenewedAt := Some now\<rparr>"

definition held_engine :: "nat \<Rightarrow> int \<Rightarrow> nat \<Rightarrow> engine_internals" where
  "held_engine i now n = (boot_engine i)\<lparr>leaseManager := Some (held_manager i now n)\<rparr>"

definition held_store :: "nat \<Rightarrow> int \<Rightarrow> nat \<Rightarrow> memory_storage" where
  "held_store i now n =
     \<lparr>mem_data = [(KEYS_leaseEpoch, encodeEpoch n), (KEYS_leaseHolder, holder_bytes i now n)]\<rparr>"

lemma small_epochs [simp]: "epoch_in_range 1" "epoch_in_range (Suc 0)" "epoch_in_range 2"
  by (simp_all add: epoch_in_range_def MAX_SAFE_INTEGER_def)

lemma decode_holder_bytes:
  assumes "0 \<le> now" and "now \<le> 1000" and "epoch_in_range n"
  shows "decodeHolder plainJson (holder_bytes i now n)
         = Some \<lparr>hr_holderId = [of_nat i], hr_expiresAt = now + 5, hr_epoch = n\<rparr>"
  unfolding holder_bytes_def
  using assms by (intro decodeHolder_encodeHolder [OF plainJson_ok]) (simp_all add: MAX_SAFE_INTEGER_def)

lemma first_acquire:
  "system_acquire boot_system 0 10
   = \<lparr>ls_store = held_store 0 10 1, ls_instance = boot_engine(0 := held_engine 0 10 1)\<rparr>"
  by (simp add: system_acquire_def lease_eval boot_system_def boot_engine_def held_store_def
      held_engine_def held_manager_def holder_bytes_def)

lemma second_view:
  "readState memoryStorage plainJson (held_store 0 10 1) (held_store 0 10 1)
   = Inr \<lparr>lv_epochRaw = Some (encodeEpoch 1), lv_holderRaw = Some (holder_bytes 0 10 1),
          lv_epoch = Some 1, lv_holder = Some \<lparr>hr_holderId = [0], hr_expiresAt = 15, hr_epoch = 1\<rparr>\<rparr>"
  using decode_holder_bytes [of 10 1 0]
  by (simp add: readState_def memoryStorage_def memory_get_def held_store_def)

lemma second_acquire:
  "acquireFrom memoryStorage plainJson (createLeaseManager [1] 5 60 None) (held_store 0 10 1)
     \<lparr>lv_epochRaw = Some (encodeEpoch 1), lv_holderRaw = Some (holder_bytes 0 10 1),
      lv_epoch = Some 1, lv_holder = Some \<lparr>hr_holderId = [0], hr_expiresAt = 15, hr_epoch = 1\<rparr>\<rparr> 15 15
   = (Inr True, held_manager 1 15 2, held_store 1 15 2)"
  by (simp add: lease_eval held_store_def held_manager_def holder_bytes_def numeral_2_eq_2)

lemma takeover_state:
  "takeover = \<lparr>ls_store = held_store 1 15 2,
               ls_instance = boot_engine(0 := held_engine 0 10 1, 1 := held_engine 1 15 2)\<rparr>"
  unfolding takeover_def first_acquire
  by (simp add: system_acquire_def boot_engine_def second_view second_acquire held_engine_def del: One_nat_def)

lemma takeover_facts:
  "ownershipLease (ls_instance takeover 0)" "ownershipLease (ls_instance takeover 1)"
  "instance_epoch (ls_instance takeover 0) = Some 1" "instance_epoch (ls_instance takeover 1) = Some 2"
  "current_epoch (memory_contents (ls_store takeover)) = 2"
  by (simp_all add: takeover_state held_engine_def boot_engine_def held_manager_def instance_epoch_def
      createLeaseManager_def current_epoch_def held_store_def memory_contents_def)

lemma takeover_writer:
  "fst (fencedCommit memoryStorage (ls_instance takeover 1) (ls_store takeover) id [] []) = Inr Committed"
  by (simp add: takeover_state held_engine_def boot_engine_def held_manager_def held_store_def
      fencedCommit_def resolveFenceEpochOrHalt_def currentEpochBytes_def lease_eval)

lemma takeover_store_invar: "memory_invar (ls_store takeover)"
  by (simp add: takeover_state held_store_def memory_invar_def)

section \<open>Properties\<close>

text \<open>
  C2: a deposed instance cannot write. In every reachable state of any number of instances
  that acquire, renew, release, stop and write in any order, a fenced commit of an instance
  whose epoch is behind the stored one leaves the store unchanged and raises
  \<open>EngineDeposedError\<close>, whatever operations and conditions it carries.
\<close>

theorem deposed_writer_is_fenced:
  assumes "memory_lease_reachable J \<sigma>" and "ownershipLease (ls_instance \<sigma> i)"
    and "instance_epoch (ls_instance \<sigma> i) = Some n"
    and "n < current_epoch (memory_contents (ls_store \<sigma>))"
    and "length ops \<le> MAX_BATCH_OPERATIONS" and "length conds < MAX_BATCH_OPERATIONS"
    and "fencedCommit memoryStorage (ls_instance \<sigma> i) (ls_store \<sigma>) id ops conds = (r, E', s')"
  shows "r = Inl EngineDeposedError \<and> s' = ls_store \<sigma>"
  using mem_cas.reachable_fenced_commit [OF assms(1,2,5,6,7)] assms(3,4) by auto

theorem deposed_writer_is_fenced_witness:
  "fst (fencedCommit memoryStorage (ls_instance takeover 0) (ls_store takeover) id [Put [119] [1]] [])
   = Inl EngineDeposedError"
proof -
  have "(1::nat) < current_epoch (memory_contents (ls_store takeover))" by (simp add: takeover_facts)
  then show ?thesis
    using deposed_writer_is_fenced
      [OF takeover_reachable takeover_facts(1,3), of "[Put [119] [1]]" "[]"]
    by (cases "fencedCommit memoryStorage (ls_instance takeover 0) (ls_store takeover) id [Put [119] [1]] []")
      (simp add: MAX_BATCH_OPERATIONS_def)
qed

text \<open>
  C29: single writer. In a reachable state at most one instance under lease ownership can
  commit a fenced write.
\<close>

theorem at_most_one_fenced_writer:
  assumes "memory_lease_reachable J \<sigma>"
    and "ownershipLease (ls_instance \<sigma> i)" and "ownershipLease (ls_instance \<sigma> j)"
    and "length ops \<le> MAX_BATCH_OPERATIONS" and "length conds < MAX_BATCH_OPERATIONS"
    and "length ops' \<le> MAX_BATCH_OPERATIONS" and "length conds' < MAX_BATCH_OPERATIONS"
    and "fst (fencedCommit memoryStorage (ls_instance \<sigma> i) (ls_store \<sigma>) id ops conds) = Inr Committed"
    and "fst (fencedCommit memoryStorage (ls_instance \<sigma> j) (ls_store \<sigma>) id ops' conds') = Inr Committed"
  shows "i = j"
proof -
  have "instance_epoch (ls_instance \<sigma> i) = Some (current_epoch (memory_contents (ls_store \<sigma>)))"
    using mem_cas.reachable_fenced_commit [OF assms(1,2,4,5)] assms(8) by (metis prod.collapse sum.distinct(1))
  moreover have "instance_epoch (ls_instance \<sigma> j) = Some (current_epoch (memory_contents (ls_store \<sigma>)))"
    using mem_cas.reachable_fenced_commit [OF assms(1,3,6,7)] assms(9) by (metis prod.collapse sum.distinct(1))
  ultimately show ?thesis
    using mem_cas.reachable_lease_inv [OF assms(1)] by (auto simp: lease_inv_def)
qed

theorem at_most_one_fenced_writer_witness:
  "fst (fencedCommit memoryStorage (ls_instance takeover 0) (ls_store takeover) id [] []) \<noteq> Inr Committed"
  using at_most_one_fenced_writer [OF takeover_reachable takeover_facts(1,2), of "[]" "[]" "[]" "[]"]
    takeover_writer
  by (auto simp: MAX_BATCH_OPERATIONS_def)

text \<open>
  The epoch is a monotonic high-water mark. A step of any instance leaves the stored epoch
  and every instance's epoch as they were, or raises the stored epoch by exactly one, which
  becomes the epoch of one instance while all the others keep theirs: an epoch is never minted
  twice and release never lowers it.
\<close>

lemma epoch_monotone:
  assumes "memory_lease_reachable J \<sigma>" and "lease_step memoryStorage J \<sigma> \<sigma>'"
  defines "c \<equiv> current_epoch (memory_contents (ls_store \<sigma>))"
    and "c' \<equiv> current_epoch (memory_contents (ls_store \<sigma>'))"
  shows "c' = c \<and> (\<forall>i. instance_epoch (ls_instance \<sigma>' i) = instance_epoch (ls_instance \<sigma> i))
     \<or> c' = c + 1 \<and> (\<exists>i. instance_epoch (ls_instance \<sigma>' i) = Some c'
          \<and> (\<forall>j. j \<noteq> i \<longrightarrow> instance_epoch (ls_instance \<sigma>' j) = instance_epoch (ls_instance \<sigma> j)))"
  using mem_cas.lease_step_epoch [OF assms(2) mem_cas.reachable_lease_inv [OF assms(1)]]
  unfolding c_def c'_def .

text \<open>
  The 8-byte big-endian epoch codec round-trips on exactly the usable epochs: encoding and
  decoding gives the epoch back when it is at least 1 and has room to increment, and \<open>null\<close>
  (the fail-closed path) for every other 64-bit value.
\<close>

lemma epoch_codec_roundtrip:
  assumes "n < 2 ^ 64"
  shows "decodeEpoch (encodeEpoch n) = (if 1 \<le> n \<and> int n < MAX_SAFE_INTEGER then Some n else None)"
  using assms bigEndian_encodeEpoch [of n] by (auto simp: decodeEpoch_def)

text \<open>
  A lease is exclusive until it expires and available from then on. Against a store whose
  holder record expires at \<open>x\<close>, an attempt that is not interfered with is refused, with nothing
  written, while the clock is before \<open>x\<close>, and takes the lease at the next epoch once it is not.
\<close>

lemma lease_exclusive_until_expiry:
  assumes "json_ok J" and "memory_invar s" and "epoch_in_range n" and "epoch_in_range (n + 1)"
    and "0 \<le> x" and "x \<le> MAX_SAFE_INTEGER"
    and "memory_contents s KEYS_leaseEpoch = Some (encodeEpoch n)"
    and "memory_contents s KEYS_leaseHolder
         = Some (encodeHolder J \<lparr>hr_holderId = owner, hr_expiresAt = x, hr_epoch = n\<rparr>)"
    and "li_between_reads I = id" and "li_before_cas I = id"
    and "tryAcquireOnce memoryStorage J M I s = (r, M', s')"
  shows "if li_nowLive I < x then r = Inr False \<and> M' = M \<and> s' = s
         else r = Inr True \<and> heldEpoch M' = Some (n + 1) \<and> current_epoch (memory_contents s') = n + 1"
  using mem_cas.quiet_attempt [OF assms(2,9,10,7,3,4,11)] assms(8)
    decodeHolder_encodeHolder [OF assms(1), of "\<lparr>hr_holderId = owner, hr_expiresAt = x, hr_epoch = n\<rparr>"]
    assms(3,5,6)
  by simp

definition attempt_at :: "int \<Rightarrow> memory_storage lease_interference" where
  "attempt_at t = \<lparr>li_between_reads = id, li_before_cas = id, li_before_diagnostic = id, li_stopped = False,
     li_nowTop = t, li_nowLive = t, li_nowTake = t, li_nowAfter = t\<rparr>"

text \<open>
  A clean shutdown hands the lease over at once. When the current holder releases, its
  holder record is deleted and the epoch survives; the next attempt of another instance takes
  the lease at the next epoch whatever its clock says, without waiting for the expiry.
\<close>

lemma release_hands_off:
  assumes "memory_invar s" and "epoch_in_range n" and "epoch_in_range (n + 1)"
    and "memory_contents s KEYS_leaseEpoch = Some (encodeEpoch n)"
    and "lastHolderBytes M = Some b" and "memory_contents s KEYS_leaseHolder = Some b"
    and "release memoryStorage M s = (released, M1, s1)"
    and "li_between_reads I = id" and "li_before_cas I = id"
    and "tryAcquireOnce memoryStorage J M2 I s1 = (r, M2', s2)"
  shows "released \<and> current_epoch (memory_contents s1) = n
     \<and> r = Inr True \<and> heldEpoch M2' = Some (n + 1) \<and> current_epoch (memory_contents s2) = n + 1"
proof -
  have s1: "released" "memory_invar s1" "memory_contents s1 = (memory_contents s)(KEYS_leaseHolder := None)"
    using mem_cas.release_cas [OF assms(1,5)] assms(6,7) by auto
  then have "memory_contents s1 KEYS_leaseEpoch = Some (encodeEpoch n)" using assms(4) by simp
  with mem_cas.quiet_attempt [OF s1(2) assms(8,9) this assms(2,3,10)] s1 current_epoch_enc [OF assms(2)]
  show ?thesis by simp
qed

text \<open>
  An instance that lost the holder record does no harm. Its release is refused and writes
  nothing, so it never deletes its successor's record; its next renewal writes nothing and
  reports \<open>deposed\<close>.
\<close>

lemma deposed_holder_is_harmless:
  assumes "memory_invar s" and "heldEpoch M = Some n" and "lastHolderBytes M = Some b"
    and "memory_contents s KEYS_leaseHolder \<noteq> Some b"
    and "\<not> lm_stopped M" and "\<not> leaseLost M"
  shows "release memoryStorage M s = (False, M\<lparr>lm_stopped := True\<rparr>, s)
     \<and> renewOnce memoryStorage J M s now nowFail
         = (M\<lparr>leaseLost := True, leaseLostReason := Some Deposed\<rparr>, s, Some Deposed)"
  using mem_cas.release_cas [OF assms(1,3)] mem_cas.renew_deposed [OF assms(1,2,3,5,6,4)] assms(4) by auto

text \<open>
  C34: waiting for the lease is bounded by the configured window. Let the clock not run
  backwards and let each \<open>delay\<close> between two polls take at least the positive poll interval.
  Whatever the other instances do to the store, \<open>acquire\<close> returns by its poll number \<open>n\<close>, counted
  from zero, as soon as \<open>n\<close> poll intervals cover \<open>waitTimeoutMs\<close>, and the iterations after the
  one it returns at play no part; it never goes on to poll \<open>i\<close> once \<open>i - 1\<close> poll intervals cover
  the window; it returns with the lease only from the first poll or from one that started
  within the window, never after an overshooting sleep; and when it reports a timeout, the
  elapsed time reported covers the window.
\<close>

theorem acquire_returns_by_deadline:
  assumes "paced (lm_acquirePollIntervalMs M) startedAt Is" and "0 < lm_acquirePollIntervalMs M"
    and "length Is = Suc n" and "lm_waitTimeoutMs M \<le> lm_acquirePollIntervalMs M * int n"
  shows "\<exists>i r. i \<le> n \<and> fst (acquire S J M startedAt Is s) = Some r
     \<and> acquire S J M startedAt (take (Suc i) Is) s = acquire S J M startedAt Is s
     \<and> (i = 0 \<or> lm_acquirePollIntervalMs M * (int i - 1) < lm_waitTimeoutMs M)
     \<and> (r = Inr True \<longrightarrow> i = 0 \<or> li_nowTop (Is ! i) < startedAt + lm_waitTimeoutMs M)
     \<and> (\<forall>e h. r = Inl (EngineLeaseAcquisitionTimeout e h) \<longrightarrow> lm_waitTimeoutMs M \<le> e)"
  using acquireLoop_window [where deadline = "startedAt + lm_waitTimeoutMs M" and first = True
      and S = S and J = J and startedAt = startedAt and lastId = None and M = M and s = s, OF assms(1-3)]
    assms(3,4)
  unfolding acquire_def by (auto simp: less_Suc_eq_le)

text \<open>
  Instance 0 holds the lease until 1000; instance 1 polls every 20 for at most 60 and gives up
  at its fourth poll.
\<close>

theorem acquire_returns_by_deadline_witness:
  "let M = createLeaseManager [1] 5 60 (Some 20); Is = map attempt_at [0, 20, 40, 60];
       res = acquire memoryStorage plainJson M 0 Is (held_store 0 1000 1)
   in \<exists>i r. i \<le> 3 \<and> fst res = Some r
     \<and> acquire memoryStorage plainJson M 0 (take (Suc i) Is) (held_store 0 1000 1) = res
     \<and> (i = 0 \<or> 20 * (int i - 1) < 60)
     \<and> (r = Inr True \<longrightarrow> i = 0 \<or> li_nowTop (Is ! i) < 60)
     \<and> (\<forall>e h. r = Inl (EngineLeaseAcquisitionTimeout e h) \<longrightarrow> 60 \<le> e)"
proof -
  let ?M = "createLeaseManager [1] 5 60 (Some 20)"
  let ?Is = "map attempt_at [0, 20, 40, 60]"
  have M: "lm_acquirePollIntervalMs ?M = 20" "lm_waitTimeoutMs ?M = 60" by (simp_all add: createLeaseManager_def)
  have "paced 20 0 ?Is" by (simp add: attempt_at_def)
  moreover have "length ?Is = Suc 3" by simp
  ultimately show ?thesis
    using acquire_returns_by_deadline [of ?M 0 ?Is 3 memoryStorage plainJson "held_store 0 1000 1"]
    unfolding Let_def M by simp
qed

end
