(* ===== verification/Checkpoint_Replay.thy ===== *)
theory Checkpoint_Replay
  imports Weft_Prelude
begin

text \<open>
  \<open>src/src/core/engine/checkpoint-replay.ts\<close>: a checkpoint keeps only the results a workflow has
  not consumed yet; the consumed ones move into the payload of the checkpoint's event-log entry
  (and, when that entry is compacted, into the watermark), from which recovery rebuilds the
  full checkpoint.

  A worker replay signature or failure that passed its guard is kept as the decoded value it
  is. The remaining fields of a checkpoint, which this module copies, are the parameter type
  \<open>'o\<close>. \<open>Map\<close> objects are association lists; steps are integers.
\<close>

section \<open>Payloads\<close>

type_synonym 'v step_entries = "(int \<times> 'v) list"

record replay_payload =
  rp_accumulatedResults :: "jsval step_entries option"
  rp_workerReplaySignatures :: "jsval step_entries option"
  rp_workerReplayFailures :: "jsval step_entries option"

definition CHECKPOINT_REPLAY_PAYLOAD_KEY :: jsstring where
  "CHECKPOINT_REPLAY_PAYLOAD_KEY = js ''__weftCheckpointReplay''"

definition nonEmpty :: "'a list option \<Rightarrow> 'a list option" where
  "nonEmpty xs = (case xs of Some (y # ys) \<Rightarrow> Some (y # ys) | _ \<Rightarrow> None)"

definition buildReplayPayload :: "replay_payload \<Rightarrow> replay_payload option" where
  "buildReplayPayload p =
     (let r = \<lparr>rp_accumulatedResults = nonEmpty (rp_accumulatedResults p),
               rp_workerReplaySignatures = nonEmpty (rp_workerReplaySignatures p),
               rp_workerReplayFailures = nonEmpty (rp_workerReplayFailures p)\<rparr>
      in if rp_accumulatedResults r = None \<and> rp_workerReplaySignatures r = None
            \<and> rp_workerReplayFailures r = None then None else Some r)"

text \<open>\<open>xs ?? []\<close>\<close>

definition orEmpty :: "'a list option \<Rightarrow> 'a list" where
  "orEmpty xs = (case xs of Some ys \<Rightarrow> ys | None \<Rightarrow> [])"

definition mergeCheckpointReplayPayloads ::
    "replay_payload option \<Rightarrow> replay_payload option \<Rightarrow> replay_payload option" where
  "mergeCheckpointReplayPayloads left right =
     (case left of
        None \<Rightarrow> right
      | Some l \<Rightarrow>
          (case right of
             None \<Rightarrow> left
           | Some r \<Rightarrow> buildReplayPayload
               \<lparr>rp_accumulatedResults = Some (orEmpty (rp_accumulatedResults l) @ orEmpty (rp_accumulatedResults r)),
                rp_workerReplaySignatures =
                  Some (orEmpty (rp_workerReplaySignatures l) @ orEmpty (rp_workerReplaySignatures r)),
                rp_workerReplayFailures =
                  Some (orEmpty (rp_workerReplayFailures l) @ orEmpty (rp_workerReplayFailures r))\<rparr>))"

section \<open>Reading payloads from decoded values\<close>

definition replayStep :: "jsval \<Rightarrow> int option" where
  "replayStep v =
     (case v of
        JNumber (JFin r) \<Rightarrow> if isSafeInteger (JFin r) \<and> r \<ge> 0 then Some \<lfloor>r\<rfloor> else None
      | _ \<Rightarrow> None)"

fun readEntriesWith :: "(jsval \<Rightarrow> bool) \<Rightarrow> jsval list \<Rightarrow> jsval step_entries" where
  "readEntriesWith P [] = []"
| "readEntriesWith P (entry # rest) =
     (case entry of
        JArray [a, b] \<Rightarrow>
          (case replayStep a of
             None \<Rightarrow> readEntriesWith P rest
           | Some step \<Rightarrow> if P b then (step, b) # readEntriesWith P rest else readEntriesWith P rest)
      | _ \<Rightarrow> readEntriesWith P rest)"

definition readUnknownEntries :: "jsval \<Rightarrow> jsval step_entries option" where
  "readUnknownEntries v = (case v of JArray xs \<Rightarrow> Some (readEntriesWith (\<lambda>_. True) xs) | _ \<Rightarrow> None)"

definition WORKER_REPLAY_SIGNATURE_FORMAT :: jsstring where
  "WORKER_REPLAY_SIGNATURE_FORMAT = js ''weft-worker-operation-signature-v1''"

definition isWorkerReplaySignature :: "jsval \<Rightarrow> bool" where
  "isWorkerReplaySignature v \<longleftrightarrow> isObject v
     \<and> field v (js ''format'') = JString WORKER_REPLAY_SIGNATURE_FORMAT
     \<and> isString (field v (js ''operationType''))
     \<and> isString (field v (js ''stableFieldsDigest''))
     \<and> replayStep (field v (js ''stableFieldsByteLength'')) \<noteq> None"

definition isWorkerReplayFailure :: "jsval \<Rightarrow> bool" where
  "isWorkerReplayFailure v \<longleftrightarrow> isObject v
     \<and> field v (js ''status'') = JString (js ''failed'')
     \<and> isString (field v (js ''error''))
     \<and> (field v (js ''errorName'') = JUndefined \<or> isString (field v (js ''errorName'')))
     \<and> (let c = field v (js ''failureCategory'')
        in c = JUndefined \<or> c \<in> JString ` set [js ''application'', js ''cancellation'', js ''resource'',
                                               js ''system'', js ''timeout''])"

definition readWorkerReplaySignatureEntries :: "jsval \<Rightarrow> jsval step_entries option" where
  "readWorkerReplaySignatureEntries v =
     (case v of JArray xs \<Rightarrow> Some (readEntriesWith isWorkerReplaySignature xs) | _ \<Rightarrow> None)"

definition readWorkerReplayFailureEntries :: "jsval \<Rightarrow> jsval step_entries option" where
  "readWorkerReplayFailureEntries v =
     (case v of JArray xs \<Rightarrow> Some (readEntriesWith isWorkerReplayFailure xs) | _ \<Rightarrow> None)"

definition readCheckpointReplayPayloadRecord :: "jsval \<Rightarrow> replay_payload option" where
  "readCheckpointReplayPayloadRecord v =
     buildReplayPayload
       \<lparr>rp_accumulatedResults = readUnknownEntries (field v (js ''accumulatedResults'')),
        rp_workerReplaySignatures = readWorkerReplaySignatureEntries (field v (js ''workerReplaySignatures'')),
        rp_workerReplayFailures = readWorkerReplayFailureEntries (field v (js ''workerReplayFailures''))\<rparr>"

definition readCheckpointReplayPayload :: "jsval \<Rightarrow> replay_payload option" where
  "readCheckpointReplayPayload payload =
     (if \<not> isObject payload then None
      else let r = field payload CHECKPOINT_REPLAY_PAYLOAD_KEY
           in if \<not> isObject r then None else readCheckpointReplayPayloadRecord r)"

definition getCheckpointEventStep :: "jsval \<Rightarrow> int option" where
  "getCheckpointEventStep payload = (if \<not> isObject payload then None else replayStep (field payload (js ''step'')))"

section \<open>Writing payloads\<close>

definition entries_value :: "jsval step_entries \<Rightarrow> jsval" where
  "entries_value xs = JArray (map (\<lambda>(k, v). JArray [JNumber (JFin (of_int k)), v]) xs)"

definition optional_field :: "string \<Rightarrow> jsval step_entries option \<Rightarrow> (jsstring \<times> jsval) list" where
  "optional_field name xs = (case xs of None \<Rightarrow> [] | Some ys \<Rightarrow> [(js name, entries_value ys)])"

text \<open>The object a payload is stored as.\<close>

definition payload_value :: "replay_payload \<Rightarrow> jsval" where
  "payload_value p = JObject (optional_field ''accumulatedResults'' (rp_accumulatedResults p)
     @ optional_field ''workerReplaySignatures'' (rp_workerReplaySignatures p)
     @ optional_field ''workerReplayFailures'' (rp_workerReplayFailures p))"

definition createCheckpointEventPayload :: "int \<Rightarrow> replay_payload option \<Rightarrow> jsval" where
  "createCheckpointEventPayload step p =
     JObject ((js ''step'', JNumber (JFin (of_int step)))
       # (case p of None \<Rightarrow> [] | Some r \<Rightarrow> [(CHECKPOINT_REPLAY_PAYLOAD_KEY, payload_value r)]))"

definition stripInternalCheckpointReplayPayload :: "(jsstring \<times> jsval) list \<Rightarrow> (jsstring \<times> jsval) list" where
  "stripInternalCheckpointReplayPayload fs = AList.delete CHECKPOINT_REPLAY_PAYLOAD_KEY fs"

section \<open>Pruning and hydrating a checkpoint\<close>

record 'o checkpoint =
  cp_step :: int
  cp_accumulatedResults :: "jsval step_entries"
  cp_accumulatedResultReplayWatermark :: "int option"
  cp_workerReplaySignatures :: "jsval step_entries option"
  cp_workerReplayFailures :: "jsval step_entries option"
  cp_transientReplayPayload :: "replay_payload option"
  cp_other :: 'o

definition NO_REPLAY_WATERMARK :: int where "NO_REPLAY_WATERMARK = -1"

definition entriesBeforeStep :: "'v step_entries \<Rightarrow> int \<Rightarrow> 'v step_entries" where
  "entriesBeforeStep es step = filter (\<lambda>(k, _). k < step) es"

definition entriesAtOrAfterStep :: "'v step_entries \<Rightarrow> int \<Rightarrow> 'v step_entries" where
  "entriesAtOrAfterStep es step = filter (\<lambda>(k, _). k \<ge> step) es"

definition entriesAfterWatermark :: "'v step_entries \<Rightarrow> int \<Rightarrow> 'v step_entries" where
  "entriesAfterWatermark es w = filter (\<lambda>(k, _). k > w) es"

definition stripTransientCheckpointReplayPayload :: "'o checkpoint \<Rightarrow> 'o checkpoint" where
  "stripTransientCheckpointReplayPayload c = c\<lparr>cp_transientReplayPayload := None\<rparr>"

definition attachTransientCheckpointReplayPayload :: "'o checkpoint \<Rightarrow> replay_payload option \<Rightarrow> 'o checkpoint" where
  "attachTransientCheckpointReplayPayload c p =
     (case p of None \<Rightarrow> c | Some r \<Rightarrow> c\<lparr>cp_transientReplayPayload := Some r\<rparr>)"

definition resolveNextReplayWatermark :: "int \<Rightarrow> replay_payload option \<Rightarrow> int" where
  "resolveNextReplayWatermark previous p =
     (case p of
        None \<Rightarrow> previous
      | Some r \<Rightarrow> fold (\<lambda>(k, _) w. max w k)
          (orEmpty (rp_accumulatedResults r) @ orEmpty (rp_workerReplaySignatures r)
             @ orEmpty (rp_workerReplayFailures r)) previous)"

definition previousWatermark :: "'o checkpoint \<Rightarrow> int" where
  "previousWatermark c =
     (case cp_accumulatedResultReplayWatermark c of Some w \<Rightarrow> w | None \<Rightarrow> NO_REPLAY_WATERMARK)"

definition pruneCheckpointReplayState :: "'o checkpoint \<Rightarrow> int \<Rightarrow> 'o checkpoint \<times> replay_payload option" where
  "pruneCheckpointReplayState checkpoint pendingOperationStep =
     (let c = stripTransientCheckpointReplayPayload checkpoint;
          previous = previousWatermark c;
          consumed = (\<lambda>es. entriesAfterWatermark (entriesBeforeStep es pendingOperationStep) previous);
          payload = buildReplayPayload
            \<lparr>rp_accumulatedResults = Some (consumed (cp_accumulatedResults c)),
             rp_workerReplaySignatures = Some (consumed (orEmpty (cp_workerReplaySignatures c))),
             rp_workerReplayFailures = Some (consumed (orEmpty (cp_workerReplayFailures c)))\<rparr>;
          next = resolveNextReplayWatermark previous payload;
          retained = (\<lambda>es. entriesAtOrAfterStep es pendingOperationStep)
      in (c\<lparr>cp_accumulatedResults := retained (cp_accumulatedResults c),
            cp_accumulatedResultReplayWatermark := (if next = NO_REPLAY_WATERMARK then None else Some next),
            cp_workerReplaySignatures := nonEmpty (Some (retained (orEmpty (cp_workerReplaySignatures c)))),
            cp_workerReplayFailures := nonEmpty (Some (retained (orEmpty (cp_workerReplayFailures c))))\<rparr>,
          payload))"

definition mergeEntries :: "'v step_entries \<Rightarrow> 'v step_entries \<Rightarrow> 'v step_entries" where
  "mergeEntries target es = fold (\<lambda>(k, v) m. AList.update k v m) es target"

definition sortedEntries :: "'v step_entries \<Rightarrow> 'v step_entries" where
  "sortedEntries es = sort_key fst es"

definition mergedField ::
    "(replay_payload \<Rightarrow> jsval step_entries option) \<Rightarrow> replay_payload list \<Rightarrow> jsval step_entries
     \<Rightarrow> jsval step_entries" where
  "mergedField sel ps es =
     mergeEntries (fold (\<lambda>p m. mergeEntries m (orEmpty (sel p))) ps []) es"

definition hydrateCheckpointReplayStateFromPayloads ::
    "'o checkpoint \<Rightarrow> replay_payload list \<Rightarrow> 'o checkpoint" where
  "hydrateCheckpointReplayStateFromPayloads c ps =
     (let results = mergedField rp_accumulatedResults ps (cp_accumulatedResults c);
          signatures = mergedField rp_workerReplaySignatures ps (orEmpty (cp_workerReplaySignatures c));
          failures = mergedField rp_workerReplayFailures ps (orEmpty (cp_workerReplayFailures c))
      in c\<lparr>cp_accumulatedResults := sortedEntries results,
           cp_workerReplaySignatures :=
             (case sortedEntries signatures of [] \<Rightarrow> cp_workerReplaySignatures c | es \<Rightarrow> Some es),
           cp_workerReplayFailures :=
             (case sortedEntries failures of [] \<Rightarrow> cp_workerReplayFailures c | es \<Rightarrow> Some es)\<rparr>)"

definition hydrateCheckpointReplayStateFromPayload :: "'o checkpoint \<Rightarrow> replay_payload option \<Rightarrow> 'o checkpoint" where
  "hydrateCheckpointReplayStateFromPayload c p =
     hydrateCheckpointReplayStateFromPayloads (stripTransientCheckpointReplayPayload c)
       (case p of None \<Rightarrow> [] | Some r \<Rightarrow> [r])"

text \<open>
  The payloads \<open>hydrateCheckpointReplayState\<close> gathers: the checkpoint's own transient one, the
  one of the compaction watermark (a decoded value, if there is one), then those of the
  event-log entries in scan order up to the checkpoint's step. \<open>entries\<close> are the payloads of
  the decoded values that are log entries.
\<close>

fun payloadsUpTo :: "int \<Rightarrow> jsval list \<Rightarrow> replay_payload list" where
  "payloadsUpTo step [] = []"
| "payloadsUpTo step (payload # rest) =
     (case getCheckpointEventStep payload of
        None \<Rightarrow> payloadsUpTo step rest
      | Some k \<Rightarrow>
          if k > step then []
          else (case readCheckpointReplayPayload payload of
                  None \<Rightarrow> payloadsUpTo step rest
                | Some p \<Rightarrow> p # payloadsUpTo step rest))"

definition readCompactedCheckpointReplayPayload :: "jsval option \<Rightarrow> replay_payload option" where
  "readCompactedCheckpointReplayPayload watermark =
     (case watermark of
        None \<Rightarrow> None
      | Some v \<Rightarrow>
          if \<not> isObject v then None
          else let r = field v (js ''checkpointReplay'')
               in if isObject r then readCheckpointReplayPayloadRecord r else None)"

definition hydrateCheckpointReplayState ::
    "jsval option \<Rightarrow> jsval list \<Rightarrow> 'o checkpoint \<Rightarrow> 'o checkpoint" where
  "hydrateCheckpointReplayState watermark entries c =
     hydrateCheckpointReplayStateFromPayloads (stripTransientCheckpointReplayPayload c)
       ((case Option.bind (cp_transientReplayPayload c) (\<lambda>p. readCheckpointReplayPayloadRecord (payload_value p)) of
           None \<Rightarrow> [] | Some p \<Rightarrow> [p])
        @ (case readCompactedCheckpointReplayPayload watermark of None \<Rightarrow> [] | Some p \<Rightarrow> [p])
        @ payloadsUpTo (cp_step c) entries)"

section \<open>Lemmas\<close>

lemma orEmpty_simps [simp]: "orEmpty None = []" "orEmpty (Some xs) = xs"
  by (simp_all add: orEmpty_def)

lemma orEmpty_nonEmpty [simp]: "orEmpty (nonEmpty xs) = orEmpty xs"
  by (simp add: nonEmpty_def split: option.splits list.splits)

lemma map_of_mergeEntries: "map_of (mergeEntries t es) = map_of t ++ map_of (rev es)"
proof (induction es arbitrary: t)
  case (Cons e es)
  then show ?case
    by (cases e) (simp add: mergeEntries_def map_add_def fun_eq_iff split: option.splits)
qed (simp add: mergeEntries_def)

lemma distinct_mergeEntries: "distinct (map fst t) \<Longrightarrow> distinct (map fst (mergeEntries t es))"
  unfolding mergeEntries_def by (induction es arbitrary: t) auto

lemma sortedEntries_eq:
  assumes "distinct (map fst a)"
  shows "sortedEntries a = map (\<lambda>k. (k, the (map_of a k))) (sorted_list_of_set (dom (map_of a)))"
proof -
  let ?s = "sort_key fst a"
  have perm: "distinct (map fst ?s)" "set ?s = set a"
    using assms by (simp_all add: distinct_map)
  have "sorted_list_of_set (set (map fst ?s)) = map fst ?s"
    using perm(1) by (intro sorted_list_of_set.idem_if_sorted_distinct) simp_all
  moreover have "set (map fst ?s) = dom (map_of a)" using perm(2) by (simp add: dom_map_of_conv_image_fst)
  ultimately have keys: "map fst ?s = sorted_list_of_set (dom (map_of a))" by metis
  have "map (\<lambda>k. (k, the (map_of a k))) (map fst ?s) = ?s"
  proof (unfold map_map, rule map_idI)
    fix x assume "x \<in> set ?s"
    then have "map_of a (fst x) = Some (snd x)" using perm(2) assms by (simp add: map_of_eq_Some_iff)
    then show "((\<lambda>k. (k, the (map_of a k))) \<circ> fst) x = x" by simp
  qed
  with keys show ?thesis by (simp add: sortedEntries_def)
qed

definition payloads_map ::
    "(replay_payload \<Rightarrow> jsval step_entries option) \<Rightarrow> replay_payload list \<Rightarrow> int \<rightharpoonup> jsval" where
  "payloads_map sel ps = map_of (fold (\<lambda>p m. mergeEntries m (orEmpty (sel p))) ps [])"

lemma distinct_payloads:
  "distinct (map fst m) \<Longrightarrow> distinct (map fst (fold (\<lambda>p m. mergeEntries m (orEmpty (sel p))) ps m))"
  by (induction ps arbitrary: m) (simp_all add: distinct_mergeEntries)

lemma mergedField_spec:
  "map_of (mergedField sel ps es) = payloads_map sel ps ++ map_of (rev es)"
  "distinct (map fst (mergedField sel ps es))"
  by (simp_all add: mergedField_def payloads_map_def map_of_mergeEntries distinct_mergeEntries distinct_payloads)

lemma payloads_map_snoc:
  "payloads_map sel (ps @ [p]) = payloads_map sel ps ++ map_of (rev (orEmpty (sel p)))"
  by (simp add: payloads_map_def map_of_mergeEntries)

lemma sorted_mergedField_cong:
  assumes "payloads_map sel ps ++ map_of (rev es) = payloads_map sel ps' ++ map_of (rev es')"
  shows "sortedEntries (mergedField sel ps es) = sortedEntries (mergedField sel ps' es')"
  using assms by (simp add: sortedEntries_eq mergedField_spec)

lemma map_of_rev_filter:
  "map_of (rev (filter (\<lambda>(k, _). P k) es)) k = (if P k then map_of (rev es) k else None)"
proof (induction es)
  case (Cons e es)
  then show ?case by (cases e) (auto simp: map_add_def split: option.splits)
qed simp

text \<open>
  \<open>recorded\<close>: whatever a checkpoint holds at or below its watermark is already in the payloads.
\<close>

definition recorded_field ::
    "(replay_payload \<Rightarrow> jsval step_entries option) \<Rightarrow> replay_payload list \<Rightarrow> jsval step_entries \<Rightarrow> int \<Rightarrow> bool" where
  "recorded_field sel ps es w \<longleftrightarrow>
     (\<forall>k v. k \<le> w \<longrightarrow> map_of (rev es) k = Some v \<longrightarrow> payloads_map sel ps k = Some v)"

definition recorded :: "'o checkpoint \<Rightarrow> replay_payload list \<Rightarrow> bool" where
  "recorded c ps \<longleftrightarrow> recorded_field rp_accumulatedResults ps (cp_accumulatedResults c) (previousWatermark c)
     \<and> recorded_field rp_workerReplaySignatures ps (orEmpty (cp_workerReplaySignatures c)) (previousWatermark c)
     \<and> recorded_field rp_workerReplayFailures ps (orEmpty (cp_workerReplayFailures c)) (previousWatermark c)"

definition optional_payload :: "replay_payload option \<Rightarrow> replay_payload list" where
  "optional_payload p = (case p of None \<Rightarrow> [] | Some r \<Rightarrow> [r])"

abbreviation consumed_entries :: "jsval step_entries \<Rightarrow> int \<Rightarrow> int \<Rightarrow> jsval step_entries" where
  "consumed_entries es p w \<equiv> entriesAfterWatermark (entriesBeforeStep es p) w"

lemma map_of_consumed:
  "map_of (rev (consumed_entries es p w)) k = (if k < p \<and> w < k then map_of (rev es) k else None)"
proof -
  have "entriesAfterWatermark (entriesBeforeStep es p) w = filter (\<lambda>(k, _). k < p \<and> w < k) es"
    unfolding entriesAfterWatermark_def entriesBeforeStep_def by (auto intro: filter_cong)
  then show ?thesis by (simp add: map_of_rev_filter)
qed

lemma map_of_retained:
  "map_of (rev (entriesAtOrAfterStep es p)) k = (if p \<le> k then map_of (rev es) k else None)"
  by (simp add: entriesAtOrAfterStep_def map_of_rev_filter)

lemma buildReplayPayload_fields:
  assumes "buildReplayPayload p = Some r"
  shows "orEmpty (rp_accumulatedResults r) = orEmpty (rp_accumulatedResults p)
     \<and> orEmpty (rp_workerReplaySignatures r) = orEmpty (rp_workerReplaySignatures p)
     \<and> orEmpty (rp_workerReplayFailures r) = orEmpty (rp_workerReplayFailures p)"
proof -
  have "r = \<lparr>rp_accumulatedResults = nonEmpty (rp_accumulatedResults p),
             rp_workerReplaySignatures = nonEmpty (rp_workerReplaySignatures p),
             rp_workerReplayFailures = nonEmpty (rp_workerReplayFailures p)\<rparr>"
    using assms by (simp add: buildReplayPayload_def Let_def split: if_splits)
  then show ?thesis by simp
qed

lemma nonEmpty_None: "nonEmpty xs = None \<longleftrightarrow> orEmpty xs = []"
  by (auto simp: nonEmpty_def orEmpty_def split: option.splits list.splits)

lemma buildReplayPayload_None:
  "buildReplayPayload p = None \<Longrightarrow> orEmpty (rp_accumulatedResults p) = []
     \<and> orEmpty (rp_workerReplaySignatures p) = [] \<and> orEmpty (rp_workerReplayFailures p) = []"
  by (auto simp: buildReplayPayload_def Let_def nonEmpty_None split: if_splits)

lemma payloads_map_build:
  assumes "sel \<in> {rp_accumulatedResults, rp_workerReplaySignatures, rp_workerReplayFailures}"
  shows "payloads_map sel (ps @ optional_payload (buildReplayPayload p))
         = payloads_map sel ps ++ map_of (rev (orEmpty (sel p)))"
proof (cases "buildReplayPayload p")
  case None
  then show ?thesis using assms buildReplayPayload_None [OF None] by (auto simp: optional_payload_def)
next
  case (Some r)
  then show ?thesis using assms buildReplayPayload_fields [OF Some]
    by (auto simp: optional_payload_def payloads_map_snoc)
qed

section \<open>Payloads survive storage\<close>

text \<open>What a payload read from storage looks like, and that writing and reading it is the identity.\<close>

definition entry_ok :: "(jsval \<Rightarrow> bool) \<Rightarrow> int \<times> jsval \<Rightarrow> bool" where
  "entry_ok P e \<longleftrightarrow> 0 \<le> fst e \<and> fst e \<le> MAX_SAFE_INTEGER \<and> P (snd e)"

definition wf_entries :: "(jsval \<Rightarrow> bool) \<Rightarrow> jsval step_entries option \<Rightarrow> bool" where
  "wf_entries P es \<longleftrightarrow> es \<noteq> Some [] \<and> list_all (entry_ok P) (orEmpty es)"

definition wf_payload :: "replay_payload \<Rightarrow> bool" where
  "wf_payload r \<longleftrightarrow> wf_entries (\<lambda>_. True) (rp_accumulatedResults r)
     \<and> wf_entries isWorkerReplaySignature (rp_workerReplaySignatures r)
     \<and> wf_entries isWorkerReplayFailure (rp_workerReplayFailures r)
     \<and> (rp_accumulatedResults r \<noteq> None \<or> rp_workerReplaySignatures r \<noteq> None \<or> rp_workerReplayFailures r \<noteq> None)"

lemma replayStep_Some: "replayStep v = Some k \<Longrightarrow> 0 \<le> k \<and> k \<le> MAX_SAFE_INTEGER"
  by (auto simp: replayStep_def isSafeInteger_def split: jsval.splits jsnum.splits if_splits)

lemma replayStep_of_int: "0 \<le> k \<Longrightarrow> k \<le> MAX_SAFE_INTEGER \<Longrightarrow> replayStep (JNumber (JFin (of_int k))) = Some k"
  by (simp add: replayStep_def isSafeInteger_def)

lemma readEntriesWith_wf: "list_all (entry_ok P) (readEntriesWith P xs)"
  by (induction P xs rule: readEntriesWith.induct)
    (auto simp: entry_ok_def dest: replayStep_Some split: jsval.splits list.splits option.splits)

lemma readEntriesWith_written:
  "list_all (entry_ok P) es \<Longrightarrow>
   readEntriesWith P (map (\<lambda>(k, v). JArray [JNumber (JFin (of_int k)), v]) es) = es"
proof (induction es)
  case (Cons e es)
  then have "replayStep (JNumber (JFin (of_int (fst e)))) = Some (fst e)" "P (snd e)"
    by (auto simp: entry_ok_def intro: replayStep_of_int)
  with Cons show ?case by (cases e) simp
qed simp

lemma nonEmpty_wf: "list_all (entry_ok P) (orEmpty es) \<Longrightarrow> wf_entries P (nonEmpty es)"
  by (auto simp: wf_entries_def nonEmpty_def split: option.splits list.splits)

lemma buildReplayPayload_wf:
  assumes "buildReplayPayload p = Some r"
    and "list_all (entry_ok (\<lambda>_. True)) (orEmpty (rp_accumulatedResults p))"
    and "list_all (entry_ok isWorkerReplaySignature) (orEmpty (rp_workerReplaySignatures p))"
    and "list_all (entry_ok isWorkerReplayFailure) (orEmpty (rp_workerReplayFailures p))"
  shows "wf_payload r"
proof -
  have r: "r = \<lparr>rp_accumulatedResults = nonEmpty (rp_accumulatedResults p),
             rp_workerReplaySignatures = nonEmpty (rp_workerReplaySignatures p),
             rp_workerReplayFailures = nonEmpty (rp_workerReplayFailures p)\<rparr>"
    and some: "nonEmpty (rp_accumulatedResults p) \<noteq> None \<or> nonEmpty (rp_workerReplaySignatures p) \<noteq> None
      \<or> nonEmpty (rp_workerReplayFailures p) \<noteq> None"
    using assms(1) by (auto simp: buildReplayPayload_def Let_def split: if_splits)
  show ?thesis
    unfolding wf_payload_def r
    using some nonEmpty_wf [OF assms(2)] nonEmpty_wf [OF assms(3)] nonEmpty_wf [OF assms(4)] by simp
qed

lemma read_record_wf:
  assumes "readCheckpointReplayPayloadRecord v = Some r"
  shows "wf_payload r"
  by (rule buildReplayPayload_wf [OF assms [unfolded readCheckpointReplayPayloadRecord_def]])
    (simp_all add: readUnknownEntries_def readWorkerReplaySignatureEntries_def readWorkerReplayFailureEntries_def
      readEntriesWith_wf split: jsval.splits)

lemma read_payload_wf: "readCheckpointReplayPayload v = Some r \<Longrightarrow> wf_payload r"
  by (auto simp: readCheckpointReplayPayload_def Let_def intro: read_record_wf split: if_splits)

lemma merge_payloads_wf:
  assumes "mergeCheckpointReplayPayloads a b = Some r" and "\<And>x. a = Some x \<Longrightarrow> wf_payload x"
    and "\<And>x. b = Some x \<Longrightarrow> wf_payload x"
  shows "wf_payload r"
proof (cases a; cases b)
  fix x y assume ab: "a = Some x" "b = Some y"
  note wf = assms(2) [OF ab(1)] assms(3) [OF ab(2)]
  show ?thesis
    by (rule buildReplayPayload_wf [OF assms(1) [unfolded ab mergeCheckpointReplayPayloads_def option.simps]])
      (use wf in \<open>simp_all add: wf_payload_def wf_entries_def\<close>)
qed (use assms in \<open>auto simp: mergeCheckpointReplayPayloads_def\<close>)

lemma read_written_entries:
  assumes "wf_entries P es"
  shows "(case (case es of None \<Rightarrow> JUndefined | Some ys \<Rightarrow> entries_value ys) of
      JArray xs \<Rightarrow> Some (readEntriesWith P xs) | _ \<Rightarrow> None) = es"
  using assms readEntriesWith_written [of P "orEmpty es"]
  by (auto simp: entries_value_def wf_entries_def split: option.splits)

lemma payload_value_fields:
  "field (payload_value r) (js ''accumulatedResults'')
     = (case rp_accumulatedResults r of None \<Rightarrow> JUndefined | Some ys \<Rightarrow> entries_value ys)"
  "field (payload_value r) (js ''workerReplaySignatures'')
     = (case rp_workerReplaySignatures r of None \<Rightarrow> JUndefined | Some ys \<Rightarrow> entries_value ys)"
  "field (payload_value r) (js ''workerReplayFailures'')
     = (case rp_workerReplayFailures r of None \<Rightarrow> JUndefined | Some ys \<Rightarrow> entries_value ys)"
  by (auto simp: payload_value_def field_def optional_field_def js_def split: option.splits)

lemma read_payload_value:
  assumes "wf_payload r"
  shows "readCheckpointReplayPayloadRecord (payload_value r) = Some r"
proof -
  note wf = assms [unfolded wf_payload_def]
  have ne: "nonEmpty es = es" if "wf_entries P es" for P and es :: "jsval step_entries option"
    using that by (auto simp: wf_entries_def nonEmpty_def split: option.splits list.splits)
  note read = read_written_entries [OF conjunct1 [OF wf]]
    read_written_entries [OF conjunct1 [OF conjunct2 [OF wf]]]
    read_written_entries [OF conjunct1 [OF conjunct2 [OF conjunct2 [OF wf]]]]
  have "readCheckpointReplayPayloadRecord (payload_value r) = buildReplayPayload r"
    unfolding readCheckpointReplayPayloadRecord_def payload_value_fields readUnknownEntries_def
      readWorkerReplaySignatureEntries_def readWorkerReplayFailureEntries_def read by (cases r) simp
  also have "\<dots> = Some r"
  proof -
    have eqs: "nonEmpty (rp_accumulatedResults r) = rp_accumulatedResults r"
      "nonEmpty (rp_workerReplaySignatures r) = rp_workerReplaySignatures r"
      "nonEmpty (rp_workerReplayFailures r) = rp_workerReplayFailures r"
      using wf ne by blast+
    show ?thesis using wf unfolding buildReplayPayload_def eqs Let_def by (cases r) auto
  qed
  finally show ?thesis .
qed

lemma payloads_map_concat: "payloads_map sel ps = map_of (rev (concat (map (\<lambda>p. orEmpty (sel p)) ps)))"
  by (induction ps rule: rev_induct) (simp_all add: payloads_map_snoc, simp add: payloads_map_def)

lemma merge_payload_entries:
  assumes "sel \<in> {rp_accumulatedResults, rp_workerReplaySignatures, rp_workerReplayFailures}"
  shows "concat (map (\<lambda>p. orEmpty (sel p)) (optional_payload (mergeCheckpointReplayPayloads a b)))
       = concat (map (\<lambda>p. orEmpty (sel p)) (optional_payload a @ optional_payload b))"
proof (cases a; cases b)
  fix x y assume ab: "a = Some x" "b = Some y"
  let ?p = "\<lparr>rp_accumulatedResults = Some (orEmpty (rp_accumulatedResults x) @ orEmpty (rp_accumulatedResults y)),
      rp_workerReplaySignatures = Some (orEmpty (rp_workerReplaySignatures x) @ orEmpty (rp_workerReplaySignatures y)),
      rp_workerReplayFailures = Some (orEmpty (rp_workerReplayFailures x) @ orEmpty (rp_workerReplayFailures y))\<rparr>"
  have merge: "mergeCheckpointReplayPayloads a b = buildReplayPayload ?p"
    by (simp add: ab mergeCheckpointReplayPayloads_def)
  have sel: "orEmpty (sel ?p) = orEmpty (sel x) @ orEmpty (sel y)" using assms by auto
  have "concat (map (\<lambda>p. orEmpty (sel p)) (optional_payload (buildReplayPayload ?p))) = orEmpty (sel ?p)"
  proof (cases "buildReplayPayload ?p")
    case None
    have "orEmpty (sel ?p) = []" using buildReplayPayload_None [OF None] assms by (metis insertE singletonD)
    then show ?thesis by (simp add: None optional_payload_def)
  next
    case (Some r)
    have "orEmpty (sel r) = orEmpty (sel ?p)"
      using buildReplayPayload_fields [OF Some] assms by (metis insertE singletonD)
    then show ?thesis by (simp add: Some optional_payload_def)
  qed
  then show ?thesis unfolding merge sel by (simp add: ab optional_payload_def)
qed (simp_all add: mergeCheckpointReplayPayloads_def optional_payload_def)

lemma hydrate_payloads_cong:
  assumes "\<And>sel. sel \<in> {rp_accumulatedResults, rp_workerReplaySignatures, rp_workerReplayFailures} \<Longrightarrow>
      payloads_map sel ps = payloads_map sel ps'"
  shows "hydrateCheckpointReplayStateFromPayloads c ps = hydrateCheckpointReplayStateFromPayloads c ps'"
proof -
  have "sortedEntries (mergedField sel ps es) = sortedEntries (mergedField sel ps' es)"
    if "sel \<in> {rp_accumulatedResults, rp_workerReplaySignatures, rp_workerReplayFailures}" for sel es
    by (rule sorted_mergedField_cong) (simp add: assms [OF that])
  then show ?thesis by (simp add: hydrateCheckpointReplayStateFromPayloads_def Let_def)
qed

text \<open>
  The payloads of a stretch of log entries. When every one that carries replay data belongs to
  a step the checkpoint has reached, recovery reads all of them.
\<close>

definition carried :: "jsval list \<Rightarrow> replay_payload list" where
  "carried ps = List.map_filter readCheckpointReplayPayload ps"

definition reached :: "int \<Rightarrow> jsval \<Rightarrow> bool" where
  "reached step p \<longleftrightarrow> (\<forall>k. getCheckpointEventStep p = Some k \<longrightarrow> k \<le> step)
     \<and> (readCheckpointReplayPayload p \<noteq> None \<longrightarrow> getCheckpointEventStep p \<noteq> None)"

lemma carried_simps [simp]:
  "carried [] = []" "carried (p # ps) = optional_payload (readCheckpointReplayPayload p) @ carried ps"
  by (simp_all add: carried_def optional_payload_def List.map_filter_simps split: option.splits)

lemma payloadsUpTo_reached:
  "list_all (reached step) ps \<Longrightarrow> payloadsUpTo step (ps @ qs) = carried ps @ payloadsUpTo step qs"
proof (induction ps)
  case (Cons p ps)
  then show ?case
    by (auto simp: reached_def optional_payload_def not_less split: option.splits)
qed simp

section \<open>Pruning and hydrating field by field\<close>

lemma field_roundtrip:
  assumes "recorded_field sel ps es w"
  shows "(payloads_map sel ps ++ map_of (rev (consumed_entries es p w))) ++ map_of (rev (entriesAtOrAfterStep es p))
         = payloads_map sel ps ++ map_of (rev es)"
proof
  fix k
  show "((payloads_map sel ps ++ map_of (rev (consumed_entries es p w))) ++ map_of (rev (entriesAtOrAfterStep es p))) k
      = (payloads_map sel ps ++ map_of (rev es)) k"
    using assms
    by (auto simp: map_add_def map_of_consumed map_of_retained recorded_field_def split: option.splits)
qed

lemma field_recorded_again:
  assumes "recorded_field sel ps es w" and "w' < p"
    and "\<And>k v. map_of (rev es') k = Some v \<Longrightarrow>
           (payloads_map sel ps' ++ map_of (rev (entriesAtOrAfterStep es p))) k = Some v"
  shows "recorded_field sel ps' es' w'"
  unfolding recorded_field_def
proof (intro allI impI)
  fix k v assume "k \<le> w'" "map_of (rev es') k = Some v"
  with assms(2) assms(3) [OF this(2)] show "payloads_map sel ps' k = Some v"
    by (auto simp: map_add_def map_of_retained split: option.splits if_splits)
qed

lemma mergedField_nonempty: "es \<noteq> [] \<Longrightarrow> mergedField sel ps es \<noteq> []"
proof
  assume es: "es \<noteq> []" and "mergedField sel ps es = []"
  then have "payloads_map sel ps ++ map_of (rev es) = Map.empty"
    using mergedField_spec(1) [of sel ps es] by simp
  then have "map_of (rev es) = Map.empty" by (simp add: map_add_None fun_eq_iff)
  with es show False by simp
qed

lemma hydrated_field:
  "orEmpty (case sortedEntries (mergedField sel ps (orEmpty f)) of [] \<Rightarrow> f | e # es \<Rightarrow> Some (e # es))
   = sortedEntries (mergedField sel ps (orEmpty f))"
proof (cases "sortedEntries (mergedField sel ps (orEmpty f))")
  case Nil
  then have "mergedField sel ps (orEmpty f) = []"
    by (metis length_0_conv length_sort sortedEntries_def)
  then have "orEmpty f = []" using mergedField_nonempty by blast
  with Nil show ?thesis by simp
qed simp

definition pruned_payload :: "'o checkpoint \<Rightarrow> int \<Rightarrow> replay_payload" where
  "pruned_payload c p =
     \<lparr>rp_accumulatedResults = Some (consumed_entries (cp_accumulatedResults c) p (previousWatermark c)),
      rp_workerReplaySignatures =
        Some (consumed_entries (orEmpty (cp_workerReplaySignatures c)) p (previousWatermark c)),
      rp_workerReplayFailures =
        Some (consumed_entries (orEmpty (cp_workerReplayFailures c)) p (previousWatermark c))\<rparr>"

lemma prune_fields:
  assumes "pruneCheckpointReplayState c p = (c', pay)"
  shows "pay = buildReplayPayload (pruned_payload c p)"
    and "cp_accumulatedResults c' = entriesAtOrAfterStep (cp_accumulatedResults c) p"
    and "orEmpty (cp_workerReplaySignatures c') = entriesAtOrAfterStep (orEmpty (cp_workerReplaySignatures c)) p"
    and "orEmpty (cp_workerReplayFailures c') = entriesAtOrAfterStep (orEmpty (cp_workerReplayFailures c)) p"
    and "previousWatermark c' = resolveNextReplayWatermark (previousWatermark c) pay"
    and "cp_step c' = cp_step c" and "cp_other c' = cp_other c" and "cp_transientReplayPayload c' = None"
  using assms
  by (auto simp: pruneCheckpointReplayState_def pruned_payload_def Let_def previousWatermark_def
      stripTransientCheckpointReplayPayload_def)

lemma previousWatermark_hydrate [simp]:
  "previousWatermark (hydrateCheckpointReplayStateFromPayloads c ps) = previousWatermark c"
  by (simp add: hydrateCheckpointReplayStateFromPayloads_def previousWatermark_def Let_def)

lemma hydrate_fields:
  "cp_accumulatedResults (hydrateCheckpointReplayStateFromPayloads c ps)
     = sortedEntries (mergedField rp_accumulatedResults ps (cp_accumulatedResults c))"
  "orEmpty (cp_workerReplaySignatures (hydrateCheckpointReplayStateFromPayloads c ps))
     = sortedEntries (mergedField rp_workerReplaySignatures ps (orEmpty (cp_workerReplaySignatures c)))"
  "orEmpty (cp_workerReplayFailures (hydrateCheckpointReplayStateFromPayloads c ps))
     = sortedEntries (mergedField rp_workerReplayFailures ps (orEmpty (cp_workerReplayFailures c)))"
  by (simp_all add: hydrateCheckpointReplayStateFromPayloads_def Let_def hydrated_field)

lemma strip_fields [simp]:
  "cp_accumulatedResults (stripTransientCheckpointReplayPayload c) = cp_accumulatedResults c"
  "cp_workerReplaySignatures (stripTransientCheckpointReplayPayload c) = cp_workerReplaySignatures c"
  "cp_workerReplayFailures (stripTransientCheckpointReplayPayload c) = cp_workerReplayFailures c"
  by (simp_all add: stripTransientCheckpointReplayPayload_def)

lemma payloads_map_pruned:
  "payloads_map rp_accumulatedResults (ps @ optional_payload (buildReplayPayload (pruned_payload c p)))
     = payloads_map rp_accumulatedResults ps
       ++ map_of (rev (consumed_entries (cp_accumulatedResults c) p (previousWatermark c)))"
  "payloads_map rp_workerReplaySignatures (ps @ optional_payload (buildReplayPayload (pruned_payload c p)))
     = payloads_map rp_workerReplaySignatures ps
       ++ map_of (rev (consumed_entries (orEmpty (cp_workerReplaySignatures c)) p (previousWatermark c)))"
  "payloads_map rp_workerReplayFailures (ps @ optional_payload (buildReplayPayload (pruned_payload c p)))
     = payloads_map rp_workerReplayFailures ps
       ++ map_of (rev (consumed_entries (orEmpty (cp_workerReplayFailures c)) p (previousWatermark c)))"
  by (simp_all add: payloads_map_build pruned_payload_def)

lemma fold_max_less:
  "(\<forall>(k, v) \<in> set es. k < p) \<Longrightarrow> w < p \<Longrightarrow> fold (\<lambda>(k, _) w. max w k) es w < (p :: int)"
  by (induction es arbitrary: w) auto

lemma next_watermark_less:
  assumes "previousWatermark c < p"
  shows "resolveNextReplayWatermark (previousWatermark c) (buildReplayPayload (pruned_payload c p)) < p"
proof (cases "buildReplayPayload (pruned_payload c p)")
  case None
  with assms show ?thesis by (simp add: resolveNextReplayWatermark_def)
next
  case (Some r)
  from buildReplayPayload_fields [OF Some] assms show ?thesis
    unfolding Some resolveNextReplayWatermark_def option.case
    by (intro fold_max_less)
      (auto simp: pruned_payload_def entriesAfterWatermark_def entriesBeforeStep_def)
qed

lemma map_of_rev_distinct: "distinct (map fst xs) \<Longrightarrow> map_of (rev xs) = map_of xs"
  by (metis distinct_rev map_of_eqI rev_map set_map set_rev map_of_eq_Some_iff option.exhaust
      map_of_eq_None_iff)

lemma map_of_sorted_merged:
  "map_of (rev (sortedEntries (mergedField sel ps es))) = payloads_map sel ps ++ map_of (rev es)"
proof -
  let ?m = "mergedField sel ps es"
  have d: "distinct (map fst ?m)" by (rule mergedField_spec)
  then have d': "distinct (map fst (sortedEntries ?m))" by (simp add: sortedEntries_def distinct_map)
  have "map_of (sortedEntries ?m) = map_of ?m"
  proof
    fix k
    show "map_of (sortedEntries ?m) k = map_of ?m k"
      unfolding sortedEntries_eq [OF d] map_of_map_restrict
      by (cases "map_of ?m k") (auto simp: restrict_map_def finite_dom_map_of)
  qed
  with d' show ?thesis by (simp add: map_of_rev_distinct mergedField_spec)
qed

section \<open>Properties\<close>

text \<open>
  C12: pruning loses nothing. If everything a checkpoint holds at or below its watermark is
  already recorded in earlier payloads, then hydrating the pruned checkpoint from those payloads
  and the new one gives the same results, signatures and failures, in the same order, as
  hydrating the unpruned checkpoint.
\<close>

theorem prune_hydrate_roundtrip:
  assumes "recorded c ps" and "pruneCheckpointReplayState c p = (c', pay)"
  shows "cp_accumulatedResults (hydrateCheckpointReplayStateFromPayloads c' (ps @ optional_payload pay))
       = cp_accumulatedResults (hydrateCheckpointReplayStateFromPayloads (stripTransientCheckpointReplayPayload c) ps)
     \<and> orEmpty (cp_workerReplaySignatures (hydrateCheckpointReplayStateFromPayloads c' (ps @ optional_payload pay)))
       = orEmpty (cp_workerReplaySignatures
           (hydrateCheckpointReplayStateFromPayloads (stripTransientCheckpointReplayPayload c) ps))
     \<and> orEmpty (cp_workerReplayFailures (hydrateCheckpointReplayStateFromPayloads c' (ps @ optional_payload pay)))
       = orEmpty (cp_workerReplayFailures
           (hydrateCheckpointReplayStateFromPayloads (stripTransientCheckpointReplayPayload c) ps))"
  unfolding hydrate_fields prune_fields(1-4) [OF assms(2)] strip_fields
  using assms(1)
  by (intro conjI sorted_mergedField_cong; simp only: payloads_map_pruned field_roundtrip recorded_def)

definition sample_checkpoint :: "unit checkpoint" where
  "sample_checkpoint = \<lparr>cp_step = 3, cp_accumulatedResults = [(0, JNull), (1, JBool True), (2, JNull)],
     cp_accumulatedResultReplayWatermark = Some 0, cp_workerReplaySignatures = None,
     cp_workerReplayFailures = None, cp_transientReplayPayload = None, cp_other = ()\<rparr>"

definition sample_payload :: replay_payload where
  "sample_payload = \<lparr>rp_accumulatedResults = Some [(0, JNull)], rp_workerReplaySignatures = None,
     rp_workerReplayFailures = None\<rparr>"

lemma sample_recorded: "recorded sample_checkpoint [sample_payload]"
  by (auto simp: recorded_def recorded_field_def sample_checkpoint_def sample_payload_def
      previousWatermark_def payloads_map_def mergeEntries_def split: if_splits)

theorem prune_hydrate_roundtrip_witness:
  "cp_accumulatedResults (hydrateCheckpointReplayStateFromPayloads
       (fst (pruneCheckpointReplayState sample_checkpoint 2))
       ([sample_payload] @ optional_payload (snd (pruneCheckpointReplayState sample_checkpoint 2))))
   = cp_accumulatedResults (hydrateCheckpointReplayStateFromPayloads
       (stripTransientCheckpointReplayPayload sample_checkpoint) [sample_payload])"
  using prune_hydrate_roundtrip [OF sample_recorded prod.collapse [symmetric]] by blast

text \<open>
  A recovered checkpoint can be pruned again. After pruning at a step above the watermark
  and hydrating, the recovered checkpoint again has everything at or below its watermark
  recorded in the payloads, and its watermark is below the step pruned at: the hypothesis of
  the round trip is kept from one checkpoint to the next.
\<close>

lemma prune_keeps_recorded:
  assumes "recorded c ps" and "previousWatermark c < p" and "pruneCheckpointReplayState c p = (c', pay)"
  shows "recorded (hydrateCheckpointReplayStateFromPayloads c' (ps @ optional_payload pay)) (ps @ optional_payload pay)
     \<and> previousWatermark (hydrateCheckpointReplayStateFromPayloads c' (ps @ optional_payload pay)) < p"
proof -
  let ?w = "previousWatermark c'"
  have w: "?w < p" using next_watermark_less [OF assms(2)] prune_fields(1,5) [OF assms(3)] by simp
  have field: "recorded_field sel (ps @ optional_payload pay)
      (sortedEntries (mergedField sel (ps @ optional_payload pay) (entriesAtOrAfterStep es p))) ?w"
    if "recorded_field sel ps es (previousWatermark c)" for sel es
    using that w by (rule field_recorded_again) (simp add: map_of_sorted_merged)
  show ?thesis
    unfolding recorded_def hydrate_fields previousWatermark_hydrate prune_fields(2-4) [OF assms(3)]
    using assms(1) w by (auto simp: recorded_def intro: field)
qed

end
