(* ===== verification/Event_Log.thy ===== *)
theory Event_Log
  imports Memory_Storage Storage_Keys Checkpoint_Replay
begin

text \<open>
  The hash-chained event log of a workflow: \<open>src/src/core/event-log-shared.ts\<close>,
  \<open>src/src/core/event-log.ts\<close>, the verifier \<open>src/src/core/event-log-verify.ts\<close>, compaction
  \<open>src/src/core/engine/event-log-compaction.ts\<close> and the hash of \<open>src/src/runtime/portable.ts\<close>.

  The MessagePack codec is a parameter: \<open>vc_encode\<close> and \<open>vc_decode\<close> (\<open>None\<close> when decoding
  throws). Decoded values are untyped and pass the guards of the source. Every read of the
  verifier is served at a storage state of its own, so appends and compactions may run
  between any two of them. The text of a sequence number that is not a natural number is not
  modelled: building its key is the outcome \<open>SequenceNotNatural\<close>.

  \<open>log_at\<close> relates a store to the history of all entries ever appended, of which the store
  holds those from a floor on; append, compaction and verification are shown against it.
\<close>

unbundle bit_operations_syntax

section \<open>The hash\<close>

definition FNV_OFFSET_BASIS_64 :: "64 word" where
  "FNV_OFFSET_BASIS_64 = 0xcbf29ce484222325"

definition FNV_PRIME_64 :: "64 word" where
  "FNV_PRIME_64 = 0x00000100000001b3"

text \<open>\<open>BigInt.prototype.toString(16)\<close>\<close>

fun hexDigits :: "nat \<Rightarrow> nat list" where
  "hexDigits n =
     (let d = (if n mod 16 < 10 then 48 + n mod 16 else 87 + n mod 16)
      in if n < 16 then [d] else hexDigits (n div 16) @ [d])"

declare hexDigits.simps [simp del]

definition fnv1a64 :: "bytes \<Rightarrow> jsstring" where
  "fnv1a64 data =
     (let hash = foldl (\<lambda>h b. (h XOR ucast b) * FNV_PRIME_64) FNV_OFFSET_BASIS_64 data
      in padStart (map of_nat (hexDigits (unat hash))) 16 48)"

definition hashBytes :: "bytes \<Rightarrow> jsstring" where
  "hashBytes data = fnv1a64 data"

section \<open>Records and guards\<close>

definition GENESIS_HASH :: jsstring where
  "GENESIS_HASH = js ''0000000000000000''"

record event_head =
  eh_sequence :: jsnum
  eh_lastHash :: jsstring

definition EMPTY_EVENT_HEAD :: event_head where
  "EMPTY_EVENT_HEAD = \<lparr>eh_sequence = JFin (-1), eh_lastHash = GENESIS_HASH\<rparr>"

definition isWorkflowLogEntry :: "jsval \<Rightarrow> bool" where
  "isWorkflowLogEntry v =
     (if \<not> isObject v then False
      else isString (field v (js ''type'')) \<and> isString (field v (js ''workflowId''))
        \<and> isNumber (field v (js ''sequence'')) \<and> isString (field v (js ''prevHash''))
        \<and> isNumber (field v (js ''timestamp'')) \<and> hasField v (js ''payload''))"

definition isEventHeadRecord :: "jsval \<Rightarrow> bool" where
  "isEventHeadRecord v =
     (if \<not> isObject v then False
      else isNumber (field v (js ''sequence'')) \<and> isString (field v (js ''lastHash'')))"

text \<open>The fields of a value that has passed its guard.\<close>

definition numberField :: "jsval \<Rightarrow> string \<Rightarrow> jsnum" where
  "numberField v k = (case field v (js k) of JNumber n \<Rightarrow> n | _ \<Rightarrow> JNaN)"

definition stringField :: "jsval \<Rightarrow> string \<Rightarrow> jsstring" where
  "stringField v k = (case field v (js k) of JString s \<Rightarrow> s | _ \<Rightarrow> [])"

datatype log_error =
    LogStorageError storage_error
  | DecodeError
  | KeyEncodingError
  | SequenceNotNatural

definition key_of :: "jsstring option \<Rightarrow> log_error + jsstring" where
  "key_of k = (case k of None \<Rightarrow> Inl KeyEncodingError | Some s \<Rightarrow> Inr s)"

definition of_storage :: "storage_error + 'a \<Rightarrow> log_error + 'a" where
  "of_storage r = map_sum LogStorageError id r"

definition decode :: "value_codec \<Rightarrow> bytes \<Rightarrow> log_error + jsval" where
  "decode C b = (case vc_decode C b of None \<Rightarrow> Inl DecodeError | Some v \<Rightarrow> Inr v)"

definition readEventHead :: "'s storage \<Rightarrow> value_codec \<Rightarrow> 's \<Rightarrow> jsstring \<Rightarrow> log_error + event_head" where
  "readEventHead S C s workflowId =
     and_then (key_of (KEYS_eventHead workflowId)) (\<lambda>key.
     and_then (of_storage (get_op S s key)) (\<lambda>raw.
       case raw of
         None \<Rightarrow> Inr EMPTY_EVENT_HEAD
       | Some b \<Rightarrow>
           and_then (decode C b) (\<lambda>decoded.
             if isEventHeadRecord decoded
             then Inr \<lparr>eh_sequence = numberField decoded ''sequence'', eh_lastHash = stringField decoded ''lastHash''\<rparr>
             else Inr EMPTY_EVENT_HEAD)))"

section \<open>Appending\<close>

record event =
  ev_type :: jsstring
  ev_payload :: jsval

definition entry_value ::
    "event \<Rightarrow> jsstring \<Rightarrow> jsnum \<Rightarrow> jsstring \<Rightarrow> jsnum \<Rightarrow> jsval option \<Rightarrow> jsval" where
  "entry_value event workflowId sequence prevHash now versionTuple =
     JObject ([(js ''type'', JString (ev_type event)), (js ''workflowId'', JString workflowId),
       (js ''sequence'', JNumber sequence), (js ''prevHash'', JString prevHash),
       (js ''payload'', ev_payload event), (js ''timestamp'', JNumber now)]
       @ (case versionTuple of None \<Rightarrow> [] | Some t \<Rightarrow> [(js ''versionTuple'', t)]))"

definition head_value :: "event_head \<Rightarrow> jsval" where
  "head_value head =
     JObject [(js ''sequence'', JNumber (eh_sequence head)), (js ''lastHash'', JString (eh_lastHash head))]"

text \<open>\<open>now\<close> is the value of \<open>Date.now()\<close>; the result is the encoded entry and the new head.\<close>

definition buildEntry ::
    "value_codec \<Rightarrow> jsstring \<Rightarrow> jsnum \<Rightarrow> event \<Rightarrow> event_head \<Rightarrow> jsval option \<Rightarrow> bytes \<times> event_head" where
  "buildEntry C workflowId now event head versionTuple =
     (let sequence = js_add (eh_sequence head) (JFin 1);
          prevHash = eh_lastHash head;
          encoded = vc_encode C (entry_value event workflowId sequence prevHash now versionTuple);
          hash = hashBytes encoded
      in (encoded, \<lparr>eh_sequence = sequence, eh_lastHash = hash\<rparr>))"

definition sequenceNat :: "jsnum \<Rightarrow> log_error + nat" where
  "sequenceNat n =
     (case n of
        JFin r \<Rightarrow> if isInteger n \<and> 0 \<le> r then Inr (nat \<lfloor>r\<rfloor>) else Inl SequenceNotNatural
      | _ \<Rightarrow> Inl SequenceNotNatural)"

definition entryOperations ::
    "value_codec \<Rightarrow> jsstring \<Rightarrow> bytes \<Rightarrow> event_head \<Rightarrow> log_error + batch_operation list" where
  "entryOperations C workflowId encoded newHead =
     and_then (sequenceNat (eh_sequence newHead)) (\<lambda>n.
     and_then (key_of (KEYS_event workflowId n)) (\<lambda>eventKey.
     and_then (key_of (KEYS_eventHead workflowId)) (\<lambda>headKey.
       Inr [Put eventKey encoded, Put headKey (vc_encode C (head_value newHead))])))"

definition appendToBatch ::
    "value_codec \<Rightarrow> jsstring \<Rightarrow> jsnum \<Rightarrow> event \<Rightarrow> batch_operation list \<Rightarrow> event_head \<Rightarrow> jsval option
     \<Rightarrow> log_error + (batch_operation list \<times> event_head \<times> jsnum)" where
  "appendToBatch C workflowId now event batchOperations head versionTuple =
     (let (encoded, newHead) = buildEntry C workflowId now event head versionTuple
      in and_then (entryOperations C workflowId encoded newHead) (\<lambda>ops.
           Inr (batchOperations @ ops, newHead, now)))"

text \<open>
  \<open>append\<close> without an accumulator: the head is read at \<open>s0\<close>, the batch is committed at \<open>s1\<close>.
\<close>

definition eventAppend ::
    "'s storage \<Rightarrow> value_codec \<Rightarrow> jsstring \<Rightarrow> jsnum \<Rightarrow> event \<Rightarrow> jsval option \<Rightarrow> 's \<Rightarrow> 's
     \<Rightarrow> (log_error + event_head) \<times> 's" where
  "eventAppend S C workflowId now event versionTuple s0 s1 =
     (case readEventHead S C s0 workflowId of
        Inl e \<Rightarrow> (Inl e, s1)
      | Inr head \<Rightarrow>
          (let (encoded, newHead) = buildEntry C workflowId now event head versionTuple
           in case entryOperations C workflowId encoded newHead of
                Inl e \<Rightarrow> (Inl e, s1)
              | Inr ops \<Rightarrow>
                  (case batch_op S s1 ops of
                     (Inl e, s') \<Rightarrow> (Inl (LogStorageError e), s')
                   | (Inr _, s') \<Rightarrow> (Inr newHead, s'))))"

section \<open>Reading\<close>

fun decodeEntries :: "value_codec \<Rightarrow> bytes list \<Rightarrow> log_error + jsval list" where
  "decodeEntries C [] = Inr []"
| "decodeEntries C (b # bs) =
     and_then (decode C b) (\<lambda>decoded.
     and_then (decodeEntries C bs) (\<lambda>rest.
       Inr (if isWorkflowLogEntry decoded then decoded # rest else rest)))"

definition scanFrom :: "'s storage \<Rightarrow> 's \<Rightarrow> jsstring \<Rightarrow> nat \<Rightarrow> log_error + bytes list" where
  "scanFrom S s workflowId from =
     and_then (key_of (KEYS_eventPrefix workflowId)) (\<lambda>pfx.
     and_then (key_of (KEYS_event workflowId from)) (\<lambda>gte.
     and_then (of_storage (scan_op S s pfx (default_scan_options\<lparr>so_gte := Some gte\<rparr>))) (\<lambda>found.
       Inr (map snd found))))"

definition eventScan :: "'s storage \<Rightarrow> value_codec \<Rightarrow> 's \<Rightarrow> jsstring \<Rightarrow> nat \<Rightarrow> log_error + jsval list" where
  "eventScan S C s workflowId from = and_then (scanFrom S s workflowId from) (decodeEntries C)"

text \<open>The loop of \<open>replay\<close> stops pulling from the scan at the first entry past \<open>toStep\<close>.\<close>

fun replayLoop :: "value_codec \<Rightarrow> jsnum \<Rightarrow> bytes list \<Rightarrow> log_error + jsval list" where
  "replayLoop C toStep [] = Inr []"
| "replayLoop C toStep (b # bs) =
     and_then (decode C b) (\<lambda>decoded.
       if \<not> isWorkflowLogEntry decoded then replayLoop C toStep bs
       else if js_less toStep (numberField decoded ''sequence'') then Inr []
       else and_then (replayLoop C toStep bs) (\<lambda>rest. Inr (decoded # rest)))"

definition eventReplay :: "'s storage \<Rightarrow> value_codec \<Rightarrow> 's \<Rightarrow> jsstring \<Rightarrow> jsnum \<Rightarrow> log_error + jsval list" where
  "eventReplay S C s workflowId toStep = and_then (scanFrom S s workflowId 0) (replayLoop C toStep)"

section \<open>The compaction watermark\<close>

record event_log_watermark =
  wm_sequence :: int
  wm_prevHash :: jsstring
  wm_checkpointReplay :: "replay_payload option"

definition isConsistentWatermarkBounds :: "jsval \<Rightarrow> jsval \<Rightarrow> bool" where
  "isConsistentWatermarkBounds sequence deletedThrough =
     (case sequence of
        JNumber (JFin r) \<Rightarrow>
          isSafeInteger (JFin r) \<and> r > 0 \<and> deletedThrough = JNumber (JFin (r - 1))
      | _ \<Rightarrow> False)"

definition isEventLogWatermark :: "jsval \<Rightarrow> bool" where
  "isEventLogWatermark v =
     (if \<not> isObject v then False
      else if field v (js ''type'') \<noteq> JString (js ''event-log-watermark'')
            \<or> field v (js ''version'') \<noteq> JNumber (JFin 1) then False
      else (case field v (js ''prevHash'') of
              JString h \<Rightarrow>
                if length h = 0 then False
                else isConsistentWatermarkBounds (field v (js ''sequence'')) (field v (js ''deletedThrough''))
            | _ \<Rightarrow> False))"

text \<open>
  The record of a value that passed the guard. The guard leaves \<open>checkpointReplay\<close> unchecked;
  it is read here the way recovery reads it.
\<close>

definition watermark_of :: "jsval \<Rightarrow> event_log_watermark" where
  "watermark_of v =
     \<lparr>wm_sequence = (case numberField v ''sequence'' of JFin r \<Rightarrow> \<lfloor>r\<rfloor> | _ \<Rightarrow> 0),
      wm_prevHash = stringField v ''prevHash'',
      wm_checkpointReplay = readCompactedCheckpointReplayPayload (Some v)\<rparr>"

definition readEventLogWatermark ::
    "'s storage \<Rightarrow> value_codec \<Rightarrow> 's \<Rightarrow> jsstring \<Rightarrow> log_error + event_log_watermark option" where
  "readEventLogWatermark S C s workflowId =
     and_then (key_of (KEYS_eventWatermark workflowId)) (\<lambda>key.
     and_then (of_storage (get_op S s key)) (\<lambda>raw.
       case raw of
         None \<Rightarrow> Inr None
       | Some b \<Rightarrow>
           and_then (decode C b) (\<lambda>decoded.
             Inr (if isEventLogWatermark decoded then Some (watermark_of decoded) else None))))"

section \<open>Compaction\<close>

definition MAX_COMPACTION_BATCH :: int where "MAX_COMPACTION_BATCH = 1000"

definition optionalCheckpointReplay :: "replay_payload option \<Rightarrow> (jsstring \<times> jsval) list" where
  "optionalCheckpointReplay p =
     (case p of None \<Rightarrow> [] | Some r \<Rightarrow> [(js ''checkpointReplay'', payload_value r)])"

definition watermark_value :: "int \<Rightarrow> jsstring \<Rightarrow> replay_payload option \<Rightarrow> jsval" where
  "watermark_value sequence prevHash replay =
     JObject ([(js ''type'', JString (js ''event-log-watermark'')), (js ''version'', JNumber (JFin 1)),
       (js ''sequence'', JNumber (JFin (of_int sequence))), (js ''prevHash'', JString prevHash),
       (js ''deletedThrough'', JNumber (JFin (of_int (sequence - 1))))]
       @ optionalCheckpointReplay replay)"

fun mergeDeletedCheckpointReplayPayloads ::
    "value_codec \<Rightarrow> replay_payload option \<Rightarrow> bytes list \<Rightarrow> log_error + replay_payload option" where
  "mergeDeletedCheckpointReplayPayloads C merged [] = Inr merged"
| "mergeDeletedCheckpointReplayPayloads C merged (b # bs) =
     and_then (decode C b) (\<lambda>decoded.
       if \<not> isWorkflowLogEntry decoded then mergeDeletedCheckpointReplayPayloads C merged bs
       else mergeDeletedCheckpointReplayPayloads C
              (mergeCheckpointReplayPayloads merged
                 (readCheckpointReplayPayload (field decoded (js ''payload'')))) bs)"

text \<open>The loop of \<open>collectDeleteRange\<close>: \<open>None\<close> when a record is not the expected entry.\<close>

fun collectLoop :: "value_codec \<Rightarrow> int \<Rightarrow> bytes list \<Rightarrow> log_error + int option" where
  "collectLoop C expected [] = Inr (Some expected)"
| "collectLoop C expected (b # bs) =
     and_then (decode C b) (\<lambda>decoded.
       if \<not> isWorkflowLogEntry decoded
          \<or> \<not> js_eq (numberField decoded ''sequence'') (JFin (of_int expected))
       then Inr None
       else collectLoop C (expected + 1) bs)"

definition collectDeleteRange ::
    "'s storage \<Rightarrow> value_codec \<Rightarrow> 's \<Rightarrow> jsstring \<Rightarrow> nat \<Rightarrow> nat \<Rightarrow> log_error + bytes list option" where
  "collectDeleteRange S C s workflowId currentFloor batchFirstSurviving =
     and_then (key_of (KEYS_eventPrefix workflowId)) (\<lambda>pfx.
     and_then (key_of (KEYS_event workflowId currentFloor)) (\<lambda>gte.
     and_then (key_of (KEYS_event workflowId batchFirstSurviving)) (\<lambda>lt.
     and_then (of_storage (scan_op S s pfx (default_scan_options\<lparr>so_gte := Some gte, so_lt := Some lt\<rparr>))) (\<lambda>found.
     and_then (collectLoop C (int currentFloor) (map snd found)) (\<lambda>reached.
       Inr (if reached \<noteq> Some (int batchFirstSurviving) \<or> found = [] then None
            else Some (map snd found)))))))"

fun keys_of :: "jsstring option list \<Rightarrow> log_error + jsstring list" where
  "keys_of [] = Inr []"
| "keys_of (k # ks) = and_then (key_of k) (\<lambda>a. and_then (keys_of ks) (\<lambda>as. Inr (a # as)))"

record compaction_result =
  co_watermark :: jsval
  co_deletedEntries :: "bytes list"
  co_deletedRange :: "int \<times> int"

text \<open>
  The watermark is read at \<open>s0\<close>, the range at \<open>s1\<close>. Sequence numbers and the retention window
  are integers.
\<close>

definition appendCompactionOperations ::
    "'s storage \<Rightarrow> value_codec \<Rightarrow> jsstring \<Rightarrow> int \<Rightarrow> int option \<Rightarrow> 's \<Rightarrow> 's \<Rightarrow> batch_operation list
     \<Rightarrow> log_error + (batch_operation list \<times> compaction_result option)" where
  "appendCompactionOperations S C workflowId headSequence retentionWindow s0 s1 operations =
     (case retentionWindow of
        None \<Rightarrow> Inr (operations, None)
      | Some window \<Rightarrow>
          (let targetFirstSurviving = max 0 (headSequence - window + 1) in
           and_then (readEventLogWatermark S C s0 workflowId) (\<lambda>existing.
             let currentFloor = (case existing of Some w \<Rightarrow> wm_sequence w | None \<Rightarrow> 0);
                 batchFirstSurviving = min targetFirstSurviving (currentFloor + MAX_COMPACTION_BATCH)
             in if batchFirstSurviving \<le> currentFloor then Inr (operations, None)
                else
                  and_then (collectDeleteRange S C s1 workflowId (nat currentFloor) (nat batchFirstSurviving))
                  (\<lambda>collected.
                    case collected of
                      None \<Rightarrow> Inr (operations, None)
                    | Some deletedEntries \<Rightarrow>
                        and_then (mergeDeletedCheckpointReplayPayloads C
                             (Option.bind existing wm_checkpointReplay) deletedEntries) (\<lambda>replay.
                        let prevHash = hashBytes (last deletedEntries);
                            watermark = watermark_value batchFirstSurviving prevHash replay
                        in and_then (keys_of (map (KEYS_event workflowId)
                                       [nat currentFloor..<nat batchFirstSurviving])) (\<lambda>eventKeys.
                           and_then (key_of (KEYS_eventWatermark workflowId)) (\<lambda>watermarkKey.
                             Inr (operations @ map Delete eventKeys
                                    @ [Put watermarkKey (vc_encode C watermark)],
                                  Some \<lparr>co_watermark = watermark, co_deletedEntries = deletedEntries,
                                        co_deletedRange = (currentFloor, batchFirstSurviving - 1)\<rparr>))))))))"

section \<open>Verification\<close>

datatype verify_result = Valid | Invalid jsnum | Indeterminate

datatype verify_pass = PassOk | PassInvalid jsnum

record scanned_chain =
  sc_entriesSeen :: nat
  sc_lastSequence :: jsnum
  sc_lastHash :: jsstring

definition checkChainLink :: "jsval \<Rightarrow> jsstring \<Rightarrow> bool \<Rightarrow> int \<Rightarrow> verify_pass" where
  "checkChainLink entry previousHash isFirst expectedFirstSequence =
     (if isFirst \<and> \<not> js_eq (numberField entry ''sequence'') (JFin (of_int expectedFirstSequence))
      then PassInvalid (JFin (of_int expectedFirstSequence))
      else if stringField entry ''prevHash'' \<noteq> previousHash
      then PassInvalid (numberField entry ''sequence'')
      else PassOk)"

fun scanLoop ::
    "value_codec \<Rightarrow> int \<Rightarrow> scanned_chain \<Rightarrow> bytes list \<Rightarrow> log_error + (jsnum + scanned_chain)" where
  "scanLoop C expectedFirstSequence acc [] = Inr (Inr acc)"
| "scanLoop C expectedFirstSequence acc (b # bs) =
     and_then (decode C b) (\<lambda>decoded.
       if \<not> isWorkflowLogEntry decoded then scanLoop C expectedFirstSequence acc bs
       else (case checkChainLink decoded (sc_lastHash acc) (sc_entriesSeen acc = 0) expectedFirstSequence of
               PassInvalid n \<Rightarrow> Inr (Inl n)
             | PassOk \<Rightarrow>
                 scanLoop C expectedFirstSequence
                   \<lparr>sc_entriesSeen = sc_entriesSeen acc + 1,
                    sc_lastSequence = numberField decoded ''sequence'',
                    sc_lastHash = hashBytes b\<rparr> bs))"

definition scanChain ::
    "'s storage \<Rightarrow> value_codec \<Rightarrow> 's \<Rightarrow> jsstring \<Rightarrow> scan_options \<Rightarrow> jsstring \<Rightarrow> int
     \<Rightarrow> log_error + (jsnum + scanned_chain)" where
  "scanChain S C s pfx options seed expectedFirstSequence =
     and_then (of_storage (scan_op S s pfx options)) (\<lambda>found.
       scanLoop C expectedFirstSequence
         \<lparr>sc_entriesSeen = 0, sc_lastSequence = JFin (-1), sc_lastHash = seed\<rparr> (map snd found))"

definition verifyTailAgainstHead :: "scanned_chain \<Rightarrow> event_head \<Rightarrow> verify_pass" where
  "verifyTailAgainstHead scan head =
     (if js_eq (eh_sequence head) (eh_sequence EMPTY_EVENT_HEAD)
      then (if sc_entriesSeen scan = 0 then PassOk else PassInvalid (JFin 0))
      else if sc_entriesSeen scan = 0 then PassInvalid (eh_sequence head)
      else if \<not> js_eq (sc_lastSequence scan) (eh_sequence head)
      then PassInvalid (js_add (sc_lastSequence scan) (JFin 1))
      else if sc_lastHash scan \<noteq> eh_lastHash head then PassInvalid (sc_lastSequence scan)
      else PassOk)"

definition verifyAgainstSnapshot ::
    "'s storage \<Rightarrow> value_codec \<Rightarrow> 's \<Rightarrow> jsstring \<Rightarrow> event_log_watermark option \<Rightarrow> event_head
     \<Rightarrow> log_error + verify_pass" where
  "verifyAgainstSnapshot S C s workflowId watermark head =
     (let seed = (case watermark of Some w \<Rightarrow> wm_prevHash w | None \<Rightarrow> GENESIS_HASH);
          expectedFirstSequence = (case watermark of Some w \<Rightarrow> wm_sequence w | None \<Rightarrow> 0)
      in and_then (key_of (KEYS_eventPrefix workflowId)) (\<lambda>pfx.
         and_then (case watermark of
                     None \<Rightarrow> Inr default_scan_options
                   | Some w \<Rightarrow> and_then (key_of (KEYS_event workflowId (nat (wm_sequence w)))) (\<lambda>gte.
                       Inr (default_scan_options\<lparr>so_gte := Some gte\<rparr>))) (\<lambda>options.
         and_then (scanChain S C s pfx options seed expectedFirstSequence) (\<lambda>scan.
           Inr (case scan of
                  Inl n \<Rightarrow> PassInvalid n
                | Inr chain \<Rightarrow>
                    (case watermark of
                       Some w \<Rightarrow>
                         if sc_entriesSeen chain = 0 then PassInvalid (JFin (of_int (wm_sequence w)))
                         else verifyTailAgainstHead chain head
                     | None \<Rightarrow> verifyTailAgainstHead chain head))))))"

text \<open>The storage states at which the reads of one attempt are served, in the order of the reads.\<close>

record 's verify_reads =
  at_watermark :: 's
  at_head :: 's
  at_scan :: 's
  at_watermark_after :: 's
  at_head_after :: 's

definition MAX_ATTEMPTS :: nat where "MAX_ATTEMPTS = 5"

definition floor_of :: "event_log_watermark option \<Rightarrow> int" where
  "floor_of w = (case w of Some x \<Rightarrow> wm_sequence x | None \<Rightarrow> -1)"

fun verifyLoop ::
    "'s storage \<Rightarrow> value_codec \<Rightarrow> jsstring \<Rightarrow> 's verify_reads list \<Rightarrow> log_error + verify_result" where
  "verifyLoop S C workflowId [] = Inr Indeterminate"
| "verifyLoop S C workflowId (r # rs) =
     and_then (readEventLogWatermark S C (at_watermark r) workflowId) (\<lambda>watermark.
     and_then (readEventHead S C (at_head r) workflowId) (\<lambda>head.
     and_then (verifyAgainstSnapshot S C (at_scan r) workflowId watermark head) (\<lambda>result.
       case result of
         PassOk \<Rightarrow> Inr Valid
       | PassInvalid n \<Rightarrow>
           and_then (readEventLogWatermark S C (at_watermark_after r) workflowId) (\<lambda>watermarkAfter.
           and_then (readEventHead S C (at_head_after r) workflowId) (\<lambda>headAfter.
             let watermarkMoved = floor_of watermarkAfter > floor_of watermark;
                 headMoved = \<not> js_eq (eh_sequence headAfter) (eh_sequence head)
                               \<or> eh_lastHash headAfter \<noteq> eh_lastHash head
             in if watermarkMoved \<or> headMoved then verifyLoop S C workflowId rs
                else Inr (Invalid n))))))"

definition verifyEventLog ::
    "'s storage \<Rightarrow> value_codec \<Rightarrow> jsstring \<Rightarrow> (nat \<Rightarrow> 's verify_reads) \<Rightarrow> log_error + verify_result" where
  "verifyEventLog S C workflowId reads = verifyLoop S C workflowId (map reads [0..<MAX_ATTEMPTS])"

definition quiescent :: "'s \<Rightarrow> nat \<Rightarrow> 's verify_reads" where
  "quiescent s = (\<lambda>_. \<lparr>at_watermark = s, at_head = s, at_scan = s, at_watermark_after = s, at_head_after = s\<rparr>)"

section \<open>Recovery from the log\<close>

text \<open>\<open>hydrateCheckpointReplayState\<close> with its reads: the watermark record, then a scan of the log.\<close>

definition readStoredWatermark :: "'s storage \<Rightarrow> value_codec \<Rightarrow> 's \<Rightarrow> jsstring \<Rightarrow> log_error + jsval option" where
  "readStoredWatermark S C s workflowId =
     and_then (key_of (KEYS_eventWatermark workflowId)) (\<lambda>key.
     and_then (of_storage (get_op S s key)) (\<lambda>raw.
       case raw of None \<Rightarrow> Inr None | Some b \<Rightarrow> and_then (decode C b) (\<lambda>v. Inr (Some v))))"

definition hydrateFromStorage ::
    "'s storage \<Rightarrow> value_codec \<Rightarrow> 's \<Rightarrow> jsstring \<Rightarrow> 'o checkpoint \<Rightarrow> log_error + 'o checkpoint" where
  "hydrateFromStorage S C s workflowId c =
     and_then (readStoredWatermark S C s workflowId) (\<lambda>watermark.
     and_then (key_of (KEYS_eventPrefix workflowId)) (\<lambda>pfx.
     and_then (of_storage (scan_op S s pfx default_scan_options)) (\<lambda>found.
     and_then (decodeEntries C (map snd found)) (\<lambda>entries.
       Inr (hydrateCheckpointReplayState watermark (map (\<lambda>e. field e (js ''payload'')) entries) c)))))"

section \<open>Reading records back\<close>

lemma head_value_read [simp]:
  "isEventHeadRecord (head_value h)" "numberField (head_value h) ''sequence'' = eh_sequence h"
  "stringField (head_value h) ''lastHash'' = eh_lastHash h" "\<not> isWorkflowLogEntry (head_value h)"
  by (simp_all add: isEventHeadRecord_def isWorkflowLogEntry_def head_value_def numberField_def
      stringField_def js_defs)

lemma entry_value_read [simp]:
  "isWorkflowLogEntry (entry_value e w n h t vt)"
  "numberField (entry_value e w n h t vt) ''sequence'' = n"
  "stringField (entry_value e w n h t vt) ''prevHash'' = h"
  "field (entry_value e w n h t vt) (js ''payload'') = ev_payload e"
  by (simp_all add: isWorkflowLogEntry_def entry_value_def numberField_def stringField_def js_defs)

lemma watermark_value_read:
  assumes "0 < n" and "n \<le> MAX_SAFE_INTEGER" and "h \<noteq> []"
  shows "isEventLogWatermark (watermark_value n h p)" and "wm_sequence (watermark_of (watermark_value n h p)) = n"
    and "wm_prevHash (watermark_of (watermark_value n h p)) = h"
    and "\<not> isWorkflowLogEntry (watermark_value n h p)"
  using assms
  by (simp_all add: isEventLogWatermark_def watermark_of_def watermark_value_def numberField_def
      stringField_def isConsistentWatermarkBounds_def isWorkflowLogEntry_def js_defs
      optionalCheckpointReplay_def split: option.splits)

section \<open>The hash has sixteen digits\<close>

lemma length_hexDigits: "n < 16 ^ Suc k \<Longrightarrow> length (hexDigits n) \<le> Suc k"
proof (induction k arbitrary: n)
  case 0
  then show ?case by (simp add: hexDigits.simps)
next
  case (Suc k)
  have "n div 16 < 16 ^ Suc k" using Suc.prems by auto
  from Suc.IH [OF this] show ?case by (subst hexDigits.simps) (simp add: Let_def)
qed

lemma length_hashBytes [simp]: "length (hashBytes b) = 16"
proof -
  have "unat h < 16 ^ Suc 15" for h :: "64 word"
    using unsigned_less [of h] by simp
  from length_hexDigits [OF this] show ?thesis
    by (simp add: hashBytes_def fnv1a64_def padStart_def Let_def)
qed

lemma hashBytes_nonempty [simp]: "hashBytes b \<noteq> []"
  using length_hashBytes [of b] by (metis list.size(3) zero_neq_numeral)

section \<open>Key order in a log\<close>

definition log_prefix :: "jsstring \<Rightarrow> jsstring" where
  "log_prefix w = the (KEYS_eventPrefix w)"

definition event_key :: "jsstring \<Rightarrow> nat \<Rightarrow> jsstring" where
  "event_key w n = the (KEYS_event w n)"

definition head_key :: "jsstring \<Rightarrow> jsstring" where
  "head_key w = the (KEYS_eventHead w)"

definition watermark_key :: "jsstring \<Rightarrow> jsstring" where
  "watermark_key w = the (KEYS_eventWatermark w)"

definition encodable :: "jsstring \<Rightarrow> bool" where
  "encodable w = (encodeStorageKeyComponent w \<noteq> None)"

lemma log_keys:
  assumes "encodable w"
  shows "KEYS_eventPrefix w = Some (log_prefix w)" and "KEYS_event w n = Some (event_key w n)"
    and "KEYS_eventHead w = Some (head_key w)" and "KEYS_eventWatermark w = Some (watermark_key w)"
    and "event_key w n = log_prefix w @ paddedSequence n"
    and "head_key w = log_prefix w @ js ''head''" and "watermark_key w = log_prefix w @ js ''watermark''"
    and "log_prefix w \<noteq> []" and "last (log_prefix w) \<noteq> -1"
proof -
  from assms obtain e where e: "encodeStorageKeyComponent w = Some e" by (auto simp: encodable_def)
  have P: "log_prefix w = js ''ev:'' @ e @ js '':''"
    using e by (simp add: log_prefix_def KEYS_eventPrefix_def)
  show "KEYS_eventPrefix w = Some (log_prefix w)" "KEYS_event w n = Some (event_key w n)"
    "KEYS_eventHead w = Some (head_key w)" "KEYS_eventWatermark w = Some (watermark_key w)"
    using e by (simp_all add: log_prefix_def event_key_def head_key_def watermark_key_def
        KEYS_eventPrefix_def KEYS_event_def KEYS_eventHead_def KEYS_eventWatermark_def)
  show "event_key w n = log_prefix w @ paddedSequence n" "head_key w = log_prefix w @ js ''head''"
    "watermark_key w = log_prefix w @ js ''watermark''" "log_prefix w \<noteq> []" "last (log_prefix w) \<noteq> -1"
    using e by (simp_all add: P event_key_def head_key_def watermark_key_def KEYS_event_def
        KEYS_eventHead_def KEYS_eventWatermark_def js_def)
qed

lemma padded_below_letter:
  assumes "unat c > 57"
  shows "paddedSequence n < c # r"
proof (cases "paddedSequence n")
  case (Cons d ds)
  then have "d \<in> set (padStart (numberString n) 10 48)" by (simp add: paddedSequence_def [symmetric])
  then have "d < c" using padded_range [of d n 10] assms by (simp add: word_less_nat_alt)
  with Cons show ?thesis by simp
qed simp

lemma log_key_order:
  assumes "encodable w"
  shows "i < 10 ^ 10 \<Longrightarrow> j < 10 ^ 10 \<Longrightarrow> event_key w i < event_key w j \<longleftrightarrow> i < j"
    and "event_key w i < head_key w" and "event_key w i < watermark_key w"
    and "head_key w < watermark_key w"
  using assms
  by (simp_all add: log_keys paddedSequence_less_iff padded_below_letter js_def)

section \<open>The log a store holds\<close>

text \<open>
  \<open>hist\<close> lists the bytes of all entries ever appended. Entry \<open>i\<close> carries sequence \<open>i\<close> and the
  hash of its predecessor.
\<close>

definition chain_hash :: "bytes list \<Rightarrow> nat \<Rightarrow> jsstring" where
  "chain_hash hist i = (if i = 0 then GENESIS_HASH else hashBytes (hist ! (i - 1)))"

definition chained :: "value_codec \<Rightarrow> bytes list \<Rightarrow> bool" where
  "chained C hist \<longleftrightarrow>
     (\<forall>i < length hist. \<exists>v. vc_decode C (hist ! i) = Some v \<and> isWorkflowLogEntry v
        \<and> numberField v ''sequence'' = JFin (of_nat i) \<and> stringField v ''prevHash'' = chain_hash hist i)"

definition head_at :: "bytes list \<Rightarrow> nat \<Rightarrow> event_head" where
  "head_at hist n = \<lparr>eh_sequence = JFin (of_nat n - 1), eh_lastHash = chain_hash hist n\<rparr>"

definition MAX_LOG_LENGTH :: nat where "MAX_LOG_LENGTH = 10 ^ 10"

definition log_at :: "value_codec \<Rightarrow> jsstring \<Rightarrow> store \<Rightarrow> bytes list \<Rightarrow> nat \<Rightarrow> nat \<Rightarrow> bool" where
  "log_at C w m hist lo n \<longleftrightarrow>
     encodable w \<and> chained C hist \<and> n \<le> length hist \<and> n \<le> MAX_LOG_LENGTH
     \<and> (lo < n \<or> lo = 0 \<and> n = 0)
     \<and> (\<forall>k. prefix (log_prefix w) k \<longrightarrow> m k \<noteq> None \<longrightarrow>
           k \<in> event_key w ` {lo..<n} \<or> k = head_key w \<or> k = watermark_key w)
     \<and> (\<forall>i \<in> {lo..<n}. m (event_key w i) = Some (hist ! i))
     \<and> (if n = 0 then m (head_key w) = None
        else \<exists>b. m (head_key w) = Some b \<and> vc_decode C b = Some (head_value (head_at hist n)))
     \<and> (if lo = 0 then m (watermark_key w) = None
        else \<exists>b p. m (watermark_key w) = Some b
               \<and> vc_decode C b = Some (watermark_value (int lo) (chain_hash hist lo) p))"

lemma chain_hash_nonempty [simp]: "chain_hash hist i \<noteq> []"
  by (simp add: chain_hash_def GENESIS_HASH_def js_def)

lemma chainedD:
  assumes "chained C hist" and "i < length hist"
  obtains v where "vc_decode C (hist ! i) = Some v" and "isWorkflowLogEntry v"
    and "numberField v ''sequence'' = JFin (of_nat i)" and "stringField v ''prevHash'' = chain_hash hist i"
  using assms unfolding chained_def by blast

lemma log_atD:
  assumes "log_at C w m hist lo n"
  shows "encodable w" and "chained C hist" and "n \<le> length hist" and "n \<le> MAX_LOG_LENGTH"
    and "lo \<le> n" and "lo < n \<or> lo = 0 \<and> n = 0"
    and "prefix (log_prefix w) k \<Longrightarrow> m k \<noteq> None \<Longrightarrow>
           k \<in> event_key w ` {lo..<n} \<or> k = head_key w \<or> k = watermark_key w"
    and "i \<in> {lo..<n} \<Longrightarrow> m (event_key w i) = Some (hist ! i)"
    and "n = 0 \<Longrightarrow> m (head_key w) = None"
    and "0 < n \<Longrightarrow> \<exists>b. m (head_key w) = Some b \<and> vc_decode C b = Some (head_value (head_at hist n))"
    and "lo = 0 \<Longrightarrow> m (watermark_key w) = None"
    and "0 < lo \<Longrightarrow> \<exists>b p. m (watermark_key w) = Some b
               \<and> vc_decode C b = Some (watermark_value (int lo) (chain_hash hist lo) p)"
  using assms unfolding log_at_def by (auto split: if_splits)

lemma log_atI:
  assumes "encodable w" and "chained C hist" and "n \<le> length hist" and "n \<le> MAX_LOG_LENGTH" and "lo < n"
    and "\<And>k. prefix (log_prefix w) k \<Longrightarrow> m k \<noteq> None \<Longrightarrow> k \<noteq> head_key w \<Longrightarrow> k \<noteq> watermark_key w \<Longrightarrow>
           k \<in> event_key w ` {lo..<n}"
    and "\<And>i. lo \<le> i \<Longrightarrow> i < n \<Longrightarrow> m (event_key w i) = Some (hist ! i)"
    and "m (head_key w) = Some b" and "vc_decode C b = Some (head_value (head_at hist n))"
    and "lo = 0 \<Longrightarrow> m (watermark_key w) = None"
    and "0 < lo \<Longrightarrow> \<exists>b p. m (watermark_key w) = Some b
               \<and> vc_decode C b = Some (watermark_value (int lo) (chain_hash hist lo) p)"
  shows "log_at C w m hist lo n"
  using assms unfolding log_at_def by auto

lemma log_floor_safe: "log_at C w m hist lo n \<Longrightarrow> int lo \<le> MAX_SAFE_INTEGER"
  using log_atD(4,5) [of C w m hist lo n] by (simp add: MAX_SAFE_INTEGER_def MAX_LOG_LENGTH_def)

text \<open>The keys a bounded scan of the log meets: the entries in order, then head and watermark.\<close>

definition log_range :: "jsstring \<Rightarrow> nat option \<Rightarrow> nat option \<Rightarrow> scan_options" where
  "log_range w f g = default_scan_options\<lparr>so_gte := map_option (event_key w) f, so_lt := map_option (event_key w) g\<rparr>"

definition record_keys :: "jsstring \<Rightarrow> store \<Rightarrow> jsstring list" where
  "record_keys w m = filter (\<lambda>k. m k \<noteq> None) [head_key w, watermark_key w]"

lemma sorted_event_keys:
  assumes "encodable w" and "b \<le> MAX_LOG_LENGTH"
  shows "sorted_wrt (<) (map (event_key w) [a..<b] @ record_keys w m)"
proof -
  have "sorted_wrt (<) (map (event_key w) [a..<b])"
    unfolding sorted_wrt_map
    by (rule sorted_wrt_mono_rel [OF _ sorted_wrt_upt])
      (use assms in \<open>auto simp: MAX_LOG_LENGTH_def log_key_order\<close>)
  moreover have "sorted_wrt (<) (record_keys w m)"
    unfolding record_keys_def
    by (rule sorted_wrt_filter) (simp add: log_key_order(4) [OF assms(1)])
  ultimately show ?thesis
    using log_key_order(2,3) [OF assms(1)] by (auto simp: sorted_wrt_append record_keys_def)
qed

lemma scan_keys_of_sorted:
  assumes "sorted_wrt (<) L" and "set L = {k \<in> dom m. in_prefix_range p k \<and> matchesScanOptions k opts}"
    and "so_limit opts = None" and "\<not> so_reverse opts"
  shows "scan_keys m p opts = L"
proof -
  have "sorted L" "distinct L" using assms(1) by (simp_all add: strict_sorted_iff)
  then have "sorted_list_of_set (set L) = L" by (rule sorted_list_of_set.idem_if_sorted_distinct)
  then show ?thesis using assms(2-4) by (simp add: scan_keys_def Let_def)
qed

lemma log_scan_keys:
  assumes "log_at C w m hist lo n" and "\<And>x. f = Some x \<Longrightarrow> x < 10 ^ 10" and "\<And>x. g = Some x \<Longrightarrow> x < 10 ^ 10"
  shows "scan_keys m (log_prefix w) (log_range w f g)
    = map (event_key w) [max lo (case f of Some x \<Rightarrow> x | None \<Rightarrow> 0) ..< (case g of Some x \<Rightarrow> min n x | None \<Rightarrow> n)]
      @ (if g = None then record_keys w m else [])"
    (is "_ = map (event_key w) [?a..<?b] @ ?tail")
proof (rule scan_keys_of_sorted)
  note D = log_atD [OF assms(1)]
  have b: "?b \<le> MAX_LOG_LENGTH" using D(4) by (auto split: option.splits)
  show "sorted_wrt (<) (map (event_key w) [?a..<?b] @ ?tail)"
    using sorted_event_keys [OF D(1) b, of ?a m] by (auto simp: sorted_wrt_append)
  have small: "i < 10 ^ 10" if "i < n" for i using that D(4) by (simp add: MAX_LOG_LENGTH_def)
  have range: "in_prefix_range (log_prefix w) k \<longleftrightarrow> prefix (log_prefix w) k" for k
    using in_prefix_range_iff log_keys(8,9) [OF D(1)] by blast
  have matches: "matchesScanOptions (event_key w i) (log_range w f g)
      \<longleftrightarrow> (case f of Some x \<Rightarrow> x \<le> i | None \<Rightarrow> True) \<and> (case g of Some x \<Rightarrow> i < x | None \<Rightarrow> True)"
    if "i < n" for i
    using assms(2,3) small [OF that] log_key_order(1) [OF D(1)]
    by (auto simp: matchesScanOptions_iff log_range_def default_scan_options_def not_less [symmetric]
        split: option.splits)
  have tail: "matchesScanOptions k (log_range w f g) \<longleftrightarrow> g = None"
    if "k = head_key w \<or> k = watermark_key w" for k
    using that log_key_order(2,3) [OF D(1), THEN less_imp_le] log_key_order(2,3) [OF D(1), THEN less_not_sym]
    by (cases g) (auto simp: matchesScanOptions_iff log_range_def default_scan_options_def)
  have pre: "prefix (log_prefix w) (event_key w i)" "prefix (log_prefix w) (head_key w)"
    "prefix (log_prefix w) (watermark_key w)" for i
    using log_keys(5-7) [OF D(1)] by simp_all
  show "set (map (event_key w) [?a..<?b] @ ?tail)
    = {k \<in> dom m. in_prefix_range (log_prefix w) k \<and> matchesScanOptions k (log_range w f g)}" (is "?L = ?R")
  proof (intro set_eqI iffI)
    fix k assume "k \<in> ?L"
    then consider i where "k = event_key w i" "?a \<le> i" "i < ?b" | "g = None" "k \<in> set (record_keys w m)"
      by (auto split: if_splits)
    then show "k \<in> ?R"
    proof cases
      case 1
      then have i: "i \<in> {lo..<n}" by (auto split: option.splits)
      with 1 D(8) [OF i] matches [of i] show ?thesis
        by (auto simp: range pre split: option.splits)
    next
      case 2
      then show ?thesis using tail by (auto simp: record_keys_def range pre split: if_splits)
    qed
  next
    fix k assume k: "k \<in> ?R"
    then have "k \<in> event_key w ` {lo..<n} \<or> k = head_key w \<or> k = watermark_key w"
      using D(7) by (auto simp: range)
    then show "k \<in> ?L"
    proof
      assume "k \<in> event_key w ` {lo..<n}"
      then obtain i where i: "k = event_key w i" "lo \<le> i" "i < n" by auto
      with k matches [of i] have "?a \<le> i \<and> i < ?b" by (auto split: option.splits)
      with i show ?thesis by auto
    next
      assume "k = head_key w \<or> k = watermark_key w"
      with k tail show ?thesis by (auto simp: record_keys_def)
    qed
  qed
qed (simp_all add: log_range_def default_scan_options_def)

section \<open>Walking the chain\<close>

definition skipped :: "value_codec \<Rightarrow> bytes \<Rightarrow> bool" where
  "skipped C b \<longleftrightarrow> (\<exists>v. vc_decode C b = Some v \<and> \<not> isWorkflowLogEntry v)"

lemma scanLoop_skipped: "(\<And>b. b \<in> set bs \<Longrightarrow> skipped C b) \<Longrightarrow> scanLoop C e acc bs = Inr (Inr acc)"
proof (induction bs)
  case (Cons b bs)
  then obtain v where "vc_decode C b = Some v" "\<not> isWorkflowLogEntry v"
    by (metis list.set_intros(1) skipped_def)
  with Cons show ?case by (simp add: decode_def)
qed simp

lemma scanLoop_append:
  "scanLoop C e acc (xs @ ys) =
     and_then (scanLoop C e acc xs) (\<lambda>r. case r of Inl n \<Rightarrow> Inr (Inl n) | Inr acc' \<Rightarrow> scanLoop C e acc' ys)"
proof (induction xs arbitrary: acc)
  case (Cons b bs)
  show ?case
    by (cases "decode C b") (simp_all add: Cons.IH split: verify_pass.splits)
qed simp

lemma scanLoop_total:
  "(\<And>b. b \<in> set bs \<Longrightarrow> vc_decode C b \<noteq> None) \<Longrightarrow> \<exists>r. scanLoop C e acc bs = Inr r"
proof (induction bs arbitrary: acc)
  case (Cons b bs)
  then obtain v where "vc_decode C b = Some v" by fastforce
  with Cons show ?case by (auto simp: decode_def split: verify_pass.splits)
qed simp

lemma scanLoop_chain:
  assumes "chained C hist" and "a \<le> b" and "b \<le> length hist" and "k = 0 \<longrightarrow> e = int a"
  shows "scanLoop C e \<lparr>sc_entriesSeen = k, sc_lastSequence = q, sc_lastHash = chain_hash hist a\<rparr>
            (map (\<lambda>i. hist ! i) [a..<b])
         = Inr (Inr \<lparr>sc_entriesSeen = k + (b - a),
                     sc_lastSequence = (if a < b then JFin (of_nat b - 1) else q),
                     sc_lastHash = chain_hash hist b\<rparr>)"
  using assms(2-4)
proof (induction "b - a" arbitrary: a k q)
  case 0
  then show ?case by simp
next
  case (Suc d)
  then have ab: "a < b" by simp
  obtain v where v: "vc_decode C (hist ! a) = Some v" "isWorkflowLogEntry v"
    "numberField v ''sequence'' = JFin (of_nat a)" "stringField v ''prevHash'' = chain_hash hist a"
    by (rule chainedD [OF assms(1), of a]) (use ab Suc.prems in auto)
  have link: "checkChainLink v (chain_hash hist a) (k = 0) e = PassOk"
    using v Suc.prems(3) by (auto simp: checkChainLink_def js_eq_def)
  have hash: "hashBytes (hist ! a) = chain_hash hist (Suc a)" by (simp add: chain_hash_def)
  have upt: "[a..<b] = a # [Suc a..<b]" using ab by (simp add: upt_conv_Cons)
  have last: "(if Suc a < b then JFin (of_nat b - 1) else JFin (of_nat a)) = JFin (of_nat b - 1)"
    using ab by (cases "Suc a < b") (auto simp: not_less le_Suc_eq)
  show ?case
    using Suc.hyps(1) [of "Suc a" "Suc k" "JFin (of_nat a)"] Suc.hyps(2) Suc.prems ab
    by (simp add: upt v decode_def link hash last Suc_diff_le)
qed

lemma record_skipped:
  assumes "log_at C w m hist lo n" and "k \<in> set (record_keys w m)"
  shows "skipped C (the (m k))"
proof -
  note D = log_atD [OF assms(1)]
  from assms(2) consider "k = head_key w" "m k \<noteq> None" | "k = watermark_key w" "m k \<noteq> None"
    by (auto simp: record_keys_def split: if_splits)
  then show ?thesis
  proof cases
    case 1
    with D(9,10) show ?thesis by (cases "n = 0") (auto simp: skipped_def)
  next
    case 2
    have "skipped C b" if "vc_decode C b = Some (watermark_value (int lo) (chain_hash hist lo) p)" "0 < lo" for b p
      using that watermark_value_read(4) [of "int lo"] log_floor_safe [OF assms(1)] by (simp add: skipped_def)
    with 2 D(11,12) show ?thesis by (cases "lo = 0") auto
  qed
qed

lemma log_records_decode:
  assumes "log_at C w m hist lo n" and "b \<in> set (map (\<lambda>k. the (m k)) (map (event_key w) [lo..<n] @ record_keys w m))"
  shows "vc_decode C b \<noteq> None"
proof -
  note D = log_atD [OF assms(1)]
  from assms(2) consider i where "i \<in> {lo..<n}" "b = the (m (event_key w i))"
    | k where "k \<in> set (record_keys w m)" "b = the (m k)" by auto
  then show ?thesis
  proof cases
    case 1
    then have "i < length hist" using D(3) by simp
    then obtain v where "vc_decode C (hist ! i) = Some v" by (rule chainedD [OF D(2)])
    with 1(2) D(8) [OF 1(1)] show ?thesis by simp
  next
    case 2
    with record_skipped [OF assms(1) 2(1)] show ?thesis by (auto simp: skipped_def)
  qed
qed

lemma log_entry_bytes:
  assumes "log_at C w m hist lo n" and "lo \<le> a" and "b \<le> n"
  shows "map (\<lambda>k. the (m k)) (map (event_key w) [a..<b]) = map (\<lambda>i. hist ! i) [a..<b]"
  using log_atD(8) [OF assms(1)] assms(2,3) by simp

section \<open>Reads of a log through a storage\<close>

context storage_spec
begin

lemma read_head:
  assumes "invar s" and "log_at C w (contents s) hist lo n"
  shows "readEventHead S C s w = Inr (head_at hist n)"
proof -
  note D = log_atD [OF assms(2)]
  have "head_at hist 0 = EMPTY_EVENT_HEAD"
    by (simp add: head_at_def EMPTY_EVENT_HEAD_def chain_hash_def)
  with D(9,10) show ?thesis
    by (cases "n = 0") (auto simp: readEventHead_def key_of_def log_keys [OF D(1)] get_spec [OF assms(1)]
        of_storage_def decode_def)
qed

lemma read_watermark:
  assumes "invar s" and "log_at C w (contents s) hist lo n"
  shows "\<exists>x. readEventLogWatermark S C s w = Inr x \<and> (x = None \<longleftrightarrow> lo = 0)
     \<and> (\<forall>y. x = Some y \<longrightarrow> wm_sequence y = int lo \<and> wm_prevHash y = chain_hash hist lo)"
proof -
  note D = log_atD [OF assms(2)]
  note R = watermark_value_read [of "int lo" "chain_hash hist lo"]
  show ?thesis
  proof (cases "lo = 0")
    case True
    then show ?thesis using D(11)
      by (simp add: readEventLogWatermark_def key_of_def log_keys [OF D(1)] get_spec [OF assms(1)] of_storage_def)
  next
    case False
    then obtain b p where b: "contents s (watermark_key w) = Some b"
      "vc_decode C b = Some (watermark_value (int lo) (chain_hash hist lo) p)" using D(12) by auto
    with False R log_floor_safe [OF assms(2)] show ?thesis
      by (simp add: readEventLogWatermark_def key_of_def log_keys [OF D(1)] get_spec [OF assms(1)]
          of_storage_def decode_def)
  qed
qed

lemma scan_log:
  assumes "invar s" and "log_at C w (contents s) hist lo n"
    and "\<And>x. f = Some x \<Longrightarrow> x < 10 ^ 10" and "\<And>x. g = Some x \<Longrightarrow> x < 10 ^ 10"
  shows "scan_op S s (log_prefix w) (log_range w f g) = Inr (map (\<lambda>k. (k, the (contents s k)))
     (map (event_key w) [max lo (case f of Some x \<Rightarrow> x | None \<Rightarrow> 0) ..< (case g of Some x \<Rightarrow> min n x | None \<Rightarrow> n)]
      @ (if g = None then record_keys w (contents s) else [])))"
  using log_scan_keys [OF assms(2-4)] log_keys(8) [OF log_atD(1) [OF assms(2)]]
  by (simp add: scan_spec [OF assms(1)] scan_entries_def)

end

section \<open>Verification of an intact log\<close>

lemma log_range_simps:
  "log_range w None None = default_scan_options"
  "log_range w (Some f) None = default_scan_options\<lparr>so_gte := Some (event_key w f)\<rparr>"
  "log_range w (Some f) (Some g) = default_scan_options\<lparr>so_gte := Some (event_key w f), so_lt := Some (event_key w g)\<rparr>"
  by (simp_all add: log_range_def default_scan_options_def)

definition read_states :: "'s verify_reads \<Rightarrow> 's list" where
  "read_states r = [at_watermark r, at_head r, at_scan r, at_watermark_after r, at_head_after r]"

text \<open>
  The reads of one attempt see one log at successive moments: in between, entries may be
  appended and old ones compacted.
\<close>

definition intact_reads ::
    "('s \<Rightarrow> bool) \<Rightarrow> ('s \<Rightarrow> store) \<Rightarrow> value_codec \<Rightarrow> jsstring \<Rightarrow> bytes list \<Rightarrow> 's verify_reads \<Rightarrow> bool" where
  "intact_reads good view C w hist r \<longleftrightarrow>
     (\<exists>los ns. length los = 5 \<and> length ns = 5 \<and> sorted los \<and> sorted ns
        \<and> (\<forall>i < 5. good (read_states r ! i)
              \<and> log_at C w (view (read_states r ! i)) hist (los ! i) (ns ! i)))"

definition watermark_at :: "bytes list \<Rightarrow> nat \<Rightarrow> event_log_watermark option \<Rightarrow> bool" where
  "watermark_at hist lo x \<longleftrightarrow> (x = None \<longleftrightarrow> lo = 0)
     \<and> (\<forall>y. x = Some y \<longrightarrow> wm_sequence y = int lo \<and> wm_prevHash y = chain_hash hist lo)"

lemma watermark_at_seed:
  assumes "watermark_at hist lo x"
  shows "(case x of Some w \<Rightarrow> wm_prevHash w | None \<Rightarrow> GENESIS_HASH) = chain_hash hist lo"
    and "(case x of Some w \<Rightarrow> wm_sequence w | None \<Rightarrow> 0) = int lo"
    and "floor_of x = (if lo = 0 then -1 else int lo)"
  using assms by (auto simp: watermark_at_def chain_hash_def floor_of_def split: option.splits)

lemma verifyTail_head_at:
  assumes "lo < n \<or> lo = 0 \<and> n = 0"
  shows "verifyTailAgainstHead \<lparr>sc_entriesSeen = n - lo,
      sc_lastSequence = (if lo < n then JFin (of_nat n - 1) else q), sc_lastHash = chain_hash hist n\<rparr>
      (head_at hist n) = PassOk"
  using assms by (auto simp: verifyTailAgainstHead_def head_at_def js_eq_def EMPTY_EVENT_HEAD_def)

context storage_spec
begin

lemma watermark_read_at:
  assumes "invar s" and "log_at C w (contents s) hist lo n"
  obtains x where "readEventLogWatermark S C s w = Inr x" and "watermark_at hist lo x"
  using read_watermark [OF assms] by (auto simp: watermark_at_def)

lemma snapshot_scan:
  assumes "invar s" and "log_at C w (contents s) hist lo n" and "watermark_at hist lo0 x" and "lo0 \<le> lo"
  shows "verifyAgainstSnapshot S C s w x head =
     and_then (scanLoop C (int lo0) \<lparr>sc_entriesSeen = 0, sc_lastSequence = JFin (-1), sc_lastHash = chain_hash hist lo0\<rparr>
        (map (\<lambda>k. the (contents s k)) (map (event_key w) [lo..<n] @ record_keys w (contents s))))
     (\<lambda>scan. Inr (case scan of
          Inl n \<Rightarrow> PassInvalid n
        | Inr chain \<Rightarrow> if lo0 \<noteq> 0 \<and> sc_entriesSeen chain = 0 then PassInvalid (JFin (of_nat lo0))
                       else verifyTailAgainstHead chain head))"
proof -
  note D = log_atD [OF assms(2)]
  have lo0: "lo0 < 10 ^ 10 \<or> lo0 = 0" using D(4,6) assms(4) by (auto simp: MAX_LOG_LENGTH_def)
  have keys: "key_of (KEYS_eventPrefix w) = Inr (log_prefix w)" "key_of (KEYS_event w i) = Inr (event_key w i)" for i
    using log_keys [OF D(1)] by (simp_all add: key_of_def)
  have scan: "scan_op S s (log_prefix w) (log_range w f None) = Inr (map (\<lambda>k. (k, the (contents s k)))
      (map (event_key w) [lo..<n] @ record_keys w (contents s)))" if "f = None \<or> f = Some lo0 \<and> lo0 < 10 ^ 10" for f
    using that assms(4) by (subst scan_log [OF assms(1,2)]) (auto simp: max_def)
  show ?thesis
  proof (cases x)
    case None
    with assms(3) have "lo0 = 0" by (simp add: watermark_at_def)
    then show ?thesis
      using None scan [of None, unfolded log_range_simps]
      by (simp add: verifyAgainstSnapshot_def keys scanChain_def of_storage_def comp_def chain_hash_def
          cong: sum.case_cong if_cong)
  next
    case (Some y)
    with assms(3) have y: "lo0 \<noteq> 0" "wm_sequence y = int lo0" "wm_prevHash y = chain_hash hist lo0"
      by (auto simp: watermark_at_def)
    then show ?thesis
      using Some lo0 scan [of "Some lo0", unfolded log_range_simps]
      by (simp add: verifyAgainstSnapshot_def keys scanChain_def of_storage_def comp_def
          cong: sum.case_cong if_cong)
  qed
qed

lemma snapshot_ok:
  assumes "invar s" and "log_at C w (contents s) hist lo n" and "watermark_at hist lo x"
  shows "verifyAgainstSnapshot S C s w x (head_at hist n) = Inr PassOk"
proof -
  note D = log_atD [OF assms(2)]
  let ?tail = "map (\<lambda>k. the (contents s k)) (record_keys w (contents s))"
  let ?acc = "\<lparr>sc_entriesSeen = n - lo, sc_lastSequence = (if lo < n then JFin (of_nat n - 1) else JFin (-1)),
      sc_lastHash = chain_hash hist n\<rparr>"
  have skip: "scanLoop C e acc ?tail = Inr (Inr acc)" for e acc
    by (rule scanLoop_skipped) (use record_skipped [OF assms(2)] in auto)
  have "scanLoop C (int lo) \<lparr>sc_entriesSeen = 0, sc_lastSequence = JFin (-1), sc_lastHash = chain_hash hist lo\<rparr>
      (map (\<lambda>k. the (contents s k)) (map (event_key w) [lo..<n] @ record_keys w (contents s))) = Inr (Inr ?acc)"
    unfolding map_append log_entry_bytes [OF assms(2) order_refl order_refl] scanLoop_append
    by (simp add: scanLoop_chain [OF D(2) D(5) D(3)] skip)
  then show ?thesis
    using verifyTail_head_at [OF D(6), of "JFin (-1)" hist] D(6)
    by (auto simp: snapshot_scan [OF assms order_refl])
qed

lemma snapshot_total:
  assumes "invar s" and "log_at C w (contents s) hist lo n" and "watermark_at hist lo0 x" and "lo0 \<le> lo"
  shows "\<exists>r. verifyAgainstSnapshot S C s w x head = Inr r"
proof -
  let ?bs = "map (\<lambda>k. the (contents s k)) (map (event_key w) [lo..<n] @ record_keys w (contents s))"
  have "vc_decode C b \<noteq> None" if "b \<in> set ?bs" for b
    using log_records_decode [OF assms(2) that] .
  then obtain r where "scanLoop C (int lo0)
      \<lparr>sc_entriesSeen = 0, sc_lastSequence = JFin (-1), sc_lastHash = chain_hash hist lo0\<rparr> ?bs = Inr r"
    using scanLoop_total [of ?bs C] by blast
  then show ?thesis unfolding snapshot_scan [OF assms] by simp
qed

lemma verify_attempt:
  assumes "intact_reads invar contents C w hist r"
  shows "verifyLoop S C w (r # rs) = Inr Valid \<or> verifyLoop S C w (r # rs) = verifyLoop S C w rs"
proof -
  from assms obtain los ns where len: "length los = 5" "length ns = 5" and mono: "sorted los" "sorted ns"
    and at: "\<And>i. i < 5 \<Longrightarrow> invar (read_states r ! i)"
      "\<And>i. i < 5 \<Longrightarrow> log_at C w (contents (read_states r ! i)) hist (los ! i) (ns ! i)"
    unfolding intact_reads_def by blast
  note a = at(1) [of 0] at(2) [of 0] at(1) [of 1] at(2) [of 1] at(1) [of 2] at(2) [of 2]
    at(1) [of 3] at(2) [of 3] at(1) [of 4] at(2) [of 4]
  note a = a [unfolded read_states_def, simplified]
  obtain x where x: "readEventLogWatermark S C (at_watermark r) w = Inr x" "watermark_at hist (los ! 0) x"
    using watermark_read_at [OF a(1,2)] by blast
  obtain y where y: "readEventLogWatermark S C (at_watermark_after r) w = Inr y" "watermark_at hist (los ! 3) y"
    using watermark_read_at [OF a(7,8)] by blast
  have le: "los ! 0 \<le> los ! 2" "los ! 2 \<le> los ! 3" "ns ! 1 \<le> ns ! 2" "ns ! 2 \<le> ns ! 4"
    using mono len by (simp_all add: sorted_nth_mono)
  show ?thesis
  proof (cases "los ! 2 = los ! 0 \<and> ns ! 2 = ns ! 1")
    case True
    then show ?thesis
      using snapshot_ok [OF a(5,6)] x read_head [OF a(3,4)] by simp
  next
    case False
    obtain p where p: "verifyAgainstSnapshot S C (at_scan r) w x (head_at hist (ns ! 1)) = Inr p"
      using snapshot_total [OF a(5,6) x(2) le(1)] by blast
    from False le have "los ! 0 < los ! 3 \<or> ns ! 1 < ns ! 4" by linarith
    then have moved: "floor_of y > floor_of x \<or> \<not> js_eq (eh_sequence (head_at hist (ns ! 4))) (eh_sequence (head_at hist (ns ! 1)))"
      by (auto simp: watermark_at_seed(3) [OF x(2)] watermark_at_seed(3) [OF y(2)] head_at_def js_eq_def)
    show ?thesis
      using x y p read_head [OF a(3,4)] read_head [OF a(9,10)] moved
      by (cases p) auto
  qed
qed

lemma verify_intact:
  assumes "\<And>i. i < MAX_ATTEMPTS \<Longrightarrow> intact_reads invar contents C w hist (reads i)"
  shows "verifyEventLog S C w reads \<in> {Inr Valid, Inr Indeterminate}"
proof -
  have "verifyLoop S C w rs \<in> {Inr Valid, Inr Indeterminate}"
    if "\<And>r. r \<in> set rs \<Longrightarrow> intact_reads invar contents C w hist r" for rs
    using that
  proof (induction rs)
    case (Cons r rs)
    then have "verifyLoop S C w rs \<in> {Inr Valid, Inr Indeterminate}" by simp
    then show ?case using verify_attempt [of C w hist r rs] Cons.prems by (metis insert_iff list.set_intros(1))
  qed simp
  moreover have "intact_reads invar contents C w hist r" if "r \<in> set (map reads [0..<MAX_ATTEMPTS])" for r
    using that assms by auto
  ultimately show ?thesis unfolding verifyEventLog_def by blast
qed

lemma verify_quiescent:
  assumes "invar s" and "log_at C w (contents s) hist lo n"
  shows "verifyEventLog S C w (quiescent s) = Inr Valid"
proof -
  obtain x where "readEventLogWatermark S C s w = Inr x" "watermark_at hist lo x"
    using watermark_read_at [OF assms] by blast
  then show ?thesis using snapshot_ok [OF assms] read_head [OF assms]
    by (simp add: verifyEventLog_def MAX_ATTEMPTS_def quiescent_def upt_conv_Cons)
qed

end

section \<open>Committing an entry, with and without compaction\<close>

definition reads_back :: "value_codec \<Rightarrow> jsval \<Rightarrow> bool" where
  "reads_back C v \<longleftrightarrow> vc_decode C (vc_encode C v) = Some v"

lemma chain_hash_append [simp]: "i \<le> length hist \<Longrightarrow> chain_hash (hist @ hs) i = chain_hash hist i"
  by (auto simp: chain_hash_def nth_append)

lemma chained_snoc:
  assumes "chained C hist" and "vc_decode C b = Some v" and "isWorkflowLogEntry v"
    and "numberField v ''sequence'' = JFin (of_nat (length hist))"
    and "stringField v ''prevHash'' = chain_hash hist (length hist)"
  shows "chained C (hist @ [b])"
  unfolding chained_def
proof (intro allI impI)
  fix i assume "i < length (hist @ [b])"
  then consider "i < length hist" | "i = length hist" by fastforce
  then show "\<exists>v. vc_decode C ((hist @ [b]) ! i) = Some v \<and> isWorkflowLogEntry v
      \<and> numberField v ''sequence'' = JFin (of_nat i) \<and> stringField v ''prevHash'' = chain_hash (hist @ [b]) i"
  proof cases
    case 1
    then show ?thesis using chainedD [OF assms(1) 1] by (metis chain_hash_append nat_less_le nth_append)
  qed (use assms in auto)
qed

lemma build_entry_head:
  assumes "buildEntry C w now ev (head_at hist (length hist)) vt = (encoded, newHead)"
  shows "encoded = vc_encode C (entry_value ev w (JFin (of_nat (length hist))) (chain_hash hist (length hist)) now vt)"
    and "newHead = head_at (hist @ [encoded]) (Suc (length hist))"
  using assms by (auto simp: buildEntry_def head_at_def Let_def chain_hash_def)

lemma append_operations:
  assumes "encodable w" and "buildEntry C w now ev (head_at hist (length hist)) vt = (encoded, newHead)"
  shows "appendToBatch C w now ev ops (head_at hist (length hist)) vt
    = Inr (ops @ [Put (event_key w (length hist)) encoded, Put (head_key w) (vc_encode C (head_value newHead))], newHead, now)"
proof -
  have "eh_sequence newHead = JFin (of_nat (length hist))"
    using build_entry_head(2) [OF assms(2)] by (simp add: head_at_def)
  then have "sequenceNat (eh_sequence newHead) = Inr (length hist)"
    by (simp add: sequenceNat_def isInteger_def)
  then show ?thesis
    by (simp add: appendToBatch_def assms(2) entryOperations_def key_of_def log_keys(2,3) [OF assms(1)])
qed

lemma log_key_distinct:
  assumes "encodable w"
  shows "event_key w i \<noteq> head_key w" "event_key w i \<noteq> watermark_key w" "head_key w \<noteq> watermark_key w"
    "head_key w \<noteq> event_key w i" "watermark_key w \<noteq> event_key w i" "watermark_key w \<noteq> head_key w"
  using log_key_order(2-4) [OF assms] by (metis less_irrefl)+

lemma event_key_inj:
  "encodable w \<Longrightarrow> i < MAX_LOG_LENGTH \<Longrightarrow> j < MAX_LOG_LENGTH \<Longrightarrow> event_key w i = event_key w j \<longleftrightarrow> i = j"
  using log_key_order(1) [of w i j] log_key_order(1) [of w j i]
  by (metis MAX_LOG_LENGTH_def less_irrefl linorder_neqE_nat)

lemma log_at_append:
  assumes "log_at C w m hist lo (length hist)" and "length hist < MAX_LOG_LENGTH"
    and "buildEntry C w now ev (head_at hist (length hist)) vt = (encoded, newHead)"
    and "reads_back C (entry_value ev w (JFin (of_nat (length hist))) (chain_hash hist (length hist)) now vt)"
    and "reads_back C (head_value newHead)"
  shows "log_at C w (m(event_key w (length hist) \<mapsto> encoded, head_key w \<mapsto> vc_encode C (head_value newHead)))
           (hist @ [encoded]) lo (Suc (length hist))"
proof -
  note D = log_atD [OF assms(1)]
  note B = build_entry_head [OF assms(3)]
  note N = log_key_distinct [OF D(1)]
  have inj: "event_key w i = event_key w (length hist) \<longleftrightarrow> i = length hist" if "i \<le> length hist" for i
    using event_key_inj [OF D(1)] that assms(2) by simp
  show ?thesis
  proof (rule log_atI [OF D(1), where b = "vc_encode C (head_value newHead)"])
    show "chained C (hist @ [encoded])"
      by (rule chained_snoc [OF D(2)]) (use assms(4) in \<open>auto simp: B(1) reads_back_def\<close>)
    fix k
    assume "prefix (log_prefix w) k" "k \<noteq> head_key w" "k \<noteq> watermark_key w"
      "(m(event_key w (length hist) \<mapsto> encoded, head_key w \<mapsto> vc_encode C (head_value newHead))) k \<noteq> None"
    then show "k \<in> event_key w ` {lo..<Suc (length hist)}"
      using D(5) D(7) [of k] by (auto split: if_splits)
  next
    fix i assume "lo \<le> i" "i < Suc (length hist)"
    then show "(m(event_key w (length hist) \<mapsto> encoded, head_key w \<mapsto> vc_encode C (head_value newHead))) (event_key w i)
        = Some ((hist @ [encoded]) ! i)"
      using D(8) [of i] inj [of i] N by (auto simp: nth_append)
  qed (use D(5,11,12) assms(2,5) N B(2) in \<open>auto simp: reads_back_def\<close>)
qed

section \<open>Compaction keeps the log\<close>

lemma collectLoop_chain:
  assumes "chained C hist" and "a \<le> b" and "b \<le> length hist"
  shows "collectLoop C (int a) (map (\<lambda>i. hist ! i) [a..<b]) = Inr (Some (int b))"
  using assms(2,3)
proof (induction "b - a" arbitrary: a)
  case (Suc d)
  then have ab: "a < b" by simp
  obtain v where v: "vc_decode C (hist ! a) = Some v" "isWorkflowLogEntry v"
    "numberField v ''sequence'' = JFin (of_nat a)"
    by (rule chainedD [OF assms(1), of a]) (use ab Suc.prems in auto)
  have "[a..<b] = a # [Suc a..<b]" using ab by (simp add: upt_conv_Cons)
  with Suc.hyps(1) [of "Suc a"] Suc.hyps(2) Suc.prems ab v show ?case
    by (simp add: decode_def js_eq_def add.commute)
qed simp

lemma mergeDeleted_total:
  "(\<And>b. b \<in> set bs \<Longrightarrow> vc_decode C b \<noteq> None) \<Longrightarrow> \<exists>r. mergeDeletedCheckpointReplayPayloads C p bs = Inr r"
proof (induction bs arbitrary: p)
  case (Cons b bs)
  then obtain v where "vc_decode C b = Some v" by fastforce
  with Cons show ?case by (auto simp: decode_def)
qed simp

lemma keys_of_events: "encodable w \<Longrightarrow> keys_of (map (KEYS_event w) ns) = Inr (map (event_key w) ns)"
  by (induction ns) (simp_all add: key_of_def log_keys(2))

definition next_floor :: "nat \<Rightarrow> nat \<Rightarrow> int \<Rightarrow> int" where
  "next_floor lo n window = min (max 0 (int n - window + 1)) (int lo + MAX_COMPACTION_BATCH)"

definition compaction_ops :: "value_codec \<Rightarrow> jsstring \<Rightarrow> bytes list \<Rightarrow> nat \<Rightarrow> nat \<Rightarrow> replay_payload option \<Rightarrow> batch_operation list" where
  "compaction_ops C w hist lo f p =
     map Delete (map (event_key w) [lo..<f])
     @ [Put (watermark_key w) (vc_encode C (watermark_value (int f) (chain_hash hist f) p))]"

lemma log_at_compact:
  assumes "log_at C w m hist lo n" and "lo \<le> f" and "0 < f" and "f < n"
    and "reads_back C (watermark_value (int f) (chain_hash hist f) p)"
  shows "log_at C w (apply_operations (compaction_ops C w hist lo f p) m) hist f n"
proof -
  note D = log_atD [OF assms(1)]
  note N = log_key_distinct [OF D(1)]
  let ?m = "(m |` (- event_key w ` {lo..<f}))
    (watermark_key w \<mapsto> vc_encode C (watermark_value (int f) (chain_hash hist f) p))"
  have m: "apply_operations (compaction_ops C w hist lo f p) m = ?m"
    unfolding compaction_ops_def apply_operations_append apply_deletes by simp
  have inj: "event_key w i = event_key w j \<longleftrightarrow> i = j" if "i < n" "j < n" for i j
    using event_key_inj [OF D(1)] that D(4) by simp
  obtain b where b: "m (head_key w) = Some b" "vc_decode C b = Some (head_value (head_at hist n))"
    using D(10) assms(4) by auto
  show ?thesis
    unfolding m
  proof (rule log_atI [OF D(1-4) assms(4)])
    fix k
    assume k: "prefix (log_prefix w) k" "k \<noteq> head_key w" "k \<noteq> watermark_key w" "?m k \<noteq> None"
    then have "m k \<noteq> None" "k \<notin> event_key w ` {lo..<f}" by (auto simp: restrict_map_def split: if_splits)
    with k D(7) [of k] show "k \<in> event_key w ` {f..<n}" by force
  next
    fix i assume i: "f \<le> i" "i < n"
    have "event_key w i \<notin> event_key w ` {lo..<f}" using inj i assms(4) by auto
    with i D(8) [of i] N assms(2) show "?m (event_key w i) = Some (hist ! i)" by simp
  next
    have "head_key w \<notin> event_key w ` {lo..<f}" using N(4) by blast
    then show "?m (head_key w) = Some b" using b(1) N(3) by (simp add: restrict_map_def)
  qed (use b assms(3,5) in \<open>auto simp: reads_back_def\<close>)
qed

context storage_spec
begin

lemma collect_range:
  assumes "invar s" and "log_at C w (contents s) hist lo n" and "lo < f" and "f \<le> n" and "f < MAX_LOG_LENGTH"
  shows "collectDeleteRange S C s w lo f = Inr (Some (map (\<lambda>i. hist ! i) [lo..<f]))"
proof -
  note D = log_atD [OF assms(2)]
  let ?found = "map (\<lambda>k. (k, the (contents s k))) (map (event_key w) [lo..<f])"
  have scan: "scan_op S s (log_prefix w) (log_range w (Some lo) (Some f)) = Inr ?found"
    by (subst scan_log [OF assms(1,2)]) (use assms(3-5) in \<open>auto simp: MAX_LOG_LENGTH_def min_def\<close>)
  have "map snd ?found = map (\<lambda>k. the (contents s k)) (map (event_key w) [lo..<f])" by simp
  also have "\<dots> = map (\<lambda>i. hist ! i) [lo..<f]" by (rule log_entry_bytes [OF assms(2) order_refl assms(4)])
  finally have bytes: "map snd ?found = map (\<lambda>i. hist ! i) [lo..<f]" .
  have loop: "collectLoop C (int lo) (map (\<lambda>i. hist ! i) [lo..<f]) = Inr (Some (int f))"
    using collectLoop_chain [OF D(2), of lo f] assms(3,4) D(3) by simp
  have keys: "key_of (KEYS_eventPrefix w) = Inr (log_prefix w)" "key_of (KEYS_event w i) = Inr (event_key w i)" for i
    using log_keys [OF D(1)] by (simp_all add: key_of_def)
  show ?thesis
    unfolding collectDeleteRange_def keys and_then_simps scan [unfolded log_range_simps] of_storage_def
      map_sum.simps id_apply and_then_simps bytes loop
    using assms(3) by simp
qed

lemma compaction_operations:
  assumes "invar s" and "log_at C w (contents s) hist lo (length hist)"
    and "length hist < MAX_LOG_LENGTH" and "1 \<le> window"
  defines "f \<equiv> nat (next_floor lo (length hist) window)"
  shows "if f \<le> lo
     then appendCompactionOperations S C w (int (length hist)) (Some window) s s ops = Inr (ops, None)
     else \<exists>x p. readEventLogWatermark S C s w = Inr x
        \<and> mergeDeletedCheckpointReplayPayloads C (Option.bind x wm_checkpointReplay) (map (\<lambda>i. hist ! i) [lo..<f]) = Inr p
        \<and> appendCompactionOperations S C w (int (length hist)) (Some window) s s ops
        = Inr (ops @ compaction_ops C w hist lo f p,
            Some \<lparr>co_watermark = watermark_value (int f) (chain_hash hist f) p,
                  co_deletedEntries = map (\<lambda>i. hist ! i) [lo..<f], co_deletedRange = (int lo, int f - 1)\<rparr>)"
proof -
  note D = log_atD [OF assms(2)]
  obtain x where x: "readEventLogWatermark S C s w = Inr x" "watermark_at hist lo x"
    using watermark_read_at [OF assms(1,2)] by blast
  have nonneg: "0 \<le> next_floor lo (length hist) window" by (simp add: next_floor_def MAX_COMPACTION_BATCH_def)
  then have f: "next_floor lo (length hist) window = int f" by (simp add: f_def)
  have fle: "f \<le> length hist" using assms(4) f by (auto simp: next_floor_def min_def max_def split: if_splits)
  note unfolded = appendCompactionOperations_def x(1) watermark_at_seed(2) [OF x(2)]
    next_floor_def [symmetric] f
  show ?thesis
  proof (cases "f \<le> lo")
    case True
    then show ?thesis by (simp add: unfolded Let_def)
  next
    case False
    have "vc_decode C b \<noteq> None" if "b \<in> set (map (\<lambda>i. hist ! i) [lo..<f])" for b
    proof -
      from that obtain i where i: "b = hist ! i" "i < length hist" using fle by auto
      obtain v where "vc_decode C (hist ! i) = Some v" by (rule chainedD [OF D(2) i(2)])
      with i show ?thesis by simp
    qed
    then obtain p where p: "mergeDeletedCheckpointReplayPayloads C (Option.bind x wm_checkpointReplay)
        (map (\<lambda>i. hist ! i) [lo..<f]) = Inr p" using mergeDeleted_total by blast
    have "hashBytes (last (map (\<lambda>i. hist ! i) [lo..<f])) = chain_hash hist f"
      using False by (simp add: chain_hash_def last_map last_upt)
    then show ?thesis
      using False collect_range [OF assms(1,2), of f] fle assms(3) keys_of_events [OF D(1), of "[lo..<f]"]
        log_keys(4) [OF D(1)] p
      by (simp only: if_False) (intro exI [of _ x] exI [of _ p], simp add: unfolded Let_def compaction_ops_def key_of_def)
  qed
qed

end

section \<open>What an accepted log is\<close>

definition is_entry :: "value_codec \<Rightarrow> bytes \<Rightarrow> bool" where
  "is_entry C b = (case vc_decode C b of Some v \<Rightarrow> isWorkflowLogEntry v | None \<Rightarrow> False)"

definition prev_hash :: "value_codec \<Rightarrow> bytes \<Rightarrow> jsstring" where
  "prev_hash C b = stringField (the (vc_decode C b)) ''prevHash''"

fun linked :: "value_codec \<Rightarrow> jsstring \<Rightarrow> bytes list \<Rightarrow> bool" where
  "linked C h [] = True"
| "linked C h (b # bs) = (prev_hash C b = h \<and> linked C (hashBytes b) bs)"

definition tip :: "jsstring \<Rightarrow> bytes list \<Rightarrow> jsstring" where
  "tip h bs = (if bs = [] then h else hashBytes (last bs))"

lemma linked_snoc: "linked C h (bs @ [b]) \<longleftrightarrow> linked C h bs \<and> prev_hash C b = tip h bs"
  by (induction bs arbitrary: h) (auto simp: tip_def)

lemma scanLoop_linked:
  "scanLoop C e acc bs = Inr (Inr acc') \<Longrightarrow>
   linked C (sc_lastHash acc) (filter (is_entry C) bs) \<and> sc_lastHash acc' = tip (sc_lastHash acc) (filter (is_entry C) bs)
   \<and> sc_entriesSeen acc' = sc_entriesSeen acc + length (filter (is_entry C) bs)"
proof (induction bs arbitrary: acc)
  case (Cons b bs)
  then obtain v where v: "vc_decode C b = Some v" by (auto simp: decode_def and_then_def split: option.splits)
  show ?case
  proof (cases "isWorkflowLogEntry v")
    case True
    with Cons.prems v have link: "stringField v ''prevHash'' = sc_lastHash acc"
      and rest: "scanLoop C e \<lparr>sc_entriesSeen = sc_entriesSeen acc + 1, sc_lastSequence = numberField v ''sequence'',
          sc_lastHash = hashBytes b\<rparr> bs = Inr (Inr acc')"
      by (auto simp: decode_def checkChainLink_def split: if_splits)
    from Cons.IH [OF rest] link v True show ?thesis by (auto simp: is_entry_def prev_hash_def tip_def)
  next
    case False
    with Cons v show ?thesis by (simp add: decode_def is_entry_def)
  qed
qed (simp add: tip_def)

text \<open>Two chains from the same seed with the same tip are equal, when hashes do not collide.\<close>

lemma linked_unique:
  assumes "linked C h as" and "linked C h bs" and "tip h as = tip h bs"
    and "inj_on hashBytes (set as \<union> set bs)" and "h \<notin> hashBytes ` (set as \<union> set bs)"
  shows "as = bs"
  using assms
proof (induction as arbitrary: bs rule: rev_induct)
  case Nil
  then show ?case by (auto simp: tip_def split: if_splits)
next
  case (snoc a as)
  obtain bs' b where bs: "bs = bs' @ [b]"
    using snoc.prems(3,5) by (cases bs rule: rev_cases) (auto simp: tip_def)
  have "hashBytes a = hashBytes b" using snoc.prems(3) bs by (simp add: tip_def)
  then have ab: "a = b" by (rule inj_onD [OF snoc.prems(4)]) (simp_all add: bs)
  have "as = bs'"
    by (rule snoc.IH) (use snoc.prems bs ab in \<open>auto simp: linked_snoc inj_on_def\<close>)
  with ab bs show ?case by simp
qed

text \<open>The log entries a verification with watermark \<open>x\<close> walks.\<close>

definition walked_entries :: "value_codec \<Rightarrow> jsstring \<Rightarrow> event_log_watermark option \<Rightarrow> store \<Rightarrow> bytes list" where
  "walked_entries C w x m = filter (is_entry C) (map snd
     (scan_entries m (log_prefix w) (log_range w (map_option (\<lambda>y. nat (wm_sequence y)) x) None)))"

definition seed_of :: "event_log_watermark option \<Rightarrow> jsstring" where
  "seed_of x = (case x of Some y \<Rightarrow> wm_prevHash y | None \<Rightarrow> GENESIS_HASH)"

context storage_spec
begin

lemma snapshot_accepts:
  assumes "invar s" and "encodable w" and "verifyAgainstSnapshot S C s w x head = Inr PassOk"
  shows "linked C (seed_of x) (walked_entries C w x (contents s))"
    and "if js_eq (eh_sequence head) (JFin (-1)) then walked_entries C w x (contents s) = []
         else tip (seed_of x) (walked_entries C w x (contents s)) = eh_lastHash head"
proof -
  have keys: "key_of (KEYS_eventPrefix w) = Inr (log_prefix w)" "key_of (KEYS_event w i) = Inr (event_key w i)" for i
    using log_keys [OF assms(2)] by (simp_all add: key_of_def)
  let ?opts = "log_range w (map_option (\<lambda>y. nat (wm_sequence y)) x) None"
  let ?acc = "\<lparr>sc_entriesSeen = 0, sc_lastSequence = JFin (-1), sc_lastHash = seed_of x\<rparr>"
  have opts: "(case x of None \<Rightarrow> Inr default_scan_options
      | Some y \<Rightarrow> Inr (default_scan_options\<lparr>so_gte := Some (event_key w (nat (wm_sequence y)))\<rparr>))
      = (Inr ?opts :: log_error + scan_options)"
    by (cases x) (simp_all add: log_range_simps)
  let ?bs = "map snd (scan_entries (contents s) (log_prefix w) ?opts)"
  obtain e scan where scan: "scanLoop C e ?acc ?bs = Inr scan"
    and ok: "(case scan of Inl n \<Rightarrow> PassInvalid n
        | Inr chain \<Rightarrow> (case x of Some y \<Rightarrow>
              if sc_entriesSeen chain = 0 then PassInvalid (JFin (of_int (wm_sequence y)))
              else verifyTailAgainstHead chain head
            | None \<Rightarrow> verifyTailAgainstHead chain head)) = PassOk"
    using assms(3)
    unfolding verifyAgainstSnapshot_def Let_def keys and_then_simps opts scanChain_def
      scan_spec [OF assms(1) log_keys(8) [OF assms(2)]] of_storage_def map_sum.simps id_apply seed_of_def
    unfolding opts and_then_simps and_then_Inr_iff by (metis (no_types, lifting) Inr_inject)
  from ok obtain chain where "scan = Inr chain" "verifyTailAgainstHead chain head = PassOk"
    by (auto split: sum.splits option.splits if_splits)
  with scan have "\<exists>e chain. scanLoop C e ?acc ?bs = Inr (Inr chain) \<and> verifyTailAgainstHead chain head = PassOk"
    by blast
  then obtain e chain where loop: "scanLoop C e ?acc (map snd (scan_entries (contents s) (log_prefix w) ?opts)) = Inr (Inr chain)"
    and tail: "verifyTailAgainstHead chain head = PassOk" by blast
  note L = scanLoop_linked [OF loop, folded walked_entries_def]
  show "linked C (seed_of x) (walked_entries C w x (contents s))" using L by simp
  show "if js_eq (eh_sequence head) (JFin (-1)) then walked_entries C w x (contents s) = []
     else tip (seed_of x) (walked_entries C w x (contents s)) = eh_lastHash head"
    using tail L by (auto simp: verifyTailAgainstHead_def EMPTY_EVENT_HEAD_def split: if_splits)
qed

lemma verify_quiescent_accepts:
  assumes "verifyEventLog S C w (quiescent s) = Inr Valid"
  obtains x head where "readEventLogWatermark S C s w = Inr x" and "readEventHead S C s w = Inr head"
    and "verifyAgainstSnapshot S C s w x head = Inr PassOk"
proof -
  have step: "\<exists>x head. readEventLogWatermark S C s w = Inr x \<and> readEventHead S C s w = Inr head
      \<and> verifyAgainstSnapshot S C s w x head = Inr PassOk"
    if "verifyLoop S C w (replicate n (quiescent s 0)) = Inr Valid" for n
    using that
  proof (induction n)
    case (Suc n)
    then obtain x head r where r: "readEventLogWatermark S C s w = Inr x" "readEventHead S C s w = Inr head"
      "verifyAgainstSnapshot S C s w x head = Inr r"
      by (auto simp: and_then_Inr_iff quiescent_def)
    show ?case
    proof (cases r)
      case PassOk
      with r show ?thesis by blast
    next
      case (PassInvalid n')
      with r Suc.prems have "verifyLoop S C w (replicate n (quiescent s 0)) = Inr Valid"
        by (auto simp: quiescent_def Let_def split: if_splits)
      then show ?thesis by (rule Suc.IH)
    qed
  qed simp
  have "map (quiescent s) [0..<MAX_ATTEMPTS] = replicate MAX_ATTEMPTS (quiescent s 0)"
    by (auto simp: quiescent_def intro: nth_equalityI)
  with assms step [of MAX_ATTEMPTS] show ?thesis using that by (auto simp: verifyEventLog_def)
qed

lemma accepted_unique:
  assumes "invar s" and "invar s'" and "encodable w"
    and "verifyEventLog S C w (quiescent s) = Inr Valid" and "verifyEventLog S C w (quiescent s') = Inr Valid"
    and "readEventHead S C s w = readEventHead S C s' w"
    and "readEventLogWatermark S C s w = Inr x" and "readEventLogWatermark S C s' w = Inr x"
    and "inj_on hashBytes (set (walked_entries C w x (contents s)) \<union> set (walked_entries C w x (contents s')))"
    and "seed_of x \<notin> hashBytes ` (set (walked_entries C w x (contents s)) \<union> set (walked_entries C w x (contents s')))"
  shows "walked_entries C w x (contents s) = walked_entries C w x (contents s')"
proof -
  from verify_quiescent_accepts [OF assms(4)] assms(7) obtain head
    where h: "readEventHead S C s w = Inr head" "verifyAgainstSnapshot S C s w x head = Inr PassOk"
    by (metis Inr_inject)
  from verify_quiescent_accepts [OF assms(5)] assms(6,8) h(1)
  have h': "verifyAgainstSnapshot S C s' w x head = Inr PassOk" by (metis Inr_inject)
  note a = snapshot_accepts [OF assms(1,3) h(2)] and a' = snapshot_accepts [OF assms(2,3) h']
  show ?thesis
  proof (rule linked_unique [OF a(1) a'(1) _ assms(9,10)])
    show "tip (seed_of x) (walked_entries C w x (contents s)) = tip (seed_of x) (walked_entries C w x (contents s'))"
      using a(2) a'(2) by (auto split: if_splits)
  qed
qed

end

section \<open>Compaction and recovery\<close>

definition payload_at :: "value_codec \<Rightarrow> bytes \<Rightarrow> jsval" where
  "payload_at C b = field (the (vc_decode C b)) (js ''payload'')"

lemma decodeEntries_skipped: "(\<And>b. b \<in> set bs \<Longrightarrow> skipped C b) \<Longrightarrow> decodeEntries C bs = Inr []"
proof (induction bs)
  case (Cons b bs)
  then obtain v where "vc_decode C b = Some v" "\<not> isWorkflowLogEntry v"
    by (metis list.set_intros(1) skipped_def)
  with Cons show ?case by (simp add: decode_def)
qed simp

lemma decodeEntries_append:
  "(\<And>b. b \<in> set bs \<Longrightarrow> is_entry C b) \<Longrightarrow> decodeEntries C cs = Inr vs \<Longrightarrow>
   decodeEntries C (bs @ cs) = Inr (map (\<lambda>b. the (vc_decode C b)) bs @ vs)"
proof (induction bs)
  case (Cons b bs)
  then obtain v where "vc_decode C b = Some v" "isWorkflowLogEntry v"
    by (metis (no_types, lifting) is_entry_def list.set_intros(1) option.case_eq_if option.collapse)
  with Cons show ?case by (simp add: decode_def)
qed simp

lemma chained_is_entry: "chained C hist \<Longrightarrow> i < length hist \<Longrightarrow> is_entry C (hist ! i)"
  by (auto simp: chained_def is_entry_def)

lemma mergeDeleted_carried:
  assumes "\<And>b. b \<in> set bs \<Longrightarrow> is_entry C b"
    and "mergeDeletedCheckpointReplayPayloads C q bs = Inr p"
    and "sel \<in> {rp_accumulatedResults, rp_workerReplaySignatures, rp_workerReplayFailures}"
  shows "concat (map (\<lambda>p. orEmpty (sel p)) (optional_payload p))
       = concat (map (\<lambda>p. orEmpty (sel p)) (optional_payload q @ carried (map (payload_at C) bs)))"
  using assms(1,2)
proof (induction bs arbitrary: q)
  case (Cons b bs)
  obtain v where v: "vc_decode C b = Some v" "isWorkflowLogEntry v"
    using Cons.prems(1) [of b] by (auto simp: is_entry_def split: option.splits)
  with Cons.prems(2) have "mergeDeletedCheckpointReplayPayloads C
      (mergeCheckpointReplayPayloads q (readCheckpointReplayPayload (payload_at C b))) bs = Inr p"
    by (simp add: decode_def payload_at_def)
  from Cons.IH [OF _ this] Cons.prems(1) show ?case
    by (simp add: merge_payload_entries [OF assms(3)])
qed simp

lemma mergeDeleted_wf:
  assumes "mergeDeletedCheckpointReplayPayloads C q bs = Inr p" and "\<And>x. q = Some x \<Longrightarrow> wf_payload x"
    and "p = Some r"
  shows "wf_payload r"
  using assms
proof (induction bs arbitrary: q)
  case (Cons b bs)
  from Cons.prems(1) obtain v where v: "vc_decode C b = Some v"
    by (cases "vc_decode C b") (auto simp: decode_def)
  show ?case
  proof (cases "isWorkflowLogEntry v")
    case True
    with v Cons.prems(1) have "mergeDeletedCheckpointReplayPayloads C
        (mergeCheckpointReplayPayloads q (readCheckpointReplayPayload (field v (js ''payload'')))) bs = Inr p"
      by (simp add: decode_def)
    then show ?thesis
      by (rule Cons.IH) (use Cons.prems(2,3) in \<open>auto intro: merge_payloads_wf read_payload_wf\<close>)
  qed (use Cons v in \<open>simp add: decode_def\<close>)
qed simp

lemma read_compacted_written:
  assumes "\<And>r. p = Some r \<Longrightarrow> wf_payload r"
  shows "readCompactedCheckpointReplayPayload (Some (watermark_value n h p)) = p"
proof (cases p)
  case None
  then show ?thesis
    by (simp add: readCompactedCheckpointReplayPayload_def watermark_value_def optionalCheckpointReplay_def js_defs)
next
  case (Some r)
  have "field (watermark_value n h p) (js ''checkpointReplay'') = payload_value r"
    by (simp add: Some watermark_value_def optionalCheckpointReplay_def field_def)
  moreover have "isObject (payload_value r)" "isObject (watermark_value n h p)"
    by (simp_all add: payload_value_def watermark_value_def isObject_def)
  ultimately show ?thesis
    using read_payload_value [OF assms [OF Some]]
    by (simp add: readCompactedCheckpointReplayPayload_def Some)
qed

lemma read_compacted_wf: "readCompactedCheckpointReplayPayload v = Some r \<Longrightarrow> wf_payload r"
  by (auto simp: readCompactedCheckpointReplayPayload_def Let_def intro: read_record_wf
      split: option.splits if_splits)

text \<open>Recovery does not see whether the entries \<open>bs\<close> are still in the log or folded into the watermark.\<close>

lemma hydrate_compacted:
  assumes "\<And>b. b \<in> set bs \<Longrightarrow> is_entry C b" and "list_all (reached (cp_step c)) (map (payload_at C) bs)"
    and "mergeDeletedCheckpointReplayPayloads C (readCompactedCheckpointReplayPayload wv) bs = Inr p"
    and "readCompactedCheckpointReplayPayload wv' = p"
  shows "hydrateCheckpointReplayState wv' qs c
       = hydrateCheckpointReplayState wv (map (payload_at C) bs @ qs) c"
  unfolding hydrateCheckpointReplayState_def assms(4) payloadsUpTo_reached [OF assms(2)]
  by (rule hydrate_payloads_cong)
    (use mergeDeleted_carried [OF assms(1,3)] in \<open>simp add: payloads_map_concat optional_payload_def [symmetric]\<close>)

lemma compaction_ops_append:
  "f \<le> length hist \<Longrightarrow> compaction_ops C w (hist @ hs) lo f p = compaction_ops C w hist lo f p"
  by (simp add: compaction_ops_def)

lemma next_floor_le: "1 \<le> window \<Longrightarrow> nat (next_floor lo n window) \<le> n"
  by (auto simp: next_floor_def min_def max_def)

lemma next_floor_bounds: "nat (next_floor lo n window) \<le> lo + 1000"
  "int (nat (next_floor lo n window)) \<le> max 0 (int n - window + 1)"
  by (auto simp: next_floor_def MAX_COMPACTION_BATCH_def min_def max_def)

context storage_spec
begin

lemma commit_batch:
  assumes "invar s" and "log_at C w (contents s) hist lo (length hist)" and "length hist < MAX_LOG_LENGTH"
    and "1 \<le> window" and "buildEntry C w now ev (head_at hist (length hist)) vt = (encoded, newHead)"
    and "reads_back C (entry_value ev w (JFin (of_nat (length hist))) (chain_hash hist (length hist)) now vt)"
    and "reads_back C (head_value newHead)"
    and "appendToBatch C w now ev [] (head_at hist (length hist)) vt = Inr (ops, newHead, now)"
    and "appendCompactionOperations S C w (int (length hist)) (Some window) s s ops = Inr (ops', res)"
    and "\<And>r. res = Some r \<Longrightarrow> reads_back C (co_watermark r)"
  defines "f \<equiv> nat (next_floor lo (length hist) window)"
  shows "log_at C w (apply_operations ops' (contents s)) (hist @ [encoded]) (max lo f) (Suc (length hist))"
    and "length ops' \<le> 1003"
proof -
  note D = log_atD [OF assms(2)]
  have ops: "ops = [Put (event_key w (length hist)) encoded, Put (head_key w) (vc_encode C (head_value newHead))]"
    using append_operations [OF D(1) assms(5), of "[]"] assms(8) by simp
  have appended: "log_at C w (apply_operations ops (contents s)) (hist @ [encoded]) lo (Suc (length hist))"
    using log_at_append [OF assms(2,3,5-7)] by (simp add: ops)
  note comp = compaction_operations [OF assms(1-4), of ops, folded f_def]
  have "log_at C w (apply_operations ops' (contents s)) (hist @ [encoded]) (max lo f) (Suc (length hist))
      \<and> length ops' \<le> 1003"
  proof (cases "f \<le> lo")
    case True
    then have "ops' = ops" using comp assms(9) by simp
    with True appended show ?thesis by (simp add: ops max_def)
  next
    case False
    then obtain p where p: "ops' = ops @ compaction_ops C w hist lo f p"
      "res = Some \<lparr>co_watermark = watermark_value (int f) (chain_hash hist f) p,
          co_deletedEntries = map (\<lambda>i. hist ! i) [lo..<f], co_deletedRange = (int lo, int f - 1)\<rparr>"
      using comp assms(9) by auto
    have f: "f \<le> length hist" "f \<le> lo + 1000"
      using next_floor_le [OF assms(4)] next_floor_bounds(1) by (simp_all add: f_def)
    have "reads_back C (watermark_value (int f) (chain_hash (hist @ [encoded]) f) p)"
      using assms(10) [OF p(2)] f by simp
    from log_at_compact [OF appended _ _ _ this] False f
    have "log_at C w (apply_operations ops' (contents s)) (hist @ [encoded]) f (Suc (length hist))"
      by (simp add: p(1) compaction_ops_append)
    moreover have "length ops' \<le> 1003" using f(2) by (simp add: p(1) ops compaction_ops_def)
    ultimately show ?thesis using False by (simp add: max_def)
  qed
  then show "log_at C w (apply_operations ops' (contents s)) (hist @ [encoded]) (max lo f) (Suc (length hist))"
    and "length ops' \<le> 1003" by blast+
qed

lemma hydrate_log:
  assumes "invar s" and "log_at C w (contents s) hist lo n" and "readStoredWatermark S C s w = Inr wv"
  shows "hydrateFromStorage S C s w c
       = Inr (hydrateCheckpointReplayState wv (map (payload_at C) (map (\<lambda>i. hist ! i) [lo..<n])) c)"
proof -
  note D = log_atD [OF assms(2)]
  let ?tail = "map (\<lambda>k. the (contents s k)) (record_keys w (contents s))"
  have scan: "scan_op S s (log_prefix w) default_scan_options = Inr (map (\<lambda>k. (k, the (contents s k)))
      (map (event_key w) [lo..<n] @ record_keys w (contents s)))"
    using scan_log [OF assms(1,2), of None None] by (simp add: log_range_simps)
  have bytes: "map snd (map (\<lambda>k. (k, the (contents s k))) (map (event_key w) [lo..<n] @ record_keys w (contents s)))
      = map (\<lambda>i. hist ! i) [lo..<n] @ ?tail"
    using log_entry_bytes [OF assms(2) order_refl order_refl] by (simp add: comp_def)
  have "decodeEntries C ?tail = Inr []"
    by (rule decodeEntries_skipped) (use record_skipped [OF assms(2)] in auto)
  moreover have "is_entry C b" if "b \<in> set (map (\<lambda>i. hist ! i) [lo..<n])" for b
    using that D(3) chained_is_entry [OF D(2)] by auto
  ultimately have "decodeEntries C (map (\<lambda>i. hist ! i) [lo..<n] @ ?tail)
      = Inr (map (\<lambda>b. the (vc_decode C b)) (map (\<lambda>i. hist ! i) [lo..<n]))"
    using decodeEntries_append [of "map (\<lambda>i. hist ! i) [lo..<n]" C ?tail "[]"] by simp
  then show ?thesis
    unfolding hydrateFromStorage_def assms(3) and_then_simps log_keys(1) [OF D(1)] key_of_def option.simps
      scan of_storage_def map_sum.simps id_apply bytes
    by (simp add: payload_at_def comp_def)
qed

lemma stored_watermark:
  assumes "invar s" and "log_at C w (contents s) hist lo n"
  obtains wv x where "readStoredWatermark S C s w = Inr wv" and "readEventLogWatermark S C s w = Inr x"
    and "Option.bind x wm_checkpointReplay = readCompactedCheckpointReplayPayload wv"
    and "\<And>b. contents s (watermark_key w) = Some b \<Longrightarrow> vc_decode C b = wv"
proof -
  note D = log_atD [OF assms(2)]
  show ?thesis
  proof (cases "lo = 0")
    case True
    with D(11) show ?thesis
      by (intro that [of None None])
        (simp_all add: readStoredWatermark_def readEventLogWatermark_def key_of_def log_keys(4) [OF D(1)]
          get_spec [OF assms(1)] of_storage_def readCompactedCheckpointReplayPayload_def)
  next
    case False
    then obtain b p where b: "contents s (watermark_key w) = Some b"
      "vc_decode C b = Some (watermark_value (int lo) (chain_hash hist lo) p)" using D(12) by auto
    let ?v = "watermark_value (int lo) (chain_hash hist lo) p"
    have "isEventLogWatermark ?v" using False watermark_value_read log_floor_safe [OF assms(2)] by simp
    with b show ?thesis
      by (intro that [of "Some ?v" "Some (watermark_of ?v)"])
        (simp_all add: readStoredWatermark_def readEventLogWatermark_def key_of_def log_keys(4) [OF D(1)]
          get_spec [OF assms(1)] of_storage_def decode_def watermark_of_def)
  qed
qed

end

context storage_spec
begin

lemma recovery_same:
  assumes "invar s" and "log_at C w (contents s) hist lo (length hist)" and "length hist < MAX_LOG_LENGTH"
    and "1 \<le> window" and "buildEntry C w now ev (head_at hist (length hist)) vt = (encoded, newHead)"
    and "reads_back C (entry_value ev w (JFin (of_nat (length hist))) (chain_hash hist (length hist)) now vt)"
    and "reads_back C (head_value newHead)"
    and "appendToBatch C w now ev [] (head_at hist (length hist)) vt = Inr (ops, newHead, now)"
    and "appendCompactionOperations S C w (int (length hist)) (Some window) s s ops = Inr (ops', Some r)"
    and "reads_back C (co_watermark r)"
    and "list_all (reached (cp_step c)) (map (payload_at C) (co_deletedEntries r))"
    and "invar s1" and "contents s1 = apply_operations ops (contents s)"
    and "invar s2" and "contents s2 = apply_operations ops' (contents s)"
  shows "\<exists>c'. hydrateFromStorage S C s2 w c = Inr c' \<and> hydrateFromStorage S C s1 w c = Inr c'"
proof -
  note D = log_atD [OF assms(2)]
  let ?h = "hist @ [encoded]" and ?n = "Suc (length hist)"
  define f where "f = nat (next_floor lo (length hist) window)"
  have ops: "ops = [Put (event_key w (length hist)) encoded, Put (head_key w) (vc_encode C (head_value newHead))]"
    using append_operations [OF D(1) assms(5), of "[]"] assms(8) by simp
  have log1: "log_at C w (contents s1) ?h lo ?n"
    using log_at_append [OF assms(2,3,5-7)] by (simp add: assms(13) ops)
  note comp = compaction_operations [OF assms(1-4), of ops, folded f_def]
  have lof: "lo < f" using comp assms(9) by (auto split: if_splits)
  obtain wv x where wv: "readStoredWatermark S C s w = Inr wv" "readEventLogWatermark S C s w = Inr x"
    "Option.bind x wm_checkpointReplay = readCompactedCheckpointReplayPayload wv"
    using stored_watermark [OF assms(1,2)] by blast
  let ?bs = "map (\<lambda>i. hist ! i) [lo..<f]"
  from comp lof assms(9) wv(2) obtain p where p:
    "mergeDeletedCheckpointReplayPayloads C (readCompactedCheckpointReplayPayload wv) ?bs = Inr p"
    "ops' = ops @ compaction_ops C w hist lo f p"
    "r = \<lparr>co_watermark = watermark_value (int f) (chain_hash hist f) p,
          co_deletedEntries = ?bs, co_deletedRange = (int lo, int f - 1)\<rparr>"
    by (auto simp: wv(3) split: if_splits)
  have fle: "f \<le> length hist" using next_floor_le [OF assms(4)] by (simp add: f_def)
  have log2: "log_at C w (contents s2) ?h f ?n"
    using commit_batch(1) [OF assms(1-9)] assms(10,15) lof by (simp add: f_def max_def)
  have wv1: "readStoredWatermark S C s1 w = Inr wv"
    using wv(1) log_key_distinct [OF D(1)]
    by (simp add: readStoredWatermark_def key_of_def log_keys(4) [OF D(1)] get_spec assms(1,12,13) ops)
  let ?v = "watermark_value (int f) (chain_hash hist f) p"
  have "contents s2 (watermark_key w) = Some (vc_encode C ?v)"
    by (simp add: assms(15) p(2) compaction_ops_def)
  then have wv2: "readStoredWatermark S C s2 w = Inr (Some ?v)"
    using assms(10) by (simp add: readStoredWatermark_def key_of_def log_keys(4) [OF D(1)] get_spec assms(14)
        of_storage_def decode_def reads_back_def p(3))
  have compacted: "readCompactedCheckpointReplayPayload (Some ?v) = p"
    by (rule read_compacted_written) (auto intro: mergeDeleted_wf [OF p(1)] read_compacted_wf)
  have entries: "is_entry C b" if "b \<in> set ?bs" for b
    using that fle chained_is_entry [OF D(2)] by auto
  have split: "map (\<lambda>i. ?h ! i) [lo..<?n] = ?bs @ map (\<lambda>i. ?h ! i) [f..<?n]"
  proof -
    have "[lo..<?n] = [lo..<f] @ [f..<?n]" using upt_add_eq_append [of lo f "?n - f"] lof fle by simp
    moreover have "map (\<lambda>i. ?h ! i) [lo..<f] = ?bs" using fle by (auto simp: nth_append)
    ultimately show ?thesis by simp
  qed
  have "hydrateCheckpointReplayState (Some ?v) (map (payload_at C) (map (\<lambda>i. ?h ! i) [f..<?n])) c
      = hydrateCheckpointReplayState wv (map (payload_at C) (map (\<lambda>i. ?h ! i) [lo..<?n])) c"
    unfolding split map_append
    by (rule hydrate_compacted [OF entries _ p(1) compacted]) (use assms(11) p(3) in simp_all)
  then show ?thesis
    using hydrate_log [OF assms(14) log2 wv2] hydrate_log [OF assms(12) log1 wv1] by metis
qed

end

end
