(* ===== verification/Event_Log_Properties.thy ===== *)
theory Event_Log_Properties
  imports Event_Log
begin

text \<open>
  The properties of the event log on the in-memory adapter, with a small concrete log, a codec
  for the values it stores and a tampered copy to apply them to.
\<close>

section \<open>A concrete log\<close>


definition demo_id :: jsstring where "demo_id = js ''w''"

definition demo_replay :: replay_payload where
  "demo_replay = \<lparr>rp_accumulatedResults = Some [(0, JNull)], rp_workerReplaySignatures = None,
     rp_workerReplayFailures = None\<rparr>"

definition demo_event :: "nat \<Rightarrow> event" where
  "demo_event n = \<lparr>ev_type = js ''workflow:checkpoint'',
     ev_payload = createCheckpointEventPayload (int n) (if n = 0 then Some demo_replay else None)\<rparr>"

definition demo_entry :: "nat \<Rightarrow> jsval" where
  "demo_entry n = entry_value (demo_event n) demo_id (JFin (of_nat n))
     (chain_hash [[0], [2]] n) (JFin (7 + of_nat n)) None"

definition demo_values :: "jsval list" where
  "demo_values = [demo_entry 0, head_value (head_at [[0]] 1), demo_entry 1, head_value (head_at [[0], [2]] 2),
     watermark_value 1 (chain_hash [[0]] 1) (Some demo_replay),
     entry_value (demo_event 0) demo_id (JFin 0) GENESIS_HASH (JFin 6) None]"

definition demoCodec :: value_codec where
  "demoCodec = \<lparr>vc_encode = (\<lambda>v. case find_index (\<lambda>x. x = v) demo_values of Some i \<Rightarrow> [of_nat i] | None \<Rightarrow> [255]),
     vc_decode = (\<lambda>b. case b of [c] \<Rightarrow> if unat c < 6 then Some (demo_values ! unat c) else None | _ \<Rightarrow> None)\<rparr>"

lemma demo_distinct: "distinct demo_values"
  by (simp add: demo_values_def demo_entry_def entry_value_def head_value_def watermark_value_def head_at_def)

lemma find_index_nth: "distinct xs \<Longrightarrow> i < length xs \<Longrightarrow> find_index (\<lambda>x. x = xs ! i) xs = Some i"
proof (induction xs arbitrary: i)
  case (Cons x xs)
  then show ?case by (cases i) auto
qed simp

lemma demo_encode: "i < 6 \<Longrightarrow> vc_encode demoCodec (demo_values ! i) = [of_nat i]"
  using find_index_nth [OF demo_distinct, of i] by (simp add: demoCodec_def demo_values_def)

lemma demo_decode: "i < 6 \<Longrightarrow> vc_decode demoCodec [of_nat i] = Some (demo_values ! i)"
  by (simp add: demoCodec_def unat_of_nat)

lemma demo_encodable: "encodable demo_id"
  by (simp add: encodable_def demo_id_def encodeStorageKeyComponent_def js_def unreserved_def)

lemmas demo_nth = demo_values_def nth_Cons_numeral One_nat_def nth_Cons_Suc nth_Cons_0

lemma demo_codes:
  "vc_encode demoCodec (demo_entry 0) = [0]" "vc_encode demoCodec (head_value (head_at [[0]] 1)) = [1]"
  "vc_encode demoCodec (demo_entry 1) = [2]" "vc_encode demoCodec (head_value (head_at [[0], [2]] 2)) = [3]"
  "vc_encode demoCodec (watermark_value 1 (chain_hash [[0]] 1) (Some demo_replay)) = [4]"
  using demo_encode [of 0] demo_encode [of 1] demo_encode [of 2] demo_encode [of 3] demo_encode [of 4]
  by (simp_all add: demo_values_def)

lemma demo_decodes:
  "vc_decode demoCodec [0] = Some (demo_entry 0)" "vc_decode demoCodec [1] = Some (head_value (head_at [[0]] 1))"
  "vc_decode demoCodec [2] = Some (demo_entry 1)" "vc_decode demoCodec [3] = Some (head_value (head_at [[0], [2]] 2))"
  "vc_decode demoCodec [4] = Some (watermark_value 1 (chain_hash [[0]] 1) (Some demo_replay))"
  "vc_decode demoCodec [5] = Some (entry_value (demo_event 0) demo_id (JFin 0) GENESIS_HASH (JFin 6) None)"
  using demo_decode [of 5] demo_decode [of 0] demo_decode [of 1] demo_decode [of 2] demo_decode [of 3] demo_decode [of 4]
  by (simp_all add: demo_values_def)

lemma log_at_empty: "encodable w \<Longrightarrow> log_at C w Map.empty [] 0 0"
  by (simp add: log_at_def chained_def)

lemma demo_build0: "buildEntry demoCodec demo_id (JFin 7) (demo_event 0) (head_at [] 0) None = ([0], head_at [[0]] 1)"
  using demo_codes(1)
  by (simp add: buildEntry_def head_at_def chain_hash_def demo_entry_def Let_def)

lemma demo_build1: "buildEntry demoCodec demo_id (JFin 8) (demo_event 1) (head_at [[0]] 1) None = ([2], head_at [[0], [2]] 2)"
  using demo_codes(3)
  by (simp add: buildEntry_def head_at_def chain_hash_def demo_entry_def Let_def)

definition demo_store :: memory_storage where
  "demo_store = snd (memory_batch newMemoryStorage [Put (event_key demo_id 0) [0], Put (head_key demo_id) [1]])"

lemma demo_store:
  "memory_invar demo_store" "memory_contents demo_store = [event_key demo_id 0 \<mapsto> [0], head_key demo_id \<mapsto> [1]]"
  "log_at demoCodec demo_id (memory_contents demo_store) [[0]] 0 1"
proof -
  let ?ops = "[Put (event_key demo_id 0) [0], Put (head_key demo_id) [1]]"
  have "length ?ops \<le> MAX_BATCH_OPERATIONS" by (simp add: MAX_BATCH_OPERATIONS_def)
  then obtain s where s: "batch_op memoryStorage newMemoryStorage ?ops = (Inr (), s)" "memory_invar s"
    "memory_contents s = apply_operations ?ops (memory_contents newMemoryStorage)"
    using mem.batch_ok [OF memory_invar_new] by blast
  then have "demo_store = s" by (simp add: demo_store_def memoryStorage_def)
  with s show "memory_invar demo_store"
    and c: "memory_contents demo_store = [event_key demo_id 0 \<mapsto> [0], head_key demo_id \<mapsto> [1]]" by simp_all
  show "log_at demoCodec demo_id (memory_contents demo_store) [[0]] 0 1"
    using log_at_append [of demoCodec demo_id Map.empty "[]" 0 "JFin 7" "demo_event 0" None "[0]" "head_at [[0]] 1"]
      log_at_empty [OF demo_encodable] demo_build0 demo_codes(1,2) demo_decodes(1,2)
    by (simp add: c MAX_LOG_LENGTH_def reads_back_def demo_entry_def chain_hash_def)
qed

lemma demo_hashes: "hashBytes [0] \<noteq> GENESIS_HASH" "hashBytes [5] \<noteq> GENESIS_HASH" "hashBytes [0] \<noteq> hashBytes [5]"
  by (simp_all add: hashBytes_def fnv1a64_def FNV_OFFSET_BASIS_64_def FNV_PRIME_64_def padStart_def
      hexDigits.simps GENESIS_HASH_def js_def)

text \<open>The first entry is replaced by one with another timestamp.\<close>

definition tampered_store :: memory_storage where
  "tampered_store = snd (memory_batch demo_store [Put (event_key demo_id 0) [5]])"

lemma tampered_store:
  "memory_invar tampered_store" "memory_contents tampered_store = (memory_contents demo_store)(event_key demo_id 0 \<mapsto> [5])"
proof -
  have "length [Put (event_key demo_id 0) [5]] \<le> MAX_BATCH_OPERATIONS" by (simp add: MAX_BATCH_OPERATIONS_def)
  then obtain s where s: "batch_op memoryStorage demo_store [Put (event_key demo_id 0) [5]] = (Inr (), s)" "memory_invar s"
    "memory_contents s = apply_operations [Put (event_key demo_id 0) [5]] (memory_contents demo_store)"
    using mem.batch_ok [OF demo_store(1)] by blast
  then have "tampered_store = s" by (simp add: tampered_store_def memoryStorage_def)
  with s show "memory_invar tampered_store"
    "memory_contents tampered_store = (memory_contents demo_store)(event_key demo_id 0 \<mapsto> [5])" by simp_all
qed

lemma demo_scan:
  assumes "dom m = {event_key demo_id 0, head_key demo_id}"
  shows "scan_keys m (log_prefix demo_id) (log_range demo_id None None) = [event_key demo_id 0, head_key demo_id]"
proof -
  have "dom m = dom (memory_contents demo_store)" by (auto simp: assms demo_store(2))
  then have "scan_keys m (log_prefix demo_id) (log_range demo_id None None)
      = scan_keys (memory_contents demo_store) (log_prefix demo_id) (log_range demo_id None None)"
    by (simp add: scan_keys_def)
  then show ?thesis
    using log_scan_keys [OF demo_store(3), of None None] log_key_distinct [OF demo_encodable]
    by (simp add: record_keys_def demo_store(2))
qed

lemma demo_walked:
  "walked_entries demoCodec demo_id None (memory_contents demo_store) = [[0]]"
  "walked_entries demoCodec demo_id None (memory_contents tampered_store) = [[5]]"
  using demo_decodes(1,2,6) log_key_distinct [OF demo_encodable]
  by (simp_all add: walked_entries_def scan_entries_def demo_scan demo_store(2) tampered_store(2) is_entry_def
      demo_entry_def insert_commute)

lemma demo_watermarks:
  "readEventLogWatermark memoryStorage demoCodec demo_store demo_id = Inr None"
  "readEventLogWatermark memoryStorage demoCodec tampered_store demo_id = Inr None"
  "readEventHead memoryStorage demoCodec tampered_store demo_id = readEventHead memoryStorage demoCodec demo_store demo_id"
  using log_key_distinct [OF demo_encodable] log_keys(3,4) [OF demo_encodable]
  by (simp_all add: readEventLogWatermark_def readEventHead_def mem.get_spec demo_store(1,2) tampered_store key_of_def
      of_storage_def)

lemma demo_reads_back:
  "reads_back demoCodec (demo_entry 1)" "reads_back demoCodec (head_value (head_at [[0], [2]] 2))"
  "reads_back demoCodec (watermark_value 1 (chain_hash [[0]] 1) (Some demo_replay))"
  unfolding reads_back_def by (simp_all only: demo_codes demo_decodes)

definition demo_ops :: "batch_operation list" where
  "demo_ops = [Put (event_key demo_id 1) [2], Put (head_key demo_id) [3]]"

lemma demo_append: "appendToBatch demoCodec demo_id (JFin 8) (demo_event 1) [] (head_at [[0]] 1) None
    = Inr (demo_ops, head_at [[0], [2]] 2, JFin 8)"
  using append_operations [OF demo_encodable, of demoCodec "JFin 8" "demo_event 1" "[[0]]" None "[2]" "head_at [[0], [2]] 2" "[]"]
    demo_build1 demo_codes(4) by (simp add: demo_ops_def)

lemma demo_payload: "readCheckpointReplayPayload (createCheckpointEventPayload 0 (Some demo_replay)) = Some demo_replay"
  by (simp add: readCheckpointReplayPayload_def createCheckpointEventPayload_def field_def isObject_def
      CHECKPOINT_REPLAY_PAYLOAD_KEY_def payload_value_def optional_field_def readCheckpointReplayPayloadRecord_def
      demo_replay_def entries_value_def readUnknownEntries_def replayStep_def isSafeInteger_def MAX_SAFE_INTEGER_def
      buildReplayPayload_def nonEmpty_def readWorkerReplaySignatureEntries_def readWorkerReplayFailureEntries_def Let_def)

definition demo_result :: compaction_result where
  "demo_result = \<lparr>co_watermark = watermark_value 1 (chain_hash [[0]] 1) (Some demo_replay),
     co_deletedEntries = [[0]], co_deletedRange = (0, 0)\<rparr>"

lemma demo_compaction:
  "appendCompactionOperations memoryStorage demoCodec demo_id 1 (Some 1) demo_store demo_store demo_ops
   = Inr (demo_ops @ compaction_ops demoCodec demo_id [[0]] 0 1 (Some demo_replay), Some demo_result)"
proof -
  have f: "nat (next_floor 0 (length [[0 :: 8 word]]) 1) = 1"
    by (simp add: next_floor_def MAX_COMPACTION_BATCH_def)
  have small: "length [[0 :: 8 word]] < MAX_LOG_LENGTH" by (simp add: MAX_LOG_LENGTH_def)
  from mem.compaction_operations [OF demo_store(1) _ small, of demoCodec demo_id 0 1 demo_ops] demo_store(3)
  obtain x p where "readEventLogWatermark memoryStorage demoCodec demo_store demo_id = Inr x"
    "mergeDeletedCheckpointReplayPayloads demoCodec (Option.bind x wm_checkpointReplay) [[0]] = Inr p"
    "appendCompactionOperations memoryStorage demoCodec demo_id 1 (Some 1) demo_store demo_store demo_ops
     = Inr (demo_ops @ compaction_ops demoCodec demo_id [[0]] 0 1 p,
         Some \<lparr>co_watermark = watermark_value 1 (chain_hash [[0]] 1) p, co_deletedEntries = [[0]], co_deletedRange = (0, 0)\<rparr>)"
    unfolding f by auto
  moreover have "mergeDeletedCheckpointReplayPayloads demoCodec None [[0]] = Inr (Some demo_replay)"
    using demo_payload by (simp add: decode_def demo_decodes demo_entry_def demo_event_def mergeCheckpointReplayPayloads_def)
  ultimately show ?thesis using demo_watermarks(1) by (simp add: demo_result_def)
qed

lemma demo_entry_1: "demo_entry 1 = entry_value (demo_event 1) demo_id (JFin (of_nat (length [[0 :: 8 word]])))
    (chain_hash [[0]] (length [[0 :: 8 word]])) (JFin 8) None"
  by (simp add: demo_entry_def chain_hash_def)

lemma demo_hypotheses:
  "memory_invar demo_store" "log_at demoCodec demo_id (memory_contents demo_store) [[0]] 0 (length [[0 :: 8 word]])"
  "length [[0 :: 8 word]] < MAX_LOG_LENGTH" "(1::int) \<le> 1"
  "buildEntry demoCodec demo_id (JFin 8) (demo_event 1) (head_at [[0]] (length [[0 :: 8 word]])) None = ([2], head_at [[0], [2]] 2)"
  "reads_back demoCodec (entry_value (demo_event 1) demo_id (JFin (of_nat (length [[0 :: 8 word]])))
    (chain_hash [[0]] (length [[0 :: 8 word]])) (JFin 8) None)"
  "reads_back demoCodec (head_value (head_at [[0], [2]] 2))"
  "appendToBatch demoCodec demo_id (JFin 8) (demo_event 1) [] (head_at [[0]] (length [[0 :: 8 word]])) None
    = Inr (demo_ops, head_at [[0], [2]] 2, JFin 8)"
  "appendCompactionOperations memoryStorage demoCodec demo_id (int (length [[0 :: 8 word]])) (Some 1) demo_store demo_store demo_ops
   = Inr (demo_ops @ compaction_ops demoCodec demo_id [[0]] 0 1 (Some demo_replay), Some demo_result)"
  using demo_store demo_build1 demo_reads_back(1,2) demo_append demo_compaction demo_entry_1
  by (simp_all add: MAX_LOG_LENGTH_def)

definition demo_checkpoint :: "unit checkpoint" where
  "demo_checkpoint = \<lparr>cp_step = 1, cp_accumulatedResults = [], cp_accumulatedResultReplayWatermark = Some 0,
     cp_workerReplaySignatures = None, cp_workerReplayFailures = None, cp_transientReplayPayload = None, cp_other = ()\<rparr>"



section \<open>Properties of the event log\<close>

text \<open>
  C5: the verifier raises no false alarm. If every read of an attempt sees the log at some
  moment of its history, in the order of the reads and with appends and compactions free to
  commit in between, \<open>verifyEventLog\<close> answers valid or indeterminate, never a broken chain; on
  a log at rest it answers valid.
\<close>

theorem verify_no_false_alarm:
  assumes "\<forall>i < MAX_ATTEMPTS. intact_reads memory_invar memory_contents C w hist (reads i)"
  shows "verifyEventLog memoryStorage C w reads \<in> {Inr Valid, Inr Indeterminate}
    \<and> (\<forall>s lo n. memory_invar s \<longrightarrow> log_at C w (memory_contents s) hist lo n \<longrightarrow>
         verifyEventLog memoryStorage C w (quiescent s) = Inr Valid)"
  using mem.verify_intact [of C w hist reads] mem.verify_quiescent assms by blast

theorem verify_no_false_alarm_witness:
  "verifyEventLog memoryStorage demoCodec demo_id (quiescent demo_store) = Inr Valid"
proof -
  have "\<forall>i < MAX_ATTEMPTS. intact_reads memory_invar memory_contents demoCodec demo_id [[0]] (quiescent demo_store i)"
    unfolding intact_reads_def
    using demo_store
    by (intro allI impI exI [of _ "replicate 5 0"] exI [of _ "replicate 5 1"])
      (auto simp: quiescent_def read_states_def nth_Cons' numeral_eq_Suc)
  from verify_no_false_alarm [OF this] demo_store show ?thesis by blast
qed

text \<open>
  C28: an accepted log is the one that was written. Two stores that verify as valid, with the
  same watermark and the same head record, hold the same log entries byte for byte, as long as
  the hash does not collide on the entries involved and none of them hashes to the seed of the
  chain.
\<close>

theorem accepted_log_is_determined_by_head:
  assumes "memory_invar s" and "memory_invar s'" and "encodable w"
    and "verifyEventLog memoryStorage C w (quiescent s) = Inr Valid"
    and "verifyEventLog memoryStorage C w (quiescent s') = Inr Valid"
    and "readEventHead memoryStorage C s w = readEventHead memoryStorage C s' w"
    and "readEventLogWatermark memoryStorage C s w = Inr x" and "readEventLogWatermark memoryStorage C s' w = Inr x"
    and "inj_on hashBytes (set (walked_entries C w x (memory_contents s)) \<union> set (walked_entries C w x (memory_contents s')))"
    and "seed_of x \<notin> hashBytes ` (set (walked_entries C w x (memory_contents s)) \<union> set (walked_entries C w x (memory_contents s')))"
  shows "walked_entries C w x (memory_contents s) = walked_entries C w x (memory_contents s')"
  by (rule mem.accepted_unique [OF assms])

theorem accepted_log_is_determined_by_head_witness:
  "verifyEventLog memoryStorage demoCodec demo_id (quiescent demo_store) = Inr Valid
   \<and> verifyEventLog memoryStorage demoCodec demo_id (quiescent tampered_store) \<noteq> Inr Valid"
proof -
  note v = mem.verify_quiescent [OF demo_store(1,3)]
  have False if t: "verifyEventLog memoryStorage demoCodec demo_id (quiescent tampered_store) = Inr Valid"
    using accepted_log_is_determined_by_head [OF demo_store(1) tampered_store(1) demo_encodable v t
        demo_watermarks(3) [symmetric] demo_watermarks(1,2)] demo_hashes
    by (simp add: demo_walked seed_of_def)
  with v show ?thesis by blast
qed

text \<open>
  C4: a checkpoint commit keeps the log. The batch built by \<open>appendToBatch\<close> from the cached head
  and extended by \<open>appendCompactionOperations\<close> stays small, and committing it leaves a store
  that holds the log with the new entry, a floor that never moves back and never cuts into the
  retention window, and a chain that verifies.
\<close>

theorem checkpoint_commit_keeps_log:
  assumes "memory_invar s" and "log_at C w (memory_contents s) hist lo (length hist)"
    and "length hist < MAX_LOG_LENGTH" and "1 \<le> window"
    and "buildEntry C w now ev (head_at hist (length hist)) vt = (encoded, newHead)"
    and "reads_back C (entry_value ev w (JFin (of_nat (length hist))) (chain_hash hist (length hist)) now vt)"
    and "reads_back C (head_value newHead)"
    and "appendToBatch C w now ev [] (head_at hist (length hist)) vt = Inr (ops, newHead, now)"
    and "appendCompactionOperations memoryStorage C w (int (length hist)) (Some window) s s ops = Inr (ops', res)"
    and "\<forall>r. res = Some r \<longrightarrow> reads_back C (co_watermark r)"
  shows "length ops' \<le> 1003
    \<and> (\<exists>s' lo'. memory_batch s ops' = (Inr (), s') \<and> memory_invar s'
         \<and> log_at C w (memory_contents s') (hist @ [encoded]) lo' (Suc (length hist))
         \<and> lo \<le> lo' \<and> int lo' \<le> max (int lo) (int (length hist) - window + 1)
         \<and> verifyEventLog memoryStorage C w (quiescent s') = Inr Valid)"
proof -
  note commit = mem.commit_batch [OF assms(1-9)]
  have len: "length ops' \<le> 1003" using commit(2) assms(10) by blast
  then have "length ops' \<le> MAX_BATCH_OPERATIONS" by (simp add: MAX_BATCH_OPERATIONS_def)
  then obtain s' where s': "batch_op memoryStorage s ops' = (Inr (), s')" "memory_invar s'"
    "memory_contents s' = apply_operations ops' (memory_contents s)"
    using mem.batch_ok [OF assms(1)] by blast
  let ?lo = "max lo (nat (next_floor lo (length hist) window))"
  have log: "log_at C w (memory_contents s') (hist @ [encoded]) ?lo (Suc (length hist))"
    using commit(1) assms(10) s'(3) by simp
  have "int ?lo \<le> max (int lo) (int (length hist) - window + 1)"
    using next_floor_bounds(2) [of lo "length hist" window] by (auto simp: max_def split: if_splits)
  with len s' log mem.verify_quiescent [OF s'(2) log] show ?thesis
    by (auto simp: memoryStorage_def)
qed

theorem checkpoint_commit_keeps_log_witness:
  "\<exists>s' lo'. memory_batch demo_store (demo_ops @ compaction_ops demoCodec demo_id [[0]] 0 1 (Some demo_replay)) = (Inr (), s')
     \<and> verifyEventLog memoryStorage demoCodec demo_id (quiescent s') = Inr Valid \<and> int lo' \<le> 1"
  using checkpoint_commit_keeps_log [OF demo_hypotheses] demo_reads_back(3)
  by (auto simp: demo_result_def)

text \<open>
  C18: compaction loses no replay data of a checkpoint whose step has reached the steps of all the
  entries that were deleted. Recovering such a checkpoint from the log after a commit that also
  compacted gives the same checkpoint as recovering it after the same commit without compaction,
  for one process that commits and a codec that reads back what it wrote. A checkpoint of the history that is older than a deleted entry, read
  back by step or forked from, is not covered: the payload kept in the watermark is merged
  without regard to the step.
\<close>

theorem compaction_preserves_recovery:
  assumes "memory_invar s" and "log_at C w (memory_contents s) hist lo (length hist)"
    and "length hist < MAX_LOG_LENGTH" and "1 \<le> window"
    and "buildEntry C w now ev (head_at hist (length hist)) vt = (encoded, newHead)"
    and "reads_back C (entry_value ev w (JFin (of_nat (length hist))) (chain_hash hist (length hist)) now vt)"
    and "reads_back C (head_value newHead)"
    and "appendToBatch C w now ev [] (head_at hist (length hist)) vt = Inr (ops, newHead, now)"
    and "appendCompactionOperations memoryStorage C w (int (length hist)) (Some window) s s ops = Inr (ops', Some r)"
    and "reads_back C (co_watermark r)"
    and "list_all (reached (cp_step c)) (map (payload_at C) (co_deletedEntries r))"
    and "memory_batch s ops = (Inr (), s1)" and "memory_batch s ops' = (Inr (), s2)"
  shows "\<exists>c'. hydrateFromStorage memoryStorage C s2 w c = Inr c'
    \<and> hydrateFromStorage memoryStorage C s1 w c = Inr c'"
proof -
  have len: "length ops \<le> MAX_BATCH_OPERATIONS" "length ops' \<le> MAX_BATCH_OPERATIONS"
  proof -
    show "length ops' \<le> MAX_BATCH_OPERATIONS"
      using mem.commit_batch(2) [OF assms(1-9)] assms(10) by (simp add: MAX_BATCH_OPERATIONS_def)
    show "length ops \<le> MAX_BATCH_OPERATIONS"
      using append_operations [OF log_atD(1) [OF assms(2)] assms(5), of "[]"] assms(8)
      by (auto simp: MAX_BATCH_OPERATIONS_def)
  qed
  have b: "batch_op memoryStorage s ops = (Inr (), s1)" "batch_op memoryStorage s ops' = (Inr (), s2)"
    using assms(12,13) by (simp_all add: memoryStorage_def)
  note s1 = mem.batch_spec [OF assms(1) len(1) b(1)] and s2 = mem.batch_spec [OF assms(1) len(2) b(2)]
  show ?thesis by (rule mem.recovery_same [OF assms(1-11)]) (use s1 s2 in auto)
qed

theorem compaction_preserves_recovery_witness:
  "\<exists>s1 s2 c'. memory_batch demo_store demo_ops = (Inr (), s1)
     \<and> memory_batch demo_store (demo_ops @ compaction_ops demoCodec demo_id [[0]] 0 1 (Some demo_replay)) = (Inr (), s2)
     \<and> hydrateFromStorage memoryStorage demoCodec s2 demo_id demo_checkpoint = Inr c'
     \<and> hydrateFromStorage memoryStorage demoCodec s1 demo_id demo_checkpoint = Inr c'"
proof -
  let ?ops' = "demo_ops @ compaction_ops demoCodec demo_id [[0]] 0 1 (Some demo_replay)"
  have ok: "\<exists>s'. memory_batch demo_store ops = (Inr (), s')" if "length ops \<le> MAX_BATCH_OPERATIONS" for ops
    using mem.batch_ok [OF demo_store(1) that] by (auto simp: memoryStorage_def)
  obtain s1 s2 where s: "memory_batch demo_store demo_ops = (Inr (), s1)" "memory_batch demo_store ?ops' = (Inr (), s2)"
    using ok [of demo_ops] ok [of ?ops'] by (auto simp: demo_ops_def compaction_ops_def MAX_BATCH_OPERATIONS_def)
  have "reads_back demoCodec (co_watermark demo_result)" using demo_reads_back(3) by (simp add: demo_result_def)
  moreover have "list_all (reached (cp_step demo_checkpoint)) (map (payload_at demoCodec) (co_deletedEntries demo_result))"
  proof -
    have p: "payload_at demoCodec [0] = createCheckpointEventPayload 0 (Some demo_replay)"
      by (simp add: payload_at_def demo_decodes demo_entry_def demo_event_def)
    have "getCheckpointEventStep (payload_at demoCodec [0]) = Some 0"
      unfolding p by (simp add: getCheckpointEventStep_def createCheckpointEventPayload_def isObject_def field_def
          replayStep_def isSafeInteger_def MAX_SAFE_INTEGER_def)
    then show ?thesis by (simp add: demo_result_def reached_def demo_checkpoint_def)
  qed
  ultimately show ?thesis
    using compaction_preserves_recovery [OF demo_hypotheses _ _ s] s by blast
qed

end
