(* ===== verification/Deadline_Tracker.thy ===== *)
theory Deadline_Tracker
  imports Weft_Prelude
begin

text \<open>
  The deadline tracker of the task server, \<open>src/src/server/deadline-tracker.ts\<close>: an array
  min-heap of deadlines with removal by generation stamps. The array is a list, an index of the
  loops a natural number; a deadline is a rational. The loops \<open>siftUp\<close>, \<open>siftDown\<close>,
  \<open>purgeTop\<close> and \<open>drainExpired\<close> are total functions with their termination proofs.

  The tracker refines a finite map from operation ids to deadlines (\<open>tracked\<close>); the locale
  \<open>deadline_index\<close> is that contract, and what the visibility scan relies on is proved from it.
\<close>

section \<open>State\<close>

record heap_entry =
  he_operationId :: jsstring
  he_deadline :: rat
  he_generation :: nat

record deadline_tracker =
  dt_heap :: "heap_entry list"
  dt_liveGeneration :: "(jsstring \<times> nat) list"
  dt_nextGeneration :: nat
  dt_liveCount :: int

definition newDeadlineTracker :: deadline_tracker where
  "newDeadlineTracker = \<lparr>dt_heap = [], dt_liveGeneration = [], dt_nextGeneration = 1, dt_liveCount = 0\<rparr>"

section \<open>Heap operations\<close>

definition swap :: "'a list \<Rightarrow> nat \<Rightarrow> nat \<Rightarrow> 'a list" where
  "swap xs i j = xs[i := xs ! j, j := xs ! i]"

definition parent :: "nat \<Rightarrow> nat" where
  "parent i = (i - 1) div 2"

lemma parent_less: "0 < i \<Longrightarrow> parent i < i"
  by (simp add: parent_def)

function siftUp :: "heap_entry list \<Rightarrow> nat \<Rightarrow> heap_entry list" where
  "siftUp heap index =
     (if index = 0 then heap
      else if he_deadline (heap ! parent index) \<le> he_deadline (heap ! index) then heap
      else siftUp (swap heap (parent index) index) (parent index))"
  by auto
termination by (relation "measure snd") (auto simp: parent_less)

definition smallestChild :: "heap_entry list \<Rightarrow> nat \<Rightarrow> nat" where
  "smallestChild heap index =
     (let left = 2 * index + 1; right = 2 * index + 2;
          s1 = (if left < length heap \<and> he_deadline (heap ! left) < he_deadline (heap ! index) then left else index);
          s2 = (if right < length heap \<and> he_deadline (heap ! right) < he_deadline (heap ! s1) then right else s1)
      in s2)"

lemma smallestChild_cases:
  "smallestChild heap i = i \<or> smallestChild heap i = 2 * i + 1 \<and> 2 * i + 1 < length heap
     \<or> smallestChild heap i = 2 * i + 2 \<and> 2 * i + 2 < length heap"
  by (simp add: smallestChild_def Let_def)

lemma length_swap [simp]: "length (swap xs i j) = length xs"
  by (simp add: swap_def)

function siftDown :: "heap_entry list \<Rightarrow> nat \<Rightarrow> heap_entry list" where
  "siftDown heap index =
     (let smallest = smallestChild heap index
      in if smallest = index then heap else siftDown (swap heap smallest index) smallest)"
  by auto
termination
  by (relation "measure (\<lambda>(heap, i). length heap - i)") (use smallestChild_cases in force)+

declare siftUp.simps [simp del] siftDown.simps [simp del]

definition extractMin :: "heap_entry list \<Rightarrow> heap_entry list" where
  "extractMin heap =
     (let rest = butlast heap
      in if length rest > 0 then siftDown (rest[0 := last heap]) 0 else rest)"

definition isLive :: "deadline_tracker \<Rightarrow> jsstring \<Rightarrow> bool" where
  "isLive t operationId =
     (case map_of (dt_liveGeneration t) operationId of None \<Rightarrow> False | Some gen \<Rightarrow> gen > 0)"

definition isStale :: "(jsstring \<times> nat) list \<Rightarrow> heap_entry \<Rightarrow> bool" where
  "isStale live entry =
     (he_generation entry \<noteq> (case map_of live (he_operationId entry) of None \<Rightarrow> 0 | Some gen \<Rightarrow> gen))"

section \<open>Permutations\<close>

lemma mset_swapped: "i < length xs \<Longrightarrow> j < length xs \<Longrightarrow> mset (swap xs i j) = mset xs"
  by (simp add: swap_def mset_swap)

lemma mset_siftUp [simp]: "i < length heap \<Longrightarrow> mset (siftUp heap i) = mset heap"
proof (induction heap i rule: siftUp.induct)
  case (1 heap i)
  then show ?case
    using parent_less [of i] by (subst siftUp.simps) (auto simp: mset_swapped)
qed

lemma mset_siftDown [simp]: "i < length heap \<Longrightarrow> mset (siftDown heap i) = mset heap"
proof (induction heap i rule: siftDown.induct)
  case (1 heap i)
  then show ?case
    using smallestChild_cases [of heap i] by (subst siftDown.simps) (auto simp: mset_swapped Let_def)
qed

lemma length_siftUp [simp]: "i < length heap \<Longrightarrow> length (siftUp heap i) = length heap"
  by (metis mset_siftUp size_mset)

lemma length_siftDown [simp]: "i < length heap \<Longrightarrow> length (siftDown heap i) = length heap"
  by (metis mset_siftDown size_mset)

lemma mset_extractMin: "heap \<noteq> [] \<Longrightarrow> mset (extractMin heap) = mset heap - {#hd heap#}"
proof (cases heap rule: rev_cases)
  case (snoc rest e)
  then show ?thesis
    by (cases rest) (simp_all add: extractMin_def Let_def)
qed simp

lemma length_extractMin: "heap \<noteq> [] \<Longrightarrow> length (extractMin heap) = length heap - 1"
  by (metis mset_extractMin size_mset size_Diff_singleton list.set_sel(1) set_mset_mset)

function purgeTop :: "(jsstring \<times> nat) list \<Rightarrow> heap_entry list \<Rightarrow> heap_entry list" where
  "purgeTop live heap =
     (if length heap > 0 \<and> isStale live (heap ! 0) then purgeTop live (extractMin heap) else heap)"
  by auto
termination
  by (relation "measure (\<lambda>(live, heap). length heap)") (auto simp: length_extractMin)

declare purgeTop.simps [simp del]

section \<open>Tracker operations\<close>

definition tracker_size :: "deadline_tracker \<Rightarrow> int" where
  "tracker_size t = dt_liveCount t"

definition peekDeadline :: "deadline_tracker \<Rightarrow> rat option \<times> deadline_tracker" where
  "peekDeadline t =
     (let heap = purgeTop (dt_liveGeneration t) (dt_heap t)
      in (case heap of [] \<Rightarrow> None | e # _ \<Rightarrow> Some (he_deadline e), t\<lparr>dt_heap := heap\<rparr>))"

definition tracker_add :: "deadline_tracker \<Rightarrow> jsstring \<Rightarrow> rat \<Rightarrow> deadline_tracker" where
  "tracker_add t operationId deadline =
     (let wasLive = isLive t operationId;
          generation = dt_nextGeneration t;
          heap = dt_heap t @ [\<lparr>he_operationId = operationId, he_deadline = deadline, he_generation = generation\<rparr>]
      in t\<lparr>dt_nextGeneration := generation + 1,
           dt_liveGeneration := AList.update operationId generation (dt_liveGeneration t),
           dt_heap := siftUp heap (length heap - 1),
           dt_liveCount := (if \<not> wasLive then dt_liveCount t + 1 else dt_liveCount t)\<rparr>)"

text \<open>Taking a live root off the heap: the steps \<open>popMin\<close> and \<open>drainExpired\<close> share.\<close>

definition takeRoot :: "deadline_tracker \<Rightarrow> deadline_tracker" where
  "takeRoot t =
     t\<lparr>dt_heap := extractMin (dt_heap t),
       dt_liveGeneration := AList.delete (he_operationId (dt_heap t ! 0)) (dt_liveGeneration t),
       dt_liveCount := dt_liveCount t - 1\<rparr>"

definition popMin :: "deadline_tracker \<Rightarrow> heap_entry option \<times> deadline_tracker" where
  "popMin t =
     (let t1 = t\<lparr>dt_heap := purgeTop (dt_liveGeneration t) (dt_heap t)\<rparr>
      in if length (dt_heap t1) = 0 then (None, t1)
         else (Some (dt_heap t1 ! 0), takeRoot t1))"

definition tracker_remove :: "deadline_tracker \<Rightarrow> jsstring \<Rightarrow> deadline_tracker" where
  "tracker_remove t operationId =
     (if \<not> isLive t operationId then t
      else t\<lparr>dt_liveGeneration := AList.delete operationId (dt_liveGeneration t),
             dt_liveCount := dt_liveCount t - 1\<rparr>)"

lemma length_purgeTop: "length (purgeTop live heap) \<le> length heap"
proof (induction live heap rule: purgeTop.induct)
  case (1 live heap)
  then show ?case by (subst purgeTop.simps) (auto simp: length_extractMin)
qed

function drainExpired :: "deadline_tracker \<Rightarrow> rat \<Rightarrow> heap_entry list \<times> deadline_tracker" where
  "drainExpired t now =
     (let t1 = t\<lparr>dt_heap := purgeTop (dt_liveGeneration t) (dt_heap t)\<rparr>
      in if length (dt_heap t1) = 0 \<or> he_deadline (dt_heap t1 ! 0) > now then ([], t1)
         else let (expired, t2) = drainExpired (takeRoot t1) now in (dt_heap t1 ! 0 # expired, t2))"
  by auto
termination
proof (relation "measure (\<lambda>(t, now). length (dt_heap t))", goal_cases)
  case (2 t now t1)
  then show ?case
    using length_purgeTop [of "dt_liveGeneration t" "dt_heap t"]
    by (cases "purgeTop (dt_liveGeneration t) (dt_heap t)") (auto simp: takeRoot_def length_extractMin)
qed simp

declare drainExpired.simps [simp del]

definition tracker_clear :: "deadline_tracker \<Rightarrow> deadline_tracker" where
  "tracker_clear t = t\<lparr>dt_heap := [], dt_liveGeneration := [], dt_liveCount := 0\<rparr>"

section \<open>Heap order\<close>

abbreviation key :: "heap_entry list \<Rightarrow> nat \<Rightarrow> rat" where
  "key heap i \<equiv> he_deadline (heap ! i)"

definition heap_ok :: "heap_entry list \<Rightarrow> bool" where
  "heap_ok heap \<longleftrightarrow> (\<forall>j. 0 < j \<longrightarrow> j < length heap \<longrightarrow> key heap (parent j) \<le> key heap j)"

lemma heap_ok_Nil [simp]: "heap_ok []"
  by (simp add: heap_ok_def)

lemma key_swap:
  "a < length heap \<Longrightarrow> b < length heap \<Longrightarrow>
   key (swap heap a b) k = (if k = b then key heap a else if k = a then key heap b else key heap k)"
  by (auto simp: swap_def nth_list_update)

text \<open>Order except above \<open>i\<close> (while sifting up) and except below \<open>i\<close> (while sifting down).\<close>

definition up_ok :: "heap_entry list \<Rightarrow> nat \<Rightarrow> bool" where
  "up_ok heap i \<longleftrightarrow>
     (\<forall>j. 0 < j \<longrightarrow> j < length heap \<longrightarrow> j \<noteq> i \<longrightarrow> key heap (parent j) \<le> key heap j)
     \<and> (\<forall>j. 0 < j \<longrightarrow> j < length heap \<longrightarrow> parent j = i \<longrightarrow> 0 < i \<longrightarrow> key heap (parent i) \<le> key heap j)"

definition down_ok :: "heap_entry list \<Rightarrow> nat \<Rightarrow> bool" where
  "down_ok heap i \<longleftrightarrow>
     (\<forall>j. 0 < j \<longrightarrow> j < length heap \<longrightarrow> parent j \<noteq> i \<longrightarrow> key heap (parent j) \<le> key heap j)
     \<and> (\<forall>j. 0 < j \<longrightarrow> j < length heap \<longrightarrow> parent j = i \<longrightarrow> 0 < i \<longrightarrow> key heap (parent i) \<le> key heap j)"

lemma up_ok_step:
  assumes "up_ok heap i" and "0 < i" and "i < length heap" and "key heap i < key heap (parent i)"
  shows "up_ok (swap heap (parent i) i) (parent i)"
proof -
  let ?p = "parent i"
  have p: "?p < i" "?p < length heap" using parent_less [OF assms(2)] assms(3) by auto
  note K = key_swap [OF p(2) assms(3)]
  have ord: "key heap (parent j) \<le> key heap j" if "0 < j" "j < length heap" "j \<noteq> i" for j
    using assms(1) that by (simp add: up_ok_def)
  have below: "key heap ?p \<le> key heap j" if "0 < j" "j < length heap" "parent j = i" for j
    using assms(1,2) that by (simp add: up_ok_def)
  have "key (swap heap ?p i) (parent j) \<le> key (swap heap ?p i) j"
    if j: "0 < j" "j < length heap" "j \<noteq> ?p" for j
    using ord [OF j(1,2)] below [OF j(1,2)] parent_less [OF j(1)] assms(4) j(3) p(1)
    by (auto simp: K)
  moreover have "key (swap heap ?p i) (parent ?p) \<le> key (swap heap ?p i) j"
    if j: "0 < j" "j < length heap" "parent j = ?p" "0 < ?p" for j
  proof -
    have "key heap (parent ?p) \<le> key heap ?p" using ord [of ?p] p j(4) by simp
    moreover have "key heap ?p \<le> key heap j" if "j \<noteq> i" using ord [OF j(1,2) that] j(3) by simp
    ultimately show ?thesis
      using parent_less [OF j(1)] parent_less [OF j(4)] p(1) j(3) by (auto simp: K)
  qed
  ultimately show ?thesis by (simp add: up_ok_def)
qed

lemma siftUp_ok: "up_ok heap i \<Longrightarrow> i < length heap \<Longrightarrow> heap_ok (siftUp heap i)"
proof (induction heap i rule: siftUp.induct)
  case (1 heap i)
  show ?case
  proof (cases "i = 0 \<or> key heap (parent i) \<le> key heap i")
    case True
    then have "siftUp heap i = heap" by (subst siftUp.simps) auto
    then show ?thesis using True 1(2) by (auto simp: heap_ok_def up_ok_def)
  next
    case False
    then have "siftUp heap i = siftUp (swap heap (parent i) i) (parent i)" by (subst siftUp.simps) auto
    moreover have "heap_ok (siftUp (swap heap (parent i) i) (parent i))"
      using 1(1) up_ok_step [OF 1(2)] False 1(3) parent_less [of i] by auto
    ultimately show ?thesis by simp
  qed
qed

lemma parent_iff: "0 < j \<Longrightarrow> parent j = i \<longleftrightarrow> j = 2 * i + 1 \<or> j = 2 * i + 2"
  by (auto simp: parent_def)

lemma smallestChild_spec:
  "key heap (smallestChild heap i) \<le> key heap i"
  "0 < j \<Longrightarrow> j < length heap \<Longrightarrow> parent j = i \<Longrightarrow> key heap (smallestChild heap i) \<le> key heap j"
  by (auto simp: smallestChild_def Let_def parent_iff)

lemma down_ok_step:
  assumes "down_ok heap i" and "i < length heap" and "smallestChild heap i = c" and "c \<noteq> i"
  shows "down_ok (swap heap c i) c" and "c < length heap"
proof -
  have c: "0 < c" "c < length heap" "parent c = i" "i < c"
    using smallestChild_cases [of heap i] assms(3,4) by (auto simp: parent_def)
  note K = key_swap [OF c(2) assms(2)]
  note S = smallestChild_spec [where heap = heap and i = i, unfolded assms(3)]
  have ord: "key heap (parent j) \<le> key heap j" if "0 < j" "j < length heap" "parent j \<noteq> i" for j
    using assms(1) that by (simp add: down_ok_def)
  have above: "key heap (parent i) \<le> key heap j" if "0 < j" "j < length heap" "parent j = i" "0 < i" for j
    using assms(1) that by (simp add: down_ok_def)
  have "key (swap heap c i) (parent j) \<le> key (swap heap c i) j"
    if j: "0 < j" "j < length heap" "parent j \<noteq> c" for j
    using ord [OF j(1,2)] above [OF c(1-3)] S(1) S(2) [OF j(1,2)] parent_less [OF j(1)] j(3) c
    by (auto simp: K)
  moreover have "key (swap heap c i) (parent c) \<le> key (swap heap c i) j"
    if j: "0 < j" "j < length heap" "parent j = c" for j
    using ord [OF j(1,2)] j(3) c parent_less [OF j(1)] by (auto simp: K)
  ultimately show "down_ok (swap heap c i) c" by (simp add: down_ok_def)
  show "c < length heap" by (rule c(2))
qed

lemma siftDown_ok: "down_ok heap i \<Longrightarrow> i < length heap \<Longrightarrow> heap_ok (siftDown heap i)"
proof (induction heap i rule: siftDown.induct)
  case (1 heap i)
  show ?case
  proof (cases "smallestChild heap i = i")
    case True
    then have "siftDown heap i = heap" by (subst siftDown.simps) (simp add: Let_def)
    moreover have "heap_ok heap"
      using 1(2) smallestChild_spec(2) [where heap = heap and i = i] True by (auto simp: heap_ok_def down_ok_def)
    ultimately show ?thesis by simp
  next
    case False
    then have "siftDown heap i = siftDown (swap heap (smallestChild heap i) i) (smallestChild heap i)"
      by (subst siftDown.simps) (simp add: Let_def)
    with 1(1) [OF refl False] down_ok_step [OF 1(2,3) refl False] show ?thesis by simp
  qed
qed

lemma extractMin_ok:
  assumes "heap_ok heap" and "heap \<noteq> []"
  shows "heap_ok (extractMin heap)"
proof (cases "length heap = 1")
  case True
  then show ?thesis by (cases heap) (auto simp: extractMin_def heap_ok_def)
next
  case False
  let ?rest = "(butlast heap)[0 := last heap]"
  have len: "0 < length (butlast heap)" using False assms(2) by (cases heap) auto
  have "key ?rest (parent j) \<le> key ?rest j" if "0 < j" "j < length ?rest" "parent j \<noteq> 0" for j
    using that assms(1) parent_less [of j] by (auto simp: heap_ok_def nth_butlast)
  then have "down_ok ?rest 0" by (simp add: down_ok_def)
  with len siftDown_ok [of ?rest 0] show ?thesis by (simp add: extractMin_def Let_def)
qed

lemma heap_root_min:
  assumes "heap_ok heap" and "i < length heap"
  shows "key heap 0 \<le> key heap i"
  using assms(2)
proof (induction i rule: less_induct)
  case (less i)
  show ?case
  proof (cases "i = 0")
    case False
    then have "key heap 0 \<le> key heap (parent i)" using less parent_less [of i] by simp
    also have "\<dots> \<le> key heap i" using assms(1) False less.prems by (simp add: heap_ok_def)
    finally show ?thesis .
  qed simp
qed

section \<open>Live entries\<close>

definition fresh_entries :: "(jsstring \<times> nat) list \<Rightarrow> heap_entry list \<Rightarrow> heap_entry set" where
  "fresh_entries live heap = {e \<in> set heap. \<not> isStale live e}"

definition tracker_invar :: "deadline_tracker \<Rightarrow> bool" where
  "tracker_invar t \<longleftrightarrow> heap_ok (dt_heap t) \<and> distinct (map he_generation (dt_heap t))
     \<and> (\<forall>e \<in> set (dt_heap t). 0 < he_generation e \<and> he_generation e < dt_nextGeneration t)
     \<and> distinct (map fst (dt_liveGeneration t))
     \<and> (\<forall>(operationId, g) \<in> set (dt_liveGeneration t).
           \<exists>e \<in> set (dt_heap t). he_operationId e = operationId \<and> he_generation e = g)
     \<and> 0 < dt_nextGeneration t \<and> dt_liveCount t = int (length (dt_liveGeneration t))"

text \<open>The finite map the tracker stands for.\<close>

definition tracked :: "deadline_tracker \<Rightarrow> jsstring \<rightharpoonup> rat" where
  "tracked t = map_of (map (\<lambda>e. (he_operationId e, he_deadline e))
     (filter (\<lambda>e. \<not> isStale (dt_liveGeneration t) e) (dt_heap t)))"

lemma tracker_invarD:
  assumes "tracker_invar t"
  shows "heap_ok (dt_heap t)" and "distinct (map he_generation (dt_heap t))"
    and "e \<in> set (dt_heap t) \<Longrightarrow> 0 < he_generation e" and "e \<in> set (dt_heap t) \<Longrightarrow> he_generation e < dt_nextGeneration t"
    and "distinct (map fst (dt_liveGeneration t))"
    and "map_of (dt_liveGeneration t) i = Some g \<Longrightarrow> \<exists>e \<in> set (dt_heap t). he_operationId e = i \<and> he_generation e = g"
    and "0 < dt_nextGeneration t" and "dt_liveCount t = int (length (dt_liveGeneration t))"
  using assms by (auto simp: tracker_invar_def dest: map_of_SomeD)

lemma isStale_iff:
  "0 < he_generation e \<Longrightarrow> \<not> isStale live e \<longleftrightarrow> map_of live (he_operationId e) = Some (he_generation e)"
  by (auto simp: isStale_def split: option.splits)

lemma generation_inj:
  "distinct (map he_generation heap) \<Longrightarrow> e \<in> set heap \<Longrightarrow> e' \<in> set heap \<Longrightarrow> he_generation e = he_generation e' \<Longrightarrow> e = e'"
  by (meson distinct_map inj_onD)

lemma tracked_iff:
  assumes "tracker_invar t"
  shows "tracked t i = Some d \<longleftrightarrow>
     (\<exists>e \<in> set (dt_heap t). map_of (dt_liveGeneration t) i = Some (he_generation e) \<and> he_operationId e = i \<and> he_deadline e = d)"
proof -
  note D = tracker_invarD [OF assms]
  let ?fresh = "filter (\<lambda>e. \<not> isStale (dt_liveGeneration t) e) (dt_heap t)"
  have live: "\<not> isStale (dt_liveGeneration t) e \<longleftrightarrow> map_of (dt_liveGeneration t) (he_operationId e) = Some (he_generation e)"
    if "e \<in> set (dt_heap t)" for e using isStale_iff D(3) [OF that] by blast
  have "distinct ?fresh" using D(2) by (simp add: distinct_map)
  moreover have "inj_on he_operationId (set ?fresh)"
    using live generation_inj [OF D(2)] by (auto simp: inj_on_def)
  ultimately have dist: "distinct (map fst (map (\<lambda>e. (he_operationId e, he_deadline e)) ?fresh))"
    by (simp add: distinct_map comp_def)
  have "tracked t i = Some d \<longleftrightarrow> (i, d) \<in> set (map (\<lambda>e. (he_operationId e, he_deadline e)) ?fresh)"
    unfolding tracked_def by (rule map_of_eq_Some_iff [OF dist])
  also have "\<dots> \<longleftrightarrow> (\<exists>e \<in> set (dt_heap t). map_of (dt_liveGeneration t) i = Some (he_generation e)
      \<and> he_operationId e = i \<and> he_deadline e = d)"
    using live by auto
  finally show ?thesis .
qed

lemma tracked_dom:
  assumes "tracker_invar t"
  shows "tracked t i = None \<longleftrightarrow> map_of (dt_liveGeneration t) i = None"
proof -
  have "tracked t i \<noteq> None \<longleftrightarrow> map_of (dt_liveGeneration t) i \<noteq> None"
    using tracked_iff [OF assms, of i] tracker_invarD(6) [OF assms, of i] by (metis not_Some_eq)
  then show ?thesis by blast
qed

lemma isLive_tracked: "tracker_invar t \<Longrightarrow> isLive t i \<longleftrightarrow> tracked t i \<noteq> None"
  using tracker_invarD(3,6) [of t] tracked_dom [of t i]
  by (auto simp: isLive_def split: option.splits)

text \<open>Trackers with the same live generations and the same set of live entries stand for the same map.\<close>

lemma tracked_eqI:
  assumes "tracker_invar t" and "tracker_invar t'"
    and "\<And>i d. (\<exists>e \<in> set (dt_heap t'). map_of (dt_liveGeneration t') i = Some (he_generation e) \<and> he_operationId e = i \<and> he_deadline e = d)
         \<longleftrightarrow> m i = Some d"
  shows "tracked t' = m"
proof
  fix i
  show "tracked t' i = m i"
    using tracked_iff [OF assms(2), of i] assms(3) [of i] by (metis not_Some_eq)
qed

section \<open>The operations on live entries\<close>

lemma new_tracker: "tracker_invar newDeadlineTracker" "tracked newDeadlineTracker = Map.empty"
  by (simp_all add: tracker_invar_def newDeadlineTracker_def tracked_def)

lemma alist_update_length:
  "length (AList.update k v xs) = (if k \<in> fst ` set xs then length xs else Suc (length xs))"
  by (induction xs) auto

lemma alist_delete_length:
  "distinct (map fst xs) \<Longrightarrow> k \<in> fst ` set xs \<Longrightarrow> length (AList.delete k xs) = length xs - 1"
proof (induction xs)
  case (Cons x xs)
  show ?case
  proof (cases "fst x = k")
    case True
    with Cons.prems(1) have "AList.delete k (x # xs) = xs"
      by (auto simp: AList.delete_eq filter_id_conv image_iff)
    then show ?thesis by simp
  next
    case False
    with Cons have "0 < length xs" by (cases xs) auto
    with Cons False show ?thesis by (cases x) (auto simp: AList.delete_eq)
  qed
qed simp

lemma map_of_None_iff: "map_of xs k = None \<longleftrightarrow> k \<notin> fst ` set xs"
  by (rule map_of_eq_None_iff)

lemma set_siftUp [simp]: "i < length heap \<Longrightarrow> set (siftUp heap i) = set heap"
  by (metis mset_siftUp set_mset_mset)

lemma up_ok_snoc: "heap_ok heap \<Longrightarrow> up_ok (heap @ [e]) (length heap)"
proof -
  assume h: "heap_ok heap"
  have "key (heap @ [e]) (parent j) \<le> key (heap @ [e]) j" if "0 < j" "j < length heap" for j
    using h that parent_less [of j] by (simp add: heap_ok_def nth_append)
  moreover have "parent j \<noteq> length heap" if "0 < j" "j < Suc (length heap)" for j
    using parent_less [of j] that by simp
  ultimately show ?thesis by (auto simp: up_ok_def less_Suc_eq)
qed

lemma add_spec:
  assumes "tracker_invar t"
  shows "tracker_invar (tracker_add t i d)" and "tracked (tracker_add t i d) = (tracked t)(i \<mapsto> d)"
proof -
  note D = tracker_invarD [OF assms]
  let ?g = "dt_nextGeneration t"
  let ?e = "\<lparr>he_operationId = i, he_deadline = d, he_generation = ?g\<rparr>"
  let ?heap = "siftUp (dt_heap t @ [?e]) (length (dt_heap t))"
  have t': "tracker_add t i d = t\<lparr>dt_nextGeneration := ?g + 1, dt_liveGeneration := AList.update i ?g (dt_liveGeneration t),
      dt_heap := ?heap, dt_liveCount := (if \<not> isLive t i then dt_liveCount t + 1 else dt_liveCount t)\<rparr>"
    by (simp add: tracker_add_def Let_def)
  have perm: "mset ?heap = mset (dt_heap t) + {#?e#}" "set ?heap = insert ?e (set (dt_heap t))" by simp_all
  have gens: "distinct (map he_generation ?heap)"
  proof -
    have "?g \<notin> he_generation ` set (dt_heap t)" using D(4) by fastforce
    then have "distinct (map he_generation (dt_heap t @ [?e]))" using D(2) by simp
    moreover have "mset (map he_generation ?heap) = mset (map he_generation (dt_heap t @ [?e]))"
      by (simp only: mset_map) simp
    ultimately show ?thesis using mset_eq_imp_distinct_iff by blast
  qed
  have newest: "he_generation e \<noteq> ?g" "?g \<noteq> he_generation e" if "e \<in> set (dt_heap t)" for e
    using D(4) [OF that] by simp_all
  have live: "isLive t i \<longleftrightarrow> i \<in> fst ` set (dt_liveGeneration t)"
    using isLive_tracked [OF assms] tracked_dom [OF assms] map_of_None_iff by metis
  have entry: "\<exists>e \<in> set ?heap. he_operationId e = j \<and> he_generation e = g"
    if "(j, g) \<in> set (AList.update i ?g (dt_liveGeneration t))" for j g
  proof -
    have "map_of (AList.update i ?g (dt_liveGeneration t)) j = Some g"
      by (rule map_of_is_SomeI [OF distinct_alist_update [OF D(5)] that])
    then show ?thesis using D(6) [of j g] perm(2) by (auto split: if_splits)
  qed
  show invar: "tracker_invar (tracker_add t i d)"
    unfolding tracker_invar_def t'
    using siftUp_ok [OF up_ok_snoc [OF D(1), of ?e]] gens D(3,4,5,7,8) entry perm(2) live
    by (auto simp: alist_update_length less_SucI)
  show "tracked (tracker_add t i d) = (tracked t)(i \<mapsto> d)"
  proof (rule tracked_eqI [OF assms invar])
    fix j x
    show "(\<exists>e \<in> set (dt_heap (tracker_add t i d)). map_of (dt_liveGeneration (tracker_add t i d)) j = Some (he_generation e)
        \<and> he_operationId e = j \<and> he_deadline e = x) \<longleftrightarrow> ((tracked t)(i \<mapsto> d)) j = Some x"
      using tracked_iff [OF assms, of j x] newest by (auto simp: t' perm(2))
  qed
qed

lemma remove_spec:
  assumes "tracker_invar t"
  shows "tracker_invar (tracker_remove t i)" and "tracked (tracker_remove t i) = (tracked t)(i := None)"
proof -
  note D = tracker_invarD [OF assms]
  show invar: "tracker_invar (tracker_remove t i)"
  proof (cases "isLive t i")
    case True
    then have "i \<in> fst ` set (dt_liveGeneration t)"
      using isLive_tracked [OF assms] tracked_dom [OF assms] map_of_None_iff by metis
    moreover from this have "int (length (AList.delete i (dt_liveGeneration t))) = int (length (dt_liveGeneration t)) - 1"
      using alist_delete_length [OF D(5), of i] by (cases "dt_liveGeneration t") auto
    moreover have "\<exists>e \<in> set (dt_heap t). he_operationId e = j \<and> he_generation e = g"
      if "(j, g) \<in> set (AList.delete i (dt_liveGeneration t))" for j g
      using that D(6) [OF map_of_is_SomeI [OF D(5)], of j g] by (auto simp: AList.delete_eq)
    ultimately show ?thesis
      using D(1-5,7,8) True
      by (auto simp: tracker_invar_def tracker_remove_def)
  qed (use assms in \<open>simp add: tracker_remove_def\<close>)
  show "tracked (tracker_remove t i) = (tracked t)(i := None)"
  proof (cases "isLive t i")
    case True
    show ?thesis
      by (rule tracked_eqI [OF assms invar])
        (use tracked_iff [OF assms] in \<open>auto simp: tracker_remove_def True\<close>)
  next
    case False
    then show ?thesis using isLive_tracked [OF assms, of i] by (auto simp: tracker_remove_def)
  qed
qed

lemma extract_facts:
  assumes "distinct (map he_generation heap)" and "heap \<noteq> []"
  shows "set (extractMin heap) = set heap - {hd heap}" and "distinct (map he_generation (extractMin heap))"
proof -
  have split: "mset heap = add_mset (hd heap) (mset (extractMin heap))"
    using mset_extractMin [OF assms(2)] assms(2) by simp
  then have "mset (map he_generation heap) = mset (map he_generation (hd heap # extractMin heap))" by simp
  then have d: "distinct (map he_generation (hd heap # extractMin heap))"
    using assms(1) mset_eq_imp_distinct_iff by blast
  then show "distinct (map he_generation (extractMin heap))" by simp
  have "set heap = insert (hd heap) (set (extractMin heap))"
    using split by (metis set_mset_add_mset_insert set_mset_mset)
  moreover have "hd heap \<notin> set (extractMin heap)" using d by auto
  ultimately show "set (extractMin heap) = set heap - {hd heap}" by blast
qed

lemma extract_stale:
  assumes "tracker_invar t" and "dt_heap t \<noteq> []" and "isStale (dt_liveGeneration t) (hd (dt_heap t))"
  shows "tracker_invar (t\<lparr>dt_heap := extractMin (dt_heap t)\<rparr>)" and "tracked (t\<lparr>dt_heap := extractMin (dt_heap t)\<rparr>) = tracked t"
proof -
  note D = tracker_invarD [OF assms(1)]
  note E = extract_facts [OF D(2) assms(2)]
  have stale: "map_of (dt_liveGeneration t) (he_operationId (hd (dt_heap t))) \<noteq> Some (he_generation (hd (dt_heap t)))"
    using assms(2,3) D(3) isStale_iff by (meson list.set_sel(1))
  have entry: "\<exists>e \<in> set (extractMin (dt_heap t)). he_operationId e = j \<and> he_generation e = g"
    if "(j, g) \<in> set (dt_liveGeneration t)" for j g
    using D(6) [OF map_of_is_SomeI [OF D(5) that]] stale map_of_is_SomeI [OF D(5) that] E(1) by auto
  show invar: "tracker_invar (t\<lparr>dt_heap := extractMin (dt_heap t)\<rparr>)"
    unfolding tracker_invar_def
    using extractMin_ok [OF D(1) assms(2)] E D(3,4,5,7,8) entry by auto
  show "tracked (t\<lparr>dt_heap := extractMin (dt_heap t)\<rparr>) = tracked t"
  proof (rule tracked_eqI [OF assms(1) invar])
    fix i d
    show "(\<exists>e \<in> set (dt_heap (t\<lparr>dt_heap := extractMin (dt_heap t)\<rparr>)).
        map_of (dt_liveGeneration (t\<lparr>dt_heap := extractMin (dt_heap t)\<rparr>)) i = Some (he_generation e)
        \<and> he_operationId e = i \<and> he_deadline e = d) \<longleftrightarrow> tracked t i = Some d"
      unfolding tracked_iff [OF assms(1)] using stale E(1) by auto
  qed
qed

lemma purge_spec:
  assumes "tracker_invar t"
  defines "t' \<equiv> t\<lparr>dt_heap := purgeTop (dt_liveGeneration t) (dt_heap t)\<rparr>"
  shows "tracker_invar t'" and "tracked t' = tracked t"
    and "dt_heap t' \<noteq> [] \<Longrightarrow> \<not> isStale (dt_liveGeneration t') (hd (dt_heap t'))"
proof -
  have "tracker_invar (t\<lparr>dt_heap := purgeTop (dt_liveGeneration t) (dt_heap t)\<rparr>)
      \<and> tracked (t\<lparr>dt_heap := purgeTop (dt_liveGeneration t) (dt_heap t)\<rparr>) = tracked t
      \<and> (purgeTop (dt_liveGeneration t) (dt_heap t) \<noteq> [] \<longrightarrow>
           \<not> isStale (dt_liveGeneration t) (hd (purgeTop (dt_liveGeneration t) (dt_heap t))))"
    using assms(1)
  proof (induction "length (dt_heap t)" arbitrary: t rule: less_induct)
    case less
    show ?case
    proof (cases "dt_heap t \<noteq> [] \<and> isStale (dt_liveGeneration t) (hd (dt_heap t))")
      case True
      let ?t = "t\<lparr>dt_heap := extractMin (dt_heap t)\<rparr>"
      have "purgeTop (dt_liveGeneration t) (dt_heap t) = purgeTop (dt_liveGeneration t) (extractMin (dt_heap t))"
        using True by (subst purgeTop.simps) (auto simp: hd_conv_nth)
      moreover have "length (dt_heap ?t) < length (dt_heap t)" using True by (simp add: length_extractMin)
      ultimately show ?thesis
        using less.hyps [of ?t] extract_stale [OF less.prems] True by simp
    next
      case False
      then have "purgeTop (dt_liveGeneration t) (dt_heap t) = dt_heap t"
        by (subst purgeTop.simps) (auto simp: hd_conv_nth)
      with False less.prems show ?thesis by auto
    qed
  qed
  then show "tracker_invar t'" and "tracked t' = tracked t"
    and "dt_heap t' \<noteq> [] \<Longrightarrow> \<not> isStale (dt_liveGeneration t') (hd (dt_heap t'))"
    by (simp_all add: t'_def)
qed

lemma root_spec:
  assumes "tracker_invar t" and "dt_heap t \<noteq> []" and "\<not> isStale (dt_liveGeneration t) (hd (dt_heap t))"
  defines "e \<equiv> dt_heap t ! 0"
  shows "tracked t (he_operationId e) = Some (he_deadline e)"
    and "tracked t i = Some d \<Longrightarrow> he_deadline e \<le> d"
    and "tracker_invar (takeRoot t)" and "tracked (takeRoot t) = (tracked t)(he_operationId e := None)"
proof -
  note D = tracker_invarD [OF assms(1)]
  note E = extract_facts [OF D(2) assms(2)]
  have e: "e = hd (dt_heap t)" "e \<in> set (dt_heap t)" using assms(2) by (simp_all add: e_def hd_conv_nth)
  have live: "map_of (dt_liveGeneration t) (he_operationId e) = Some (he_generation e)"
    using assms(3) e D(3) isStale_iff by metis
  then show here: "tracked t (he_operationId e) = Some (he_deadline e)"
    using tracked_iff [OF assms(1)] e(2) by blast
  show "he_deadline e \<le> d" if "tracked t i = Some d"
  proof -
    from that obtain e' where "e' \<in> set (dt_heap t)" "he_deadline e' = d" using tracked_iff [OF assms(1)] by blast
    then show ?thesis using heap_root_min [OF D(1)] by (metis e_def in_set_conv_nth)
  qed
  have entry: "\<exists>x \<in> set (extractMin (dt_heap t)). he_operationId x = j \<and> he_generation x = g"
    if "(j, g) \<in> set (AList.delete (he_operationId e) (dt_liveGeneration t))" for j g
  proof -
    have j: "(j, g) \<in> set (dt_liveGeneration t)" "j \<noteq> he_operationId e" using that by (auto simp: AList.delete_eq)
    from D(6) [OF map_of_is_SomeI [OF D(5) j(1)]] j(2) E(1) e(1) show ?thesis by auto
  qed
  have id: "he_operationId e \<in> fst ` set (dt_liveGeneration t)" using live by (metis map_of_eq_None_iff option.distinct(1))
  then have cnt: "int (length (AList.delete (he_operationId e) (dt_liveGeneration t))) = int (length (dt_liveGeneration t)) - 1"
    using alist_delete_length [OF D(5) id] by (cases "dt_liveGeneration t") auto
  show invar: "tracker_invar (takeRoot t)"
    unfolding tracker_invar_def takeRoot_def
    using extractMin_ok [OF D(1) assms(2)] E D(3,4,5,7,8) entry cnt by (auto simp: e_def)
  show "tracked (takeRoot t) = (tracked t)(he_operationId e := None)"
  proof (rule tracked_eqI [OF assms(1) invar])
    fix i d
    show "(\<exists>x \<in> set (dt_heap (takeRoot t)). map_of (dt_liveGeneration (takeRoot t)) i = Some (he_generation x)
        \<and> he_operationId x = i \<and> he_deadline x = d) \<longleftrightarrow> ((tracked t)(he_operationId e := None)) i = Some d"
      using tracked_iff [OF assms(1), of i d] E(1) e(1) by (auto simp: takeRoot_def e_def [symmetric])
  qed
qed

lemma empty_heap_untracked: "dt_heap t = [] \<Longrightarrow> tracked t = Map.empty"
  by (simp add: tracked_def)

lemma pop_spec:
  assumes "tracker_invar t" and "popMin t = (r, t')"
  shows "tracker_invar t'"
    and "case r of
           None \<Rightarrow> tracked t = Map.empty \<and> tracked t' = Map.empty
         | Some e \<Rightarrow> tracked t (he_operationId e) = Some (he_deadline e)
             \<and> (\<forall>i d. tracked t i = Some d \<longrightarrow> he_deadline e \<le> d)
             \<and> tracked t' = (tracked t)(he_operationId e := None)"
proof -
  note P = purge_spec [OF assms(1)]
  let ?t1 = "t\<lparr>dt_heap := purgeTop (dt_liveGeneration t) (dt_heap t)\<rparr>"
  have pop: "popMin t = (if dt_heap ?t1 = [] then (None, ?t1) else (Some (dt_heap ?t1 ! 0), takeRoot ?t1))"
    by (simp add: popMin_def Let_def)
  have "tracker_invar t' \<and> (case r of
           None \<Rightarrow> tracked t = Map.empty \<and> tracked t' = Map.empty
         | Some e \<Rightarrow> tracked t (he_operationId e) = Some (he_deadline e)
             \<and> (\<forall>i d. tracked t i = Some d \<longrightarrow> he_deadline e \<le> d)
             \<and> tracked t' = (tracked t)(he_operationId e := None))"
  proof (cases "dt_heap ?t1 = []")
    case True
    with assms(2) pop have "r = None" "t' = ?t1" by simp_all
    then show ?thesis using P(1,2) empty_heap_untracked [OF True] by simp
  next
    case False
    with assms(2) pop have r: "r = Some (dt_heap ?t1 ! 0)" "t' = takeRoot ?t1" by simp_all
    note R = root_spec [OF P(1) False P(3) [OF False]]
    show ?thesis using R(1,3,4) R(2) P(2) by (auto simp: r)
  qed
  then show "tracker_invar t'" and "case r of
           None \<Rightarrow> tracked t = Map.empty \<and> tracked t' = Map.empty
         | Some e \<Rightarrow> tracked t (he_operationId e) = Some (he_deadline e)
             \<and> (\<forall>i d. tracked t i = Some d \<longrightarrow> he_deadline e \<le> d)
             \<and> tracked t' = (tracked t)(he_operationId e := None)" by blast+
qed

lemma drain_spec:
  assumes "tracker_invar t" and "drainExpired t now = (es, t')"
  shows "tracker_invar t' \<and> sorted (map he_deadline es) \<and> distinct (map he_operationId es)
    \<and> set (map (\<lambda>e. (he_operationId e, he_deadline e)) es) = {(i, d). tracked t i = Some d \<and> d \<le> now}
    \<and> tracked t' = (\<lambda>i. case tracked t i of Some d \<Rightarrow> if d \<le> now then None else Some d | None \<Rightarrow> None)"
  using assms
proof (induction t now arbitrary: es t' rule: drainExpired.induct)
  case (1 t now)
  let ?t1 = "t\<lparr>dt_heap := purgeTop (dt_liveGeneration t) (dt_heap t)\<rparr>"
  note P = purge_spec [OF 1(2)]
  show ?case
  proof (cases "dt_heap ?t1 = [] \<or> he_deadline (dt_heap ?t1 ! 0) > now")
    case True
    then have r: "es = []" "t' = ?t1" using 1(3) by (subst (asm) drainExpired.simps, auto simp: Let_def)+
    have late: "now < d" if "tracked t i = Some d" for i d
    proof (cases "dt_heap ?t1 = []")
      case True
      from empty_heap_untracked [OF this] P(2) that have "Map.empty i = Some d" by metis
      then show ?thesis by simp
    next
      case False
      with True have "now < he_deadline (dt_heap ?t1 ! 0)" by simp
      also have "\<dots> \<le> d" using root_spec(2) [OF P(1) False P(3) [OF False], of i d] P(2) that by simp
      finally show ?thesis .
    qed
    have "tracked t = (\<lambda>i. case tracked t i of Some d \<Rightarrow> if d \<le> now then None else Some d | None \<Rightarrow> None)"
      by (auto simp: fun_eq_iff dest: late split: option.splits)
    moreover have "{(i, d). tracked t i = Some d \<and> d \<le> now} = {}" by (auto dest: late)
    ultimately show ?thesis using r P(1,2) by simp
  next
    case False
    let ?e = "dt_heap ?t1 ! 0"
    obtain es' t2 where rec: "drainExpired (takeRoot ?t1) now = (es', t2)" by force
    have r: "es = ?e # es'" "t' = t2"
      using 1(3) rec False by (subst (asm) drainExpired.simps, auto simp: Let_def)+
    have ne: "dt_heap ?t1 \<noteq> []" using False by simp
    note R = root_spec [OF P(1) ne P(3) [OF ne], unfolded P(2)]
    have cond: "\<not> (length (dt_heap ?t1) = 0 \<or> now < he_deadline ?e)" using False by simp
    have ih: "tracker_invar t2" "sorted (map he_deadline es')" "distinct (map he_operationId es')"
      "set (map (\<lambda>e. (he_operationId e, he_deadline e)) es')
         = {(i, d). ((tracked t)(he_operationId ?e := None)) i = Some d \<and> d \<le> now}"
      "tracked t2 = (\<lambda>i. case ((tracked t)(he_operationId ?e := None)) i of
          Some d \<Rightarrow> if d \<le> now then None else Some d | None \<Rightarrow> None)"
      using 1(1) [OF refl cond R(3) rec] unfolding R(4) by blast+
    have member: "tracked t (he_operationId x) = Some (he_deadline x) \<and> he_operationId x \<noteq> he_operationId ?e"
      if "x \<in> set es'" for x
    proof -
      have "(he_operationId x, he_deadline x) \<in> set (map (\<lambda>e. (he_operationId e, he_deadline e)) es')"
        using that by auto
      then show ?thesis unfolding ih(4) by (auto split: if_splits)
    qed
    have ordered: "sorted (map he_deadline es)" using ih(2) member R(2) by (auto simp: r(1))
    have "he_operationId ?e \<notin> he_operationId ` set es'" using member by (metis imageE)
    then have distinct: "distinct (map he_operationId es)" using ih(3) by (simp add: r(1))
    have "set (map (\<lambda>e. (he_operationId e, he_deadline e)) es) = {(i, d). tracked t i = Some d \<and> d \<le> now}"
      unfolding r(1) list.map list.set ih(4) using R(1) False by (auto split: if_splits)
    moreover have "tracked t' = (\<lambda>i. case tracked t i of Some d \<Rightarrow> if d \<le> now then None else Some d | None \<Rightarrow> None)"
      unfolding r(2) ih(5) using R(1) False by (auto simp: fun_eq_iff)
    ultimately show ?thesis using ih(1) r(2) ordered distinct by blast
  qed
qed

section \<open>The contract of a deadline index\<close>

text \<open>
  What the visibility scan relies on: adding, removing and draining act on a map from ids to
  deadlines, and a drain hands out exactly the entries that are due.
\<close>

locale deadline_index =
  fixes add :: "'t \<Rightarrow> 'i \<Rightarrow> rat \<Rightarrow> 't" and remove :: "'t \<Rightarrow> 'i \<Rightarrow> 't"
    and drain :: "'t \<Rightarrow> rat \<Rightarrow> ('i \<times> rat) list \<times> 't"
    and good :: "'t \<Rightarrow> bool" and view :: "'t \<Rightarrow> 'i \<rightharpoonup> rat"
  assumes add_law: "good t \<Longrightarrow> good (add t i d) \<and> view (add t i d) = (view t)(i \<mapsto> d)"
    and remove_law: "good t \<Longrightarrow> good (remove t i) \<and> view (remove t i) = (view t)(i := None)"
    and drain_law: "good t \<Longrightarrow> drain t now = (due, t') \<Longrightarrow> good t' \<and> distinct (map fst due)
          \<and> set due = {(i, d). view t i = Some d \<and> d \<le> now}
          \<and> view t' = (\<lambda>i. case view t i of Some d \<Rightarrow> if d \<le> now then None else Some d | None \<Rightarrow> None)"

datatype 'i index_command = Track 'i rat | Untrack 'i | Scan rat

text \<open>Running commands: the reports of the scans, in order, and the final state.\<close>

fun run_index ::
    "('t \<Rightarrow> 'i \<Rightarrow> rat \<Rightarrow> 't) \<Rightarrow> ('t \<Rightarrow> 'i \<Rightarrow> 't) \<Rightarrow> ('t \<Rightarrow> rat \<Rightarrow> ('i \<times> rat) list \<times> 't)
     \<Rightarrow> 't \<Rightarrow> 'i index_command list \<Rightarrow> ('i \<times> rat) list \<times> 't" where
  "run_index add remove drain t [] = ([], t)"
| "run_index add remove drain t (Track i d # cs) = run_index add remove drain (add t i d) cs"
| "run_index add remove drain t (Untrack i # cs) = run_index add remove drain (remove t i) cs"
| "run_index add remove drain t (Scan now # cs) =
     (let t1 = snd (drain t now)
      in (fst (drain t now) @ fst (run_index add remove drain t1 cs), snd (run_index add remove drain t1 cs)))"

fun leaves_alone :: "'i \<Rightarrow> 'i index_command \<Rightarrow> bool" where
  "leaves_alone i (Track j d) = (j \<noteq> i)"
| "leaves_alone i (Untrack j) = (j \<noteq> i)"
| "leaves_alone i (Scan now) = True"

fun scans_before :: "rat \<Rightarrow> 'i index_command \<Rightarrow> bool" where
  "scans_before d (Scan now) = (now < d)"
| "scans_before d c = True"

fun never_tracks :: "'i \<Rightarrow> 'i index_command \<Rightarrow> bool" where
  "never_tracks i (Track j d) = (j \<noteq> i)"
| "never_tracks i c = True"

context deadline_index
begin

abbreviation run where "run \<equiv> run_index add remove drain"

lemma drain_facts:
  assumes "good t"
  shows "good (snd (drain t now))" and "distinct (map fst (fst (drain t now)))"
    and "set (fst (drain t now)) = {(i, d). view t i = Some d \<and> d \<le> now}"
    and "view (snd (drain t now)) = (\<lambda>i. case view t i of Some d \<Rightarrow> if d \<le> now then None else Some d | None \<Rightarrow> None)"
  using drain_law [OF assms, of now "fst (drain t now)" "snd (drain t now)"] by simp_all

lemma run_good: "good t \<Longrightarrow> good (snd (run t cs))"
proof (induction cs arbitrary: t)
  case (Cons c cs)
  show ?case
    using Cons.IH Cons.prems drain_facts(1) [OF Cons.prems] add_law [OF Cons.prems] remove_law [OF Cons.prems]
    by (cases c) (simp_all add: Let_def)
qed simp

lemma run_append: "run t (cs @ cs') = (fst (run t cs) @ fst (run (snd (run t cs)) cs'), snd (run (snd (run t cs)) cs'))"
proof (induction cs arbitrary: t)
  case (Cons c cs)
  then show ?case by (cases c) (simp_all add: Let_def)
qed simp

lemma untracked_silent:
  "good t \<Longrightarrow> view t i = None \<Longrightarrow> list_all (never_tracks i) cs \<Longrightarrow> i \<notin> fst ` set (fst (run t cs))"
proof (induction cs arbitrary: t)
  case (Cons c cs)
  note laws = add_law [OF Cons.prems(1)] remove_law [OF Cons.prems(1)] drain_facts [OF Cons.prems(1)]
  show ?case
  proof (cases c)
    case (Track j d)
    then have "i \<noteq> j" using Cons.prems(3) by auto
    with Track show ?thesis using Cons.IH [of "add t j d"] Cons.prems laws(1) [of j d] by simp
  next
    case (Untrack j)
    then show ?thesis using Cons.IH [of "remove t j"] Cons.prems laws(2) [of j] by simp
  next
    case (Scan now)
    have "i \<notin> fst ` set (fst (drain t now))" using laws(5) [of now] Cons.prems(2) by auto
    moreover have "i \<notin> fst ` set (fst (run (snd (drain t now)) cs))"
      using Cons.IH [of "snd (drain t now)"] Cons.prems laws(3,6) [of now] by simp
    ultimately show ?thesis by (simp add: Scan Let_def image_Un)
  qed
qed simp

lemma pending_kept:
  "good t \<Longrightarrow> view t i = Some d \<Longrightarrow> list_all (leaves_alone i) cs \<Longrightarrow> list_all (scans_before d) cs \<Longrightarrow>
   view (snd (run t cs)) i = Some d \<and> i \<notin> fst ` set (fst (run t cs))"
proof (induction cs arbitrary: t)
  case (Cons c cs)
  note laws = add_law [OF Cons.prems(1)] remove_law [OF Cons.prems(1)] drain_facts [OF Cons.prems(1)]
  show ?case
  proof (cases c)
    case (Track j x)
    then have "i \<noteq> j" using Cons.prems(3) by auto
    with Track show ?thesis using Cons.IH [of "add t j x"] Cons.prems laws(1) [of j x] by simp
  next
    case (Untrack j)
    then have "i \<noteq> j" using Cons.prems(3) by auto
    with Untrack show ?thesis using Cons.IH [of "remove t j"] Cons.prems laws(2) [of j] by simp
  next
    case (Scan now)
    have late: "now < d" using Cons.prems(4) Scan by simp
    have "i \<notin> fst ` set (fst (drain t now))" using laws(5) [of now] Cons.prems(2) late by auto
    moreover have "view (snd (run (snd (drain t now)) cs)) i = Some d
        \<and> i \<notin> fst ` set (fst (run (snd (drain t now)) cs))"
      using Cons.IH [of "snd (drain t now)"] Cons.prems laws(3,6) [of now] late by simp
    ultimately show ?thesis by (simp add: Scan Let_def image_Un)
  qed
qed simp

lemma filter_unique:
  assumes "distinct (map fst xs)" and "(i, d) \<in> set xs"
  shows "filter (\<lambda>r. fst r = i) xs = [(i, d)]"
  using assms
proof (induction xs)
  case (Cons x xs)
  show ?case
  proof (cases "x = (i, d)")
    case True
    with Cons.prems(1) have "filter (\<lambda>r. fst r = i) xs = []" by (auto simp: filter_empty_conv image_iff)
    with True show ?thesis by simp
  next
    case False
    with Cons.prems have "fst x \<noteq> i" by (auto simp: image_iff)
    with False Cons show ?thesis by simp
  qed
qed simp

lemma reported_once:
  assumes "good t" and "view t i = Some d" and "list_all (leaves_alone i) cs" and "list_all (scans_before d) cs"
    and "d \<le> now" and "list_all (never_tracks i) cs'"
  shows "filter (\<lambda>r. fst r = i) (fst (run t (cs @ Scan now # cs'))) = [(i, d)]"
proof -
  let ?t1 = "snd (run t cs)" let ?t2 = "snd (drain ?t1 now)"
  have t1: "good ?t1" "view ?t1 i = Some d" "i \<notin> fst ` set (fst (run t cs))"
    using run_good [OF assms(1)] pending_kept [OF assms(1-4)] by auto
  note L = drain_facts [OF t1(1), of now]
  have "view ?t2 i = None" using L(4) t1(2) assms(5) by simp
  then have "i \<notin> fst ` set (fst (run ?t2 cs'))" using untracked_silent L(1) assms(6) by blast
  with t1(3) have "filter (\<lambda>r. fst r = i) (fst (run ?t2 cs')) = []" "filter (\<lambda>r. fst r = i) (fst (run t cs)) = []"
    by (auto simp: filter_empty_conv)
  moreover have "filter (\<lambda>r. fst r = i) (fst (drain ?t1 now)) = [(i, d)]"
    by (rule filter_unique [OF L(2)]) (use L(3) t1(2) assms(5) in simp)
  ultimately show ?thesis by (simp add: run_append Let_def)
qed

end

text \<open>The tracker fulfils the contract; a drained entry is reported as its id and deadline.\<close>

definition drainReport :: "deadline_tracker \<Rightarrow> rat \<Rightarrow> (jsstring \<times> rat) list \<times> deadline_tracker" where
  "drainReport t now = (let (es, t') = drainExpired t now in (map (\<lambda>e. (he_operationId e, he_deadline e)) es, t'))"

interpretation tracker: deadline_index tracker_add tracker_remove drainReport tracker_invar tracked
proof
  fix t :: deadline_tracker and now due t'
  assume good: "tracker_invar t" and drain: "drainReport t now = (due, t')"
  obtain es where es: "drainExpired t now = (es, t')" "due = map (\<lambda>e. (he_operationId e, he_deadline e)) es"
    using drain by (auto simp: drainReport_def split: prod.splits)
  from drain_spec [OF good es(1)] show "tracker_invar t' \<and> distinct (map fst due)
      \<and> set due = {(i, d). tracked t i = Some d \<and> d \<le> now}
      \<and> tracked t' = (\<lambda>i. case tracked t i of Some d \<Rightarrow> if d \<le> now then None else Some d | None \<Rightarrow> None)"
    by (simp add: es(2) comp_def)
qed (use add_spec remove_spec in blast)+

section \<open>Properties of the deadline tracker\<close>

text \<open>
  C10: the heap with generation stamps implements a map from operation ids to deadlines.
  \<open>add\<close> overwrites, \<open>remove\<close> deletes, \<open>popMin\<close> takes an entry with the least deadline,
  \<open>drainExpired\<close> returns exactly the entries due at \<open>now\<close>, earliest first and each once, and
  \<open>size\<close> counts the entries; every operation keeps the heap and generation invariant.
\<close>

theorem tracker_refines_map:
  assumes "tracker_invar t"
  shows "tracked (tracker_add t i d) = (tracked t)(i \<mapsto> d) \<and> tracker_invar (tracker_add t i d)
    \<and> tracked (tracker_remove t i) = (tracked t)(i := None) \<and> tracker_invar (tracker_remove t i)
    \<and> (\<forall>r t'. popMin t = (r, t') \<longrightarrow> tracker_invar t' \<and>
         (case r of None \<Rightarrow> tracked t = Map.empty
          | Some e \<Rightarrow> tracked t (he_operationId e) = Some (he_deadline e)
              \<and> (\<forall>j x. tracked t j = Some x \<longrightarrow> he_deadline e \<le> x)
              \<and> tracked t' = (tracked t)(he_operationId e := None)))
    \<and> (\<forall>now es t'. drainExpired t now = (es, t') \<longrightarrow> tracker_invar t' \<and> sorted (map he_deadline es)
         \<and> distinct (map he_operationId es)
         \<and> set (map (\<lambda>e. (he_operationId e, he_deadline e)) es) = {(j, x). tracked t j = Some x \<and> x \<le> now}
         \<and> tracked t' = (\<lambda>j. case tracked t j of Some x \<Rightarrow> if x \<le> now then None else Some x | None \<Rightarrow> None))
    \<and> tracker_size t = int (card (dom (tracked t)))"
proof -
  have "dom (tracked t) = fst ` set (dt_liveGeneration t)"
    using tracked_dom [OF assms] map_of_None_iff [of "dt_liveGeneration t"] by (auto simp: dom_def)
  then have size: "tracker_size t = int (card (dom (tracked t)))"
    using tracker_invarD(5,8) [OF assms] by (metis distinct_card length_map list.set_map tracker_size_def)
  have pop: "tracker_invar t' \<and> (case r of None \<Rightarrow> tracked t = Map.empty
      | Some e \<Rightarrow> tracked t (he_operationId e) = Some (he_deadline e)
          \<and> (\<forall>j x. tracked t j = Some x \<longrightarrow> he_deadline e \<le> x)
          \<and> tracked t' = (tracked t)(he_operationId e := None))" if "popMin t = (r, t')" for r t'
    using pop_spec [OF assms that] by (cases r) auto
  show ?thesis
    using add_spec [OF assms] remove_spec [OF assms] pop drain_spec [OF assms] size by blast
qed

definition demo_tracker :: deadline_tracker where
  "demo_tracker = tracker_add (tracker_add (tracker_add newDeadlineTracker [97] 30) [98] 10) [97] 5"

lemma demo_tracker: "tracker_invar demo_tracker" "tracked demo_tracker = [[97] \<mapsto> 5, [98] \<mapsto> 10]"
  using new_tracker by (simp_all add: demo_tracker_def add_spec fun_upd_twist)

theorem tracker_refines_map_witness:
  "tracker_size demo_tracker = 2 \<and> tracked (tracker_remove demo_tracker [97]) = [[98] \<mapsto> 10]"
proof -
  have "card (dom [[97 :: 16 word] \<mapsto> (5 :: rat), [98] \<mapsto> 10]) = 2" by simp
  then show ?thesis
    using tracker_refines_map [OF demo_tracker(1), of "[97]" 0] by (simp add: demo_tracker(2) fun_upd_twist)
qed

text \<open>
  A tracked deadline is reported exactly once. An entry that nobody re-adds or removes is
  in no report of the scans before its deadline, is in the report of the first scan at or after
  it, and is never reported again unless it is added again, whatever happens to other entries.
\<close>

lemma deadline_reported_once:
  assumes "tracker_invar t" and "tracked t i = Some d" and "list_all (leaves_alone i) cs"
    and "list_all (scans_before d) cs" and "d \<le> now" and "list_all (never_tracks i) cs'"
  shows "filter (\<lambda>r. fst r = i)
           (fst (run_index tracker_add tracker_remove drainReport t (cs @ Scan now # cs'))) = [(i, d)]"
  by (rule tracker.reported_once [OF assms])

end
