(* ===== verification/Task_Queue.thy ===== *)
theory Task_Queue
  imports Weft_Prelude
begin

text \<open>
  The in-memory task queue for long-poll workers: \<open>src/src/server/task-queue.ts\<close>,
  \<open>src/src/server/task-queue-types.ts\<close> and \<open>src/src/server/task-queue-summary.ts\<close>.

  A parked poll is named by a number, which stands for the identity of its waiter object; a
  completion callback is named by a number too. Settling a promise and invoking a callback are
  effects an operation returns. Timers are state: \<open>tq_expirationTimers\<close> maps an id with a
  running expiration timer to the queue the timer was started for, and its firing is the
  operation \<open>expireTask\<close>; the timeout or abort of a parked poll is the operation
  \<open>settleWaiter\<close>. \<open>now\<close> is \<open>Date.now()\<close>.
\<close>

section \<open>State\<close>

text \<open>
  \<open>pt_payload\<close> stands for the fields of a task the queue never reads (its input, attempt, retry
  policy, headers and lifecycle fields), \<open>tr_value\<close> for the value of a result. The text of an
  error message is not part of the model.
\<close>

datatype scheduling_policy = Priority | Fifo | Lifo

record pending_task =
  pt_operationId :: jsstring
  pt_activityName :: jsstring
  pt_enqueuedAt :: "rat option"
  pt_priority :: "rat option"
  pt_payload :: jsval

record waiter =
  wt_poll :: nat
  wt_activities :: "jsstring list"

datatype task_status = TaskCompleted | TaskFailed

record task_result =
  tr_operationId :: jsstring
  tr_status :: task_status
  tr_value :: jsval

datatype queue_effect =
    Settled nat "pending_task option"
  | CalledBack nat task_result

record task_queue =
  tq_pending :: "(jsstring \<times> pending_task list) list"
  tq_waiters :: "(jsstring \<times> waiter list) list"
  tq_completionCallbacks :: "(jsstring \<times> nat) list"
  tq_dispatched :: "jsstring list"
  tq_expirationTimers :: "(jsstring \<times> jsstring) list"
  tq_pendingTaskTimeToLive :: jsnum
  tq_schedulingPolicy :: scheduling_policy

definition DEFAULT_PENDING_TASK_TTL :: rat where "DEFAULT_PENDING_TASK_TTL = 5 * 60 * 1000"

definition newTaskQueue :: "jsnum option \<Rightarrow> scheduling_policy option \<Rightarrow> task_queue" where
  "newTaskQueue ttl policy =
     \<lparr>tq_pending = [], tq_waiters = [], tq_completionCallbacks = [], tq_dispatched = [],
      tq_expirationTimers = [],
      tq_pendingTaskTimeToLive = (case ttl of Some t \<Rightarrow> t | None \<Rightarrow> JFin DEFAULT_PENDING_TASK_TTL),
      tq_schedulingPolicy = (case policy of Some p \<Rightarrow> p | None \<Rightarrow> Priority)\<rparr>"

text \<open>\<open>map.get(queue) ?? []\<close>, and storing a list back, with the key deleted when it is empty.\<close>

definition at_queue :: "(jsstring \<times> 'a list) list \<Rightarrow> jsstring \<Rightarrow> 'a list" where
  "at_queue m queue = (case map_of m queue of Some xs \<Rightarrow> xs | None \<Rightarrow> [])"

definition put_or_delete :: "jsstring \<Rightarrow> 'a list \<Rightarrow> (jsstring \<times> 'a list) list \<Rightarrow> (jsstring \<times> 'a list) list" where
  "put_or_delete queue xs m = (if length xs = 0 then AList.delete queue m else AList.update queue xs m)"

section \<open>Operations\<close>

definition taskPriority :: "pending_task \<Rightarrow> rat" where
  "taskPriority task = (case pt_priority task of Some p \<Rightarrow> p | None \<Rightarrow> 0)"

definition insertByPolicy :: "pending_task list \<Rightarrow> pending_task \<Rightarrow> scheduling_policy \<Rightarrow> pending_task list" where
  "insertByPolicy tasks task policy =
     (if length tasks = 0 then [task]
      else case policy of
        Fifo \<Rightarrow> tasks @ [task]
      | Lifo \<Rightarrow> task # tasks
      | Priority \<Rightarrow>
          (case find_index (\<lambda>existing. taskPriority existing < taskPriority task) tasks of
             None \<Rightarrow> tasks @ [task]
           | Some insertAt \<Rightarrow> insert_at insertAt task tasks))"

definition ttlEnabled :: "jsnum \<Rightarrow> bool" where
  "ttlEnabled ttl = (case ttl of JFin t \<Rightarrow> \<not> t \<le> 0 | _ \<Rightarrow> False)"

definition scheduleExpiration :: "task_queue \<Rightarrow> jsstring \<Rightarrow> jsstring \<Rightarrow> task_queue" where
  "scheduleExpiration q queue operationId =
     (if \<not> ttlEnabled (tq_pendingTaskTimeToLive q) then q
      else q\<lparr>tq_expirationTimers := AList.update operationId queue (tq_expirationTimers q)\<rparr>)"

definition cancelExpiration :: "task_queue \<Rightarrow> jsstring \<Rightarrow> task_queue" where
  "cancelExpiration q operationId = q\<lparr>tq_expirationTimers := AList.delete operationId (tq_expirationTimers q)\<rparr>"

definition enqueue ::
    "task_queue \<Rightarrow> jsstring \<Rightarrow> pending_task \<Rightarrow> nat option \<Rightarrow> rat \<Rightarrow> bool \<times> queue_effect list \<times> task_queue" where
  "enqueue q queue task0 onComplete now =
     (if pt_operationId task0 \<in> set (tq_dispatched q) then (False, [], q)
      else
        let operationId = pt_operationId task0;
            task = (case pt_enqueuedAt task0 of None \<Rightarrow> task0\<lparr>pt_enqueuedAt := Some now\<rparr> | Some _ \<Rightarrow> task0);
            q1 = q\<lparr>tq_dispatched := tq_dispatched q @ [operationId],
                   tq_completionCallbacks :=
                     (case onComplete of None \<Rightarrow> tq_completionCallbacks q
                      | Some f \<Rightarrow> AList.update operationId f (tq_completionCallbacks q))\<rparr>;
            waiters = at_queue (tq_waiters q1) queue
        in case find_index (\<lambda>w. pt_activityName task \<in> set (wt_activities w)) waiters of
             Some index \<Rightarrow>
               (True, [Settled (wt_poll (waiters ! index)) (Some task)],
                q1\<lparr>tq_waiters := put_or_delete queue (remove_at index waiters) (tq_waiters q1)\<rparr>)
           | None \<Rightarrow>
               (True, [],
                scheduleExpiration
                  (q1\<lparr>tq_pending := AList.update queue
                        (insertByPolicy (at_queue (tq_pending q1) queue) task (tq_schedulingPolicy q1))
                        (tq_pending q1)\<rparr>)
                  queue operationId))"

text \<open>A poll answers at once (with a task, or with \<open>null\<close> for an aborted signal) or parks.\<close>

datatype poll_outcome = Immediate "pending_task option" | Parked

definition poll ::
    "task_queue \<Rightarrow> jsstring \<Rightarrow> jsstring list \<Rightarrow> bool \<Rightarrow> nat \<Rightarrow> poll_outcome \<times> task_queue" where
  "poll q queue activities aborted pollId =
     (if aborted then (Immediate None, q)
      else
        let tasks = at_queue (tq_pending q) queue
        in case find_index (\<lambda>t. pt_activityName t \<in> set activities) tasks of
             Some index \<Rightarrow>
               (Immediate (Some (tasks ! index)),
                cancelExpiration
                  (q\<lparr>tq_pending := put_or_delete queue (remove_at index tasks) (tq_pending q)\<rparr>)
                  (pt_operationId (tasks ! index)))
           | None \<Rightarrow>
               (Parked, q\<lparr>tq_waiters := AList.update queue
                  (at_queue (tq_waiters q) queue @ [\<lparr>wt_poll = pollId, wt_activities = activities\<rparr>])
                  (tq_waiters q)\<rparr>))"

text \<open>\<open>settle(null)\<close> of a parked poll, on its timeout or on abort.\<close>

definition settleWaiter :: "task_queue \<Rightarrow> jsstring \<Rightarrow> nat \<Rightarrow> queue_effect list \<times> task_queue" where
  "settleWaiter q queue pollId =
     (let waiters = at_queue (tq_waiters q) queue
      in case find_index (\<lambda>w. wt_poll w = pollId) waiters of
           None \<Rightarrow> ([], q)
         | Some idx \<Rightarrow>
             ([Settled pollId None],
              q\<lparr>tq_waiters := put_or_delete queue (remove_at idx waiters) (tq_waiters q)\<rparr>))"

definition takeCallback :: "task_queue \<Rightarrow> task_result \<Rightarrow> queue_effect list \<times> task_queue" where
  "takeCallback q result =
     (case map_of (tq_completionCallbacks q) (tr_operationId result) of
        None \<Rightarrow> ([], q)
      | Some f \<Rightarrow>
          ([CalledBack f result],
           q\<lparr>tq_completionCallbacks := AList.delete (tr_operationId result) (tq_completionCallbacks q)\<rparr>))"

definition complete :: "task_queue \<Rightarrow> task_result \<Rightarrow> bool \<times> queue_effect list \<times> task_queue" where
  "complete q result =
     (let q1 = cancelExpiration q (tr_operationId result);
          q2 = q1\<lparr>tq_dispatched := removeAll (tr_operationId result) (tq_dispatched q1)\<rparr>;
          (effects, q3) = takeCallback q2 result
      in (effects \<noteq> [], effects, q3))"

definition timeoutResult :: "jsstring \<Rightarrow> task_result" where
  "timeoutResult operationId = \<lparr>tr_operationId = operationId, tr_status = TaskFailed, tr_value = JUndefined\<rparr>"

definition expireTask :: "task_queue \<Rightarrow> jsstring \<Rightarrow> jsstring \<Rightarrow> queue_effect list \<times> task_queue" where
  "expireTask q queue operationId =
     (let q1 = cancelExpiration q operationId;
          tasks = at_queue (tq_pending q1) queue;
          q2 = (case find_index (\<lambda>t. pt_operationId t = operationId) tasks of
                  None \<Rightarrow> q1
                | Some index \<Rightarrow> q1\<lparr>tq_pending := put_or_delete queue (remove_at index tasks) (tq_pending q1)\<rparr>);
          q3 = q2\<lparr>tq_dispatched := removeAll operationId (tq_dispatched q2)\<rparr>
      in takeCallback q3 (timeoutResult operationId))"

text \<open>The effects \<open>dispose\<close> has: every parked poll is settled with \<open>null\<close>, no callback runs.\<close>

definition disposeQueue :: "task_queue \<Rightarrow> queue_effect list \<times> task_queue" where
  "disposeQueue q =
     (map (\<lambda>w. Settled (wt_poll w) None) (concat (map snd (tq_waiters q))),
      q\<lparr>tq_expirationTimers := [], tq_waiters := [], tq_pending := [], tq_completionCallbacks := [],
        tq_dispatched := []\<rparr>)"

definition isTracked :: "task_queue \<Rightarrow> jsstring \<Rightarrow> bool" where
  "isTracked q operationId = (operationId \<in> set (tq_dispatched q))"

definition hasWaiter :: "task_queue \<Rightarrow> jsstring \<Rightarrow> jsstring \<Rightarrow> bool" where
  "hasWaiter q queue activityName =
     (\<exists>w \<in> set (at_queue (tq_waiters q) queue). activityName \<in> set (wt_activities w))"

definition pendingCount :: "task_queue \<Rightarrow> jsstring \<Rightarrow> nat" where
  "pendingCount q queue = length (at_queue (tq_pending q) queue)"

definition totalPendingCount :: "task_queue \<Rightarrow> nat" where
  "totalPendingCount q = foldl (\<lambda>n (_, tasks). n + length tasks) 0 (tq_pending q)"

definition peekPending :: "task_queue \<Rightarrow> jsstring \<Rightarrow> pending_task list" where
  "peekPending q queue = at_queue (tq_pending q) queue"

text \<open>The bookkeeping of \<open>removeStale\<close> for one task.\<close>

definition dropStaleTask :: "pending_task \<Rightarrow> queue_effect list \<times> task_queue \<Rightarrow> queue_effect list \<times> task_queue" where
  "dropStaleTask task acc =
     (let (effects, q) = acc;
          q1 = cancelExpiration q (pt_operationId task);
          q2 = q1\<lparr>tq_dispatched := removeAll (pt_operationId task) (tq_dispatched q1)\<rparr>;
          (called, q3) = takeCallback q2 (timeoutResult (pt_operationId task))
      in (effects @ called, q3))"

definition isStaleTask :: "rat \<Rightarrow> pending_task \<Rightarrow> bool" where
  "isStaleTask cutoff task = ((case pt_enqueuedAt task of Some t \<Rightarrow> t | None \<Rightarrow> 0) < cutoff)"

definition removeStale ::
    "task_queue \<Rightarrow> jsnum \<Rightarrow> rat \<Rightarrow> unit + (pending_task list \<times> queue_effect list \<times> task_queue)" where
  "removeStale q maxAge now =
     (case maxAge of
        JFin age \<Rightarrow>
          if age < 0 then Inl ()
          else
            let cutoff = now - age;
                stale = concat (map (\<lambda>(_, tasks). filter (isStaleTask cutoff) tasks) (tq_pending q));
                remaining = List.map_filter (\<lambda>(queue, tasks).
                  case filter (\<lambda>t. \<not> isStaleTask cutoff t) tasks of [] \<Rightarrow> None | ts \<Rightarrow> Some (queue, ts)) (tq_pending q);
                (effects, q') = fold dropStaleTask stale ([], q\<lparr>tq_pending := remaining\<rparr>)
            in Inr (stale, effects, q')
      | _ \<Rightarrow> Inl ())"

section \<open>Summaries\<close>

record task_queue_summary =
  qs_queue :: jsstring
  qs_backlog :: nat
  qs_oldestEnqueuedAt :: "rat option"
  qs_waitingPollers :: nat
  qs_schedulingPolicy :: scheduling_policy

fun oldestEnqueuedAt :: "rat option \<Rightarrow> rat option list \<Rightarrow> rat option" where
  "oldestEnqueuedAt oldest [] = oldest"
| "oldestEnqueuedAt oldest (None # ts) = oldestEnqueuedAt oldest ts"
| "oldestEnqueuedAt oldest (Some t # ts) =
     oldestEnqueuedAt (case oldest of None \<Rightarrow> Some t | Some o' \<Rightarrow> if t < o' then Some t else Some o') ts"

definition buildQueueSummaries :: "task_queue \<Rightarrow> task_queue_summary list" where
  "buildQueueSummaries q =
     (let fromPending = fold (\<lambda>(queue, tasks) m. AList.update queue
            \<lparr>qs_queue = queue, qs_backlog = length tasks,
             qs_oldestEnqueuedAt = oldestEnqueuedAt None (map pt_enqueuedAt tasks),
             qs_waitingPollers = 0, qs_schedulingPolicy = tq_schedulingPolicy q\<rparr> m) (tq_pending q) [];
          withWaiters = fold (\<lambda>(queue, waiters) m.
            AList.update queue
              (case map_of m queue of
                 None \<Rightarrow> \<lparr>qs_queue = queue, qs_backlog = 0, qs_oldestEnqueuedAt = None,
                           qs_waitingPollers = length waiters, qs_schedulingPolicy = tq_schedulingPolicy q\<rparr>
               | Some existing \<Rightarrow> existing\<lparr>qs_waitingPollers := length waiters\<rparr>) m) (tq_waiters q) fromPending
      in sort_key qs_queue (map snd withWaiters))"

section \<open>Order within a queue\<close>

lemma mset_insertByPolicy: "mset (insertByPolicy tasks task policy) = add_mset task (mset tasks)"
  by (simp add: insertByPolicy_def mset_insert_at split: scheduling_policy.splits option.splits)

lemma set_insertByPolicy [simp]: "set (insertByPolicy tasks task policy) = insert task (set tasks)"
  by (metis mset_insertByPolicy set_mset_add_mset_insert set_mset_mset)

abbreviation by_priority :: "pending_task list \<Rightarrow> bool" where
  "by_priority tasks \<equiv> sorted_wrt (\<lambda>a b. taskPriority b \<le> taskPriority a) tasks"

lemma find_index_split:
  assumes "find_index P xs = Some i"
  obtains ys y zs where "xs = ys @ y # zs" and "length ys = i" and "P y" and "\<And>x. x \<in> set ys \<Longrightarrow> \<not> P x"
proof -
  note F = find_index_SomeD [OF assms]
  show ?thesis
  proof (rule that [of "take i xs" "xs ! i" "drop (Suc i) xs"])
    show "xs = take i xs @ xs ! i # drop (Suc i) xs" using F(1) by (simp add: id_take_nth_drop)
    show "\<not> P x" if "x \<in> set (take i xs)" for x
      using that F(3) by (auto simp: in_set_conv_nth)
  qed (use F in auto)
qed

lemma insert_priority_split:
  assumes "tasks \<noteq> []"
  obtains ys zs where "tasks = ys @ zs" and "insertByPolicy tasks task Priority = ys @ task # zs"
    and "\<And>x. x \<in> set ys \<Longrightarrow> taskPriority task \<le> taskPriority x"
    and "zs \<noteq> [] \<Longrightarrow> taskPriority (hd zs) < taskPriority task"
proof (cases "find_index (\<lambda>existing. taskPriority existing < taskPriority task) tasks")
  case None
  have "\<not> taskPriority x < taskPriority task" if "x \<in> set tasks" for x
    using None that unfolding find_index_None_iff by blast
  then have ge: "taskPriority task \<le> taskPriority x" if "x \<in> set tasks" for x
    using that by (meson not_less)
  show ?thesis
  proof (rule that [of tasks "[]"])
    show "insertByPolicy tasks task Priority = tasks @ [task]"
      using None assms by (simp add: insertByPolicy_def)
  qed (use ge in simp_all)
next
  case (Some i)
  then obtain ys y zs where f: "tasks = ys @ y # zs" "length ys = i" "taskPriority y < taskPriority task"
    "\<And>x. x \<in> set ys \<Longrightarrow> \<not> taskPriority x < taskPriority task"
    by (elim find_index_split) blast
  then show ?thesis
    using Some that [of ys "y # zs"] by (auto simp: insertByPolicy_def insert_at_def not_less)
qed

lemma insert_priority_sorted:
  assumes "by_priority tasks"
  shows "by_priority (insertByPolicy tasks task Priority)"
proof (cases "tasks = []")
  case False
  then obtain ys zs where s: "tasks = ys @ zs" "insertByPolicy tasks task Priority = ys @ task # zs"
    "\<And>x. x \<in> set ys \<Longrightarrow> taskPriority task \<le> taskPriority x"
    "zs \<noteq> [] \<Longrightarrow> taskPriority (hd zs) < taskPriority task" by (elim insert_priority_split) blast
  have below: "taskPriority x \<le> taskPriority task" if x: "x \<in> set zs" for x
  proof -
    have zs: "by_priority zs" using assms s(1) by (simp add: sorted_wrt_append)
    have "taskPriority x \<le> taskPriority (hd zs)" using zs x by (cases zs) auto
    with s(4) x show ?thesis by (cases zs) auto
  qed
  have "taskPriority x \<le> taskPriority y" if "y \<in> set ys" "x \<in> set zs" for x y
    using assms s(1) that by (simp add: sorted_wrt_append)
  then show ?thesis
    using assms s(1,3) below unfolding s(2) by (auto simp: sorted_wrt_append)
qed (simp add: insertByPolicy_def)

lemma insert_priority_fifo:
  assumes "by_priority tasks"
  shows "filter (\<lambda>t. taskPriority t = p) (insertByPolicy tasks task Priority)
    = filter (\<lambda>t. taskPriority t = p) tasks @ (if taskPriority task = p then [task] else [])"
proof (cases "tasks = []")
  case False
  then obtain ys zs where s: "tasks = ys @ zs" "insertByPolicy tasks task Priority = ys @ task # zs"
    "zs \<noteq> [] \<Longrightarrow> taskPriority (hd zs) < taskPriority task" by (elim insert_priority_split) blast
  have "filter (\<lambda>t. taskPriority t = p) zs = []" if "taskPriority task = p"
  proof -
    have "taskPriority x < p" if x: "x \<in> set zs" for x
    proof -
      have "by_priority zs" using assms s(1) by (simp add: sorted_wrt_append)
      then have "taskPriority x \<le> taskPriority (hd zs)" using x by (cases zs) auto
      also have "\<dots> < p" using s(3) x \<open>taskPriority task = p\<close> by (cases zs) auto
      finally show ?thesis .
    qed
    then show ?thesis by (auto simp: filter_empty_conv)
  qed
  then show ?thesis unfolding s(2) unfolding s(1) by auto
qed (simp add: insertByPolicy_def)

section \<open>Queues as maps\<close>

lemma at_queue_update [simp]: "at_queue (AList.update k xs m) j = (if j = k then xs else at_queue m j)"
  by (simp add: at_queue_def)

lemma at_queue_put_or_delete [simp]: "at_queue (put_or_delete k xs m) j = (if j = k then xs else at_queue m j)"
  by (auto simp: at_queue_def put_or_delete_def)

lemma distinct_put_or_delete [simp]:
  "distinct (map fst m) \<Longrightarrow> distinct (map fst (put_or_delete k xs m))"
  by (simp add: put_or_delete_def distinct_alist_update distinct_alist_delete)

definition all_tasks :: "(jsstring \<times> 'a list) list \<Rightarrow> 'a list" where
  "all_tasks m = concat (map snd m)"

lemma at_queue_all_tasks: "x \<in> set (at_queue m k) \<Longrightarrow> x \<in> set (all_tasks m)"
  by (cases "map_of m k") (use map_of_SomeD [of m k] in \<open>force simp: at_queue_def all_tasks_def\<close>)+

lemma alist_delete_notin: "k \<notin> fst ` set m \<Longrightarrow> AList.delete k m = m"
  by (auto simp: AList.delete_eq filter_id_conv image_iff)

lemma at_queue_Cons: "at_queue (x # m) k = (if fst x = k then snd x else at_queue m k)"
  by (cases x) (simp add: at_queue_def)

lemma at_queue_notin: "k \<notin> fst ` set m \<Longrightarrow> at_queue m k = []"
  by (simp add: at_queue_def map_of_eq_None_iff [THEN iffD2] split: option.splits)

lemma all_tasks_update:
  "distinct (map fst m) \<Longrightarrow>
   mset (all_tasks (AList.update k xs m)) + mset (at_queue m k) = mset (all_tasks m) + mset xs"
proof (induction m)
  case (Cons x m)
  then show ?case
    by (cases x) (auto simp: all_tasks_def at_queue_Cons at_queue_notin ac_simps)
qed (simp add: all_tasks_def at_queue_def)

lemma all_tasks_delete:
  "distinct (map fst m) \<Longrightarrow> mset (all_tasks (AList.delete k m)) + mset (at_queue m k) = mset (all_tasks m)"
proof (induction m)
  case (Cons x m)
  show ?case
  proof (cases "fst x = k")
    case True
    then have "k \<notin> fst ` set m" using Cons.prems by auto
    then show ?thesis
      using True by (cases x) (simp add: all_tasks_def at_queue_Cons alist_delete_notin)
  next
    case False
    then show ?thesis
      using Cons by (cases x) (simp add: all_tasks_def at_queue_Cons ac_simps)
  qed
qed (simp add: all_tasks_def at_queue_def)

lemma all_tasks_put_or_delete:
  "distinct (map fst m) \<Longrightarrow>
   mset (all_tasks (put_or_delete k xs m)) + mset (at_queue m k) = mset (all_tasks m) + mset xs"
  using all_tasks_update [of m k xs] all_tasks_delete [of m k] by (auto simp: put_or_delete_def)

text \<open>Taking one task out of its queue.\<close>

lemma all_tasks_take:
  assumes "distinct (map fst m)" and "i < length (at_queue m k)"
  shows "mset (at_queue m k ! i # all_tasks (put_or_delete k (remove_at i (at_queue m k)) m)) = mset (all_tasks m)"
proof -
  have "mset (all_tasks (put_or_delete k (remove_at i (at_queue m k)) m)) + mset (at_queue m k)
    = mset (all_tasks m) + mset (remove_at i (at_queue m k))"
    by (rule all_tasks_put_or_delete [OF assms(1)])
  moreover have "mset (at_queue m k) = mset (remove_at i (at_queue m k)) + {#at_queue m k ! i#}"
    by (rule mset_remove_at [OF assms(2), symmetric])
  ultimately show ?thesis by simp
qed

lemma all_tasks_insert:
  assumes "distinct (map fst m)"
  shows "mset (all_tasks (AList.update k (insertByPolicy (at_queue m k) task policy) m)) = mset (task # all_tasks m)"
  using all_tasks_update [OF assms, of k "insertByPolicy (at_queue m k) task policy"]
  by (simp add: mset_insertByPolicy)

section \<open>The states of a queue in use\<close>

text \<open>
  A run of the queue: any sequence of its operations, with the expiration timers firing for
  entries of the timer map, until the queue is disposed of. \<open>out\<close> is the set of the operation ids
  handed to a worker and not reported since. \<open>complete\<close> has no guard: any caller may report any
  id, also one nobody was given. \<open>early\<close> collects the ids that were reported while still pending:
  such a report drops the id from the tracking and its timer, and leaves the task in its queue.

  A completion callback runs last in \<open>complete\<close> and in \<open>expireTask\<close>, so that what it does to the
  queue is the next step of the run. In \<open>removeStale\<close> callbacks run inside the loop; a callback that
  calls back into the queue from there is not covered.
\<close>

fun delivered_ids :: "queue_effect list \<Rightarrow> jsstring set" where
  "delivered_ids [] = {}"
| "delivered_ids (Settled _ (Some t) # es) = insert (pt_operationId t) (delivered_ids es)"
| "delivered_ids (_ # es) = delivered_ids es"

fun polled_ids :: "poll_outcome \<Rightarrow> jsstring set" where
  "polled_ids (Immediate (Some t)) = {pt_operationId t}"
| "polled_ids _ = {}"

definition pending_ids :: "task_queue \<Rightarrow> jsstring list" where
  "pending_ids q = map pt_operationId (all_tasks (tq_pending q))"

inductive queue_run :: "task_queue \<Rightarrow> jsstring set \<Rightarrow> jsstring set \<Rightarrow> bool" where
  run_new: "queue_run (newTaskQueue ttl policy) {} {}"
| run_enqueue: "queue_run q out early \<Longrightarrow> enqueue q queue task onComplete now = (ok, effects, q') \<Longrightarrow>
    queue_run q' (out \<union> delivered_ids effects) early"
| run_poll: "queue_run q out early \<Longrightarrow> poll q queue activities aborted pollId = (res, q') \<Longrightarrow>
    queue_run q' (out \<union> polled_ids res) early"
| run_settle: "queue_run q out early \<Longrightarrow> settleWaiter q queue pollId = (effects, q') \<Longrightarrow> queue_run q' out early"
| run_complete: "queue_run q out early \<Longrightarrow> complete q result = (ok, effects, q') \<Longrightarrow>
    queue_run q' (out - {tr_operationId result})
      (if tr_operationId result \<in> set (pending_ids q) then insert (tr_operationId result) early else early)"
| run_expire: "queue_run q out early \<Longrightarrow> map_of (tq_expirationTimers q) operationId = Some queue \<Longrightarrow>
    expireTask q queue operationId = (effects, q') \<Longrightarrow> queue_run q' out early"
| run_stale: "queue_run q out early \<Longrightarrow> removeStale q maxAge now = Inr (stale, effects, q') \<Longrightarrow>
    queue_run q' out early"

definition work_conserving :: "task_queue \<Rightarrow> bool" where
  "work_conserving q \<longleftrightarrow> (\<forall>queue. \<forall>w \<in> set (at_queue (tq_waiters q) queue).
     \<forall>t \<in> set (at_queue (tq_pending q) queue). pt_activityName t \<notin> set (wt_activities w))"

text \<open>What is kept about the ids that were never reported early.\<close>

definition live_ids :: "jsstring set \<Rightarrow> task_queue \<Rightarrow> jsstring list" where
  "live_ids early q = filter (\<lambda>i. i \<notin> early) (pending_ids q)"

definition tracked_ok :: "task_queue \<Rightarrow> jsstring set \<Rightarrow> jsstring set \<Rightarrow> bool" where
  "tracked_ok q out early \<longleftrightarrow> distinct (map fst (tq_pending q)) \<and> distinct (live_ids early q) \<and>
     set (live_ids early q) \<union> (out - early) \<subseteq> set (tq_dispatched q) \<and> out \<inter> set (live_ids early q) = {}"

definition timers_ok :: "task_queue \<Rightarrow> jsstring set \<Rightarrow> bool" where
  "timers_ok q early \<longleftrightarrow> (\<forall>operationId queue. operationId \<notin> early \<longrightarrow>
     (map_of (tq_expirationTimers q) operationId = Some queue \<longleftrightarrow>
      ttlEnabled (tq_pendingTaskTimeToLive q) \<and>
      (\<exists>t \<in> set (at_queue (tq_pending q) queue). pt_operationId t = operationId)))"

lemma at_queue_pending_ids: "u \<in> set (at_queue (tq_pending q) k) \<Longrightarrow> pt_operationId u \<in> set (pending_ids q)"
  using at_queue_all_tasks [of u "tq_pending q" k] by (simp add: pending_ids_def)

lemma takeCallback_simps [simp]:
  "tq_pending (snd (takeCallback q r)) = tq_pending q" "tq_waiters (snd (takeCallback q r)) = tq_waiters q"
  "tq_dispatched (snd (takeCallback q r)) = tq_dispatched q"
  "tq_expirationTimers (snd (takeCallback q r)) = tq_expirationTimers q"
  "tq_pendingTaskTimeToLive (snd (takeCallback q r)) = tq_pendingTaskTimeToLive q"
  "tq_schedulingPolicy (snd (takeCallback q r)) = tq_schedulingPolicy q"
  by (simp_all add: takeCallback_def split: option.splits)

lemma cancelExpiration_simps [simp]:
  "tq_pending (cancelExpiration q i) = tq_pending q" "tq_waiters (cancelExpiration q i) = tq_waiters q"
  "tq_dispatched (cancelExpiration q i) = tq_dispatched q"
  "tq_expirationTimers (cancelExpiration q i) = AList.delete i (tq_expirationTimers q)"
  "tq_pendingTaskTimeToLive (cancelExpiration q i) = tq_pendingTaskTimeToLive q"
  by (simp_all add: cancelExpiration_def)

lemma scheduleExpiration_simps [simp]:
  "tq_pending (scheduleExpiration q k i) = tq_pending q" "tq_waiters (scheduleExpiration q k i) = tq_waiters q"
  "tq_dispatched (scheduleExpiration q k i) = tq_dispatched q"
  "tq_pendingTaskTimeToLive (scheduleExpiration q k i) = tq_pendingTaskTimeToLive q"
  "tq_expirationTimers (scheduleExpiration q k i) =
     (if ttlEnabled (tq_pendingTaskTimeToLive q) then AList.update i k (tq_expirationTimers q)
      else tq_expirationTimers q)"
  by (simp_all add: scheduleExpiration_def)

text \<open>Two shapes of change: one task leaves its queue, or one is added to a queue.\<close>

lemma take_from_queue:
  assumes ok: "tracked_ok q out early" and i: "i < length (at_queue (tq_pending q) k)"
    and t: "t = at_queue (tq_pending q) k ! i"
    and m': "m' = put_or_delete k (remove_at i (at_queue (tq_pending q) k)) (tq_pending q)"
  shows "distinct (map fst m')"
    and "mset (map pt_operationId (t # all_tasks m')) = mset (pending_ids q)"
    and "pt_operationId t \<notin> early \<Longrightarrow> pt_operationId t \<notin> pt_operationId ` set (all_tasks m')"
    and "u \<in> set (at_queue m' j) \<Longrightarrow> u \<in> set (at_queue (tq_pending q) j)"
    and "pt_operationId u \<notin> early \<Longrightarrow>
      u \<in> set (at_queue m' j) \<longleftrightarrow> u \<in> set (at_queue (tq_pending q) j) \<and> pt_operationId u \<noteq> pt_operationId t"
proof -
  have keys: "distinct (map fst (tq_pending q))" and ids: "distinct (live_ids early q)"
    using ok by (auto simp: tracked_ok_def)
  show "distinct (map fst m')" unfolding m' by (rule distinct_put_or_delete [OF keys])
  have "mset (t # all_tasks m') = mset (all_tasks (tq_pending q))"
    unfolding t m' by (rule all_tasks_take [OF keys i])
  then show M: "mset (map pt_operationId (t # all_tasks m')) = mset (pending_ids q)"
    unfolding pending_ids_def by (metis mset_map)
  have "mset (filter (\<lambda>i. i \<notin> early) (map pt_operationId (t # all_tasks m'))) = mset (live_ids early q)"
    unfolding live_ids_def using M by (simp only: mset_filter)
  then have D: "distinct (filter (\<lambda>i. i \<notin> early) (map pt_operationId (t # all_tasks m')))"
    using ids by (metis mset_eq_imp_distinct_iff)
  then show new: "pt_operationId t \<notin> early \<Longrightarrow> pt_operationId t \<notin> pt_operationId ` set (all_tasks m')" by auto
  show sub: "u \<in> set (at_queue m' j) \<Longrightarrow> u \<in> set (at_queue (tq_pending q) j)" for u j
    using set_remove_at_subset [of i "at_queue (tq_pending q) k"] by (auto simp: m' split: if_splits)
  have all: "set (at_queue (tq_pending q) k) = insert t (set (remove_at i (at_queue (tq_pending q) k)))"
    using mset_remove_at [OF i] t by (metis add_mset_add_single set_mset_add_mset_insert set_mset_mset)
  show "u \<in> set (at_queue m' j) \<longleftrightarrow> u \<in> set (at_queue (tq_pending q) j) \<and> pt_operationId u \<noteq> pt_operationId t"
    if fresh: "pt_operationId u \<notin> early"
  proof (rule iffI)
    assume u: "u \<in> set (at_queue m' j)"
    show "u \<in> set (at_queue (tq_pending q) j) \<and> pt_operationId u \<noteq> pt_operationId t"
      using sub [OF u] new fresh at_queue_all_tasks [OF u] by (metis imageI)
  qed (use all in \<open>auto simp: m' split: if_splits\<close>)
qed

lemma work_conserving_mono:
  assumes "work_conserving q"
    and "\<And>k. set (at_queue (tq_waiters q') k) \<subseteq> set (at_queue (tq_waiters q) k)"
    and "\<And>k. set (at_queue (tq_pending q') k) \<subseteq> set (at_queue (tq_pending q) k)"
  shows "work_conserving q'"
  using assms unfolding work_conserving_def by blast

lemma timers_ok_drop:
  assumes "timers_ok q early" and "tq_pendingTaskTimeToLive q' = tq_pendingTaskTimeToLive q"
    and "\<And>i. map_of (tq_expirationTimers q') i = (if i \<in> gone then None else map_of (tq_expirationTimers q) i)"
    and "\<And>k u. pt_operationId u \<notin> early \<Longrightarrow> u \<in> set (at_queue (tq_pending q') k)
      \<longleftrightarrow> u \<in> set (at_queue (tq_pending q) k) \<and> pt_operationId u \<notin> gone"
  shows "timers_ok q' early"
  unfolding timers_ok_def
proof (intro allI impI)
  fix operationId queue assume new: "operationId \<notin> early"
  have "(\<exists>t\<in>set (at_queue (tq_pending q') queue). pt_operationId t = operationId)
      \<longleftrightarrow> operationId \<notin> gone \<and> (\<exists>t\<in>set (at_queue (tq_pending q) queue). pt_operationId t = operationId)"
    using assms(4) new by blast
  then show "map_of (tq_expirationTimers q') operationId = Some queue \<longleftrightarrow>
      ttlEnabled (tq_pendingTaskTimeToLive q') \<and>
      (\<exists>t\<in>set (at_queue (tq_pending q') queue). pt_operationId t = operationId)"
    using assms(1) new by (auto simp: timers_ok_def assms(2,3))
qed

text \<open>Enqueue.\<close>

lemma enqueue_cases:
  assumes "enqueue q queue task0 onComplete now = (ok, effects, q')"
  obtains (duplicate) "pt_operationId task0 \<in> set (tq_dispatched q)" "ok = False" "effects = []" "q' = q"
  | (handed) t i where "pt_operationId t = pt_operationId task0" "pt_operationId task0 \<notin> set (tq_dispatched q)" "ok"
      "effects = [Settled (wt_poll (at_queue (tq_waiters q) queue ! i)) (Some t)]"
      "tq_pending q' = tq_pending q" "tq_dispatched q' = tq_dispatched q @ [pt_operationId task0]"
      "tq_waiters q' = put_or_delete queue (remove_at i (at_queue (tq_waiters q) queue)) (tq_waiters q)"
      "tq_expirationTimers q' = tq_expirationTimers q" "tq_pendingTaskTimeToLive q' = tq_pendingTaskTimeToLive q"
  | (queued) t where "pt_operationId t = pt_operationId task0" "pt_operationId task0 \<notin> set (tq_dispatched q)" "ok"
      "effects = []" "\<And>w. w \<in> set (at_queue (tq_waiters q) queue) \<Longrightarrow> pt_activityName t \<notin> set (wt_activities w)"
      "tq_pending q' = AList.update queue
         (insertByPolicy (at_queue (tq_pending q) queue) t (tq_schedulingPolicy q)) (tq_pending q)"
      "tq_dispatched q' = tq_dispatched q @ [pt_operationId task0]" "tq_waiters q' = tq_waiters q"
      "tq_expirationTimers q' = (if ttlEnabled (tq_pendingTaskTimeToLive q)
         then AList.update (pt_operationId task0) queue (tq_expirationTimers q) else tq_expirationTimers q)"
      "tq_pendingTaskTimeToLive q' = tq_pendingTaskTimeToLive q"
proof (cases "pt_operationId task0 \<in> set (tq_dispatched q)")
  case True
  then show ?thesis by (rule duplicate) (use assms True in \<open>simp_all add: enqueue_def\<close>)
next
  case False
  define t where "t = (case pt_enqueuedAt task0 of None \<Rightarrow> task0\<lparr>pt_enqueuedAt := Some now\<rparr> | Some _ \<Rightarrow> task0)"
  have t: "pt_operationId t = pt_operationId task0" by (simp add: t_def split: option.split)
  show ?thesis
  proof (cases "find_index (\<lambda>w. pt_activityName t \<in> set (wt_activities w)) (at_queue (tq_waiters q) queue)")
    case None
    then have free: "pt_activityName t \<notin> set (wt_activities w)" if "w \<in> set (at_queue (tq_waiters q) queue)" for w
      using that unfolding find_index_None_iff by blast
    show ?thesis
    proof (rule queued [OF t False _ _ free])
      show "effects = []" "ok" using assms False None by (simp_all add: enqueue_def Let_def t_def [symmetric])
    qed (use assms False None in \<open>auto simp add: enqueue_def Let_def t_def [symmetric]\<close>)
  next
    case (Some i)
    have e: "ok" "effects = [Settled (wt_poll (at_queue (tq_waiters q) queue ! i)) (Some t)]"
      "q' = q\<lparr>tq_dispatched := tq_dispatched q @ [pt_operationId task0],
             tq_completionCallbacks :=
               (case onComplete of None \<Rightarrow> tq_completionCallbacks q
                | Some f \<Rightarrow> AList.update (pt_operationId task0) f (tq_completionCallbacks q)),
             tq_waiters := put_or_delete queue (remove_at i (at_queue (tq_waiters q) queue)) (tq_waiters q)\<rparr>"
      using assms False Some by (simp_all add: enqueue_def Let_def t_def [symmetric])
    show ?thesis by (rule handed [OF t False e(1,2)]) (simp_all add: e(3))
  qed
qed

lemma enqueue_wakes:
  assumes "enqueue q queue task onComplete now = (ok, [Settled i x], q')"
  shows "\<exists>w \<in> set (at_queue (tq_waiters q) queue). pt_activityName task \<in> set (wt_activities w)"
proof -
  define u where "u = (case pt_enqueuedAt task of None \<Rightarrow> task\<lparr>pt_enqueuedAt := Some now\<rparr> | Some _ \<Rightarrow> task)"
  have "pt_activityName u = pt_activityName task" by (simp add: u_def split: option.split)
  with assms show ?thesis
    using find_index_SomeD(1,2) [of "\<lambda>w. pt_activityName u \<in> set (wt_activities w)" "at_queue (tq_waiters q) queue"]
    by (auto simp: enqueue_def Let_def u_def [symmetric] split: if_splits option.splits)
qed

lemma enqueue_step:
  assumes e: "enqueue q queue task0 onComplete now = (ok, effects, q')"
    and ok: "tracked_ok q out early" and tm: "timers_ok q early" and wc: "work_conserving q"
  shows "tracked_ok q' (out \<union> delivered_ids effects) early \<and> timers_ok q' early \<and> work_conserving q' \<and>
    delivered_ids effects \<inter> out \<subseteq> early"
proof (cases rule: enqueue_cases [OF e])
  case 1
  then show ?thesis using ok tm wc by simp
next
  case (2 t i)
  have "work_conserving q'"
    by (rule work_conserving_mono [OF wc])
      (use 2 set_remove_at_subset [of i "at_queue (tq_waiters q) queue"] in auto)
  moreover have "timers_ok q' early" using tm 2 by (simp add: timers_ok_def)
  moreover have "tracked_ok q' (out \<union> delivered_ids effects) early" "delivered_ids effects \<inter> out \<subseteq> early"
    using ok 2(2) by (auto simp: tracked_ok_def live_ids_def pending_ids_def 2(1,4,5,6))
  ultimately show ?thesis by blast
next
  case (3 t)
  have keys: "distinct (map fst (tq_pending q))" using ok by (simp add: tracked_ok_def)
  have M: "mset (pending_ids q') = mset (pt_operationId task0 # pending_ids q)"
    using arg_cong [OF all_tasks_insert [OF keys, of queue t "tq_schedulingPolicy q"], of "image_mset pt_operationId"]
    by (simp add: pending_ids_def 3)
  then have L: "mset (live_ids early q') = mset (filter (\<lambda>i. i \<notin> early) (pt_operationId task0 # pending_ids q))"
    unfolding live_ids_def by (simp only: mset_filter)
  have new: "pt_operationId task0 \<notin> set (live_ids early q)" "pt_operationId task0 \<in> out \<Longrightarrow> pt_operationId task0 \<in> early"
    using ok 3(2) by (auto simp: tracked_ok_def)
  have "distinct (live_ids early q')"
    using new(1) ok mset_eq_imp_distinct_iff [OF L] by (auto simp: tracked_ok_def live_ids_def)
  moreover have "set (live_ids early q') = set (live_ids early q) \<union> ({pt_operationId task0} - early)"
    using mset_eq_setD [OF L] by (auto simp: live_ids_def)
  moreover have "distinct (map fst (tq_pending q'))" using keys by (simp add: 3 distinct_alist_update)
  ultimately have "tracked_ok q' out early" using ok new(2) by (auto simp: tracked_ok_def 3)
  moreover have "work_conserving q'"
    using wc 3(5) by (auto simp: work_conserving_def 3(6,8))
  moreover have "timers_ok q' early"
  proof -
    have "pt_operationId t' \<noteq> pt_operationId task0"
      if "t' \<in> set (at_queue (tq_pending q) k)" "pt_operationId task0 \<notin> early" for t' k
      using new(1) at_queue_pending_ids [OF that(1)] that(2) by (auto simp: live_ids_def)
    then show ?thesis using tm 3(1) by (auto simp: timers_ok_def 3(6,9,10))
  qed
  ultimately show ?thesis by (simp add: 3)
qed

text \<open>A task that leaves its queue takes its timer along.\<close>

lemma take_step:
  assumes ok: "tracked_ok q out early" and i: "i < length (at_queue (tq_pending q) k)"
    and t: "t = at_queue (tq_pending q) k ! i"
    and q': "tq_pending q' = put_or_delete k (remove_at i (at_queue (tq_pending q) k)) (tq_pending q)"
      "tq_waiters q' = tq_waiters q" "tq_pendingTaskTimeToLive q' = tq_pendingTaskTimeToLive q"
      "tq_expirationTimers q' = AList.delete (pt_operationId t) (tq_expirationTimers q)"
  shows "timers_ok q early \<Longrightarrow> timers_ok q' early" and "work_conserving q \<Longrightarrow> work_conserving q'"
    and "tq_dispatched q' = tq_dispatched q \<Longrightarrow> tracked_ok q' (insert (pt_operationId t) out) early"
    and "tq_dispatched q' = removeAll (pt_operationId t) (tq_dispatched q) \<Longrightarrow> tracked_ok q' out early"
    and "pt_operationId t \<in> out \<Longrightarrow> pt_operationId t \<in> early"
proof -
  note T = take_from_queue [OF ok i t q'(1)]
  show "timers_ok q' early" if "timers_ok q early"
    by (rule timers_ok_drop [OF that q'(3), where gone = "{pt_operationId t}"]) (auto simp: q'(4) T(5))
  show "work_conserving q'" if "work_conserving q"
    by (rule work_conserving_mono [OF that]) (use T(4) in \<open>auto simp: q'(2)\<close>)
  have M: "mset (pt_operationId t # pending_ids q') = mset (pending_ids q)"
    using T(2) by (simp add: pending_ids_def)
  then have L: "mset (filter (\<lambda>i. i \<notin> early) (pt_operationId t # pending_ids q')) = mset (live_ids early q)"
    unfolding live_ids_def by (simp only: mset_filter)
  have ids: "set (live_ids early q) = set (live_ids early q') \<union> ({pt_operationId t} - early)"
    using mset_eq_setD [OF M] by (auto simp: live_ids_def)
  have "distinct (filter (\<lambda>i. i \<notin> early) (pt_operationId t # pending_ids q'))"
    using ok mset_eq_imp_distinct_iff [OF L] by (simp add: tracked_ok_def)
  then have gone: "pt_operationId t \<notin> set (live_ids early q')" "distinct (live_ids early q')"
    by (auto simp: live_ids_def split: if_splits)
  have keys: "distinct (map fst (tq_pending q'))" by (rule T(1))
  show "tracked_ok q' (insert (pt_operationId t) out) early" if "tq_dispatched q' = tq_dispatched q"
    using ok ids gone keys that by (auto simp: tracked_ok_def)
  show notout: "pt_operationId t \<in> early" if "pt_operationId t \<in> out"
    using ok ids that by (auto simp: tracked_ok_def)
  show "tracked_ok q' out early" if "tq_dispatched q' = removeAll (pt_operationId t) (tq_dispatched q)"
    using ok ids gone keys that notout by (auto simp: tracked_ok_def)
qed

lemma poll_step:
  assumes p: "poll q queue activities aborted pollId = (res, q')"
    and ok: "tracked_ok q out early" and tm: "timers_ok q early" and wc: "work_conserving q"
  shows "tracked_ok q' (out \<union> polled_ids res) early \<and> timers_ok q' early \<and> work_conserving q'
    \<and> polled_ids res \<inter> out \<subseteq> early"
proof (cases aborted)
  case True
  then show ?thesis using assms by (auto simp: poll_def)
next
  case live: False
  show ?thesis
  proof (cases "find_index (\<lambda>t. pt_activityName t \<in> set activities) (at_queue (tq_pending q) queue)")
    case None
    then have free: "pt_activityName t \<notin> set activities" if "t \<in> set (at_queue (tq_pending q) queue)" for t
      using that unfolding find_index_None_iff by blast
    have e: "res = Parked" "q' = q\<lparr>tq_waiters := AList.update queue
        (at_queue (tq_waiters q) queue @ [\<lparr>wt_poll = pollId, wt_activities = activities\<rparr>]) (tq_waiters q)\<rparr>"
      using p live None by (simp_all add: poll_def)
    have "work_conserving q'" using wc free by (auto simp: work_conserving_def e(2))
    moreover have "timers_ok q' early" "tracked_ok q' out early"
      using tm ok by (simp_all add: timers_ok_def tracked_ok_def live_ids_def pending_ids_def e(2))
    ultimately show ?thesis by (simp add: e(1))
  next
    case (Some i)
    have i: "i < length (at_queue (tq_pending q) queue)" by (rule find_index_SomeD(1) [OF Some])
    have e: "res = Immediate (Some (at_queue (tq_pending q) queue ! i))"
      "q' = cancelExpiration
        (q\<lparr>tq_pending := put_or_delete queue (remove_at i (at_queue (tq_pending q) queue)) (tq_pending q)\<rparr>)
        (pt_operationId (at_queue (tq_pending q) queue ! i))"
      using p live Some by (simp_all add: poll_def Let_def)
    note T = take_step [OF ok i refl, of q']
    have "timers_ok q' early" by (rule T(1)) (simp_all add: e(2) tm)
    moreover have "work_conserving q'" by (rule T(2)) (simp_all add: e(2) wc)
    moreover have "tracked_ok q' (insert (pt_operationId (at_queue (tq_pending q) queue ! i)) out) early"
      by (rule T(3)) (simp_all add: e(2))
    moreover have "pt_operationId (at_queue (tq_pending q) queue ! i) \<in> out \<longrightarrow>
        pt_operationId (at_queue (tq_pending q) queue ! i) \<in> early"
      using T(5) by (simp add: e(2))
    ultimately show ?thesis by (auto simp: e(1))
  qed
qed

lemma settle_step:
  assumes s: "settleWaiter q queue pollId = (effects, q')"
    and ok: "tracked_ok q out early" and tm: "timers_ok q early" and wc: "work_conserving q"
  shows "tracked_ok q' out early \<and> timers_ok q' early \<and> work_conserving q'"
proof (cases "find_index (\<lambda>w. wt_poll w = pollId) (at_queue (tq_waiters q) queue)")
  case (Some i)
  have e: "q' = q\<lparr>tq_waiters := put_or_delete queue (remove_at i (at_queue (tq_waiters q) queue)) (tq_waiters q)\<rparr>"
    using s Some by (simp add: settleWaiter_def)
  have "work_conserving q'"
    by (rule work_conserving_mono [OF wc])
      (use set_remove_at_subset [of i "at_queue (tq_waiters q) queue"] in \<open>auto simp: e\<close>)
  then show ?thesis using tm ok by (simp add: timers_ok_def tracked_ok_def live_ids_def pending_ids_def e)
qed (use assms in \<open>simp add: settleWaiter_def\<close>)

lemma complete_fields:
  assumes "complete q result = (ok, effects, q')"
  shows "tq_pending q' = tq_pending q" "tq_waiters q' = tq_waiters q"
    "tq_dispatched q' = removeAll (tr_operationId result) (tq_dispatched q)"
    "tq_expirationTimers q' = AList.delete (tr_operationId result) (tq_expirationTimers q)"
    "tq_pendingTaskTimeToLive q' = tq_pendingTaskTimeToLive q"
proof -
  have q': "q' = snd (takeCallback ((cancelExpiration q (tr_operationId result))\<lparr>tq_dispatched :=
      removeAll (tr_operationId result) (tq_dispatched q)\<rparr>) result)"
    using assms by (simp add: complete_def Let_def split_beta)
  show "tq_pending q' = tq_pending q" "tq_waiters q' = tq_waiters q"
    "tq_dispatched q' = removeAll (tr_operationId result) (tq_dispatched q)"
    "tq_expirationTimers q' = AList.delete (tr_operationId result) (tq_expirationTimers q)"
    "tq_pendingTaskTimeToLive q' = tq_pendingTaskTimeToLive q"
    by (simp_all add: q')
qed

lemma complete_step:
  assumes c: "complete q result = (ok', effects, q')"
    and ok: "tracked_ok q out early" and tm: "timers_ok q early" and wc: "work_conserving q"
    and early': "early' = (if tr_operationId result \<in> set (pending_ids q)
                           then insert (tr_operationId result) early else early)"
  shows "tracked_ok q' (out - {tr_operationId result}) early' \<and> timers_ok q' early' \<and> work_conserving q'"
proof -
  note F = complete_fields [OF c]
  have same: "pending_ids q' = pending_ids q" by (simp add: pending_ids_def F)
  have live: "live_ids early' q' = filter (\<lambda>i. i \<noteq> tr_operationId result) (live_ids early q)"
    unfolding live_ids_def same early' filter_filter by (rule filter_cong [OF refl]) auto
  have "tracked_ok q' (out - {tr_operationId result}) early'"
    using ok unfolding tracked_ok_def live by (auto simp: F(1,3) early' split: if_splits)
  moreover have "timers_ok q' early'"
    unfolding timers_ok_def
  proof (intro allI impI)
    fix i queue assume i: "i \<notin> early'"
    have "i \<noteq> tr_operationId result" if "\<exists>t \<in> set (at_queue (tq_pending q) queue). pt_operationId t = i"
      using that i by (auto simp: early' dest!: at_queue_pending_ids split: if_splits)
    then show "map_of (tq_expirationTimers q') i = Some queue \<longleftrightarrow> ttlEnabled (tq_pendingTaskTimeToLive q') \<and>
        (\<exists>t\<in>set (at_queue (tq_pending q') queue). pt_operationId t = i)"
      using tm i by (auto simp: F timers_ok_def early' split: if_splits)
  qed
  moreover have "work_conserving q'" by (rule work_conserving_mono [OF wc]) (auto simp: F)
  ultimately show ?thesis by blast
qed

lemma expire_step:
  assumes x: "expireTask q queue operationId = (effects, q')"
    and timer: "map_of (tq_expirationTimers q) operationId = Some queue"
    and ok: "tracked_ok q out early" and tm: "timers_ok q early" and wc: "work_conserving q"
  shows "tracked_ok q' out early \<and> timers_ok q' early \<and> work_conserving q'"
proof (cases "find_index (\<lambda>t. pt_operationId t = operationId) (at_queue (tq_pending q) queue)")
  case None
  text \<open>Only an id that was reported early has a timer without a task.\<close>
  have "\<not> (\<exists>t \<in> set (at_queue (tq_pending q) queue). pt_operationId t = operationId)"
    using None unfolding find_index_None_iff by blast
  with tm timer have "operationId \<in> early" by (auto simp: timers_ok_def)
  moreover have q': "q' = snd (takeCallback ((cancelExpiration q operationId)\<lparr>
      tq_dispatched := removeAll operationId (tq_dispatched q)\<rparr>) (timeoutResult operationId))"
    using x None by (simp add: expireTask_def Let_def)
  ultimately show ?thesis
    using ok tm wc
    by (auto simp: tracked_ok_def timers_ok_def work_conserving_def live_ids_def pending_ids_def)
next
  case (Some i)
  have i: "i < length (at_queue (tq_pending q) queue)" by (rule find_index_SomeD(1) [OF Some])
  have id: "pt_operationId (at_queue (tq_pending q) queue ! i) = operationId" by (rule find_index_SomeD(2) [OF Some])
  have q': "q' = snd (takeCallback ((cancelExpiration q operationId)\<lparr>
      tq_pending := put_or_delete queue (remove_at i (at_queue (tq_pending q) queue)) (tq_pending q),
      tq_dispatched := removeAll operationId (tq_dispatched q)\<rparr>) (timeoutResult operationId))"
    using x Some by (simp add: expireTask_def Let_def)
  note T = take_step [OF ok i refl, of q', unfolded id]
  have "timers_ok q' early" by (rule T(1)) (simp_all add: q' tm)
  moreover have "work_conserving q'" by (rule T(2)) (simp_all add: q' wc)
  moreover have "tracked_ok q' out early" by (rule T(4)) (simp_all add: q')
  ultimately show ?thesis by blast
qed

text \<open>Removing stale tasks.\<close>

lemma dropStale_fields:
  "tq_pending (snd (fold dropStaleTask ts (es, q))) = tq_pending q"
  "tq_waiters (snd (fold dropStaleTask ts (es, q))) = tq_waiters q"
  "tq_pendingTaskTimeToLive (snd (fold dropStaleTask ts (es, q))) = tq_pendingTaskTimeToLive q"
  "set (tq_dispatched (snd (fold dropStaleTask ts (es, q)))) = set (tq_dispatched q) - pt_operationId ` set ts"
  "map_of (tq_expirationTimers (snd (fold dropStaleTask ts (es, q)))) i
     = (if i \<in> pt_operationId ` set ts then None else map_of (tq_expirationTimers q) i)"
proof (induction ts arbitrary: es q)
  case (Cons t ts)
  have one: "dropStaleTask t (es, q) = (es @ fst (takeCallback ((cancelExpiration q (pt_operationId t))
        \<lparr>tq_dispatched := removeAll (pt_operationId t) (tq_dispatched q)\<rparr>) (timeoutResult (pt_operationId t))),
      snd (takeCallback ((cancelExpiration q (pt_operationId t))
        \<lparr>tq_dispatched := removeAll (pt_operationId t) (tq_dispatched q)\<rparr>) (timeoutResult (pt_operationId t))))" for es q
    by (simp add: dropStaleTask_def Let_def split_beta)
  { case 1 show ?case by (simp add: one Cons.IH(1)) }
  { case 2 show ?case by (simp add: one Cons.IH(2)) }
  { case 3 show ?case by (simp add: one Cons.IH(3)) }
  { case 4 show ?case by (auto simp: one Cons.IH(4)) }
  { case 5 show ?case by (auto simp: one Cons.IH(5)) }
qed simp_all

definition fresh_queues :: "rat \<Rightarrow> (jsstring \<times> pending_task list) list \<Rightarrow> (jsstring \<times> pending_task list) list" where
  "fresh_queues cutoff m = List.map_filter (\<lambda>(queue, tasks).
     case filter (\<lambda>t. \<not> isStaleTask cutoff t) tasks of [] \<Rightarrow> None | ts \<Rightarrow> Some (queue, ts)) m"

lemma fresh_queues_Nil: "fresh_queues cutoff [] = []"
  by (simp add: fresh_queues_def map_filter_simps)

lemma fresh_queues_Cons:
  "fresh_queues cutoff ((k, ts) # m) =
     (if filter (\<lambda>t. \<not> isStaleTask cutoff t) ts = [] then fresh_queues cutoff m
      else (k, filter (\<lambda>t. \<not> isStaleTask cutoff t) ts) # fresh_queues cutoff m)"
  by (simp add: fresh_queues_def map_filter_simps split: list.splits)

lemma fresh_queues_keys: "fst ` set (fresh_queues cutoff m) \<subseteq> fst ` set m"
proof (induction m)
  case (Cons x m)
  then show ?case by (cases x) (simp add: fresh_queues_Cons subset_insertI2)
qed (simp add: fresh_queues_Nil)

lemma fresh_queues_all_tasks: "all_tasks (fresh_queues cutoff m) = filter (\<lambda>t. \<not> isStaleTask cutoff t) (all_tasks m)"
  by (induction m) (auto simp: all_tasks_def fresh_queues_Cons fresh_queues_Nil)

lemma fresh_queues_distinct: "distinct (map fst m) \<Longrightarrow> distinct (map fst (fresh_queues cutoff m))"
proof (induction m)
  case (Cons x m)
  then show ?case using fresh_queues_keys [of cutoff m] by (cases x) (auto simp: fresh_queues_Cons)
qed (simp add: fresh_queues_Nil)

lemma fresh_queues_at_queue:
  "distinct (map fst m) \<Longrightarrow> at_queue (fresh_queues cutoff m) k = filter (\<lambda>t. \<not> isStaleTask cutoff t) (at_queue m k)"
proof (induction m)
  case (Cons x m)
  have "at_queue (fresh_queues cutoff m) (fst x) = []"
    using Cons.prems fresh_queues_keys [of cutoff m] by (intro at_queue_notin) auto
  then show ?case using Cons by (cases x) (auto simp: fresh_queues_Cons at_queue_Cons)
qed (simp add: fresh_queues_Nil at_queue_def)

lemma removeStale_result:
  assumes "removeStale q maxAge now = Inr (stale, effects, q')"
  obtains age where "maxAge = JFin age" "0 \<le> age" "stale = filter (isStaleTask (now - age)) (all_tasks (tq_pending q))"
    "(effects, q') = fold dropStaleTask stale ([], q\<lparr>tq_pending := fresh_queues (now - age) (tq_pending q)\<rparr>)"
proof -
  obtain age where age: "maxAge = JFin age" "\<not> age < 0"
    using assms by (auto simp: removeStale_def split: jsnum.splits if_splits)
  have "concat (map (\<lambda>(_, tasks). filter P tasks) m) = filter P (all_tasks m)" for P m
    by (induction m) (auto simp: all_tasks_def)
  with assms age show ?thesis
    by (intro that [of age]) (auto simp: removeStale_def Let_def fresh_queues_def split: prod.splits)
qed

lemma stale_step:
  assumes r: "removeStale q maxAge now = Inr (stale, effects, q')"
    and ok: "tracked_ok q out early" and tm: "timers_ok q early" and wc: "work_conserving q"
  shows "tracked_ok q' out early \<and> timers_ok q' early \<and> work_conserving q'"
proof -
  obtain age where a: "stale = filter (isStaleTask (now - age)) (all_tasks (tq_pending q))"
    "(effects, q') = fold dropStaleTask stale ([], q\<lparr>tq_pending := fresh_queues (now - age) (tq_pending q)\<rparr>)"
    by (rule removeStale_result [OF r])
  have q': "q' = snd (fold dropStaleTask stale ([], q\<lparr>tq_pending := fresh_queues (now - age) (tq_pending q)\<rparr>))"
    by (simp flip: a(2))
  note F = dropStale_fields [of stale "[]" "q\<lparr>tq_pending := fresh_queues (now - age) (tq_pending q)\<rparr>", folded q', simplified]
  have keys: "distinct (map fst (tq_pending q))" and ids: "distinct (live_ids early q)"
    using ok by (auto simp: tracked_ok_def)
  define fresh where "fresh = filter (\<lambda>t. pt_operationId t \<notin> early) (all_tasks (tq_pending q))"
  have live: "live_ids early q = map pt_operationId fresh"
    by (simp add: live_ids_def pending_ids_def fresh_def filter_map o_def)
  have unique: "u = t" if "u \<in> set fresh" "t \<in> set (all_tasks (tq_pending q))"
    "pt_operationId u = pt_operationId t" for u t
    using ids that unfolding live by (auto simp: fresh_def distinct_map dest: inj_onD)
  have mem: "u \<in> set (at_queue (tq_pending q') k)
      \<longleftrightarrow> u \<in> set (at_queue (tq_pending q) k) \<and> pt_operationId u \<notin> pt_operationId ` set stale"
    if "pt_operationId u \<notin> early" for u k
    using at_queue_all_tasks [of u "tq_pending q" k] unique [of u] that
    by (auto simp: F(1) fresh_queues_at_queue [OF keys] a(1) image_iff fresh_def)
  have "timers_ok q' early"
    by (rule timers_ok_drop [OF tm _ _ mem]) (simp_all add: F(3,5))
  moreover have "work_conserving q'"
    by (rule work_conserving_mono [OF wc]) (auto simp: F(1,2) fresh_queues_at_queue [OF keys])
  moreover have "tracked_ok q' out early"
  proof -
    have live': "live_ids early q' = map pt_operationId (filter (\<lambda>t. \<not> isStaleTask (now - age) t) fresh)"
      by (simp add: live_ids_def pending_ids_def F(1) fresh_queues_all_tasks fresh_def filter_map o_def conj_commute)
    have "set (live_ids early q') = set (live_ids early q) - pt_operationId ` set stale"
      unfolding live' live using unique by (force simp: a(1) fresh_def)
    moreover have "distinct (live_ids early q')"
      using ids unfolding live' live by (simp add: distinct_map_filter)
    moreover have "out - early \<subseteq> set (tq_dispatched q) - pt_operationId ` set stale"
      using ok by (auto simp: tracked_ok_def live a(1) fresh_def)
    ultimately show ?thesis
      using ok by (auto simp: tracked_ok_def F(1,4) fresh_queues_distinct)
  qed
  ultimately show ?thesis by blast
qed

section \<open>Properties\<close>

text \<open>A concrete run for the witnesses: a poll for one activity is parked, a task of another is queued.\<close>

definition sample_task :: pending_task where
  "sample_task = \<lparr>pt_operationId = (js ''op1''), pt_activityName = (js ''resize''), pt_enqueuedAt = None,
     pt_priority = Some 5, pt_payload = JUndefined\<rparr>"

definition sample_queue :: task_queue where
  "sample_queue = snd (snd (enqueue (snd (poll (newTaskQueue None None) (js ''media'') [(js ''encode'')] False 1))
     (js ''media'') sample_task (Some 7) 1000))"

lemma sample_names [simp]: "js ''encode'' \<noteq> js ''resize''" "js ''resize'' \<noteq> js ''encode''"
  by (simp_all add: js_def)

lemma sample_queue_eq:
  "sample_queue = \<lparr>tq_pending = [((js ''media''), [sample_task\<lparr>pt_enqueuedAt := Some 1000\<rparr>])],
     tq_waiters = [((js ''media''), [\<lparr>wt_poll = 1, wt_activities = [(js ''encode'')]\<rparr>])],
     tq_completionCallbacks = [((js ''op1''), 7)], tq_dispatched = [(js ''op1'')],
     tq_expirationTimers = [((js ''op1''), (js ''media''))],
     tq_pendingTaskTimeToLive = JFin DEFAULT_PENDING_TASK_TTL, tq_schedulingPolicy = Priority\<rparr>"
  by (simp add: sample_queue_def sample_task_def enqueue_def Let_def poll_def newTaskQueue_def at_queue_def
      insertByPolicy_def scheduleExpiration_def ttlEnabled_def DEFAULT_PENDING_TASK_TTL_def)

lemma sample_queue_run: "queue_run sample_queue {} {}"
proof -
  have "queue_run (snd (poll (newTaskQueue None None) (js ''media'') [(js ''encode'')] False 1)) {} {}"
    using run_poll [OF run_new, of None None "js ''media''" "[(js ''encode'')]" False 1 Parked]
    by (simp add: poll_def newTaskQueue_def at_queue_def)
  from run_enqueue [OF this, of "js ''media''" sample_task "Some 7" 1000 True "[]" sample_queue]
  show ?thesis
    by (simp add: sample_queue_def sample_task_def enqueue_def Let_def poll_def newTaskQueue_def at_queue_def)
qed

lemma queue_run_invariant:
  "queue_run q out early \<Longrightarrow> tracked_ok q out early \<and> timers_ok q early \<and> work_conserving q"
proof (induction rule: queue_run.induct)
  case (run_new ttl policy)
  then show ?case
    by (simp add: newTaskQueue_def tracked_ok_def timers_ok_def work_conserving_def live_ids_def pending_ids_def
        all_tasks_def at_queue_def)
next
  case (run_enqueue q out early queue task onComplete now ok effects q')
  then show ?case using enqueue_step [of q queue task onComplete now ok effects q' out early] by blast
next
  case (run_poll q out early queue activities aborted pollId res q')
  then show ?case using poll_step [of q queue activities aborted pollId res q' out early] by blast
next
  case (run_settle q out early queue pollId effects q')
  then show ?case using settle_step [of q queue pollId effects q' out early] by blast
next
  case (run_complete q out early result ok effects q')
  then show ?case using complete_step [of q result ok effects q' out early, OF _ _ _ _ refl] by blast
next
  case (run_expire q out early operationId queue effects q')
  then show ?case using expire_step [of q queue operationId effects q' out early] by blast
next
  case (run_stale q out early maxAge now stale effects q')
  then show ?case using stale_step [of q maxAge now stale effects q' out early] by blast
qed

text \<open>
  C13: The queue never leaves a worker idle beside work it could do: in every state a run reaches,
  whatever results were reported in it, no long poll is parked on a queue that holds a pending
  task of an activity the poll asked for.
\<close>

theorem no_idle_worker_beside_work:
  assumes "queue_run q out early" and "w \<in> set (at_queue (tq_waiters q) queue)" and "t \<in> set (peekPending q queue)"
  shows "pt_activityName t \<notin> set (wt_activities w)"
  using queue_run_invariant [OF assms(1)] assms(2,3) by (auto simp: work_conserving_def peekPending_def)

theorem no_idle_worker_beside_work_witness:
  "pt_activityName (sample_task\<lparr>pt_enqueuedAt := Some 1000\<rparr>)
     \<notin> set (wt_activities \<lparr>wt_poll = 1, wt_activities = [(js ''encode'')]\<rparr>)"
  by (rule no_idle_worker_beside_work [OF sample_queue_run, where queue = "js ''media''"])
    (simp_all add: sample_queue_eq at_queue_def peekPending_def)

text \<open>
  C8: A task is given to one worker at a time. In every run, an enqueue that wakes a poller and a
  poll that finds a task hand out only an operation id that no worker holds (\<open>out\<close>: handed out
  and not reported since), for every id no result was ever reported for while its task was still
  pending (the others are in \<open>early\<close>: after such a report the queue takes the id a second time
  and gives both copies away).
\<close>

theorem task_handed_to_one_worker:
  assumes "queue_run q out early"
  shows "delivered_ids (fst (snd (enqueue q queue task onComplete now))) \<inter> out \<subseteq> early \<and>
    polled_ids (fst (poll q queue activities aborted pollId)) \<inter> out \<subseteq> early"
proof
  note I = queue_run_invariant [OF assms]
  show "delivered_ids (fst (snd (enqueue q queue task onComplete now))) \<inter> out \<subseteq> early"
    using I enqueue_step [of q queue task onComplete now "fst (enqueue q queue task onComplete now)"
        "fst (snd (enqueue q queue task onComplete now))" "snd (snd (enqueue q queue task onComplete now))" out early]
    by simp
  show "polled_ids (fst (poll q queue activities aborted pollId)) \<inter> out \<subseteq> early"
    using I poll_step [of q queue activities aborted pollId "fst (poll q queue activities aborted pollId)"
        "snd (poll q queue activities aborted pollId)" out early] by simp
qed

theorem task_handed_to_one_worker_witness:
  "queue_run (snd (poll sample_queue (js ''media'') [(js ''resize'')] False 2)) {(js ''op1'')} {} \<and>
   polled_ids (fst (poll (snd (poll sample_queue (js ''media'') [(js ''resize'')] False 2)) (js ''media'') [(js ''resize'')] False 3))
     \<inter> {(js ''op1'')} \<subseteq> {}"
proof -
  have p: "fst (poll sample_queue (js ''media'') [(js ''resize'')] False 2) = Immediate (Some (sample_task\<lparr>pt_enqueuedAt := Some 1000\<rparr>))"
    by (simp add: poll_def Let_def sample_queue_eq at_queue_def sample_task_def)
  then obtain q' where q': "poll sample_queue (js ''media'') [(js ''resize'')] False 2
      = (Immediate (Some (sample_task\<lparr>pt_enqueuedAt := Some 1000\<rparr>)), q')"
    by (metis prod.collapse)
  have r: "queue_run (snd (poll sample_queue (js ''media'') [(js ''resize'')] False 2)) {js ''op1''} {}"
    using run_poll [OF sample_queue_run q'] by (simp add: q' sample_task_def)
  show ?thesis using r task_handed_to_one_worker [OF r] by blast
qed

text \<open>
  C31: With a finite time to live no task waits unclaimed for ever: in every run, every pending
  task whose id was never reported while it was pending (such a report cancels the timer and
  leaves the task) has an expiration timer for its own queue, and the firing of the timer takes
  the task out of the queue, ends its tracking, and runs its completion callback, if it has one,
  with a failure.
\<close>

theorem pending_task_expires:
  assumes "queue_run q out early" and "ttlEnabled (tq_pendingTaskTimeToLive q)" and "t \<in> set (peekPending q queue)"
    and "pt_operationId t \<notin> early"
  shows "map_of (tq_expirationTimers q) (pt_operationId t) = Some queue
    \<and> t \<notin> set (peekPending (snd (expireTask q queue (pt_operationId t))) queue)
    \<and> \<not> isTracked (snd (expireTask q queue (pt_operationId t))) (pt_operationId t)
    \<and> fst (expireTask q queue (pt_operationId t)) =
      (case map_of (tq_completionCallbacks q) (pt_operationId t) of
         None \<Rightarrow> [] | Some f \<Rightarrow> [CalledBack f (timeoutResult (pt_operationId t))])"
proof -
  note I = queue_run_invariant [OF assms(1)]
  have timer: "map_of (tq_expirationTimers q) (pt_operationId t) = Some queue"
    using I assms(2-4) by (auto simp: timers_ok_def peekPending_def)
  define q' where "q' = snd (expireTask q queue (pt_operationId t))"
  have "expireTask q queue (pt_operationId t) = (fst (expireTask q queue (pt_operationId t)), q')"
    by (simp add: q'_def)
  from expire_step [OF this timer] I have tm: "timers_ok q' early" by blast
  have disp: "tq_dispatched q' = removeAll (pt_operationId t) (tq_dispatched q)"
    by (simp add: q'_def expireTask_def Let_def split: option.split)
  moreover have "\<not> isTracked (snd (expireTask q queue (pt_operationId t))) (pt_operationId t)"
    using disp by (simp add: isTracked_def q'_def)
  moreover have "map_of (tq_expirationTimers q') (pt_operationId t) = None"
    "tq_pendingTaskTimeToLive q' = tq_pendingTaskTimeToLive q"
    by (simp_all add: q'_def expireTask_def Let_def split: option.split)
  then have "t \<notin> set (peekPending (snd (expireTask q queue (pt_operationId t))) queue)"
    using tm assms(2,4) unfolding timers_ok_def peekPending_def q'_def [symmetric] by (metis option.distinct(1))
  moreover have "fst (expireTask q queue (pt_operationId t)) =
      (case map_of (tq_completionCallbacks q) (pt_operationId t) of
         None \<Rightarrow> [] | Some f \<Rightarrow> [CalledBack f (timeoutResult (pt_operationId t))])"
    by (simp add: expireTask_def takeCallback_def Let_def cancelExpiration_def timeoutResult_def split: option.split)
  ultimately show ?thesis using timer by blast
qed

theorem pending_task_expires_witness:
  "map_of (tq_expirationTimers sample_queue) (js ''op1'') = Some (js ''media'') \<and>
   fst (expireTask sample_queue (js ''media'') (js ''op1'')) = [CalledBack 7 (timeoutResult (js ''op1''))]"
proof -
  have e: "ttlEnabled (tq_pendingTaskTimeToLive sample_queue)"
    "sample_task\<lparr>pt_enqueuedAt := Some 1000\<rparr> \<in> set (peekPending sample_queue (js ''media''))"
    "pt_operationId (sample_task\<lparr>pt_enqueuedAt := Some 1000\<rparr>) = (js ''op1'')"
    by (simp_all add: sample_queue_eq ttlEnabled_def DEFAULT_PENDING_TASK_TTL_def peekPending_def at_queue_def
        sample_task_def)
  from pending_task_expires [OF sample_queue_run e(1,2)]
  have "map_of (tq_expirationTimers sample_queue) (js ''op1'') = Some (js ''media'')"
    "fst (expireTask sample_queue (js ''media'') (js ''op1'')) =
      (case map_of (tq_completionCallbacks sample_queue) (js ''op1'') of
         None \<Rightarrow> [] | Some f \<Rightarrow> [CalledBack f (timeoutResult (js ''op1''))])"
    unfolding e(3) by blast+
  then show ?thesis by (simp add: sample_queue_eq)
qed

text \<open>
  Why ids reported early are set apart: a result for a task that is still pending leaves the
  task in its queue and makes the queue accept the same id again; with no poll waiting for it the
  second copy joins the first.
\<close>

lemma early_result_duplicates_task:
  assumes "t \<in> set (peekPending q queue)" and "tr_operationId result = pt_operationId t"
    and "complete q result = (called, effects, q1)"
    and "\<not> hasWaiter q queue (pt_activityName t)"
    and "enqueue q1 queue t onComplete now = (ok, effects', q2)"
  shows "ok \<and> effects' = [] \<and> pendingCount q2 queue = Suc (pendingCount q queue)
    \<and> 2 \<le> length (filter (\<lambda>u. pt_operationId u = pt_operationId t) (peekPending q2 queue))"
proof (cases rule: enqueue_cases [OF assms(5)])
  case 1
  then show ?thesis using complete_fields(3) [OF assms(3)] assms(2) by simp
next
  case (2 u i)
  then show ?thesis
    using assms(4) complete_fields(2) [OF assms(3)] enqueue_wakes [OF assms(5) [unfolded 2(4)]]
    by (auto simp: hasWaiter_def)
next
  case (3 u)
  let ?same = "\<lambda>u. pt_operationId u = pt_operationId t"
  have M: "mset (peekPending q2 queue) = add_mset u (mset (peekPending q queue))"
    using 3 complete_fields(1) [OF assms(3)] by (simp add: peekPending_def mset_insertByPolicy)
  then have "size (filter_mset ?same (mset (peekPending q2 queue)))
      = Suc (size (filter_mset ?same (mset (peekPending q queue))))"
    using 3(1) by simp
  moreover have "filter ?same (peekPending q queue) \<noteq> []" using assms(1) by (auto simp: filter_empty_conv)
  ultimately have "2 \<le> length (filter ?same (peekPending q2 queue))"
    by (cases "filter ?same (peekPending q queue)") (simp_all flip: mset_filter)
  moreover have "length (peekPending q2 queue) = Suc (length (peekPending q queue))"
    using arg_cong [OF M, of size] by simp
  ultimately show ?thesis using 3(3,4) by (simp add: pendingCount_def peekPending_def)
qed

lemma insert_priority_arrivals:
  "by_priority (foldl (\<lambda>ts t. insertByPolicy ts t Priority) [] arrivals) \<and>
   mset (foldl (\<lambda>ts t. insertByPolicy ts t Priority) [] arrivals) = mset arrivals \<and>
   (\<forall>p. filter (\<lambda>t. taskPriority t = p) (foldl (\<lambda>ts t. insertByPolicy ts t Priority) [] arrivals)
      = filter (\<lambda>t. taskPriority t = p) arrivals)"
proof (induction arrivals rule: rev_induct)
  case (snoc task arrivals)
  then show ?case
    by (simp add: insert_priority_sorted insert_priority_fifo mset_insertByPolicy)
qed simp

text \<open>
  The order in which a queue hands out tasks is its policy's: inserting tasks one at a time as
  they arrive gives the stable sort by descending priority under the priority policy (equal
  priorities in arrival order), arrival order under FIFO and its reverse under LIFO.
\<close>

lemma policy_orders_arrivals:
  "foldl (\<lambda>ts t. insertByPolicy ts t policy) [] arrivals =
     (case policy of Priority \<Rightarrow> sort_key (\<lambda>t. - taskPriority t) arrivals
      | Fifo \<Rightarrow> arrivals | Lifo \<Rightarrow> rev arrivals)"
proof (cases policy)
  case Priority
  define ts where "ts = foldl (\<lambda>ts t. insertByPolicy ts t Priority) [] arrivals"
  have I: "by_priority ts" "mset ts = mset arrivals"
    "\<And>p. filter (\<lambda>t. taskPriority t = p) ts = filter (\<lambda>t. taskPriority t = p) arrivals"
    using insert_priority_arrivals [of arrivals] by (simp_all add: ts_def)
  have "sort_key (\<lambda>t. - taskPriority t) arrivals = ts"
  proof (rule properties_for_sort_key)
    show "mset ts = mset arrivals" by (rule I(2))
    show "filter (\<lambda>x. - taskPriority k = - taskPriority x) ts = filter (\<lambda>x. - taskPriority k = - taskPriority x) arrivals"
      if "k \<in> set ts" for k using I(3) [of "taskPriority k"] by (simp add: eq_commute)
    show "sorted (map (\<lambda>t. - taskPriority t) ts)" using I(1) by (simp add: sorted_wrt_map)
  qed
  then show ?thesis using Priority by (simp add: ts_def)
next
  case Fifo
  have "foldl (\<lambda>ts t. insertByPolicy ts t Fifo) [] arrivals = arrivals"
    by (induction arrivals rule: rev_induct) (auto simp: insertByPolicy_def)
  then show ?thesis using Fifo by simp
next
  case Lifo
  have "foldl (\<lambda>ts t. insertByPolicy ts t Lifo) [] arrivals = rev arrivals"
    by (induction arrivals rule: rev_induct) (auto simp: insertByPolicy_def)
  then show ?thesis using Lifo by simp
qed

end
