(* ===== verification/Worker_Registry.thy ===== *)
theory Worker_Registry
  imports Weft_Prelude
begin

text \<open>
  The registry of connected remote workers: \<open>src/src/worker/registry.ts\<close> with
  \<open>registry/types.ts\<close>, \<open>registry/fair-share.ts\<close>, \<open>registry/routing.ts\<close> and
  \<open>registry/summary.ts\<close>.

  A \<open>Map\<close> is an association list in insertion order, a worker object is the entry stored under
  its id (the code mutates it in place, the model updates the entry). Counts and concurrency
  limits are integers, times rationals, \<open>now\<close> is \<open>Date.now()\<close>; an optional field is an option.
\<close>

section \<open>State\<close>

datatype worker_health = Active | Draining | Drained

record worker_info =
  wi_id :: jsstring
  wi_queue :: jsstring
  wi_activities :: "jsstring list"
  wi_concurrency :: int
  wi_inFlight :: int
  wi_connectedAt :: rat
  wi_lastHeartbeat :: rat
  wi_startedAt :: rat
  wi_capabilities :: jsval
  wi_deploymentName :: "jsstring option"
  wi_buildId :: "jsstring option"
  wi_runtimeVersion :: "jsstring option"
  wi_gitSha :: "jsstring option"
  wi_drainReason :: "jsstring option"
  wi_drainStartedAt :: "rat option"

record worker_registration_info =
  ri_id :: jsstring
  ri_queue :: jsstring
  ri_activities :: "jsstring list"
  ri_concurrency :: int
  ri_deploymentName :: "jsstring option"
  ri_buildId :: "jsstring option"
  ri_runtimeVersion :: "jsstring option"
  ri_gitSha :: "jsstring option"
  ri_startedAt :: "rat option"
  ri_capabilities :: jsval

record in_flight_task =
  it_operationId :: jsstring
  it_workerId :: jsstring
  it_deadline :: rat
  it_visibilityTimeout :: rat
  it_fairShareKey :: "jsstring option"
  it_attemptToken :: jsstring

record drain_record =
  dr_reason :: "jsstring option"
  dr_startedAt :: rat

datatype routing_policy = LeastLoaded | RoundRobin | FairShare

record routing_options =
  ro_sticky :: "jsstring option"
  ro_queue :: "jsstring option"
  ro_fairShareKey :: "jsstring option"
  ro_excludeWorkerIds :: "jsstring list"

type_synonym fair_share_counters = "(jsstring \<times> (jsstring \<times> nat) list) list"

record worker_registry =
  wr_workers :: "(jsstring \<times> worker_info) list"
  wr_inFlightTasks :: "(jsstring \<times> in_flight_task) list"
  wr_deploymentDrainStates :: "(jsstring \<times> drain_record) list"
  wr_policy :: routing_policy
  wr_roundRobinCursor :: "(jsstring \<times> nat) list"
  wr_fairShareCounts :: fair_share_counters

definition newWorkerRegistry :: "routing_policy option \<Rightarrow> worker_registry" where
  "newWorkerRegistry policy =
     \<lparr>wr_workers = [], wr_inFlightTasks = [], wr_deploymentDrainStates = [],
      wr_policy = (case policy of None \<Rightarrow> LeastLoaded | Some p \<Rightarrow> p),
      wr_roundRobinCursor = [], wr_fairShareCounts = []\<rparr>"

section \<open>Fair-share scores and counters\<close>

record worker_score =
  sc_id :: jsstring
  sc_inFlight :: int
  sc_keyLoad :: int

definition compareScores :: "worker_score \<Rightarrow> worker_score \<Rightarrow> int" where
  "compareScores a b =
     (if sc_keyLoad a \<noteq> sc_keyLoad b then sc_keyLoad a - sc_keyLoad b
      else if sc_inFlight a \<noteq> sc_inFlight b then sc_inFlight a - sc_inFlight b
      else if sc_id a < sc_id b then - 1 else if sc_id a > sc_id b then 1 else 0)"

definition counters_load :: "fair_share_counters \<Rightarrow> jsstring \<Rightarrow> jsstring \<Rightarrow> nat" where
  "counters_load counts workerId key =
     (case map_of counts workerId of
        None \<Rightarrow> 0
      | Some workerCounts \<Rightarrow> (case map_of workerCounts key of None \<Rightarrow> 0 | Some n \<Rightarrow> n))"

definition counters_increment :: "fair_share_counters \<Rightarrow> jsstring \<Rightarrow> jsstring \<Rightarrow> fair_share_counters" where
  "counters_increment counts workerId key =
     (let workerCounts = (case map_of counts workerId of None \<Rightarrow> [] | Some m \<Rightarrow> m)
      in AList.update workerId
           (AList.update key ((case map_of workerCounts key of None \<Rightarrow> 0 | Some n \<Rightarrow> n) + 1) workerCounts) counts)"

definition counters_release :: "fair_share_counters \<Rightarrow> jsstring \<Rightarrow> jsstring \<Rightarrow> fair_share_counters" where
  "counters_release counts workerId key =
     (case map_of counts workerId of
        None \<Rightarrow> counts
      | Some workerCounts \<Rightarrow>
          let next = max 0 (int (case map_of workerCounts key of None \<Rightarrow> 0 | Some n \<Rightarrow> n) - 1)
          in if next = 0 then
               (let pruned = AList.delete key workerCounts
                in if length pruned = 0 then AList.delete workerId counts else AList.update workerId pruned counts)
             else AList.update workerId (AList.update key (nat next) workerCounts) counts)"

definition counters_purge :: "fair_share_counters \<Rightarrow> jsstring \<Rightarrow> fair_share_counters" where
  "counters_purge counts workerId = AList.delete workerId counts"

section \<open>Routing\<close>

definition matchesWorkerCapabilities :: "worker_info \<Rightarrow> jsstring \<Rightarrow> jsstring option \<Rightarrow> bool" where
  "matchesWorkerCapabilities worker activityName queue =
     (if queue \<noteq> None \<and> Some (wi_queue worker) \<noteq> queue then False
      else if activityName \<notin> set (wi_activities worker) then False
      else wi_inFlight worker < wi_concurrency worker)"

definition lessLoaded :: "worker_info \<Rightarrow> worker_info \<Rightarrow> bool" where
  "lessLoaded candidate best =
     (wi_inFlight candidate < wi_inFlight best \<or>
      wi_inFlight candidate = wi_inFlight best \<and> wi_id candidate < wi_id best)"

definition pickLeastLoaded :: "worker_info list \<Rightarrow> worker_info" where
  "pickLeastLoaded eligible =
     foldl (\<lambda>best candidate. if lessLoaded candidate best then candidate else best) (hd eligible) (tl eligible)"

definition cursorKey :: "jsstring option \<Rightarrow> jsstring \<Rightarrow> jsstring" where
  "cursorKey queue activityName =
     (case queue of None \<Rightarrow> js ''__default__'' | Some q \<Rightarrow> q) @ js ''::'' @ activityName"

definition pickRoundRobin ::
    "worker_info list \<Rightarrow> (jsstring \<times> nat) list \<Rightarrow> jsstring option \<Rightarrow> jsstring \<Rightarrow> worker_info \<times> (jsstring \<times> nat) list" where
  "pickRoundRobin eligible cursor queue activityName =
     (let key = cursorKey queue activityName;
          position = (case map_of cursor key of None \<Rightarrow> 0 | Some p \<Rightarrow> p)
      in (eligible ! (position mod length eligible), AList.update key (position + 1) cursor))"

definition scoreWorker :: "fair_share_counters \<Rightarrow> jsstring \<Rightarrow> worker_info \<Rightarrow> worker_score" where
  "scoreWorker counters fairShareKey worker =
     \<lparr>sc_id = wi_id worker, sc_inFlight = wi_inFlight worker,
      sc_keyLoad = int (counters_load counters (wi_id worker) fairShareKey)\<rparr>"

definition pickFairShare :: "worker_info list \<Rightarrow> fair_share_counters \<Rightarrow> jsstring \<Rightarrow> worker_info option" where
  "pickFairShare eligible counters fairShareKey =
     (let scores = map (scoreWorker counters fairShareKey) eligible;
          winner = foldl (\<lambda>best candidate. if compareScores candidate best < 0 then candidate else best)
                     (hd scores) (tl scores)
      in find (\<lambda>worker. wi_id worker = sc_id winner) eligible)"

section \<open>Draining\<close>

definition createDrainRecord :: "jsstring option \<Rightarrow> rat option \<Rightarrow> rat \<Rightarrow> drain_record" where
  "createDrainRecord reason updatedAt now =
     \<lparr>dr_reason = reason, dr_startedAt = (case updatedAt of None \<Rightarrow> now | Some t \<Rightarrow> t)\<rparr>"

definition drainRecordForWorker :: "worker_registry \<Rightarrow> worker_info \<Rightarrow> drain_record option" where
  "drainRecordForWorker r worker =
     (case wi_drainStartedAt worker of
        Some startedAt \<Rightarrow> Some \<lparr>dr_reason = wi_drainReason worker, dr_startedAt = startedAt\<rparr>
      | None \<Rightarrow>
          (case wi_deploymentName worker of
             None \<Rightarrow> None
           | Some name \<Rightarrow> map_of (wr_deploymentDrainStates r) name))"

definition isWorkerDraining :: "worker_registry \<Rightarrow> worker_info \<Rightarrow> bool" where
  "isWorkerDraining r worker = (drainRecordForWorker r worker \<noteq> None)"

definition workerHealth :: "worker_registry \<Rightarrow> worker_info \<Rightarrow> worker_health" where
  "workerHealth r worker =
     (if \<not> isWorkerDraining r worker then Active
      else if wi_inFlight worker > 0 then Draining else Drained)"

section \<open>Finding a worker\<close>

definition workerIsEligible :: "worker_registry \<Rightarrow> worker_info \<Rightarrow> jsstring \<Rightarrow> jsstring option \<Rightarrow> jsstring list \<Rightarrow> bool" where
  "workerIsEligible r worker activityName queue excludeWorkerIds =
     (if wi_id worker \<in> set excludeWorkerIds then False
      else if \<not> matchesWorkerCapabilities worker activityName queue then False
      else if isWorkerDraining r worker then False
      else True)"

definition selectByPolicy ::
    "worker_registry \<Rightarrow> worker_info list \<Rightarrow> jsstring option \<Rightarrow> jsstring \<Rightarrow> jsstring option \<Rightarrow> worker_info option \<times> worker_registry" where
  "selectByPolicy r eligible queue activityName fairShareKey =
     (if wr_policy r = RoundRobin then
        (let (pick, cursor) = pickRoundRobin eligible (wr_roundRobinCursor r) queue activityName
         in (Some pick, r\<lparr>wr_roundRobinCursor := cursor\<rparr>))
      else case (wr_policy r, fairShareKey) of
        (FairShare, Some key) \<Rightarrow> (pickFairShare eligible (wr_fairShareCounts r) key, r)
      | _ \<Rightarrow> (Some (pickLeastLoaded eligible), r))"

text \<open>The scan of the workers, collecting the eligible ones and the sticky one among them.\<close>

fun collectEligible ::
    "worker_registry \<Rightarrow> jsstring \<Rightarrow> routing_options \<Rightarrow> worker_info list \<Rightarrow> worker_info list \<Rightarrow> worker_info option
     \<Rightarrow> worker_info list \<times> worker_info option" where
  "collectEligible r activityName opts [] eligible sticky = (eligible, sticky)"
| "collectEligible r activityName opts (worker # ws) eligible sticky =
     (if \<not> workerIsEligible r worker activityName (ro_queue opts) (ro_excludeWorkerIds opts)
      then collectEligible r activityName opts ws eligible sticky
      else collectEligible r activityName opts ws (eligible @ [worker])
             (if ro_sticky opts = Some (wi_id worker) then Some worker else sticky))"

definition findWorker :: "worker_registry \<Rightarrow> jsstring \<Rightarrow> routing_options \<Rightarrow> worker_info option \<times> worker_registry" where
  "findWorker r activityName opts =
     (let (eligible, stickyCandidate) = collectEligible r activityName opts (map snd (wr_workers r)) [] None
      in case stickyCandidate of
           Some worker \<Rightarrow> (Some worker, r)
         | None \<Rightarrow>
             if length eligible = 0 then (None, r)
             else selectByPolicy r eligible (ro_queue opts) activityName (ro_fairShareKey opts))"

section \<open>Registration and task tracking\<close>

definition registeredWorker :: "worker_registry \<Rightarrow> worker_registration_info \<Rightarrow> rat \<Rightarrow> worker_info" where
  "registeredWorker r info now =
     (let inFlight = foldl (\<lambda>n task. if it_workerId task = ri_id info then n + 1 else n) 0
                       (map snd (wr_inFlightTasks r))
      in \<lparr>wi_id = ri_id info, wi_queue = ri_queue info, wi_activities = ri_activities info,
          wi_concurrency = ri_concurrency info, wi_inFlight = inFlight, wi_connectedAt = now,
          wi_lastHeartbeat = now,
          wi_startedAt = (case ri_startedAt info of None \<Rightarrow> now | Some t \<Rightarrow> t),
          wi_capabilities = ri_capabilities info, wi_deploymentName = ri_deploymentName info,
          wi_buildId = ri_buildId info, wi_runtimeVersion = ri_runtimeVersion info,
          wi_gitSha = ri_gitSha info, wi_drainReason = None, wi_drainStartedAt = None\<rparr>)"

definition register :: "worker_registry \<Rightarrow> worker_registration_info \<Rightarrow> rat \<Rightarrow> worker_registry" where
  "register r info now =
     r\<lparr>wr_workers := AList.update (ri_id info) (registeredWorker r info now) (wr_workers r)\<rparr>"

definition unregister :: "worker_registry \<Rightarrow> jsstring \<Rightarrow> worker_info option \<times> worker_registry" where
  "unregister r workerId =
     (case map_of (wr_workers r) workerId of
        None \<Rightarrow> (None, r)
      | Some info \<Rightarrow>
          (Some info,
           r\<lparr>wr_workers := AList.delete workerId (wr_workers r),
             wr_fairShareCounts := counters_purge (wr_fairShareCounts r) workerId,
             wr_inFlightTasks := filter (\<lambda>(_, task). it_workerId task \<noteq> workerId) (wr_inFlightTasks r)\<rparr>))"

text \<open>A change in place of a registered worker.\<close>

definition update_worker :: "worker_registry \<Rightarrow> jsstring \<Rightarrow> (worker_info \<Rightarrow> worker_info) \<Rightarrow> worker_registry" where
  "update_worker r workerId f =
     (case map_of (wr_workers r) workerId of
        None \<Rightarrow> r
      | Some info \<Rightarrow> r\<lparr>wr_workers := AList.update workerId (f info) (wr_workers r)\<rparr>)"

definition heartbeat :: "worker_registry \<Rightarrow> jsstring \<Rightarrow> rat \<Rightarrow> worker_registry" where
  "heartbeat r workerId now = update_worker r workerId (\<lambda>info. info\<lparr>wi_lastHeartbeat := now\<rparr>)"

definition taskAssigned :: "worker_registry \<Rightarrow> jsstring \<Rightarrow> worker_registry" where
  "taskAssigned r workerId = update_worker r workerId (\<lambda>info. info\<lparr>wi_inFlight := wi_inFlight info + 1\<rparr>)"

definition taskCompleted :: "worker_registry \<Rightarrow> jsstring \<Rightarrow> worker_registry" where
  "taskCompleted r workerId =
     update_worker r workerId (\<lambda>info. info\<lparr>wi_inFlight := max 0 (wi_inFlight info - 1)\<rparr>)"

definition assignTask ::
    "worker_registry \<Rightarrow> jsstring \<Rightarrow> jsstring \<Rightarrow> rat \<Rightarrow> jsstring option \<Rightarrow> jsstring \<Rightarrow> rat \<Rightarrow> worker_registry" where
  "assignTask r workerId operationId visibilityTimeout fairShareKey attemptToken now =
     (let task = \<lparr>it_operationId = operationId, it_workerId = workerId, it_deadline = now + visibilityTimeout,
                  it_visibilityTimeout = visibilityTimeout, it_fairShareKey = fairShareKey,
                  it_attemptToken = attemptToken\<rparr>;
          r1 = (case fairShareKey of
                  None \<Rightarrow> r
                | Some key \<Rightarrow> r\<lparr>wr_fairShareCounts := counters_increment (wr_fairShareCounts r) workerId key\<rparr>);
          r2 = r1\<lparr>wr_inFlightTasks := AList.update operationId task (wr_inFlightTasks r1)\<rparr>
      in taskAssigned r2 workerId)"

definition releaseFairShare :: "worker_registry \<Rightarrow> in_flight_task \<Rightarrow> worker_registry" where
  "releaseFairShare r task =
     (case it_fairShareKey task of
        None \<Rightarrow> r
      | Some key \<Rightarrow> r\<lparr>wr_fairShareCounts := counters_release (wr_fairShareCounts r) (it_workerId task) key\<rparr>)"

definition dropExpiredTask :: "in_flight_task \<Rightarrow> worker_registry \<Rightarrow> worker_registry" where
  "dropExpiredTask task r =
     releaseFairShare (r\<lparr>wr_inFlightTasks := AList.delete (it_operationId task) (wr_inFlightTasks r)\<rparr>) task"

definition checkExpiredTasks :: "worker_registry \<Rightarrow> rat \<Rightarrow> in_flight_task list \<times> worker_registry" where
  "checkExpiredTasks r now =
     (let expired = filter (\<lambda>task. it_deadline task \<le> now) (map snd (wr_inFlightTasks r))
      in (expired, fold dropExpiredTask expired r))"

definition extendVisibility :: "worker_registry \<Rightarrow> jsstring \<Rightarrow> rat \<Rightarrow> rat \<Rightarrow> rat option \<times> worker_registry" where
  "extendVisibility r operationId extension now =
     (case map_of (wr_inFlightTasks r) operationId of
        None \<Rightarrow> (None, r)
      | Some task \<Rightarrow>
          (Some (now + extension),
           r\<lparr>wr_inFlightTasks := AList.update operationId (task\<lparr>it_deadline := now + extension\<rparr>) (wr_inFlightTasks r)\<rparr>))"

definition getWorkerTasks :: "worker_registry \<Rightarrow> jsstring \<Rightarrow> in_flight_task list" where
  "getWorkerTasks r workerId = filter (\<lambda>task. it_workerId task = workerId) (map snd (wr_inFlightTasks r))"

definition isAssignedToWorker :: "worker_registry \<Rightarrow> jsstring \<Rightarrow> jsstring \<Rightarrow> bool" where
  "isAssignedToWorker r operationId workerId =
     (case map_of (wr_inFlightTasks r) operationId of None \<Rightarrow> False | Some task \<Rightarrow> it_workerId task = workerId)"

definition isAssignedToAttempt :: "worker_registry \<Rightarrow> jsstring \<Rightarrow> jsstring \<Rightarrow> jsstring \<Rightarrow> bool" where
  "isAssignedToAttempt r operationId workerId attemptToken =
     (case map_of (wr_inFlightTasks r) operationId of
        None \<Rightarrow> False
      | Some task \<Rightarrow> if it_workerId task \<noteq> workerId then False else it_attemptToken task = attemptToken)"

definition isAssigned :: "worker_registry \<Rightarrow> jsstring \<Rightarrow> bool" where
  "isAssigned r operationId = (map_of (wr_inFlightTasks r) operationId \<noteq> None)"

definition getTask :: "worker_registry \<Rightarrow> jsstring \<Rightarrow> in_flight_task option" where
  "getTask r operationId = map_of (wr_inFlightTasks r) operationId"

definition completeTask :: "worker_registry \<Rightarrow> jsstring \<Rightarrow> in_flight_task option \<times> worker_registry" where
  "completeTask r operationId =
     (case map_of (wr_inFlightTasks r) operationId of
        None \<Rightarrow> (None, r)
      | Some task \<Rightarrow>
          let r1 = r\<lparr>wr_inFlightTasks := AList.delete operationId (wr_inFlightTasks r)\<rparr>;
              r2 = taskCompleted r1 (it_workerId task)
          in (Some task, releaseFairShare r2 task))"

definition getWorker :: "worker_registry \<Rightarrow> jsstring \<Rightarrow> worker_info option" where
  "getWorker r workerId = map_of (wr_workers r) workerId"

definition getAll :: "worker_registry \<Rightarrow> worker_info list" where
  "getAll r = map snd (wr_workers r)"

definition registry_size :: "worker_registry \<Rightarrow> nat" where
  "registry_size r = length (wr_workers r)"

section \<open>Drain markers\<close>

record drain_mutation_result =
  dm_target :: "jsstring + jsstring"
  dm_affectedWorkers :: nat
  dm_inFlight :: int
  dm_health :: worker_health

text \<open>\<open>dm_target\<close> is \<open>Inl\<close> a worker id or \<open>Inr\<close> a deployment name.\<close>

definition workerDrainResult :: "worker_registry \<Rightarrow> jsstring \<Rightarrow> drain_mutation_result option" where
  "workerDrainResult r workerId =
     (case map_of (wr_workers r) workerId of
        None \<Rightarrow> None
      | Some worker \<Rightarrow> Some \<lparr>dm_target = Inl workerId, dm_affectedWorkers = 1, dm_inFlight = wi_inFlight worker,
          dm_health = workerHealth r worker\<rparr>)"

definition markWorkerDraining ::
    "worker_registry \<Rightarrow> jsstring \<Rightarrow> jsstring option \<Rightarrow> rat option \<Rightarrow> rat \<Rightarrow> drain_mutation_result option \<times> worker_registry" where
  "markWorkerDraining r workerId reason updatedAt now =
     (let record = createDrainRecord reason updatedAt now;
          r1 = update_worker r workerId
                 (\<lambda>w. w\<lparr>wi_drainStartedAt := Some (dr_startedAt record), wi_drainReason := dr_reason record\<rparr>)
      in (workerDrainResult r1 workerId, r1))"

definition clearWorkerDrain :: "worker_registry \<Rightarrow> jsstring \<Rightarrow> drain_mutation_result option \<times> worker_registry" where
  "clearWorkerDrain r workerId =
     (let r1 = update_worker r workerId (\<lambda>w. w\<lparr>wi_drainReason := None, wi_drainStartedAt := None\<rparr>)
      in (workerDrainResult r1 workerId, r1))"

definition deploymentHealth :: "worker_health list \<Rightarrow> bool \<Rightarrow> worker_health" where
  "deploymentHealth healthValues drainActive =
     (if Draining \<in> set healthValues then Draining
      else if length healthValues = 0 then (if drainActive then Drained else Active)
      else if list_all (\<lambda>health. health = Drained) healthValues then Drained
      else Active)"

definition deploymentDrainResult :: "worker_registry \<Rightarrow> jsstring \<Rightarrow> drain_mutation_result" where
  "deploymentDrainResult r deploymentName =
     (let workers = filter (\<lambda>w. wi_deploymentName w = Some deploymentName) (map snd (wr_workers r))
      in \<lparr>dm_target = Inr deploymentName, dm_affectedWorkers = length workers,
          dm_inFlight = foldl (\<lambda>total w. total + wi_inFlight w) 0 workers,
          dm_health = deploymentHealth (map (workerHealth r) workers)
            (map_of (wr_deploymentDrainStates r) deploymentName \<noteq> None)\<rparr>)"

definition markDeploymentDraining ::
    "worker_registry \<Rightarrow> jsstring \<Rightarrow> jsstring option \<Rightarrow> rat option \<Rightarrow> rat \<Rightarrow> drain_mutation_result \<times> worker_registry" where
  "markDeploymentDraining r deploymentName reason updatedAt now =
     (let r1 = r\<lparr>wr_deploymentDrainStates := AList.update deploymentName
                   (createDrainRecord reason updatedAt now) (wr_deploymentDrainStates r)\<rparr>
      in (deploymentDrainResult r1 deploymentName, r1))"

definition clearDeploymentDrain :: "worker_registry \<Rightarrow> jsstring \<Rightarrow> drain_mutation_result \<times> worker_registry" where
  "clearDeploymentDrain r deploymentName =
     (let r1 = r\<lparr>wr_deploymentDrainStates := AList.delete deploymentName (wr_deploymentDrainStates r)\<rparr>
      in (deploymentDrainResult r1 deploymentName, r1))"

section \<open>Summaries\<close>

text \<open>
  A worker snapshot is the worker with its computed health. A deployment identity is the quadruple of
  deployment name, build id, runtime version and git sha.
\<close>

record worker_summary =
  ws_info :: worker_info
  ws_availableCapacity :: int
  ws_heartbeatAgeMs :: rat
  ws_health :: worker_health

definition projectWorkerSummary :: "worker_info \<times> worker_health \<Rightarrow> rat \<Rightarrow> worker_summary" where
  "projectWorkerSummary snapshot now =
     (let (w, health) = snapshot
      in \<lparr>ws_info = w, ws_availableCapacity = max 0 (wi_concurrency w - wi_inFlight w),
          ws_heartbeatAgeMs = now - wi_lastHeartbeat w, ws_health = health\<rparr>)"

definition projectWorkerSummaries :: "(worker_info \<times> worker_health) list \<Rightarrow> rat \<Rightarrow> worker_summary list" where
  "projectWorkerSummaries snapshots now =
     sort_key (\<lambda>s. wi_id (ws_info s)) (map (\<lambda>s. projectWorkerSummary s now) snapshots)"

definition workerSnapshots :: "worker_registry \<Rightarrow> (worker_info \<times> worker_health) list" where
  "workerSnapshots r = map (\<lambda>w. (w, workerHealth r w)) (map snd (wr_workers r))"

definition getWorkerSummaries :: "worker_registry \<Rightarrow> rat \<Rightarrow> worker_summary list" where
  "getWorkerSummaries r now = projectWorkerSummaries (workerSnapshots r) now"

record deployment_summary =
  ds_deploymentName :: "jsstring option"
  ds_buildId :: "jsstring option"
  ds_runtimeVersion :: "jsstring option"
  ds_gitSha :: "jsstring option"
  ds_health :: worker_health
  ds_workers :: nat
  ds_activeWorkers :: nat
  ds_drainingWorkers :: nat
  ds_drainedWorkers :: nat
  ds_inFlight :: int
  ds_oldestStartedAt :: "rat option"

definition deploymentIdentityKey ::
    "jsstring option \<Rightarrow> jsstring option \<Rightarrow> jsstring option \<Rightarrow> jsstring option \<Rightarrow> jsstring" where
  "deploymentIdentityKey deploymentName buildId runtimeVersion gitSha =
     (let text = (\<lambda>v. case v of None \<Rightarrow> [] | Some t \<Rightarrow> t)
      in text deploymentName @ [0x1f] @ text buildId @ [0x1f] @ text runtimeVersion @ [0x1f] @ text gitSha)"

definition snapshotKey :: "worker_info \<times> worker_health \<Rightarrow> jsstring" where
  "snapshotKey s =
     deploymentIdentityKey (wi_deploymentName (fst s)) (wi_buildId (fst s)) (wi_runtimeVersion (fst s)) (wi_gitSha (fst s))"

definition countWorkerHealth :: "worker_health list \<Rightarrow> nat \<times> nat \<times> nat" where
  "countWorkerHealth healthValues =
     foldl (\<lambda>(a, d, e) health. case health of
       Active \<Rightarrow> (a + 1, d, e) | Draining \<Rightarrow> (a, d + 1, e) | Drained \<Rightarrow> (a, d, e + 1)) (0, 0, 0) healthValues"

definition projectDeploymentSummary :: "(worker_info \<times> worker_health) list \<Rightarrow> bool \<Rightarrow> deployment_summary" where
  "projectDeploymentSummary workers drainActive =
     (let identity = (\<lambda>f. case workers of [] \<Rightarrow> None | s # _ \<Rightarrow> f (fst s));
          healthValues = map snd workers;
          (active, draining, drained) = countWorkerHealth healthValues
      in \<lparr>ds_deploymentName = identity wi_deploymentName, ds_buildId = identity wi_buildId,
          ds_runtimeVersion = identity wi_runtimeVersion, ds_gitSha = identity wi_gitSha,
          ds_health = deploymentHealth healthValues drainActive,
          ds_workers = length workers, ds_activeWorkers = active, ds_drainingWorkers = draining,
          ds_drainedWorkers = drained,
          ds_inFlight = foldl (\<lambda>total s. total + wi_inFlight (fst s)) 0 workers,
          ds_oldestStartedAt =
            (if length workers = 0 then None else Some (Min (set (map (\<lambda>s. wi_startedAt (fst s)) workers))))\<rparr>)"

definition groupByIdentity ::
    "(worker_info \<times> worker_health) list \<Rightarrow> (jsstring \<times> (worker_info \<times> worker_health) list) list" where
  "groupByIdentity snapshots =
     fold (\<lambda>s groups. case map_of groups (snapshotKey s) of
         None \<Rightarrow> AList.update (snapshotKey s) [s] groups
       | Some grp \<Rightarrow> AList.update (snapshotKey s) (grp @ [s]) groups) snapshots []"

definition projectDeploymentSummaries ::
    "(worker_info \<times> worker_health) list \<Rightarrow> (jsstring \<Rightarrow> bool) \<Rightarrow> deployment_summary list" where
  "projectDeploymentSummaries snapshots isDrainActive =
     sort_key (\<lambda>d. deploymentIdentityKey (ds_deploymentName d) (ds_buildId d) (ds_runtimeVersion d) (ds_gitSha d))
       (map (\<lambda>(_, grp).
          let drainActive = (case grp of [] \<Rightarrow> False
                             | s # _ \<Rightarrow> (case wi_deploymentName (fst s) of None \<Rightarrow> False | Some name \<Rightarrow> isDrainActive name))
          in projectDeploymentSummary grp drainActive) (groupByIdentity snapshots))"

definition getDeploymentSummaries :: "worker_registry \<Rightarrow> deployment_summary list" where
  "getDeploymentSummaries r =
     projectDeploymentSummaries (workerSnapshots r) (\<lambda>name. map_of (wr_deploymentDrainStates r) name \<noteq> None)"

section \<open>Counters as a ledger\<close>

text \<open>
  What the registry relies on of its counters, and what follows for a batch of releases. The ledger is
  read only through \<open>load\<close>.
\<close>

locale counter_ledger =
  fixes load :: "'c \<Rightarrow> 'w \<Rightarrow> 'k \<Rightarrow> nat"
    and inc :: "'c \<Rightarrow> 'w \<Rightarrow> 'k \<Rightarrow> 'c"
    and rel :: "'c \<Rightarrow> 'w \<Rightarrow> 'k \<Rightarrow> 'c"
    and purge :: "'c \<Rightarrow> 'w \<Rightarrow> 'c"
  assumes load_inc: "load (inc c w k) w' k' = load c w' k' + (if w' = w \<and> k' = k then 1 else 0)"
    and load_rel: "load (rel c w k) w' k' = load c w' k' - (if w' = w \<and> k' = k then 1 else 0)"
    and load_purge: "load (purge c w) w' k' = (if w' = w then 0 else load c w' k')"
begin

lemma load_inc_rel: "load (rel (inc c w k) w k) w' k' = load c w' k'"
  by (simp add: load_inc load_rel)

lemma load_releases:
  "load (fold (\<lambda>(w, k) c. rel c w k) ps c) w' k' = load c w' k' - length (filter (\<lambda>p. p = (w', k')) ps)"
  by (induction ps arbitrary: c) (auto simp: load_rel split: if_splits)

end

interpretation fair_share: counter_ledger counters_load counters_increment counters_release counters_purge
proof unfold_locales
  fix c :: fair_share_counters and w k w' k' :: jsstring
  show "counters_load (counters_increment c w k) w' k' = counters_load c w' k' + (if w' = w \<and> k' = k then 1 else 0)"
    by (simp add: counters_load_def counters_increment_def Let_def split: option.splits)
  show "counters_load (counters_purge c w) w' k' = (if w' = w then 0 else counters_load c w' k')"
    by (simp add: counters_load_def counters_purge_def)
  show "counters_load (counters_release c w k) w' k' = counters_load c w' k' - (if w' = w \<and> k' = k then 1 else 0)"
  proof (cases "map_of c w")
    case None
    then show ?thesis by (auto simp: counters_load_def counters_release_def)
  next
    case (Some m)
    have empty: "map_of m k' = None" if "AList.delete k m = []" "k' \<noteq> k"
      using that map_of_alist_delete [of k m] by (metis fun_upd_other map_of.simps(1))
    obtain n where n: "n = (case map_of m k of None \<Rightarrow> 0 | Some n \<Rightarrow> n)" by simp
    show ?thesis
    proof (cases "n \<le> 1")
      case True
      then show ?thesis
        using Some empty n by (auto simp: counters_load_def counters_release_def Let_def split: option.splits)
    next
      case False
      then have "max 0 (int n - 1) = int (n - 1)" "n - 1 \<noteq> 0" by simp_all
      then show ?thesis
        using Some n by (auto simp: counters_load_def counters_release_def Let_def split: option.splits)
    qed
  qed
qed

section \<open>Counting entries of a map\<close>

definition entries :: "('v \<Rightarrow> bool) \<Rightarrow> ('k \<times> 'v) list \<Rightarrow> nat" where
  "entries P m = length (filter P (map snd m))"

lemma entries_Nil [simp]: "entries P [] = 0"
  by (simp add: entries_def)

lemma entries_Cons [simp]: "entries P (x # m) = (if P (snd x) then 1 else 0) + entries P m"
  by (simp add: entries_def)

lemma entries_update_fresh:
  "map_of m k = None \<Longrightarrow> entries P (AList.update k v m) = entries P m + (if P v then 1 else 0)"
  by (induction m) auto

lemma entries_update_same:
  "map_of m k = Some v \<Longrightarrow> P v' = P v \<Longrightarrow> entries P (AList.update k v' m) = entries P m"
  by (induction m) auto

lemma entries_update_old:
  "map_of m k = Some v \<Longrightarrow>
   entries P (AList.update k v' m) + (if P v then 1 else 0) = entries P m + (if P v' then 1 else 0)"
  by (induction m) auto

lemma entries_delete:
  "distinct (map fst m) \<Longrightarrow> map_of m k = Some v \<Longrightarrow>
   entries P (AList.delete k m) = entries P m - (if P v then 1 else 0)"
proof (induction m)
  case (Cons x m)
  show ?case
  proof (cases "fst x = k")
    case True
    then have "AList.delete k m = m"
      using Cons.prems(1) by (auto simp: AList.delete_eq filter_id_conv image_iff)
    then show ?thesis using True Cons.prems(2) by (cases x) simp
  next
    case False
    then have "map_of m k = Some v" using Cons.prems(2) by (cases x) simp
    moreover have "0 < entries P m" if "P v"
      using that map_of_SomeD [OF \<open>map_of m k = Some v\<close>] by (force simp: entries_def filter_empty_conv)
    ultimately show ?thesis using False Cons by (cases x) auto
  qed
qed simp

lemma entries_filter_keep: "(\<And>x. x \<in> set m \<Longrightarrow> P (snd x) \<Longrightarrow> Q x) \<Longrightarrow> entries P (filter Q m) = entries P m"
  by (induction m) auto

lemma entries_filter_drop: "(\<And>x. x \<in> set m \<Longrightarrow> P (snd x) \<Longrightarrow> \<not> Q x) \<Longrightarrow> entries P (filter Q m) = 0"
  by (induction m) auto

section \<open>The registry in use\<close>

text \<open>
  A run of the registry: any sequence of its public operations. Workers may come back under the
  same id, a task may be assigned under an id that is in flight already, and the load of a worker
  may be moved directly by \<open>taskAssigned\<close> and \<open>taskCompleted\<close>. Four things keep the counters
  from being the numbers of in-flight tasks; the run collects which of them have happened.
\<close>

datatype irregularity = ExpiryChecked | Reassigned | CountedUp | CountedDown

inductive registry_run :: "irregularity set \<Rightarrow> worker_registry \<Rightarrow> bool" where
  reg_new: "registry_run {} (newWorkerRegistry policy)"
| reg_register: "registry_run e r \<Longrightarrow> registry_run e (register r info now)"
| reg_unregister: "registry_run e r \<Longrightarrow> registry_run e (snd (unregister r workerId))"
| reg_heartbeat: "registry_run e r \<Longrightarrow> registry_run e (heartbeat r workerId now)"
| reg_find: "registry_run e r \<Longrightarrow> registry_run e (snd (findWorker r activityName opts))"
| reg_count_up: "registry_run e r \<Longrightarrow> registry_run (insert CountedUp e) (taskAssigned r workerId)"
| reg_count_down: "registry_run e r \<Longrightarrow> registry_run (insert CountedDown e) (taskCompleted r workerId)"
| reg_assign: "registry_run e r \<Longrightarrow>
    registry_run (if isAssigned r operationId then insert Reassigned e else e)
      (assignTask r workerId operationId visibilityTimeout fairShareKey attemptToken now)"
| reg_complete: "registry_run e r \<Longrightarrow> registry_run e (snd (completeTask r operationId))"
| reg_extend: "registry_run e r \<Longrightarrow> registry_run e (snd (extendVisibility r operationId extension now))"
| reg_expire: "registry_run e r \<Longrightarrow> registry_run (insert ExpiryChecked e) (snd (checkExpiredTasks r now))"
| reg_drain: "registry_run e r \<Longrightarrow> registry_run e (snd (markWorkerDraining r workerId reason updatedAt now))"
| reg_undrain: "registry_run e r \<Longrightarrow> registry_run e (snd (clearWorkerDrain r workerId))"
| reg_drain_deployment: "registry_run e r \<Longrightarrow>
    registry_run e (snd (markDeploymentDraining r deploymentName reason updatedAt now))"
| reg_undrain_deployment: "registry_run e r \<Longrightarrow> registry_run e (snd (clearDeploymentDrain r deploymentName))"

definition workers_ok :: "worker_registry \<Rightarrow> bool" where
  "workers_ok r \<longleftrightarrow> distinct (map fst (wr_workers r)) \<and> (\<forall>k w. map_of (wr_workers r) k = Some w \<longrightarrow> wi_id w = k)"

definition tasks_ok :: "worker_registry \<Rightarrow> bool" where
  "tasks_ok r \<longleftrightarrow> distinct (map fst (wr_inFlightTasks r)) \<and> 
     (\<forall>k t. map_of (wr_inFlightTasks r) k = Some t \<longrightarrow> it_operationId t = k)"

definition worker_tasks :: "worker_registry \<Rightarrow> jsstring \<Rightarrow> nat" where
  "worker_tasks r workerId = entries (\<lambda>t. it_workerId t = workerId) (wr_inFlightTasks r)"

definition key_tasks :: "worker_registry \<Rightarrow> jsstring \<Rightarrow> jsstring \<Rightarrow> nat" where
  "key_tasks r workerId key = entries (\<lambda>t. it_workerId t = workerId \<and> it_fairShareKey t = Some key) (wr_inFlightTasks r)"

definition counts_ok :: "irregularity set \<Rightarrow> worker_registry \<Rightarrow> bool" where
  "counts_ok e r \<longleftrightarrow> (\<forall>workerId key.
     key_tasks r workerId key \<le> counters_load (wr_fairShareCounts r) workerId key \<and>
     (Reassigned \<notin> e \<longrightarrow> counters_load (wr_fairShareCounts r) workerId key = key_tasks r workerId key))"

definition load_ok :: "irregularity set \<Rightarrow> worker_registry \<Rightarrow> bool" where
  "load_ok e r \<longleftrightarrow> (\<forall>workerId w. map_of (wr_workers r) workerId = Some w \<longrightarrow>
     (CountedDown \<notin> e \<longrightarrow> int (worker_tasks r workerId) \<le> wi_inFlight w) \<and>
     (e = {} \<longrightarrow> wi_inFlight w = int (worker_tasks r workerId)))"

definition registry_ok :: "irregularity set \<Rightarrow> worker_registry \<Rightarrow> bool" where
  "registry_ok e r \<longleftrightarrow> workers_ok r \<and> tasks_ok r \<and> counts_ok e r \<and> load_ok e r"

lemma registry_ok_mono: "registry_ok e r \<Longrightarrow> e \<subseteq> e' \<Longrightarrow> registry_ok e' r"
  unfolding registry_ok_def counts_ok_def load_ok_def by blast

lemma update_worker_simps [simp]:
  "wr_inFlightTasks (update_worker r k f) = wr_inFlightTasks r"
  "wr_fairShareCounts (update_worker r k f) = wr_fairShareCounts r"
  "wr_policy (update_worker r k f) = wr_policy r"
  "wr_deploymentDrainStates (update_worker r k f) = wr_deploymentDrainStates r"
  "map_of (wr_workers (update_worker r k f)) j =
     (if j = k then map_option f (map_of (wr_workers r) k) else map_of (wr_workers r) j)"
  by (auto simp: update_worker_def split: option.splits)

lemma counts_cong:
  assumes "wr_inFlightTasks r' = wr_inFlightTasks r"
  shows "worker_tasks r' = worker_tasks r" "key_tasks r' = key_tasks r"
  by (auto simp: worker_tasks_def key_tasks_def assms fun_eq_iff)

lemma workers_ok_update:
  assumes "workers_ok r" and "wi_id w = k" and "wr_workers r' = AList.update k w (wr_workers r)"
  shows "workers_ok r'"
  using assms by (auto simp: workers_ok_def)

lemma tasks_ok_update:
  assumes "tasks_ok r" and "it_operationId t = k" and "wr_inFlightTasks r' = AList.update k t (wr_inFlightTasks r)"
  shows "tasks_ok r'"
  using assms by (auto simp: tasks_ok_def)

lemma update_worker_ok:
  assumes "workers_ok r" and "\<And>w. wi_id (f w) = wi_id w"
  shows "workers_ok (update_worker r k f)"
proof (cases "map_of (wr_workers r) k")
  case (Some w)
  have "wi_id w = k" using Some assms(1) by (simp add: workers_ok_def)
  then have "wi_id (f w) = k" using assms(2) by simp
  then show ?thesis by (rule workers_ok_update [OF assms(1)]) (simp add: update_worker_def Some)
qed (use assms in \<open>simp add: update_worker_def\<close>)

text \<open>A change of workers that keeps their load keeps the invariant.\<close>

lemma update_worker_keeps:
  assumes "registry_ok e r" and "\<And>w. wi_id (f w) = wi_id w" and "\<And>w. wi_inFlight (f w) = wi_inFlight w"
  shows "registry_ok e (update_worker r k f)"
  using assms update_worker_ok [of r f k]
  by (auto simp: registry_ok_def tasks_ok_def counts_ok_def load_ok_def counts_cong [of "update_worker r k f" r])

lemma registry_ok_cong:
  assumes "registry_ok e r" and "wr_workers r' = wr_workers r" and "wr_inFlightTasks r' = wr_inFlightTasks r"
    and "wr_fairShareCounts r' = wr_fairShareCounts r"
  shows "registry_ok e r'"
  using assms
  by (simp add: registry_ok_def workers_ok_def tasks_ok_def counts_ok_def load_ok_def counts_cong [OF assms(3)])

lemma findWorker_state:
  "wr_workers (snd (findWorker r a opts)) = wr_workers r"
  "wr_inFlightTasks (snd (findWorker r a opts)) = wr_inFlightTasks r"
  "wr_fairShareCounts (snd (findWorker r a opts)) = wr_fairShareCounts r"
  by (simp_all add: findWorker_def selectByPolicy_def Let_def split_beta
      split: option.splits routing_policy.splits)

lemma foldl_count: "foldl (\<lambda>n x. if P x then n + 1 else n) (k :: int) xs = k + int (length (filter P xs))"
  by (induction xs arbitrary: k) auto

lemma register_ok:
  assumes "registry_ok e r"
  shows "registry_ok e (register r info now)"
proof -
  have tasks: "wr_inFlightTasks (register r info now) = wr_inFlightTasks r" by (simp add: register_def)
  have new: "wi_id (registeredWorker r info now) = ri_id info"
    "wi_inFlight (registeredWorker r info now) = int (worker_tasks r (ri_id info))"
    by (simp_all add: registeredWorker_def foldl_count worker_tasks_def entries_def)
  have "workers_ok (register r info now)"
    by (rule workers_ok_update [OF _ new(1)]) (use assms in \<open>simp_all add: registry_ok_def register_def\<close>)
  moreover have "load_ok e (register r info now)"
    unfolding load_ok_def counts_cong(1) [OF tasks] using assms
    by (auto simp: register_def registry_ok_def load_ok_def new(2))
  ultimately show ?thesis
    using assms by (simp add: registry_ok_def tasks_ok_def counts_ok_def counts_cong [OF tasks] tasks)
      (simp add: register_def)
qed

lemma unregister_ok:
  assumes "registry_ok e r"
  shows "registry_ok e (snd (unregister r w))"
proof (cases "map_of (wr_workers r) w")
  case (Some info)
  define r' where "r' = snd (unregister r w)"
  have r': "r' = r\<lparr>wr_workers := AList.delete w (wr_workers r),
      wr_fairShareCounts := counters_purge (wr_fairShareCounts r) w,
      wr_inFlightTasks := filter (\<lambda>(_, task). it_workerId task \<noteq> w) (wr_inFlightTasks r)\<rparr>"
    using Some by (simp add: r'_def unregister_def)
  have wt: "worker_tasks r' w' = (if w' = w then 0 else worker_tasks r w')" for w'
    unfolding worker_tasks_def r'
    by (auto intro!: entries_filter_keep entries_filter_drop)
  have kt: "key_tasks r' w' k = (if w' = w then 0 else key_tasks r w' k)" for w' k
    unfolding key_tasks_def r' by (auto intro!: entries_filter_keep entries_filter_drop)
  have "counts_ok e r'"
    using assms unfolding counts_ok_def kt by (simp add: r' fair_share.load_purge registry_ok_def counts_ok_def)
  moreover have "load_ok e r'"
    using assms unfolding load_ok_def wt by (auto simp: r' registry_ok_def load_ok_def)
  moreover have "workers_ok r'"
    using assms by (auto simp: r' registry_ok_def workers_ok_def)
  moreover have "tasks_ok r'"
    using assms by (auto simp: r' registry_ok_def tasks_ok_def distinct_map_filter)
  ultimately show ?thesis by (simp add: registry_ok_def r'_def)
qed (use assms in \<open>simp add: unregister_def\<close>)

lemma assignTask_fields:
  fixes r w i v key token now
  defines "r' \<equiv> assignTask r w i v key token now"
    and "t \<equiv> \<lparr>it_operationId = i, it_workerId = w, it_deadline = now + v, it_visibilityTimeout = v,
      it_fairShareKey = key, it_attemptToken = token\<rparr>"
  shows "wr_inFlightTasks r' = AList.update i t (wr_inFlightTasks r)"
    "wr_fairShareCounts r' = (case key of None \<Rightarrow> wr_fairShareCounts r
       | Some k \<Rightarrow> counters_increment (wr_fairShareCounts r) w k)"
    "map_of (wr_workers r') j = (if j = w then map_option (\<lambda>x. x\<lparr>wi_inFlight := wi_inFlight x + 1\<rparr>) (map_of (wr_workers r) w)
       else map_of (wr_workers r) j)"
    "workers_ok r \<Longrightarrow> workers_ok r'"
proof -
  define r2 where "r2 = (case key of None \<Rightarrow> r
      | Some k \<Rightarrow> r\<lparr>wr_fairShareCounts := counters_increment (wr_fairShareCounts r) w k\<rparr>)
    \<lparr>wr_inFlightTasks := AList.update i t (wr_inFlightTasks r)\<rparr>"
  have r': "r' = update_worker r2 w (\<lambda>info. info\<lparr>wi_inFlight := wi_inFlight info + 1\<rparr>)"
    by (cases key) (simp_all add: r'_def assignTask_def Let_def r2_def t_def taskAssigned_def)
  have w2: "wr_workers r2 = wr_workers r" by (simp add: r2_def split: option.split)
  show "wr_inFlightTasks r' = AList.update i t (wr_inFlightTasks r)" by (simp add: r' r2_def)
  show "wr_fairShareCounts r' = (case key of None \<Rightarrow> wr_fairShareCounts r
       | Some k \<Rightarrow> counters_increment (wr_fairShareCounts r) w k)"
    by (simp add: r' r2_def split: option.split)
  show "map_of (wr_workers r') j = (if j = w then map_option (\<lambda>x. x\<lparr>wi_inFlight := wi_inFlight x + 1\<rparr>) (map_of (wr_workers r) w)
       else map_of (wr_workers r) j)"
    by (simp add: r' w2)
  show "workers_ok r'" if "workers_ok r"
    unfolding r' by (rule update_worker_ok) (use that in \<open>simp_all add: workers_ok_def w2\<close>)
qed

lemma assignTask_ok:
  assumes ok: "registry_ok e r" and fresh: "\<not> isAssigned r i"
  shows "registry_ok e (assignTask r w i v key token now)"
proof -
  define r' where "r' = assignTask r w i v key token now"
  note F = assignTask_fields [of r w i v key token now, folded r'_def]
  have none: "map_of (wr_inFlightTasks r) i = None" using fresh by (simp add: isAssigned_def)
  have wt: "worker_tasks r' w' = worker_tasks r w' + (if w' = w then 1 else 0)" for w'
    by (simp add: worker_tasks_def F(1) entries_update_fresh [OF none])
  have kt: "key_tasks r' w' k = key_tasks r w' k + (if w' = w \<and> key = Some k then 1 else 0)" for w' k
    by (simp add: key_tasks_def F(1) entries_update_fresh [OF none])
  have "counts_ok e r'"
    using ok unfolding counts_ok_def kt F(2)
    by (auto simp: registry_ok_def counts_ok_def fair_share.load_inc split: option.splits)
  moreover have "load_ok e r'"
    using ok unfolding load_ok_def wt F(3) by (auto simp: registry_ok_def load_ok_def)
  moreover have "tasks_ok r'"
    by (rule tasks_ok_update [OF _ _ F(1)]) (use ok in \<open>simp_all add: registry_ok_def\<close>)
  moreover have "workers_ok r'" using ok F(4) by (simp add: registry_ok_def)
  ultimately show ?thesis by (simp add: registry_ok_def r'_def)
qed

text \<open>
  Assigning an id that is in flight replaces its task; the counters of the replaced task stay.
\<close>

lemma reassignTask_ok:
  assumes ok: "registry_ok e r" and old: "isAssigned r i"
  shows "registry_ok (insert Reassigned e) (assignTask r w i v key token now)"
proof -
  define r' where "r' = assignTask r w i v key token now"
  note F = assignTask_fields [of r w i v key token now, folded r'_def]
  obtain t where some: "map_of (wr_inFlightTasks r) i = Some t" using old by (auto simp: isAssigned_def)
  define t' where "t' = \<lparr>it_operationId = i, it_workerId = w, it_deadline = now + v, it_visibilityTimeout = v,
      it_fairShareKey = key, it_attemptToken = token\<rparr>"
  have new: "entries P (wr_inFlightTasks r') \<le> entries P (wr_inFlightTasks r) + (if P t' then 1 else 0)" for P
    unfolding F(1) t'_def [symmetric] using entries_update_old [OF some, of P t'] by (cases "P t"; cases "P t'") simp_all
  have wt: "worker_tasks r' w' \<le> worker_tasks r w' + (if w' = w then 1 else 0)" for w'
    using new [of "\<lambda>t. it_workerId t = w'"] by (simp add: worker_tasks_def t'_def split: if_splits)
  have kt: "key_tasks r' w' k \<le> key_tasks r w' k + (if w' = w \<and> key = Some k then 1 else 0)" for w' k
    using new [of "\<lambda>t. it_workerId t = w' \<and> it_fairShareKey t = Some k"]
    by (auto simp: key_tasks_def t'_def split: if_splits)
  have "key_tasks r' w' k \<le> counters_load (wr_fairShareCounts r') w' k" for w' k
  proof -
    have "key_tasks r w' k \<le> counters_load (wr_fairShareCounts r) w' k"
      using ok by (simp add: registry_ok_def counts_ok_def)
    then show ?thesis
      using kt [of w' k] by (auto simp: F(2) fair_share.load_inc split: option.splits)
  qed
  then have "counts_ok (insert Reassigned e) r'" by (simp add: counts_ok_def)
  moreover have "load_ok (insert Reassigned e) r'"
    unfolding load_ok_def
  proof (intro allI impI conjI)
    fix w' x assume x: "map_of (wr_workers r') w' = Some x" and down: "CountedDown \<notin> insert Reassigned e"
    obtain y where y: "map_of (wr_workers r) w' = Some y"
      "wi_inFlight x = wi_inFlight y + (if w' = w then 1 else 0)"
      using x by (auto simp: F(3) split: if_splits)
    have "int (worker_tasks r w') \<le> wi_inFlight y" using ok y(1) down by (simp add: registry_ok_def load_ok_def)
    then show "int (worker_tasks r' w') \<le> wi_inFlight x" using wt [of w'] y(2) by (auto split: if_splits)
  qed simp
  moreover have "tasks_ok r'"
    by (rule tasks_ok_update [OF _ _ F(1)]) (use ok in \<open>simp_all add: registry_ok_def\<close>)
  moreover have "workers_ok r'" using ok F(4) by (simp add: registry_ok_def)
  ultimately show ?thesis by (simp add: registry_ok_def r'_def)
qed

text \<open>Moving a load directly leaves everything but that load alone.\<close>

lemma count_up_ok:
  assumes "registry_ok e r"
  shows "registry_ok (insert CountedUp e) (taskAssigned r w)"
  using assms update_worker_ok [of r "\<lambda>info. info\<lparr>wi_inFlight := wi_inFlight info + 1\<rparr>" w]
  unfolding taskAssigned_def
  by (force simp: registry_ok_def tasks_ok_def counts_ok_def load_ok_def counts_cong [of "update_worker r w f" r for f])

lemma count_down_ok:
  assumes "registry_ok e r"
  shows "registry_ok (insert CountedDown e) (taskCompleted r w)"
  using assms update_worker_ok [of r "\<lambda>info. info\<lparr>wi_inFlight := max 0 (wi_inFlight info - 1)\<rparr>" w]
  unfolding taskCompleted_def
  by (force simp: registry_ok_def tasks_ok_def counts_ok_def load_ok_def counts_cong [of "update_worker r w f" r for f])

lemma releaseFairShare_simps [simp]:
  "wr_workers (releaseFairShare r t) = wr_workers r"
  "wr_inFlightTasks (releaseFairShare r t) = wr_inFlightTasks r"
  by (simp_all add: releaseFairShare_def split: option.split)

lemma load_releaseFairShare:
  "counters_load (wr_fairShareCounts (releaseFairShare r t)) w k =
     counters_load (wr_fairShareCounts r) w k - (if it_workerId t = w \<and> it_fairShareKey t = Some k then 1 else 0)"
  by (auto simp: releaseFairShare_def fair_share.load_rel split: option.split)

lemma delete_task_counts:
  assumes ok: "tasks_ok r" and t: "map_of (wr_inFlightTasks r) i = Some t"
    and r': "wr_inFlightTasks r' = AList.delete i (wr_inFlightTasks r)"
  shows "worker_tasks r' w = worker_tasks r w - (if it_workerId t = w then 1 else 0)"
    and "key_tasks r' w k = key_tasks r w k - (if it_workerId t = w \<and> it_fairShareKey t = Some k then 1 else 0)"
    and "tasks_ok r'"
  using ok entries_delete [OF _ t] by (auto simp: worker_tasks_def key_tasks_def tasks_ok_def r')

lemma worker_tasks_pos:
  assumes "map_of (wr_inFlightTasks r) i = Some t"
  shows "0 < worker_tasks r (it_workerId t)"
  using map_of_SomeD [OF assms] by (force simp: worker_tasks_def entries_def filter_empty_conv)

lemma completeTask_ok:
  assumes ok: "registry_ok e r"
  shows "registry_ok e (snd (completeTask r i))"
proof (cases "map_of (wr_inFlightTasks r) i")
  case (Some t)
  define r' where "r' = snd (completeTask r i)"
  define r1 where "r1 = r\<lparr>wr_inFlightTasks := AList.delete i (wr_inFlightTasks r)\<rparr>"
  have r': "r' = releaseFairShare (update_worker r1 (it_workerId t)
      (\<lambda>info. info\<lparr>wi_inFlight := max 0 (wi_inFlight info - 1)\<rparr>)) t"
    using Some by (simp add: r'_def completeTask_def Let_def taskCompleted_def r1_def)
  have T: "tasks_ok r" "workers_ok r1" using ok by (simp_all add: registry_ok_def r1_def workers_ok_def)
  have tasks: "wr_inFlightTasks r' = AList.delete i (wr_inFlightTasks r)" by (simp add: r' r1_def)
  note D = delete_task_counts [OF T(1) Some tasks]
  have "counts_ok e r'"
    using ok unfolding counts_ok_def D(2)
    by (auto simp: r' load_releaseFairShare registry_ok_def counts_ok_def r1_def intro: diff_le_mono)
  moreover have "load_ok e r'"
  proof -
    have pos: "1 \<le> int (worker_tasks r (it_workerId t))" using worker_tasks_pos [OF Some] by simp
    have "(CountedDown \<notin> e \<longrightarrow> int (worker_tasks r' w) \<le> wi_inFlight x)
        \<and> (e = {} \<longrightarrow> wi_inFlight x = int (worker_tasks r' w))"
      if x: "map_of (wr_workers r') w = Some x" for w x
    proof (cases "w = it_workerId t")
      case True
      then obtain y where y: "map_of (wr_workers r) w = Some y" "x = y\<lparr>wi_inFlight := max 0 (wi_inFlight y - 1)\<rparr>"
        using x by (auto simp: r' r1_def)
      then have "CountedDown \<notin> e \<Longrightarrow> int (worker_tasks r w) \<le> wi_inFlight y"
        "e = {} \<Longrightarrow> wi_inFlight y = int (worker_tasks r w)"
        using ok by (auto simp: registry_ok_def load_ok_def)
      then show ?thesis using y(2) pos True by (auto simp: D(1) of_nat_diff)
    next
      case False
      then have "map_of (wr_workers r) w = Some x" using x by (simp add: r' r1_def)
      moreover have "worker_tasks r' w = worker_tasks r w" using D(1) [of w] False by simp
      ultimately show ?thesis using ok by (simp add: registry_ok_def load_ok_def)
    qed
    then show ?thesis by (simp add: load_ok_def)
  qed
  moreover have "workers_ok r'"
    using update_worker_ok [OF T(2), of "\<lambda>info. info\<lparr>wi_inFlight := max 0 (wi_inFlight info - 1)\<rparr>" "it_workerId t"]
    by (simp add: r' workers_ok_def)
  ultimately show ?thesis using D(3) by (simp add: registry_ok_def r'_def)
qed (use ok in \<open>simp add: completeTask_def\<close>)

lemma extendVisibility_ok:
  assumes ok: "registry_ok e r"
  shows "registry_ok e (snd (extendVisibility r i x now))"
proof (cases "map_of (wr_inFlightTasks r) i")
  case (Some t)
  define r' where "r' = snd (extendVisibility r i x now)"
  have r': "r' = r\<lparr>wr_inFlightTasks := AList.update i (t\<lparr>it_deadline := now + x\<rparr>) (wr_inFlightTasks r)\<rparr>"
    using Some by (simp add: r'_def extendVisibility_def)
  have same: "worker_tasks r' = worker_tasks r" "key_tasks r' = key_tasks r"
    by (simp_all add: worker_tasks_def key_tasks_def r' fun_eq_iff entries_update_same [OF Some])
  have "it_operationId t = i" using ok Some by (simp add: registry_ok_def tasks_ok_def)
  then have "tasks_ok r'"
    by (intro tasks_ok_update [of r "t\<lparr>it_deadline := now + x\<rparr>" i r'])
      (use ok in \<open>simp_all add: registry_ok_def r'\<close>)
  then show ?thesis
    using ok by (simp add: registry_ok_def counts_ok_def load_ok_def workers_ok_def same flip: r'_def) (simp add: r')
qed (use ok in \<open>simp add: extendVisibility_def\<close>)

text \<open>Expiry: every dropped task leaves the ledger, the workers' own counts stay.\<close>

lemma dropExpired_ok:
  assumes ok: "registry_ok e r" and t: "map_of (wr_inFlightTasks r) (it_operationId t) = Some t"
  shows "registry_ok (insert ExpiryChecked e) (dropExpiredTask t r)"
proof -
  define r' where "r' = dropExpiredTask t r"
  have tasks: "wr_inFlightTasks r' = AList.delete (it_operationId t) (wr_inFlightTasks r)"
    and workers: "wr_workers r' = wr_workers r"
    by (simp_all add: r'_def dropExpiredTask_def)
  have T: "tasks_ok r" using ok by (simp add: registry_ok_def)
  note D = delete_task_counts [OF T t tasks]
  have "counts_ok (insert ExpiryChecked e) r'"
    using ok unfolding counts_ok_def D(2)
    by (auto simp: r'_def dropExpiredTask_def load_releaseFairShare registry_ok_def counts_ok_def intro: diff_le_mono)
  moreover have "load_ok (insert ExpiryChecked e) r'"
    using ok unfolding load_ok_def D(1) workers by (fastforce simp: registry_ok_def load_ok_def)
  ultimately show ?thesis
    using ok D(3) by (simp add: registry_ok_def workers_ok_def workers flip: r'_def)
qed

lemma dropExpired_fold_ok:
  assumes "registry_ok e r" and "ExpiryChecked \<in> e" and "distinct (map it_operationId ts)"
    and "\<And>t. t \<in> set ts \<Longrightarrow> map_of (wr_inFlightTasks r) (it_operationId t) = Some t"
  shows "registry_ok e (fold dropExpiredTask ts r)"
  using assms
proof (induction ts arbitrary: r)
  case (Cons t ts)
  have "registry_ok e (dropExpiredTask t r)"
    using dropExpired_ok [OF Cons.prems(1), of t] Cons.prems(2,4) by (simp add: insert_absorb)
  moreover have "map_of (wr_inFlightTasks (dropExpiredTask t r)) (it_operationId u) = Some u" if "u \<in> set ts" for u
  proof -
    have "it_operationId u \<noteq> it_operationId t" using Cons.prems(3) that by (auto simp: image_iff)
    then show ?thesis using Cons.prems(4) [of u] that by (simp add: dropExpiredTask_def)
  qed
  ultimately show ?case using Cons.IH [of "dropExpiredTask t r"] Cons.prems(2,3) by simp
qed simp

lemma checkExpired_ok:
  assumes ok: "registry_ok e r"
  shows "registry_ok (insert ExpiryChecked e) (snd (checkExpiredTasks r now))"
proof -
  define m where "m = wr_inFlightTasks r"
  have d: "distinct (map fst m)" and ids: "\<And>k t. map_of m k = Some t \<Longrightarrow> it_operationId t = k"
    using ok by (auto simp: registry_ok_def tasks_ok_def m_def)
  have id: "it_operationId (snd x) = fst x" if "x \<in> set m" for x
    using ids [of "fst x" "snd x"] d that by (cases x) simp
  have "map it_operationId (map snd m) = map fst m" using id by simp
  then have dist: "distinct (map it_operationId (map snd m))" using d by (simp only:)
  have mem: "map_of m (it_operationId t) = Some t" if "t \<in> set (map snd m)" for t
    using that id d by (auto simp: map_of_is_SomeI)
  have "registry_ok (insert ExpiryChecked e) r" by (rule registry_ok_mono [OF ok]) auto
  then show ?thesis
    unfolding checkExpiredTasks_def Let_def snd_conv m_def [symmetric]
    by (rule dropExpired_fold_ok) (use distinct_map_filter [OF dist] mem in \<open>auto simp: m_def [symmetric]\<close>)
qed

lemma registry_run_ok: "registry_run e r \<Longrightarrow> registry_ok e r"
proof (induction rule: registry_run.induct)
  case (reg_new policy)
  show ?case
    by (simp add: registry_ok_def workers_ok_def tasks_ok_def counts_ok_def load_ok_def newWorkerRegistry_def
        counters_load_def key_tasks_def)
next
  case (reg_heartbeat e r workerId now)
  then show ?case unfolding heartbeat_def by (intro update_worker_keeps) simp_all
next
  case (reg_find e r activityName opts)
  show ?case by (rule registry_ok_cong [OF reg_find.IH]) (simp_all add: findWorker_state)
next
  case (reg_drain e r workerId reason updatedAt now)
  then show ?case unfolding markWorkerDraining_def Let_def snd_conv by (intro update_worker_keeps) simp_all
next
  case (reg_undrain e r workerId)
  then show ?case unfolding clearWorkerDrain_def Let_def snd_conv by (intro update_worker_keeps) simp_all
next
  case (reg_drain_deployment e r deploymentName reason updatedAt now)
  show ?case by (rule registry_ok_cong [OF reg_drain_deployment.IH]) (simp_all add: markDeploymentDraining_def Let_def)
next
  case (reg_undrain_deployment e r deploymentName)
  show ?case by (rule registry_ok_cong [OF reg_undrain_deployment.IH]) (simp_all add: clearDeploymentDrain_def Let_def)
qed (simp_all add: register_ok unregister_ok assignTask_ok reassignTask_ok count_up_ok count_down_ok
    completeTask_ok extendVisibility_ok checkExpired_ok)

section \<open>Selection\<close>

abbreviation eligible_for :: "worker_registry \<Rightarrow> jsstring \<Rightarrow> routing_options \<Rightarrow> worker_info \<Rightarrow> bool" where
  "eligible_for r activityName opts w \<equiv> workerIsEligible r w activityName (ro_queue opts) (ro_excludeWorkerIds opts)"

lemma collectEligible_eq:
  "collectEligible r a opts ws es st =
     (es @ filter (eligible_for r a opts) ws,
      (case filter (\<lambda>w. ro_sticky opts = Some (wi_id w)) (filter (eligible_for r a opts) ws) of
         [] \<Rightarrow> st | ss \<Rightarrow> Some (last ss)))"
  by (induction ws arbitrary: es st) (auto split: list.splits)

text \<open>The scan for a best element, for any strict order whose incomparability is transitive.\<close>

lemma foldl_best:
  assumes trans: "\<And>a b c. \<not> better a b \<Longrightarrow> \<not> better b c \<Longrightarrow> \<not> better a c"
    and asym: "\<And>a b. better a b \<Longrightarrow> \<not> better b a"
  defines "pick \<equiv> foldl (\<lambda>best c. if better c best then c else best)"
  shows "pick x xs \<in> set (x # xs) \<and> (\<forall>y \<in> set (x # xs). \<not> better y (pick x xs))"
proof (induction xs arbitrary: x)
  case Nil
  then show ?case using asym by (auto simp: pick_def)
next
  case (Cons c xs)
  show ?case
  proof (cases "better c x")
    case True
    have step: "pick x (c # xs) = pick c xs" using True by (simp add: pick_def)
    have "\<not> better x (pick c xs)" using trans [of x c] asym [OF True] Cons.IH [of c] by auto
    then show ?thesis using Cons.IH [of c] unfolding step by auto
  next
    case False
    have step: "pick x (c # xs) = pick x xs" using False by (simp add: pick_def)
    have "\<not> better c (pick x xs)" using trans [of c x] False Cons.IH [of x] by auto
    then show ?thesis using Cons.IH [of x] unfolding step by auto
  qed
qed

lemma pickLeastLoaded_best:
  assumes "ws \<noteq> []"
  shows "pickLeastLoaded ws \<in> set ws" and "w \<in> set ws \<Longrightarrow> \<not> lessLoaded w (pickLeastLoaded ws)"
proof -
  have "pickLeastLoaded ws \<in> set (hd ws # tl ws) \<and> (\<forall>y \<in> set (hd ws # tl ws). \<not> lessLoaded y (pickLeastLoaded ws))"
    unfolding pickLeastLoaded_def by (rule foldl_best) (auto simp: lessLoaded_def)
  then show "pickLeastLoaded ws \<in> set ws" "w \<in> set ws \<Longrightarrow> \<not> lessLoaded w (pickLeastLoaded ws)"
    using assms by (simp_all del: set_simps)
qed

lemma compareScores_less:
  "compareScores a b < 0 \<longleftrightarrow> sc_keyLoad a < sc_keyLoad b \<or> sc_keyLoad a = sc_keyLoad b \<and>
     (sc_inFlight a < sc_inFlight b \<or> sc_inFlight a = sc_inFlight b \<and> sc_id a < sc_id b)"
  by (auto simp: compareScores_def)

lemma pickFairShare_best:
  assumes "ws \<noteq> []" and inj: "inj_on wi_id (set ws)"
  obtains w where "pickFairShare ws c key = Some w" and "w \<in> set ws"
    and "\<And>v. v \<in> set ws \<Longrightarrow> \<not> compareScores (scoreWorker c key v) (scoreWorker c key w) < 0"
proof -
  define scores where "scores = map (scoreWorker c key) ws"
  define best where "best = foldl (\<lambda>best x. if compareScores x best < 0 then x else best) (hd scores) (tl scores)"
  have "best \<in> set (hd scores # tl scores) \<and> (\<forall>y \<in> set (hd scores # tl scores). \<not> compareScores y best < 0)"
    unfolding best_def by (rule foldl_best) (auto simp: compareScores_less)
  then have b: "best \<in> set scores" "\<And>y. y \<in> set scores \<Longrightarrow> \<not> compareScores y best < 0"
    using assms(1) by (auto simp: scores_def simp del: set_simps)
  then obtain w where w: "w \<in> set ws" "best = scoreWorker c key w" by (auto simp: scores_def)
  have "find (\<lambda>x. wi_id x = wi_id w) ws \<noteq> None" using w(1) by (auto simp: find_None_iff)
  then obtain x where x: "find (\<lambda>x. wi_id x = wi_id w) ws = Some x" by blast
  then have "x \<in> set ws" "wi_id x = wi_id w" by (auto simp: find_Some_iff)
  then have "x = w" using inj w(1) by (auto dest: inj_onD)
  then have "pickFairShare ws c key = Some w"
    using x w(2) by (simp add: pickFairShare_def Let_def scoreWorker_def flip: scores_def best_def)
  then show ?thesis using that [of w] w b(2) by (auto simp: scores_def)
qed

lemma getAll_ids: "workers_ok r \<Longrightarrow> inj_on wi_id (set (getAll r))"
proof (rule inj_onI)
  fix v w
  assume ok: "workers_ok r" and v: "v \<in> set (getAll r)" and w: "w \<in> set (getAll r)" and same: "wi_id v = wi_id w"
  have "map_of (wr_workers r) (wi_id u) = Some u" if "u \<in> set (getAll r)" for u
  proof -
    obtain k where "(k, u) \<in> set (wr_workers r)" using \<open>u \<in> set (getAll r)\<close> by (auto simp: getAll_def)
    then have "map_of (wr_workers r) k = Some u" using ok by (simp add: workers_ok_def)
    then show ?thesis using ok by (auto simp: workers_ok_def)
  qed
  from this [OF v] this [OF w] show "v = w" unfolding same by (metis option.inject)
qed

text \<open>What a selection owes its caller when no sticky worker decides.\<close>

definition best_by_policy :: "worker_registry \<Rightarrow> routing_options \<Rightarrow> worker_info \<Rightarrow> worker_info \<Rightarrow> bool" where
  "best_by_policy r opts w v \<longleftrightarrow>
     (case wr_policy r of
        RoundRobin \<Rightarrow> True
      | LeastLoaded \<Rightarrow> \<not> lessLoaded v w
      | FairShare \<Rightarrow> (case ro_fairShareKey opts of
          None \<Rightarrow> \<not> lessLoaded v w
        | Some key \<Rightarrow> \<not> compareScores (scoreWorker (wr_fairShareCounts r) key v)
                          (scoreWorker (wr_fairShareCounts r) key w) < 0))"

lemma selectByPolicy_best:
  assumes "ws \<noteq> []" and "inj_on wi_id (set ws)"
  obtains w where "fst (selectByPolicy r ws q a (ro_fairShareKey opts)) = Some w" and "w \<in> set ws"
    and "\<And>v. v \<in> set ws \<Longrightarrow> best_by_policy r opts w v"
proof (cases "wr_policy r")
  case RoundRobin
  have "ws ! (n mod length ws) \<in> set ws" for n using assms(1) by simp
  then show ?thesis
    using RoundRobin
    by (intro that [of "fst (pickRoundRobin ws (wr_roundRobinCursor r) q a)"])
      (simp_all add: selectByPolicy_def split_beta best_by_policy_def pickRoundRobin_def Let_def)
next
  case LeastLoaded
  then show ?thesis
    using pickLeastLoaded_best [OF assms(1)]
    by (intro that [of "pickLeastLoaded ws"]) (simp_all add: selectByPolicy_def best_by_policy_def)
next
  case FairShare
  show ?thesis
  proof (cases "ro_fairShareKey opts")
    case None
    then show ?thesis
      using FairShare pickLeastLoaded_best [OF assms(1)]
      by (intro that [of "pickLeastLoaded ws"]) (simp_all add: selectByPolicy_def best_by_policy_def)
  next
    case (Some key)
    obtain w where "pickFairShare ws (wr_fairShareCounts r) key = Some w" "w \<in> set ws"
      "\<And>v. v \<in> set ws \<Longrightarrow> \<not> compareScores (scoreWorker (wr_fairShareCounts r) key v)
         (scoreWorker (wr_fairShareCounts r) key w) < 0"
      by (rule pickFairShare_best [OF assms, of "wr_fairShareCounts r" key]) blast
    then show ?thesis
      using FairShare Some by (intro that [of w]) (simp_all add: selectByPolicy_def best_by_policy_def)
  qed
qed

section \<open>Properties\<close>

text \<open>Two workers, the first of which runs a task, for the witnesses.\<close>

definition sample_registration :: "jsstring \<Rightarrow> worker_registration_info" where
  "sample_registration i = \<lparr>ri_id = i, ri_queue = [113], ri_activities = [[97]], ri_concurrency = 2,
     ri_deploymentName = None, ri_buildId = None, ri_runtimeVersion = None, ri_gitSha = None,
     ri_startedAt = None, ri_capabilities = JObject []\<rparr>"

definition sample_registry :: worker_registry where
  "sample_registry = assignTask (register (register (newWorkerRegistry None) (sample_registration [1]) 5)
     (sample_registration [2]) 6) [1] [100] 30 (Some [7]) [8] 7"

definition sample_options :: routing_options where
  "sample_options = \<lparr>ro_sticky = None, ro_queue = Some [113], ro_fairShareKey = None, ro_excludeWorkerIds = []\<rparr>"

lemma sample_registry_run: "registry_run {} sample_registry"
proof -
  let ?r = "register (register (newWorkerRegistry None) (sample_registration [1]) 5) (sample_registration [2]) 6"
  have "registry_run {} ?r" by (intro registry_run.intros)
  from reg_assign [OF this, of "[100]" "[1]" 30 "Some [7]" "[8]" 7] show ?thesis
    by (simp add: sample_registry_def isAssigned_def register_def newWorkerRegistry_def)
qed

text \<open>
  C15: A task is routed to the right worker. \<open>findWorker\<close> finds a worker exactly when a registered
  worker is eligible (right queue, offers the activity, spare capacity, not excluded, not draining
  itself or by its deployment). The worker found is eligible; it is the sticky one if that is
  eligible; otherwise no eligible worker is better by the policy: less loaded, or, under fair share,
  with less load for the key, then less load, then the smaller id.
\<close>

theorem found_worker_is_best:
  assumes "registry_run e r"
  shows "case fst (findWorker r activityName opts) of
      None \<Rightarrow> (\<forall>v \<in> set (getAll r). \<not> eligible_for r activityName opts v)
    | Some w \<Rightarrow> w \<in> set (getAll r) \<and> eligible_for r activityName opts w \<and>
        (\<forall>v \<in> set (getAll r). eligible_for r activityName opts v \<longrightarrow>
           (ro_sticky opts = Some (wi_id v) \<longrightarrow> w = v) \<and>
           (ro_sticky opts \<noteq> Some (wi_id w) \<longrightarrow> best_by_policy r opts w v))"
proof -
  define es where "es = filter (eligible_for r activityName opts) (getAll r)"
  define ss where "ss = filter (\<lambda>w. ro_sticky opts = Some (wi_id w)) es"
  have inj: "inj_on wi_id (set (getAll r))"
    using registry_run_ok [OF assms] by (simp add: registry_ok_def getAll_ids)
  then have inj_es: "inj_on wi_id (set es)" by (rule inj_on_subset) (auto simp: es_def)
  have find: "findWorker r activityName opts = (case ss of
      [] \<Rightarrow> if es = [] then (None, r) else selectByPolicy r es (ro_queue opts) activityName (ro_fairShareKey opts)
    | _ \<Rightarrow> (Some (last ss), r))"
  proof -
    have "collectEligible r activityName opts (map snd (wr_workers r)) [] None
      = (es, case ss of [] \<Rightarrow> None | s # ss' \<Rightarrow> Some (last (s # ss')))"
      by (simp only: collectEligible_eq append_Nil es_def ss_def getAll_def)
    then show ?thesis by (cases ss) (simp_all add: findWorker_def)
  qed
  show ?thesis
  proof (cases "ss = []")
    case False
    then have l: "last ss \<in> set ss" by simp
    have "last ss = v" if "v \<in> set (getAll r)" "ro_sticky opts = Some (wi_id v)" for v
      using l that inj by (auto simp: ss_def es_def dest: inj_onD)
    moreover have "fst (findWorker r activityName opts) = Some (last ss)"
      using False by (simp add: find split: list.split)
    moreover have "last ss \<in> set (getAll r)" "eligible_for r activityName opts (last ss)"
      "ro_sticky opts = Some (wi_id (last ss))" using l by (auto simp: ss_def es_def)
    ultimately show ?thesis by auto
  next
    case none: True
    show ?thesis
    proof (cases "es = []")
      case True
      then show ?thesis using none by (auto simp: find es_def filter_empty_conv)
    next
      case False
      obtain w where w: "fst (selectByPolicy r es (ro_queue opts) activityName (ro_fairShareKey opts)) = Some w"
        "w \<in> set es" "\<And>v. v \<in> set es \<Longrightarrow> best_by_policy r opts w v"
        by (rule selectByPolicy_best [OF False inj_es, of r "ro_queue opts" activityName opts]) blast
      have "ro_sticky opts \<noteq> Some (wi_id v)" if "v \<in> set es" for v
        using none that by (auto simp: ss_def filter_empty_conv)
      then show ?thesis using none False w by (simp add: find) (simp add: es_def)
    qed
  qed
qed

theorem found_worker_is_best_witness:
  "\<exists>w. fst (findWorker sample_registry [97] sample_options) = Some w \<and> wi_id w = [2] \<and>
     w \<in> set (getAll sample_registry) \<and> eligible_for sample_registry [97] sample_options w"
proof -
  obtain w where w: "fst (findWorker sample_registry [97] sample_options) = Some w" "wi_id w = [2]"
    by (simp add: sample_registry_def sample_options_def findWorker_def assignTask_def taskAssigned_def
        update_worker_def register_def registeredWorker_def newWorkerRegistry_def sample_registration_def
        workerIsEligible_def matchesWorkerCapabilities_def isWorkerDraining_def drainRecordForWorker_def
        selectByPolicy_def pickLeastLoaded_def lessLoaded_def Let_def)
  from found_worker_is_best [OF sample_registry_run, of "[97]" sample_options] w show ?thesis by simp
qed

text \<open>
  C14: The counters never drift in a run of registrations, reconnects, heartbeats, lookups,
  assignments under operation ids that are not in flight, completions, extensions and drains: each
  fair-share counter is the number of in-flight tasks of that worker and key, and the load of each
  registered worker is the number of its in-flight tasks. Of the four operations that break this,
  only assigning an id that is in flight already affects the fair-share counters, and they are
  never too small; expiry checks, such assignments and direct calls of \<open>taskAssigned\<close> can only
  leave a load too large; only a direct call of \<open>taskCompleted\<close> can leave it too small.
\<close>

theorem registry_counters_exact:
  assumes "registry_run irregular r"
  shows "length (filter (\<lambda>t. it_fairShareKey t = Some key) (getWorkerTasks r workerId))
      \<le> counters_load (wr_fairShareCounts r) workerId key \<and>
    (Reassigned \<notin> irregular \<longrightarrow> counters_load (wr_fairShareCounts r) workerId key
      = length (filter (\<lambda>t. it_fairShareKey t = Some key) (getWorkerTasks r workerId))) \<and>
    (\<forall>w. getWorker r workerId = Some w \<longrightarrow>
       (CountedDown \<notin> irregular \<longrightarrow> int (length (getWorkerTasks r workerId)) \<le> wi_inFlight w) \<and>
       (irregular = {} \<longrightarrow> wi_inFlight w = int (length (getWorkerTasks r workerId))))"
proof -
  have "key_tasks r workerId key = length (filter (\<lambda>t. it_fairShareKey t = Some key) (getWorkerTasks r workerId))"
    by (simp add: key_tasks_def entries_def getWorkerTasks_def conj_commute)
  moreover have "worker_tasks r workerId = length (getWorkerTasks r workerId)"
    by (simp add: worker_tasks_def entries_def getWorkerTasks_def)
  moreover have "counts_ok irregular r" "load_ok irregular r"
    using registry_run_ok [OF assms] by (simp_all add: registry_ok_def)
  ultimately show ?thesis unfolding counts_ok_def load_ok_def getWorker_def by metis
qed

theorem registry_counters_exact_witness:
  "counters_load (wr_fairShareCounts sample_registry) [1] [7]
     = length (filter (\<lambda>t. it_fairShareKey t = Some [7]) (getWorkerTasks sample_registry [1]))
   \<and> length (getWorkerTasks sample_registry [1]) = 1
   \<and> map_option wi_inFlight (getWorker sample_registry [1]) = Some 1"
proof -
  have tasks: "length (getWorkerTasks sample_registry [1]) = 1"
    by (simp add: sample_registry_def getWorkerTasks_def assignTask_fields register_def newWorkerRegistry_def)
  obtain w where w: "getWorker sample_registry [1] = Some w"
    by (simp add: sample_registry_def getWorker_def assignTask_fields register_def newWorkerRegistry_def
        sample_registration_def)
  show ?thesis
    using registry_counters_exact [OF sample_registry_run, of "[7]" "[1]"] w tasks by simp
qed

fun round_robin_picks :: "nat \<Rightarrow> worker_info list \<Rightarrow> (jsstring \<times> nat) list \<Rightarrow> jsstring option \<Rightarrow> jsstring \<Rightarrow> worker_info list" where
  "round_robin_picks 0 eligible cursor queue activityName = []"
| "round_robin_picks (Suc n) eligible cursor queue activityName =
     (let (pick, cursor') = pickRoundRobin eligible cursor queue activityName
      in pick # round_robin_picks n eligible cursor' queue activityName)"

lemma round_robin_picks_nth:
  assumes "(case map_of cursor (cursorKey queue activityName) of None \<Rightarrow> 0 | Some p \<Rightarrow> p) = p"
  shows "round_robin_picks n eligible cursor queue activityName =
    map (\<lambda>i. eligible ! ((p + i) mod length eligible)) [0..<n]"
  using assms
proof (induction n arbitrary: cursor p)
  case (Suc n)
  define cursor' where "cursor' = AList.update (cursorKey queue activityName) (p + 1) cursor"
  have "pickRoundRobin eligible cursor queue activityName = (eligible ! (p mod length eligible), cursor')"
    using Suc.prems by (simp add: pickRoundRobin_def Let_def cursor'_def)
  moreover have "round_robin_picks n eligible cursor' queue activityName =
      map (\<lambda>i. eligible ! ((p + 1 + i) mod length eligible)) [0..<n]"
    by (rule Suc.IH) (simp add: cursor'_def)
  moreover have "[0..<Suc n] = 0 # map Suc [0..<n]" by (simp add: upt_conv_Cons map_Suc_upt del: upt_Suc)
  ultimately show ?case by (simp del: upt_Suc)
qed simp

text \<open>
  Round robin is fair: as long as the same workers are eligible, as many selections in a row for
  one queue and activity as there are workers pick every worker exactly once, in turn from the one
  the cursor points at.
\<close>

lemma round_robin_is_fair:
  "round_robin_picks (length eligible) eligible cursor queue activityName =
     rotate (case map_of cursor (cursorKey queue activityName) of None \<Rightarrow> 0 | Some p \<Rightarrow> p) eligible"
  by (rule nth_equalityI) (simp_all add: round_robin_picks_nth [OF refl] nth_rotate)

text \<open>An expired task is no longer tracked, but the worker it ran on keeps counting it.\<close>

lemma expired_task_keeps_its_slot:
  assumes "getWorker r workerId = Some w"
  shows "getWorker (snd (checkExpiredTasks r now)) workerId = Some w"
proof -
  have "wr_workers (fold dropExpiredTask ts r) = wr_workers r" for ts
    by (induction ts arbitrary: r) (simp_all add: dropExpiredTask_def)
  then show ?thesis using assms by (simp add: getWorker_def checkExpiredTasks_def Let_def)
qed

end
