(* ===== verification/Schedule_Interval.thy ===== *)
theory Schedule_Interval
  imports Weft_Prelude
begin

text \<open>
  Timestamps, retry backoff and interval schedules: \<open>normalizeStorageTimestamp\<close>, \<open>parseDuration\<close> and
  \<open>calculateBackoff\<close> of \<open>src/src/core/scheduler/duration.ts\<close> and the occurrences of
  \<open>src/src/core/schedule/interval-occurrence.ts\<close>.

  A duration or timestamp is any JavaScript number; a normalised timestamp is an integer. The number a
  duration string denotes is exact, where the program has the nearest double.
\<close>

section \<open>Timestamps and durations\<close>

datatype schedule_error =
    TimestampNotFinite
  | TimestampNotSafe
  | DurationNotValid
  | DurationSyntax
  | IntervalNotPositive
  | MaxOccurrencesNotPositive
  | CronToken
  | CronTokenRange
  | CronStep
  | CronRange
  | CronFieldEmpty
  | CronFieldCount
  | CronNoOccurrence
  | DateNotValid

definition normalizeStorageTimestamp :: "jsnum \<Rightarrow> schedule_error + int" where
  "normalizeStorageTimestamp timestamp =
     (case timestamp of
        JFin t \<Rightarrow>
          if t < 0 then Inl TimestampNotFinite
          else let normalizedTimestamp = \<lceil>t\<rceil>
               in if \<not> isSafeInteger (JFin (of_int normalizedTimestamp)) then Inl TimestampNotSafe
                  else Inr normalizedTimestamp
      | _ \<Rightarrow> Inl TimestampNotFinite)"

definition assertValidDurationMilliseconds :: "jsnum \<Rightarrow> schedule_error + rat" where
  "assertValidDurationMilliseconds milliseconds =
     (case milliseconds of JFin t \<Rightarrow> if t < 0 then Inl DurationNotValid else Inr t | _ \<Rightarrow> Inl DurationNotValid)"

text \<open>White space as \<open>trim\<close> and \<open>\s\<close> have it, and decimal digits.\<close>

definition isSpace :: "16 word \<Rightarrow> bool" where
  "isSpace c \<longleftrightarrow> c \<in> set [9, 10, 11, 12, 13, 32, 0xa0, 0x1680, 0x2028, 0x2029, 0x202f, 0x205f, 0x3000, 0xfeff]
     \<or> 0x2000 \<le> c \<and> c \<le> 0x200a"

definition trim :: "jsstring \<Rightarrow> jsstring" where
  "trim s = rev (dropWhile isSpace (rev (dropWhile isSpace s)))"

definition isDigit :: "16 word \<Rightarrow> bool" where
  "isDigit c \<longleftrightarrow> 48 \<le> c \<and> c \<le> 57"

fun digits_value :: "nat \<Rightarrow> jsstring \<Rightarrow> nat" where
  "digits_value n [] = n"
| "digits_value n (c # cs) = digits_value (10 * n + (unat c - 48)) cs"

definition lowerAscii :: "16 word \<Rightarrow> 16 word" where
  "lowerAscii c = (if 65 \<le> c \<and> c \<le> 90 then c + 32 else c)"

definition UNIT_TO_MILLISECONDS :: "(jsstring \<times> rat) list" where
  "UNIT_TO_MILLISECONDS =
     [(js ''ms'', 1), (js ''millisecond'', 1), (js ''milliseconds'', 1),
      (js ''s'', 1000), (js ''second'', 1000), (js ''seconds'', 1000),
      (js ''m'', 60000), (js ''minute'', 60000), (js ''minutes'', 60000),
      (js ''h'', 3600000), (js ''hour'', 3600000), (js ''hours'', 3600000),
      (js ''d'', 86400000), (js ''day'', 86400000), (js ''days'', 86400000)]"

text \<open>
  A match of \<open>DURATION_PATTERN\<close>: digits, an optional fraction, white space and a unit, whose letters may
  be of either case. The units of the pattern are the keys of the table.
\<close>

definition matchDuration :: "jsstring \<Rightarrow> (rat \<times> jsstring) option" where
  "matchDuration s =
     (let whole = takeWhile isDigit s; rest = dropWhile isDigit s;
          fraction = (case rest of [] \<Rightarrow> [] | c # cs \<Rightarrow> if c = 46 then takeWhile isDigit cs else []);
          rest' = (if fraction = [] then rest else dropWhile isDigit (tl rest));
          unit = map lowerAscii (dropWhile isSpace rest')
      in if whole = [] \<or> map_of UNIT_TO_MILLISECONDS unit = None then None
         else Some (of_nat (digits_value 0 (whole @ fraction)) / 10 ^ length fraction, unit))"

datatype duration = DurationNumber jsnum | DurationString jsstring

definition parseDuration :: "duration \<Rightarrow> schedule_error + rat" where
  "parseDuration duration =
     (case duration of
        DurationNumber n \<Rightarrow> assertValidDurationMilliseconds n
      | DurationString s \<Rightarrow>
          (case matchDuration (trim s) of
             None \<Rightarrow> Inl DurationSyntax
           | Some (v, unit) \<Rightarrow>
               (case map_of UNIT_TO_MILLISECONDS unit of
                  None \<Rightarrow> Inl DurationSyntax
                | Some multiplier \<Rightarrow> assertValidDurationMilliseconds (JFin (v * multiplier)))))"

record retry_policy =
  rp_initialBackoff :: duration
  rp_maxBackoff :: duration
  rp_backoffMultiplier :: rat

definition calculateBackoff :: "int \<Rightarrow> retry_policy \<Rightarrow> schedule_error + rat" where
  "calculateBackoff attempt policy =
     and_then (parseDuration (rp_initialBackoff policy)) (\<lambda>initialMs.
     and_then (parseDuration (rp_maxBackoff policy)) (\<lambda>maxMs.
       let raw = initialMs * rp_backoffMultiplier policy powi (attempt - 1)
       in Inr (min raw maxMs)))"

section \<open>Interval occurrences\<close>

definition assertPositiveInterval :: "jsnum \<Rightarrow> schedule_error + int" where
  "assertPositiveInterval intervalMilliseconds =
     (case intervalMilliseconds of
        JFin i \<Rightarrow> if \<not> isSafeInteger (JFin i) \<or> i \<le> 0 then Inl IntervalNotPositive else Inr \<lfloor>i\<rfloor>
      | _ \<Rightarrow> Inl IntervalNotPositive)"

definition getNextIntervalOccurrence :: "jsnum \<Rightarrow> jsnum \<Rightarrow> jsnum \<Rightarrow> schedule_error + int" where
  "getNextIntervalOccurrence anchorTimestamp intervalMilliseconds afterTimestamp =
     and_then (assertPositiveInterval intervalMilliseconds) (\<lambda>interval.
     and_then (normalizeStorageTimestamp anchorTimestamp) (\<lambda>normalizedAnchor.
     and_then (normalizeStorageTimestamp afterTimestamp) (\<lambda>normalizedAfter.
       if normalizedAfter < normalizedAnchor then Inr (normalizedAnchor + interval)
       else
         let elapsed = normalizedAfter - normalizedAnchor;
             completedIntervals = elapsed div interval;
             candidate = normalizedAnchor + (completedIntervals + 1) * interval
         in normalizeStorageTimestamp (JFin (of_int candidate)))))"

lemma normalize_Inr:
  "normalizeStorageTimestamp x = Inr n \<longleftrightarrow> (\<exists>t. x = JFin t \<and> 0 \<le> t \<and> n = \<lceil>t\<rceil> \<and> n \<le> MAX_SAFE_INTEGER)"
  by (auto simp: normalizeStorageTimestamp_def Let_def isSafeInteger_def split: jsnum.splits if_splits)

lemma normalize_int [simp]:
  "normalizeStorageTimestamp (JFin (of_int n)) =
     (if n < 0 then Inl TimestampNotFinite else if n > MAX_SAFE_INTEGER then Inl TimestampNotSafe else Inr n)"
  by (auto simp: normalizeStorageTimestamp_def Let_def isSafeInteger_def)

lemma positive_interval_Inr:
  "assertPositiveInterval x = Inr i \<longleftrightarrow> x = JFin (of_int i) \<and> 0 < i \<and> i \<le> MAX_SAFE_INTEGER"
  by (auto simp: assertPositiveInterval_def isSafeInteger_def split: jsnum.splits if_splits)

text \<open>The grid of an interval schedule: whole numbers of periods after the anchor.\<close>

definition on_grid :: "int \<Rightarrow> int \<Rightarrow> int \<Rightarrow> bool" where
  "on_grid anchor interval t \<longleftrightarrow> anchor < t \<and> interval dvd (t - anchor)"

lemma next_on_grid:
  fixes anchor interval t :: int
  assumes "0 < interval"
  defines "n \<equiv> (if t < anchor then anchor + interval else anchor + ((t - anchor) div interval + 1) * interval)"
  shows "on_grid anchor interval n" and "t < n" and "on_grid anchor interval x \<Longrightarrow> t < x \<Longrightarrow> n \<le> x"
proof -
  have bounds: "(t - anchor) div interval * interval \<le> t - anchor"
    "t - anchor < ((t - anchor) div interval + 1) * interval"
    using assms(1) by (simp_all add: minus_mod_eq_div_mult [symmetric] distrib_right)
  show "t < n" using assms(1) bounds(2) by (auto simp: n_def)
  show "on_grid anchor interval n"
    using assms(1) bounds by (auto simp: on_grid_def n_def pos_imp_zdiv_nonneg_iff zero_less_mult_iff)
  assume x: "on_grid anchor interval x" "t < x"
  then obtain k where k: "x = anchor + interval * k" by (auto simp: on_grid_def dvd_def algebra_simps)
  show "n \<le> x"
  proof (cases "t < anchor")
    case True
    have "0 < k" using x(1) k assms(1) by (simp add: on_grid_def zero_less_mult_iff)
    then have "interval * 1 \<le> interval * k" using assms(1) by (intro mult_left_mono) simp_all
    then show ?thesis using True k by (simp add: n_def)
  next
    case False
    have "(t - anchor) div interval * interval < k * interval"
      using bounds(1) x(2) k by (simp add: mult.commute)
    then have "(t - anchor) div interval < k" using assms(1) by (simp add: mult_less_cancel_right)
    then have "((t - anchor) div interval + 1) * interval \<le> k * interval"
      using assms(1) by (intro mult_right_mono) simp_all
    then show ?thesis using False k by (simp add: n_def mult.commute)
  qed
qed

lemma next_interval_Inr:
  assumes "getNextIntervalOccurrence (JFin anchor) (JFin interval) (JFin t) = Inr n"
  obtains i where "interval = of_int i" "0 < i" "0 \<le> anchor" "0 \<le> t"
    "n = (if \<lceil>t\<rceil> < \<lceil>anchor\<rceil> then \<lceil>anchor\<rceil> + i else \<lceil>anchor\<rceil> + ((\<lceil>t\<rceil> - \<lceil>anchor\<rceil>) div i + 1) * i)"
  using assms
  by (auto simp: getNextIntervalOccurrence_def and_then_Inr_iff normalize_Inr positive_interval_Inr Let_def
      split: if_splits)

lemma next_interval_after:
  assumes "getNextIntervalOccurrence (JFin anchor) (JFin interval) (JFin t) = Inr n"
  shows "\<lceil>t\<rceil> < n"
  by (rule next_interval_Inr [OF assms]) (use next_on_grid(2) in blast)

text \<open>
  The collection loop. Its bound is checked before the loop; \<open>None\<close> stands for no bound. A window
  boundary is a finite number.
\<close>

definition maximumOccurrences :: "jsnum option \<Rightarrow> schedule_error + nat option" where
  "maximumOccurrences requested =
     (case requested of
        None \<Rightarrow> Inr None
      | Some m \<Rightarrow>
          (case m of
             JFin k \<Rightarrow> if \<not> isSafeInteger (JFin k) \<or> k \<le> 0 then Inl MaxOccurrencesNotPositive
                        else Inr (Some (nat \<lfloor>k\<rfloor>))
           | _ \<Rightarrow> Inl MaxOccurrencesNotPositive))"

definition below_maximum :: "nat \<Rightarrow> nat option \<Rightarrow> bool" where
  "below_maximum n m = (case m of None \<Rightarrow> True | Some k \<Rightarrow> n < k)"

function collectLoopFrom ::
    "rat \<Rightarrow> rat \<Rightarrow> rat \<Rightarrow> nat option \<Rightarrow> rat list \<Rightarrow> rat \<Rightarrow> schedule_error + rat list" where
  "collectLoopFrom anchor interval throughTimestamp maximum dueOccurrences nextOccurrence =
     (if nextOccurrence \<le> throughTimestamp \<and> below_maximum (length dueOccurrences) maximum then
        (case getNextIntervalOccurrence (JFin anchor) (JFin interval) (JFin nextOccurrence) of
           Inl e \<Rightarrow> Inl e
         | Inr n \<Rightarrow>
             collectLoopFrom anchor interval throughTimestamp maximum (dueOccurrences @ [nextOccurrence]) (of_int n))
      else Inr dueOccurrences)"
  by auto
termination
proof (relation "measure (\<lambda>(_, _, through, _, _, next). nat (\<lfloor>through\<rfloor> + 2 - \<lceil>next\<rceil>))")
  fix anchor interval throughTimestamp nextOccurrence :: rat and maximum and dueOccurrences :: "rat list" and n
  assume c: "nextOccurrence \<le> throughTimestamp \<and> below_maximum (length dueOccurrences) maximum"
    and n: "getNextIntervalOccurrence (JFin anchor) (JFin interval) (JFin nextOccurrence) = Inr n"
  have less: "\<lceil>nextOccurrence\<rceil> < n" by (rule next_interval_after [OF n])
  have "of_int \<lceil>nextOccurrence\<rceil> < nextOccurrence + 1" "throughTimestamp < of_int \<lfloor>throughTimestamp\<rfloor> + 1"
    by linarith+
  then have "of_int \<lceil>nextOccurrence\<rceil> < (of_int (\<lfloor>throughTimestamp\<rfloor> + 2) :: rat)" using c by simp
  then have "\<lceil>nextOccurrence\<rceil> < \<lfloor>throughTimestamp\<rfloor> + 2" by (simp only: of_int_less_iff)
  then show "((anchor, interval, throughTimestamp, maximum, dueOccurrences @ [nextOccurrence], of_int n),
      anchor, interval, throughTimestamp, maximum, dueOccurrences, nextOccurrence)
      \<in> measure (\<lambda>(_, _, through, _, _, next). nat (\<lfloor>through\<rfloor> + 2 - \<lceil>next\<rceil>))"
    using less by simp
qed simp

declare collectLoopFrom.simps [simp del]

definition collectDueIntervalOccurrences ::
    "rat \<Rightarrow> rat \<Rightarrow> rat \<Rightarrow> rat \<Rightarrow> jsnum option \<Rightarrow> schedule_error + rat list" where
  "collectDueIntervalOccurrences anchorTimestamp intervalMilliseconds firstDueAt throughTimestamp maxOccurrences =
     and_then (assertPositiveInterval (JFin intervalMilliseconds)) (\<lambda>_.
     and_then (maximumOccurrences maxOccurrences) (\<lambda>maximum.
       collectLoopFrom anchorTimestamp intervalMilliseconds throughTimestamp maximum [] firstDueAt))"

section \<open>The grid of a window\<close>

definition grid_window :: "int \<Rightarrow> int \<Rightarrow> int \<Rightarrow> rat \<Rightarrow> int list" where
  "grid_window anchor interval first through =
     sorted_list_of_set {t. on_grid anchor interval t \<and> first \<le> t \<and> t \<le> \<lfloor>through\<rfloor>}"

lemma grid_finite: "finite {t. on_grid anchor interval t \<and> first \<le> t \<and> t \<le> (k :: int)}"
  by (rule finite_subset [of _ "{first..k}"]) auto

lemma grid_window_Nil: "\<lfloor>through\<rfloor> < first \<Longrightarrow> grid_window anchor interval first through = []"
  by (auto simp: grid_window_def intro!: sorted_list_of_set_eq_Nil_iff [THEN iffD2])

lemma grid_gap:
  assumes "0 < interval" and "on_grid anchor interval x" and "on_grid anchor interval t" and "x < t"
  shows "x + interval \<le> t"
proof -
  have "interval dvd (t - anchor) - (x - anchor)"
    by (rule dvd_diff) (use assms(2,3) in \<open>simp_all add: on_grid_def\<close>)
  then have "interval dvd t - x" by simp
  then show ?thesis using assms(4) by (auto dest: zdvd_imp_le)
qed

lemma grid_next: "on_grid anchor interval x \<Longrightarrow> 0 < interval \<Longrightarrow> on_grid anchor interval (x + interval)"
  using dvd_add [of interval "x - anchor" interval] by (simp add: on_grid_def algebra_simps)

lemma grid_window_Cons:
  assumes "0 < interval" and "on_grid anchor interval x" and "x \<le> \<lfloor>through\<rfloor>"
  shows "grid_window anchor interval x through = x # grid_window anchor interval (x + interval) through"
proof -
  define G where "G = (\<lambda>f. {t. on_grid anchor interval t \<and> f \<le> t \<and> t \<le> \<lfloor>through\<rfloor>})"
  have "G x = insert x (G (x + interval))"
  proof (intro set_eqI iffI)
    fix t
    assume t: "t \<in> G x"
    show "t \<in> insert x (G (x + interval))"
    proof (cases "t = x")
      case False
      then show ?thesis using t grid_gap [OF assms(1,2), of t] by (simp add: G_def)
    qed simp
  qed (use assms in \<open>auto simp: G_def\<close>)
  moreover have "x \<notin> G (x + interval)" using assms(1) by (simp add: G_def)
  moreover have "finite (G (x + interval))" unfolding G_def by (rule grid_finite)
  ultimately have "sorted_list_of_set (G x) = insort x (sorted_list_of_set (G (x + interval)))" by simp
  also have "\<dots> = x # sorted_list_of_set (G (x + interval))"
    by (rule insort_is_Cons) (use \<open>finite (G (x + interval))\<close> assms(1) in \<open>auto simp: G_def\<close>)
  finally show ?thesis by (simp add: grid_window_def G_def)
qed

lemma next_interval_of_grid:
  assumes "0 < i" and "i \<le> MAX_SAFE_INTEGER" and "0 \<le> a" and "on_grid a i x" and "x + i \<le> MAX_SAFE_INTEGER"
  shows "getNextIntervalOccurrence (JFin (of_int a)) (JFin (of_int i)) (JFin (of_int x)) = Inr (x + i)"
proof -
  obtain k where k: "x = a + i * k" using assms(4) by (auto simp: on_grid_def dvd_def algebra_simps)
  have "a < x" using assms(4) by (simp add: on_grid_def)
  then have "assertPositiveInterval (JFin (of_int i)) = Inr i"
    "normalizeStorageTimestamp (JFin (of_int a)) = Inr a" "normalizeStorageTimestamp (JFin (of_int x)) = Inr x"
    using assms by (auto simp: positive_interval_Inr)
  moreover have "a + ((x - a) div i + 1) * i = x + i"
    using assms(1) by (simp add: k algebra_simps)
  ultimately show ?thesis
    using \<open>a < x\<close> assms by (simp add: getNextIntervalOccurrence_def)
qed

definition take_maximum :: "nat option \<Rightarrow> 'a list \<Rightarrow> 'a list" where
  "take_maximum m xs = (case m of None \<Rightarrow> xs | Some k \<Rightarrow> take k xs)"

lemma collectLoop_grid:
  assumes "0 < i" and "i \<le> MAX_SAFE_INTEGER" and "0 \<le> a" and "on_grid a i x" and "\<lfloor>through\<rfloor> + i \<le> MAX_SAFE_INTEGER"
  shows "collectLoopFrom (of_int a) (of_int i) through m due (of_int x)
    = Inr (due @ take_maximum (map_option (\<lambda>k. k - length due) m) (map of_int (grid_window a i x through)))"
  using assms(4)
proof (induction "nat (\<lfloor>through\<rfloor> + 1 - x)" arbitrary: x due rule: less_induct)
  case less
  show ?case
  proof (cases "x \<le> \<lfloor>through\<rfloor> \<and> below_maximum (length due) m")
    case True
    have "getNextIntervalOccurrence (JFin (of_int a)) (JFin (of_int i)) (JFin (of_int x)) = Inr (x + i)"
      using True assms less.prems by (intro next_interval_of_grid) auto
    then have "collectLoopFrom (of_int a) (of_int i) through m due (of_int x)
      = collectLoopFrom (of_int a) (of_int i) through m (due @ [of_int x]) (of_int (x + i))"
      using True by (subst collectLoopFrom.simps) (simp add: le_floor_iff)
    also have "\<dots> = Inr ((due @ [of_int x]) @ take_maximum (map_option (\<lambda>k. k - length (due @ [of_int x])) m)
        (map of_int (grid_window a i (x + i) through)))"
      by (rule less.hyps) (use True assms(1) less.prems in \<open>auto intro: grid_next\<close>)
    also have "\<dots> = Inr (due @ take_maximum (map_option (\<lambda>k. k - length due) m) (map of_int (grid_window a i x through)))"
    proof -
      have "grid_window a i x through = x # grid_window a i (x + i) through"
        by (rule grid_window_Cons) (use True assms(1) less.prems in auto)
      then show ?thesis
        using True by (cases m) (auto simp: take_maximum_def below_maximum_def Suc_diff_Suc [symmetric])
    qed
    finally show ?thesis .
  next
    case False
    then have "collectLoopFrom (of_int a) (of_int i) through m due (of_int x) = Inr due"
      by (subst collectLoopFrom.simps) (auto simp: le_floor_iff)
    moreover have "take_maximum (map_option (\<lambda>k. k - length due) m) (map of_int (grid_window a i x through)) = ([] :: rat list)"
      using False by (cases m) (auto simp: take_maximum_def below_maximum_def grid_window_Nil)
    ultimately show ?thesis by simp
  qed
qed

section \<open>Properties\<close>

text \<open>
  C20: An interval schedule catches up exactly. From an occurrence on its grid, the collector returns every
  occurrence up to the end of the window, in order and each once, or the first \<open>maxOccurrences\<close> of
  them; it does not fail and it ends, as long as one period past the window is a safe integer.
\<close>

theorem interval_occurrences_exact:
  assumes "0 < i" and "0 \<le> a" and "on_grid a i f" and "\<lfloor>through\<rfloor> + i \<le> MAX_SAFE_INTEGER" and "f \<le> \<lfloor>through\<rfloor>"
    and "maximumOccurrences maxOccurrences = Inr m"
  shows "collectDueIntervalOccurrences (of_int a) (of_int i) (of_int f) through maxOccurrences
    = Inr (take_maximum m (map of_int (sorted_list_of_set {t. on_grid a i t \<and> f \<le> t \<and> t \<le> \<lfloor>through\<rfloor>})))"
proof -
  have i: "i \<le> MAX_SAFE_INTEGER" using assms by (simp add: on_grid_def)
  then have "assertPositiveInterval (JFin (of_int i)) = Inr i" using assms(1) by (simp add: positive_interval_Inr)
  then show ?thesis
    using collectLoop_grid [OF assms(1) i assms(2,3,4), of m "[]"] assms(6)
    by (simp add: collectDueIntervalOccurrences_def grid_window_def option.map_ident)
qed

theorem interval_occurrences_exact_witness:
  "collectDueIntervalOccurrences 0 1000 1000 3500 (Some (JFin 2)) = Inr [1000, 2000]"
proof -
  have s: "sorted_list_of_set {t. on_grid 0 1000 t \<and> 1000 \<le> t \<and> t \<le> \<lfloor>3500 :: rat\<rfloor>} = [1000, 2000, 3000]"
    using grid_window_Cons [of 1000 0 1000 3500] grid_window_Cons [of 1000 0 2000 3500]
      grid_window_Cons [of 1000 0 3000 3500] grid_window_Nil [of 3500 4000 0 1000]
    by (simp add: grid_window_def on_grid_def)
  have m: "maximumOccurrences (Some (JFin 2)) = Inr (Some 2)"
    by (simp add: maximumOccurrences_def js_defs)
  from interval_occurrences_exact [of 1000 0 1000 3500 "Some (JFin 2)" "Some 2"] m s show ?thesis
    by (simp add: on_grid_def MAX_SAFE_INTEGER_def take_maximum_def)
qed

lemma parseDuration_nonneg: "parseDuration d = Inr x \<Longrightarrow> 0 \<le> x"
  by (auto simp: parseDuration_def assertValidDurationMilliseconds_def
      split: duration.splits option.splits jsnum.splits if_splits)

lemma powi_mono_step:
  fixes b :: rat
  assumes "1 \<le> b" and "n \<le> m"
  shows "b powi n \<le> b powi m"
proof -
  have "b powi m = b powi n * b ^ nat (m - n)"
  proof -
    have "b powi n * b powi (m - n) = b powi m"
      using assms(1) by (subst power_int_add [symmetric]) auto
    then show ?thesis using assms(2) by (simp add: power_int_def)
  qed
  moreover have "1 \<le> b ^ nat (m - n)" using assms(1) by (rule one_le_power)
  moreover have "0 \<le> b powi n" using assms(1) by (simp add: zero_le_power_int)
  ultimately show ?thesis using mult_left_mono [of 1 "b ^ nat (m - n)" "b powi n"] by simp
qed

text \<open>
  Retry delays grow and stay bounded: with a multiplier of at least one, the delay before a later
  attempt is not shorter, no delay is negative and none exceeds the policy's maximum; where one attempt
  has a delay every attempt has one.
\<close>

lemma backoff_grows_to_maximum:
  assumes "1 \<le> rp_backoffMultiplier policy" and "calculateBackoff n policy = Inr d" and "n \<le> m"
  shows "\<exists>d' maxMs. calculateBackoff m policy = Inr d' \<and> parseDuration (rp_maxBackoff policy) = Inr maxMs
    \<and> 0 \<le> d \<and> d \<le> d' \<and> d' \<le> maxMs"
proof -
  obtain b x where p: "parseDuration (rp_initialBackoff policy) = Inr b" "parseDuration (rp_maxBackoff policy) = Inr x"
    "d = min (b * rp_backoffMultiplier policy powi (n - 1)) x"
    using assms(2) by (auto simp: calculateBackoff_def and_then_Inr_iff Let_def)
  have "0 \<le> b" "0 \<le> x" using p parseDuration_nonneg by blast+
  moreover have "0 \<le> rp_backoffMultiplier policy powi (n - 1)" using assms(1) by (simp add: zero_le_power_int)
  moreover have "rp_backoffMultiplier policy powi (n - 1) \<le> rp_backoffMultiplier policy powi (m - 1)"
    by (rule powi_mono_step) (use assms in auto)
  ultimately have "0 \<le> d" "d \<le> min (b * rp_backoffMultiplier policy powi (m - 1)) x"
    using p(3) by (auto simp: min_le_iff_disj intro: mult_left_mono)
  then show ?thesis using p(1,2) by (simp add: calculateBackoff_def)
qed

section \<open>Duration strings\<close>

lemma trim_id:
  assumes "s \<noteq> []" and "\<not> isSpace (hd s)" and "\<not> isSpace (last s)"
  shows "trim s = s"
proof -
  have "dropWhile isSpace s = s" using assms(1,2) by (cases s) simp_all
  moreover have "dropWhile isSpace (rev s) = rev s"
    using assms(1,3) by (cases s rule: rev_cases) simp_all
  ultimately show ?thesis by (simp add: trim_def)
qed

definition isLower :: "16 word \<Rightarrow> bool" where
  "isLower c \<longleftrightarrow> 97 \<le> c \<and> c \<le> 122"

lemma isLower_simps:
  assumes "isLower c"
  shows "\<not> isDigit c" "\<not> isSpace c" "lowerAscii c = c" "c \<noteq> 46"
proof -
  have c: "97 \<le> uint c" "uint c \<le> 122" using assms by (simp_all add: isLower_def word_le_def)
  show "\<not> isDigit c" "lowerAscii c = c" "c \<noteq> 46" using c by (auto simp: isDigit_def lowerAscii_def word_le_def)
  show "\<not> isSpace c" using c by (auto simp: isSpace_def word_le_def)
qed

lemma isDigit_simps:
  assumes "isDigit c"
  shows "\<not> isSpace c" "c \<noteq> 46"
proof -
  have c: "48 \<le> uint c" "uint c \<le> 57" using assms by (simp_all add: isDigit_def word_le_def)
  then show "\<not> isSpace c" "c \<noteq> 46" by (auto simp: isSpace_def word_le_def)
qed

lemma isSpace_simps:
  assumes "isSpace c"
  shows "\<not> isDigit c" "c \<noteq> 46"
  using assms isDigit_simps by (auto simp: isSpace_def)

lemma unit_lower:
  assumes "map_of UNIT_TO_MILLISECONDS unit = Some k"
  shows "unit \<noteq> []" and "list_all isLower unit" and "0 \<le> k"
proof -
  have "list_all (\<lambda>(u, k). u \<noteq> [] \<and> list_all isLower u \<and> 0 \<le> k) UNIT_TO_MILLISECONDS"
    by (simp add: UNIT_TO_MILLISECONDS_def js_def isLower_def)
  then show "unit \<noteq> []" "list_all isLower unit" "0 \<le> k"
    using map_of_SomeD [OF assms] by (auto simp: list_all_iff)
qed

text \<open>
  A duration string means what it says: digits, white space and a unit give the number the digits
  denote times the milliseconds of the unit.
\<close>

lemma duration_string_value:
  assumes "ds \<noteq> []" and "list_all isDigit ds" and "list_all isSpace sp"
    and "map_of UNIT_TO_MILLISECONDS unit = Some k"
  shows "parseDuration (DurationString (ds @ sp @ unit)) = Inr (of_nat (digits_value 0 ds) * k)"
proof -
  obtain c cs where unit: "unit = c # cs" "isLower c" "list_all isLower cs"
    using unit_lower [OF assms(4)] by (cases unit) auto
  note c = isLower_simps [OF unit(2)]
  have lower: "map lowerAscii unit = unit"
    using unit_lower(2) [OF assms(4)] by (auto simp: list_all_iff isLower_simps intro: map_idI)
  have "\<not> isSpace (hd ds)" using assms(1,2) by (cases ds) (auto simp: isDigit_simps)
  moreover have "\<not> isSpace (last unit)"
    using unit_lower(1,2) [OF assms(4)] by (auto simp: list_all_iff isLower_simps)
  ultimately have trim: "trim (ds @ sp @ unit) = ds @ sp @ unit"
    using assms(1) unit_lower(1) [OF assms(4)] by (intro trim_id) auto
  have stop: "takeWhile isDigit (sp @ unit) = []" "dropWhile isDigit (sp @ unit) = sp @ unit"
    using assms(3) unit(1) c(1) by (cases sp; simp add: isSpace_simps)+
  have whole: "takeWhile isDigit (ds @ sp @ unit) = ds" "dropWhile isDigit (ds @ sp @ unit) = sp @ unit"
    using assms(2) stop by (simp_all add: list_all_iff takeWhile_append dropWhile_append)
  have fraction: "(case sp @ unit of [] \<Rightarrow> [] | c # cs \<Rightarrow> if c = 46 then takeWhile isDigit cs else []) = []"
    using assms(3) unit(1) c(4) by (cases sp) (auto simp: isSpace_simps)
  have spaces: "dropWhile isSpace (sp @ unit) = unit"
    using assms(3) unit(1) c(2) by (simp add: list_all_iff dropWhile_append)
  have "matchDuration (ds @ sp @ unit) = Some (of_nat (digits_value 0 ds), unit)"
    using assms(1,4) by (simp add: matchDuration_def Let_def whole fraction spaces lower)
  then show ?thesis
    using assms(4) unit_lower(3) [OF assms(4)]
    by (simp add: parseDuration_def trim assertValidDurationMilliseconds_def not_less)
qed

end
