(* ===== verification/Calendar.thy ===== *)
theory Calendar
  imports Weft_Prelude
begin

text \<open>
  The calendar of JavaScript dates, as far as the cron schedules use it: \<open>Date.UTC\<close>, the UTC getters of a
  \<open>Date\<close>, and the week day. Time values are integers of milliseconds since 1970; a day number counts days
  since 1970. A time value outside \<open>maxTime\<close> is no date.

  The main results are the inverse laws between day numbers and year, month and day, and that the month
  index \<open>12 * year + month\<close> is monotone in the day number.
\<close>

section \<open>Years\<close>

definition isLeap :: "int \<Rightarrow> bool" where
  "isLeap y \<longleftrightarrow> 4 dvd y \<and> (\<not> 100 dvd y \<or> 400 dvd y)"

definition yearDays :: "int \<Rightarrow> int" where
  "yearDays y = (if isLeap y then 366 else 365)"

definition dayFromYear :: "int \<Rightarrow> int" where
  "dayFromYear y = 365 * (y - 1970) + (y - 1969) div 4 - (y - 1901) div 100 + (y - 1601) div 400"

lemma div_step:
  fixes y a n :: int
  assumes "0 < n"
  shows "(y + 1 - a) div n = (y - a) div n + (if n dvd (y + 1 - a) then 1 else 0)"
proof (cases "n dvd (y + 1 - a)")
  case True
  then obtain k where "y + 1 - a = n * k" by (auto simp: dvd_def)
  then have y: "y - a = n * (k - 1) + (n - 1)" by (simp add: algebra_simps)
  have "(y - a) div n = k - 1" unfolding y using assms by (simp add: div_add1_eq [of "n * (k - 1)"] div_pos_pos_trivial)
  moreover have "(y + 1 - a) div n = k" using \<open>y + 1 - a = n * k\<close> assms by simp
  ultimately show ?thesis using True by simp
next
  case False
  have r: "(y - a) mod n \<noteq> n - 1"
  proof
    assume "(y - a) mod n = n - 1"
    then have "(y - a + 1) mod n = 0" by (metis add.commute diff_add_cancel mod_add_left_eq mod_self)
    then show False using False by (simp add: dvd_eq_mod_eq_0 algebra_simps)
  qed
  have "0 \<le> (y - a) mod n" "(y - a) mod n < n" using assms by simp_all
  then have m: "0 \<le> (y - a) mod n + 1" "(y - a) mod n + 1 < n" using r by linarith+
  have "y + 1 - a = n * ((y - a) div n) + ((y - a) mod n + 1)" by (simp add: algebra_simps)
  then have "(y + 1 - a) div n = (y - a) div n" using m assms by (metis div_pos_pos_trivial div_mult_self4 add.commute add.right_neutral less_irrefl)
  then show ?thesis using False by simp
qed

lemma leap_count:
  "r \<longrightarrow> q \<Longrightarrow> q \<longrightarrow> p \<Longrightarrow> (if p \<and> (\<not> q \<or> r) then 366 else 365 :: int)
     = 365 + (if p then 1 else 0) - (if q then 1 else 0) + (if r then 1 else 0)"
  by (cases p; cases q; cases r; simp)

lemma dayFromYear_Suc: "dayFromYear (y + 1) = dayFromYear y + yearDays y"
proof -
  have shift: "(n :: int) dvd y + 1 - a \<longleftrightarrow> n dvd y" if "n dvd a - 1" for n a
    using that dvd_diff [of n "a - 1" "y + 1 - a"] dvd_add [of n "y + 1 - a" "a - 1"] dvd_diff [of n y "a - 1"]
    by (auto simp: algebra_simps)
  have step: "(y + 1 - a) div n = (y - a) div n + (if n dvd y then 1 else 0)" if "0 < n" "n dvd a - 1" for n a :: int
    using div_step [OF that(1), of y a] unfolding shift [OF that(2)] .
  have "400 dvd y \<longrightarrow> 100 dvd y" using dvd_trans [of 100 400 y] by simp
  moreover have "100 dvd y \<longrightarrow> 4 dvd y" using dvd_trans [of 4 100 y] by simp
  ultimately have days:
    "yearDays y = 365 + (if 4 dvd y then 1 else 0) - (if 100 dvd y then 1 else 0) + (if 400 dvd y then 1 else 0)"
    unfolding yearDays_def isLeap_def by (rule leap_count)
  have sum: "365 * (y + 1 - 1970) + (a + i) - (b + j) + (c + k) = 365 * (y - 1970) + a - b + c + (365 + i - j + k)"
    for a b c i j k :: int by simp
  have "(y + 1 - 1969) div 4 = (y - 1969) div 4 + (if 4 dvd y then 1 else 0)"
    "(y + 1 - 1901) div 100 = (y - 1901) div 100 + (if 100 dvd y then 1 else 0)"
    "(y + 1 - 1601) div 400 = (y - 1601) div 400 + (if 400 dvd y then 1 else 0)"
    by (rule step; simp)+
  then show ?thesis unfolding dayFromYear_def days by (simp only: sum)
qed

lemma yearDays_bounds: "365 \<le> yearDays y" "yearDays y \<le> 366"
  by (simp_all add: yearDays_def)

lemma dayFromYear_mono_strict: "y < z \<Longrightarrow> dayFromYear y + yearDays y \<le> dayFromYear z"
proof (induction z rule: int_gr_induct)
  case base
  then show ?case by (simp add: dayFromYear_Suc)
next
  case (step z)
  then show ?case using yearDays_bounds(1) [of z] by (simp add: dayFromYear_Suc)
qed

lemma dayFromYear_less: "y < z \<Longrightarrow> dayFromYear y < dayFromYear z"
  using dayFromYear_mono_strict [of y z] yearDays_bounds(1) [of y] by linarith

text \<open>The year of a day number: a lower bound, then counted up.\<close>

function yearFrom :: "int \<Rightarrow> int \<Rightarrow> int" where
  "yearFrom y d = (if dayFromYear (y + 1) \<le> d then yearFrom (y + 1) d else y)"
  by auto
termination
proof (relation "measure (\<lambda>(y, d). nat (d - dayFromYear y))")
  fix y d :: int
  assume "dayFromYear (y + 1) \<le> d"
  moreover have "dayFromYear y < dayFromYear (y + 1)" by (rule dayFromYear_less) simp
  ultimately show "((y + 1, d), y, d) \<in> measure (\<lambda>(y, d). nat (d - dayFromYear y))" by simp
qed simp

declare yearFrom.simps [simp del]

definition yearFromDay :: "int \<Rightarrow> int" where
  "yearFromDay d = yearFrom (1970 + d div (if 0 \<le> d then 366 else 365)) d"

lemma yearFrom_bounds:
  "dayFromYear y \<le> d \<Longrightarrow> dayFromYear (yearFrom y d) \<le> d \<and> d < dayFromYear (yearFrom y d + 1)"
proof (induction y d rule: yearFrom.induct)
  case (1 y d)
  then show ?case by (subst (1 2) yearFrom.simps) auto
qed

lemma dayFromYear_upper: "1970 \<le> y \<Longrightarrow> dayFromYear y \<le> 366 * (y - 1970)"
proof (induction y rule: int_ge_induct)
  case base
  show ?case by (simp add: dayFromYear_def)
next
  case (step y)
  then show ?case using yearDays_bounds(2) [of y] unfolding dayFromYear_Suc by (simp add: algebra_simps)
qed

lemma dayFromYear_lower: "y \<le> 1970 \<Longrightarrow> dayFromYear y \<le> 365 * (y - 1970)"
proof (induction y rule: int_le_induct)
  case base
  show ?case by (simp add: dayFromYear_def)
next
  case (step y)
  then show ?case using yearDays_bounds(1) [of "y - 1"] dayFromYear_Suc [of "y - 1"] by (simp add: algebra_simps)
qed

lemma yearFromDay_bounds: "dayFromYear (yearFromDay d) \<le> d" "d < dayFromYear (yearFromDay d + 1)"
proof -
  define y where "y = 1970 + d div (if 0 \<le> d then 366 else 365)"
  have "dayFromYear y \<le> d"
  proof (cases "0 \<le> d")
    case True
    then have "366 * (y - 1970) \<le> d" "1970 \<le> y" by (simp_all add: y_def)
    then show ?thesis using dayFromYear_upper [of y] by simp
  next
    case False
    then have "365 * (y - 1970) \<le> d" "y \<le> 1970" by (simp_all add: y_def div_int_pos_iff)
    then show ?thesis using dayFromYear_lower [of y] by simp
  qed
  from yearFrom_bounds [OF this] show "dayFromYear (yearFromDay d) \<le> d" "d < dayFromYear (yearFromDay d + 1)"
    by (simp_all add: yearFromDay_def y_def)
qed

lemma yearFromDay_eqI:
  assumes "dayFromYear y \<le> d" and "d < dayFromYear (y + 1)"
  shows "yearFromDay d = y"
proof (rule linorder_cases [of "yearFromDay d" y])
  assume "yearFromDay d < y"
  then have "dayFromYear (yearFromDay d + 1) \<le> dayFromYear y"
    using dayFromYear_less [of "yearFromDay d + 1" y] by (cases "yearFromDay d + 1 = y") auto
  then show ?thesis using assms(1) yearFromDay_bounds(2) [of d] by simp
next
  assume "y < yearFromDay d"
  then have "dayFromYear (y + 1) \<le> dayFromYear (yearFromDay d)"
    using dayFromYear_less [of "y + 1" "yearFromDay d"] by (cases "y + 1 = yearFromDay d") auto
  then show ?thesis using assms(2) yearFromDay_bounds(1) [of d] by simp
qed

lemma yearFromDay_mono: "d \<le> d' \<Longrightarrow> yearFromDay d \<le> yearFromDay d'"
proof (rule ccontr)
  assume "d \<le> d'" and "\<not> yearFromDay d \<le> yearFromDay d'"
  then have "dayFromYear (yearFromDay d' + 1) \<le> dayFromYear (yearFromDay d)"
    using dayFromYear_less [of "yearFromDay d' + 1" "yearFromDay d"]
    by (cases "yearFromDay d' + 1 = yearFromDay d") auto
  then show False using \<open>d \<le> d'\<close> yearFromDay_bounds(1) [of d] yearFromDay_bounds(2) [of d'] by simp
qed

section \<open>Months\<close>

text \<open>The first days of the months within a year, and of the year after.\<close>

definition monthStarts :: "bool \<Rightarrow> int list" where
  "monthStarts leap =
     (let l = (if leap then 1 else 0)
      in [0, 31, 59 + l, 90 + l, 120 + l, 151 + l, 181 + l, 212 + l, 243 + l, 273 + l, 304 + l, 334 + l, 365 + l])"

fun scanBounds :: "int list \<Rightarrow> int \<Rightarrow> nat" where
  "scanBounds [] k = 0"
| "scanBounds (b # bs) k = (if k < b then 0 else Suc (scanBounds bs k))"

lemma scanBounds_correct:
  "a \<le> k \<Longrightarrow> scanBounds bs k \<le> length bs \<and> (a # bs) ! scanBounds bs k \<le> k \<and>
     (scanBounds bs k < length bs \<longrightarrow> k < (a # bs) ! Suc (scanBounds bs k))"
  by (induction bs arbitrary: a) auto

definition monthFromDayOfYear :: "bool \<Rightarrow> int \<Rightarrow> nat" where
  "monthFromDayOfYear leap k = scanBounds (butlast (tl (monthStarts leap))) k"

lemma monthStarts_mono: "i < j \<Longrightarrow> j < 13 \<Longrightarrow> monthStarts leap ! i < monthStarts leap ! j"
proof -
  have "sorted_wrt (<) (monthStarts leap)" by (simp add: monthStarts_def)
  moreover have "length (monthStarts leap) = 13" by (simp add: monthStarts_def)
  ultimately show "i < j \<Longrightarrow> j < 13 \<Longrightarrow> monthStarts leap ! i < monthStarts leap ! j"
    by (simp add: sorted_wrt_iff_nth_less)
qed

lemma monthFromDayOfYear_bounds:
  assumes "0 \<le> k" and "k < monthStarts leap ! 12"
  shows "monthFromDayOfYear leap k < 12" and "monthStarts leap ! monthFromDayOfYear leap k \<le> k"
    and "k < monthStarts leap ! Suc (monthFromDayOfYear leap k)"
proof -
  define bs where "bs = butlast (tl (monthStarts leap))"
  define m where "m = scanBounds bs k"
  have ms: "monthStarts leap = (0 # bs) @ [monthStarts leap ! 12]" and len: "length bs = 11"
    by (simp_all add: bs_def monthStarts_def Let_def)
  have c: "m \<le> 11" "(0 # bs) ! m \<le> k" "m < 11 \<longrightarrow> k < (0 # bs) ! Suc m"
    using scanBounds_correct [OF assms(1), of bs] by (simp_all add: m_def len)
  have nth: "monthStarts leap ! j = (0 # bs) ! j" if "j < 12" for j
    using that len nth_append_left [of j "0 # bs" "[monthStarts leap ! 12]"] ms by simp
  have "monthStarts leap ! m \<le> k" using c(1,2) nth [of m] by simp
  moreover have "k < monthStarts leap ! Suc m"
  proof (cases "m < 11")
    case True
    then show ?thesis using c(3) nth [of "Suc m"] by simp
  next
    case False
    then have "Suc m = 12" using c(1) by simp
    then show ?thesis using assms(2) by simp
  qed
  ultimately show "monthFromDayOfYear leap k < 12" "monthStarts leap ! monthFromDayOfYear leap k \<le> k"
    "k < monthStarts leap ! Suc (monthFromDayOfYear leap k)"
    using c(1) by (simp_all add: monthFromDayOfYear_def m_def bs_def)
qed

text \<open>The first day of the month with a given index, months counted from January of year 0.\<close>

definition firstDay :: "int \<Rightarrow> int" where
  "firstDay i = dayFromYear (i div 12) + monthStarts (isLeap (i div 12)) ! nat (i mod 12)"

definition monthIndex :: "int \<Rightarrow> int" where
  "monthIndex d =
     (let y = yearFromDay d in 12 * y + int (monthFromDayOfYear (isLeap y) (d - dayFromYear y)))"

lemma yearDays_starts: "yearDays y = monthStarts (isLeap y) ! 12"
  by (simp add: yearDays_def monthStarts_def)

lemma index_next:
  fixes q k :: int
  assumes "0 \<le> k" and "k < 11"
  shows "(12 * q + k + 1) div 12 = q" "(12 * q + k + 1) mod 12 = k + 1"
  using assms by presburger+

lemma index_wrap: "(12 * q + 11 + 1) div 12 = (q :: int) + 1" "(12 * q + 11 + 1) mod 12 = (0 :: int)"
  by presburger+

lemma firstDay_Suc: "firstDay i < firstDay (i + 1)"
proof -
  obtain q k where i: "i = 12 * q + k" "0 \<le> k" "k < 12"
    using mult_div_mod_eq [of 12 i] pos_mod_bound [of 12 i] pos_mod_sign [of 12 i] by (metis zero_less_numeral)
  then have here: "i div 12 = q" "i mod 12 = k" by simp_all
  show ?thesis
  proof (cases "k = 11")
    case True
    have "monthStarts b ! nat 11 < monthStarts b ! 12" "monthStarts b ! nat 0 = 0" for b
      by (simp_all add: monthStarts_def Let_def)
    then show ?thesis
      unfolding firstDay_def here unfolding i(1) True index_wrap
      using dayFromYear_Suc [of q] yearDays_starts [of q] by (metis add_less_cancel_left add.right_neutral)
  next
    case False
    have k: "k < 11" using i(3) False by simp
    have "monthStarts b ! nat k < monthStarts b ! nat (k + 1)" for b
      by (rule monthStarts_mono) (use i(2) k in simp_all)
    then show ?thesis
      unfolding firstDay_def here unfolding i(1) index_next [OF i(2) k] by simp
  qed
qed

lemma firstDay_less: "i < j \<Longrightarrow> firstDay i < firstDay j"
proof (induction j rule: int_gr_induct)
  case base
  show ?case by (rule firstDay_Suc)
next
  case (step j)
  then show ?case using firstDay_Suc [of j] by simp
qed

lemma firstDay_le_iff: "firstDay i \<le> firstDay j \<longleftrightarrow> i \<le> j"
  using firstDay_less [of i j] firstDay_less [of j i] by (cases i j rule: linorder_cases) auto

lemma monthIndex_bounds: "firstDay (monthIndex d) \<le> d" "d < firstDay (monthIndex d + 1)"
proof -
  define y m where "y = yearFromDay d" and "m = monthFromDayOfYear (isLeap y) (d - dayFromYear y)"
  have "0 \<le> d - dayFromYear y" "d - dayFromYear y < monthStarts (isLeap y) ! 12"
    using yearFromDay_bounds [of d] by (simp_all add: y_def dayFromYear_Suc flip: yearDays_starts)
  note M = monthFromDayOfYear_bounds [OF this, folded m_def]
  have i: "monthIndex d = 12 * y + int m" by (simp add: monthIndex_def y_def m_def Let_def)
  have d: "monthIndex d div 12 = y" "monthIndex d mod 12 = int m" using M(1) unfolding i by simp_all
  show "firstDay (monthIndex d) \<le> d" unfolding firstDay_def d using M(2) by simp
  show "d < firstDay (monthIndex d + 1)"
  proof (cases "m = 11")
    case True
    then have "(monthIndex d + 1) div 12 = y + 1" "(monthIndex d + 1) mod 12 = 0" unfolding i by simp_all
    then show ?thesis
      unfolding firstDay_def using M(3) True by (simp add: dayFromYear_Suc yearDays_starts) (simp add: monthStarts_def Let_def)
  next
    case False
    then have "(monthIndex d + 1) div 12 = y" "(monthIndex d + 1) mod 12 = int (Suc m)"
      using M(1) index_next [of "int m" y] unfolding i by simp_all
    moreover have "nat (1 + int m) = Suc m" by simp
    ultimately show ?thesis unfolding firstDay_def using M(3) by simp
  qed
qed

lemma monthIndex_eqI:
  assumes "firstDay i \<le> d" and "d < firstDay (i + 1)"
  shows "monthIndex d = i"
proof -
  have "firstDay i < firstDay (monthIndex d + 1)" "firstDay (monthIndex d) < firstDay (i + 1)"
    using assms monthIndex_bounds [of d] by linarith+
  then show ?thesis using firstDay_le_iff [of "monthIndex d + 1" i] firstDay_le_iff [of "i + 1" "monthIndex d"] by linarith
qed

lemma monthIndex_firstDay [simp]: "monthIndex (firstDay i) = i"
  by (rule monthIndex_eqI) (simp_all add: firstDay_Suc)

lemma monthIndex_mono: "d \<le> d' \<Longrightarrow> monthIndex d \<le> monthIndex d'"
proof (rule ccontr)
  assume d: "d \<le> d'" and "\<not> monthIndex d \<le> monthIndex d'"
  then have "firstDay (monthIndex d' + 1) \<le> firstDay (monthIndex d)" by (simp add: firstDay_le_iff)
  then show False using d monthIndex_bounds(1) [of d] monthIndex_bounds(2) [of d'] by linarith
qed

lemma monthIndex_ge_iff: "i \<le> monthIndex d \<longleftrightarrow> firstDay i \<le> d"
  using monthIndex_mono [of "firstDay i" d] firstDay_le_iff [of i "monthIndex d"] monthIndex_bounds(1) [of d]
  by auto

section \<open>Dates and times\<close>

definition msPerDay :: int where "msPerDay = 86400000"

text \<open>Day of the month of a day number, and the day number of a year, month and day; months count from 1.\<close>

definition dateFromDay :: "int \<Rightarrow> int" where
  "dateFromDay d = d - firstDay (monthIndex d) + 1"

definition dayFromDate :: "int \<Rightarrow> int \<Rightarrow> int \<Rightarrow> int" where
  "dayFromDate year month date = firstDay (12 * year + (month - 1)) + date - 1"

lemma dayFromDate_inverse: "dayFromDate (monthIndex d div 12) (monthIndex d mod 12 + 1) (dateFromDay d) = d"
  by (simp add: dayFromDate_def dateFromDay_def)

lemma dateFromDay_firstDay [simp]: "dateFromDay (firstDay i) = 1"
  by (simp add: dateFromDay_def)

definition maxTime :: int where "maxTime = 8640000000000000"

definition timeClip :: "int \<Rightarrow> int option" where
  "timeClip t = (if \<bar>t\<bar> \<le> maxTime then Some t else None)"

text \<open>\<open>Date.UTC\<close>, which reads the years 0 to 99 as 1900 to 1999.\<close>

definition dateUTC :: "int \<Rightarrow> int \<Rightarrow> int \<Rightarrow> int \<Rightarrow> int \<Rightarrow> int \<Rightarrow> int option" where
  "dateUTC year month date hour minute second =
     timeClip (dayFromDate (if 0 \<le> year \<and> year \<le> 99 then 1900 + year else year) month date * msPerDay
       + hour * 3600000 + minute * 60000 + second * 1000)"

definition utcDayNumber :: "int \<Rightarrow> int" where "utcDayNumber t = t div msPerDay"
definition utcFullYear :: "int \<Rightarrow> int" where "utcFullYear t = monthIndex (utcDayNumber t) div 12"
definition utcMonth :: "int \<Rightarrow> int" where "utcMonth t = monthIndex (utcDayNumber t) mod 12 + 1"
definition utcDate :: "int \<Rightarrow> int" where "utcDate t = dateFromDay (utcDayNumber t)"
definition utcHours :: "int \<Rightarrow> int" where "utcHours t = t div 3600000 mod 24"
definition utcMinutes :: "int \<Rightarrow> int" where "utcMinutes t = t div 60000 mod 60"
definition utcSeconds :: "int \<Rightarrow> int" where "utcSeconds t = t div 1000 mod 60"
definition utcDay :: "int \<Rightarrow> int" where "utcDay t = (utcDayNumber t + 4) mod 7"

lemma monthIndex_year: "monthIndex d div 12 = yearFromDay d"
proof -
  define y where "y = yearFromDay d"
  have "0 \<le> d - dayFromYear y" "d - dayFromYear y < monthStarts (isLeap y) ! 12"
    using yearFromDay_bounds [of d] by (simp_all add: y_def dayFromYear_Suc flip: yearDays_starts)
  from monthFromDayOfYear_bounds(1) [OF this] show ?thesis
    by (simp add: monthIndex_def Let_def y_def)
qed

text \<open>A time of day in milliseconds is its hours, minutes, seconds and milliseconds.\<close>

lemma time_split:
  "t = utcDayNumber t * msPerDay + utcHours t * 3600000 + utcMinutes t * 60000 + utcSeconds t * 1000 + t mod 1000"
proof -
  have h: "t div 3600000 = t div 86400000 * 24 + utcHours t"
    unfolding utcHours_def using div_mult_mod_eq [of "t div 3600000" 24] by (simp add: zdiv_zmult2_eq [symmetric])
  have m: "t div 60000 = t div 3600000 * 60 + utcMinutes t"
    unfolding utcMinutes_def using div_mult_mod_eq [of "t div 60000" 60] by (simp add: zdiv_zmult2_eq [symmetric])
  have s: "t div 1000 = t div 60000 * 60 + utcSeconds t"
    unfolding utcSeconds_def using div_mult_mod_eq [of "t div 1000" 60] by (simp add: zdiv_zmult2_eq [symmetric])
  have "t = t div 1000 * 1000 + t mod 1000" by simp
  also have "\<dots> = ((t div 86400000 * 24 + utcHours t) * 60 + utcMinutes t) * 60 * 1000 + utcSeconds t * 1000 + t mod 1000"
    unfolding s m h by (simp add: algebra_simps)
  finally show ?thesis unfolding utcDayNumber_def msPerDay_def by (simp add: algebra_simps)
qed

lemma time_ranges:
  "0 \<le> utcHours t" "utcHours t < 24" "0 \<le> utcMinutes t" "utcMinutes t < 60" "0 \<le> utcSeconds t" "utcSeconds t < 60"
  by (simp_all add: utcHours_def utcMinutes_def utcSeconds_def)

end
