(* ===== verification/Cron.thy ===== *)
theory Cron
  imports Calendar Schedule_Interval
begin

text \<open>
  Cron schedules: the parser \<open>src/src/core/schedule/cron-parser.ts\<close>, the local date arithmetic of
  \<open>cron-formatter.ts\<close> and the search of \<open>cron-occurrence.ts\<close>.

  A time zone is what \<open>Intl.DateTimeFormat\<close> knows of it: the offset of local time at an instant, from
  which the numeric parts follow by the calendar, and the text of the \<open>timeZoneName\<close> part. Formatting a
  time value outside the range of dates throws. The cache of formatters is not modelled, and neither is
  the text of the parts, which the code parses back into the numbers they show. Numbers in an expression
  are integers: a run of more than 308 digits, which JavaScript reads as infinity, is not distinguished.
\<close>

section \<open>Parsed expressions\<close>

record cron_field =
  cf_values :: "int list"
  cf_wildcard :: bool

record parsed_cron_expression =
  ce_expression :: jsstring
  ce_hasSeconds :: bool
  ce_seconds :: cron_field
  ce_minutes :: cron_field
  ce_hours :: cron_field
  ce_daysOfMonth :: cron_field
  ce_months :: cron_field
  ce_daysOfWeek :: cron_field

record local_date_time =
  ld_year :: int
  ld_month :: int
  ld_day :: int
  ld_hour :: int
  ld_minute :: int
  ld_second :: int

record zoned_parts = local_date_time +
  zp_dayOfWeek :: int

section \<open>The parser\<close>

definition MONTH_NAMES :: "(jsstring \<times> int) list" where
  "MONTH_NAMES =
     [(js ''JAN'', 1), (js ''FEB'', 2), (js ''MAR'', 3), (js ''APR'', 4), (js ''MAY'', 5), (js ''JUN'', 6),
      (js ''JUL'', 7), (js ''AUG'', 8), (js ''SEP'', 9), (js ''OCT'', 10), (js ''NOV'', 11), (js ''DEC'', 12)]"

definition DAY_NAMES :: "(jsstring \<times> int) list" where
  "DAY_NAMES =
     [(js ''SUN'', 0), (js ''MON'', 1), (js ''TUE'', 2), (js ''WED'', 3), (js ''THU'', 4), (js ''FRI'', 5),
      (js ''SAT'', 6)]"

text \<open>
  \<open>toUpperCase\<close>, as far as looking up an ASCII name can tell: besides the ASCII letters, the dotless i and
  the long s have an ASCII upper case.
\<close>

definition upperUnit :: "16 word \<Rightarrow> 16 word" where
  "upperUnit c =
     (if 97 \<le> c \<and> c \<le> 122 then c - 32 else if c = 0x131 then 73 else if c = 0x17f then 83 else c)"

text \<open>\<open>Number.parseInt(token, 10)\<close>: leading white space, a sign, digits; the rest is ignored.\<close>

definition parseInt10 :: "jsstring \<Rightarrow> int option" where
  "parseInt10 token =
     (let s = dropWhile isSpace token;
          negative = (case s of c # _ \<Rightarrow> c = 45 | [] \<Rightarrow> False);
          unsigned = (case s of c # cs \<Rightarrow> if c = 45 \<or> c = 43 then cs else s | [] \<Rightarrow> []);
          digits = takeWhile isDigit unsigned
      in if digits = [] then None
         else Some ((if negative then - 1 else 1) * int (digits_value 0 digits)))"

definition parseNamedValue ::
    "jsstring \<Rightarrow> (jsstring \<times> int) list \<Rightarrow> int \<Rightarrow> int \<Rightarrow> schedule_error + int" where
  "parseNamedValue token names minimum maximum =
     (case map_of names (map upperUnit token) of
        Some v \<Rightarrow> Inr v
      | None \<Rightarrow>
          (case parseInt10 token of
             None \<Rightarrow> Inl CronToken
           | Some numericValue \<Rightarrow>
               let normalizedValue = (if maximum = 6 \<and> numericValue = 7 then 0 else numericValue)
               in if normalizedValue < minimum \<or> normalizedValue > maximum then Inl CronTokenRange
                  else Inr normalizedValue))"

definition buildWildcardCronField :: "int \<Rightarrow> int \<Rightarrow> cron_field" where
  "buildWildcardCronField minimum maximum =
     \<lparr>cf_values = map (\<lambda>index. minimum + int index) [0..<nat (maximum - minimum + 1)], cf_wildcard = True\<rparr>"

definition parseCronStep :: "jsstring option \<Rightarrow> schedule_error + int" where
  "parseCronStep stepPart =
     (case (case stepPart of None \<Rightarrow> Some 1 | Some s \<Rightarrow> parseInt10 s) of
        None \<Rightarrow> Inl CronStep
      | Some step \<Rightarrow> if step \<le> 0 then Inl CronStep else Inr step)"

text \<open>A set in insertion order. The loop is entered with a positive step, as \<open>parseCronStep\<close> ensures.\<close>

definition set_add :: "int \<Rightarrow> int list \<Rightarrow> int list" where
  "set_add v values = (if v \<in> set values then values else values @ [v])"

function addSteppedValues :: "int list \<Rightarrow> int \<Rightarrow> int \<Rightarrow> int \<Rightarrow> int list" where
  "addSteppedValues values start end' step =
     (if 0 < step \<and> start \<le> end' then addSteppedValues (set_add start values) (start + step) end' step else values)"
  by auto
termination by (relation "measure (\<lambda>(_, start, end', step). nat (end' + 1 - start))") auto

declare addSteppedValues.simps [simp del]

text \<open>\<open>split\<close> with a separator of one code unit.\<close>

fun splitParts :: "16 word \<Rightarrow> jsstring \<Rightarrow> jsstring list" where
  "splitParts sep [] = [[]]"
| "splitParts sep (c # cs) =
     (if c = sep then [] # splitParts sep cs
      else case splitParts sep cs of [] \<Rightarrow> [[c]] | p # ps \<Rightarrow> (c # p) # ps)"

definition isWildcard :: "jsstring \<Rightarrow> bool" where
  "isWildcard s \<longleftrightarrow> s = js ''*'' \<or> s = js ''?''"

definition nth_part :: "jsstring list \<Rightarrow> nat \<Rightarrow> jsstring option" where
  "nth_part ps i = (if i < length ps then Some (ps ! i) else None)"

definition addCronSegmentValues ::
    "int list \<Rightarrow> jsstring \<Rightarrow> int \<Rightarrow> int \<Rightarrow> (jsstring \<times> int) list \<Rightarrow> schedule_error + int list" where
  "addCronSegmentValues values segment minimum maximum names =
     (let parts = splitParts 47 segment;
          rangePart = hd parts
      in and_then (parseCronStep (nth_part parts 1)) (\<lambda>step.
           if isWildcard rangePart then Inr (addSteppedValues values minimum maximum step)
           else
             let tokens = splitParts 45 rangePart
             in and_then (parseNamedValue (hd tokens) names minimum maximum) (\<lambda>start.
                and_then (case nth_part tokens 1 of None \<Rightarrow> Inr start
                          | Some endToken \<Rightarrow> parseNamedValue endToken names minimum maximum) (\<lambda>end'.
                  if start > end' then Inl CronRange else Inr (addSteppedValues values start end' step)))))"

fun addSegments :: "int list \<Rightarrow> jsstring list \<Rightarrow> int \<Rightarrow> int \<Rightarrow> (jsstring \<times> int) list \<Rightarrow> schedule_error + int list" where
  "addSegments values [] minimum maximum names = Inr values"
| "addSegments values (rawSegment # segments) minimum maximum names =
     (let segment = trim rawSegment
      in if length segment = 0 then Inl CronFieldEmpty
         else and_then (addCronSegmentValues values segment minimum maximum names) (\<lambda>values'.
                addSegments values' segments minimum maximum names))"

definition parseCronField :: "jsstring \<Rightarrow> int \<Rightarrow> int \<Rightarrow> (jsstring \<times> int) list \<Rightarrow> schedule_error + cron_field" where
  "parseCronField fieldText minimum maximum names =
     (let trimmedField = trim fieldText
      in if isWildcard trimmedField then Inr (buildWildcardCronField minimum maximum)
         else and_then (addSegments [] (splitParts 44 trimmedField) minimum maximum names) (\<lambda>values.
                Inr \<lparr>cf_values = sort values, cf_wildcard = False\<rparr>))"

text \<open>The fields of \<open>expression.trim().split(/\s+/).filter(nonempty)\<close>: the maximal runs without white space.\<close>

fun spaceFields :: "jsstring \<Rightarrow> jsstring \<Rightarrow> jsstring list" where
  "spaceFields current [] = (if current = [] then [] else [current])"
| "spaceFields current (c # cs) =
     (if isSpace c then (if current = [] then spaceFields [] cs else current # spaceFields [] cs)
      else spaceFields (current @ [c]) cs)"

definition parseCronExpression :: "jsstring \<Rightarrow> schedule_error + parsed_cron_expression" where
  "parseCronExpression expression =
     (let fs = spaceFields [] expression
      in if length fs \<noteq> 5 \<and> length fs \<noteq> 6 then Inl CronFieldCount
         else
           let hasSeconds = (length fs = 6);
               gs = (if hasSeconds then fs else js ''0'' # fs)
           in and_then (parseCronField (gs ! 0) 0 59 []) (\<lambda>seconds.
              and_then (parseCronField (gs ! 1) 0 59 []) (\<lambda>minutes.
              and_then (parseCronField (gs ! 2) 0 23 []) (\<lambda>hours.
              and_then (parseCronField (gs ! 3) 1 31 []) (\<lambda>daysOfMonth.
              and_then (parseCronField (gs ! 4) 1 12 MONTH_NAMES) (\<lambda>months.
              and_then (parseCronField (gs ! 5) 0 6 DAY_NAMES) (\<lambda>daysOfWeek.
                Inr \<lparr>ce_expression = expression, ce_hasSeconds = hasSeconds, ce_seconds = seconds,
                     ce_minutes = minutes, ce_hours = hours, ce_daysOfMonth = daysOfMonth,
                     ce_months = months, ce_daysOfWeek = daysOfWeek\<rparr>)))))))"

section \<open>Local date arithmetic\<close>

record time_zone =
  tz_offset :: "int \<Rightarrow> int"
  tz_name :: "int \<Rightarrow> jsstring"

text \<open>The default zone, whose short offset is the text \<open>GMT\<close>.\<close>

definition UTC :: time_zone where
  "UTC = \<lparr>tz_offset = (\<lambda>_. 0), tz_name = (\<lambda>_. js ''GMT'')\<rparr>"

text \<open>A match of \<open>^GMT([+-])(\d{1,2})(?::(\d{2}))?$\<close>, in milliseconds; 0 without one.\<close>

definition offsetOfName :: "jsstring \<Rightarrow> int" where
  "offsetOfName name =
     (case drop 3 name of
        [] \<Rightarrow> 0
      | c # rest \<Rightarrow>
          let hours = takeWhile isDigit rest; tail = dropWhile isDigit rest;
              sign = (if c = 45 then - 1 else 1);
              value = (\<lambda>minutes. sign * (int (digits_value 0 hours) * 60 + minutes) * 60000)
          in if take 3 name \<noteq> js ''GMT'' \<or> (c \<noteq> 43 \<and> c \<noteq> 45) \<or> (length hours \<noteq> 1 \<and> length hours \<noteq> 2) then 0
             else (case tail of
                     [] \<Rightarrow> value 0
                   | d # minutes \<Rightarrow>
                       if d = 58 \<and> length minutes = 2 \<and> list_all isDigit minutes
                       then value (int (digits_value 0 minutes)) else 0))"

definition getOffsetMilliseconds :: "time_zone \<Rightarrow> int \<Rightarrow> schedule_error + int" where
  "getOffsetMilliseconds timeZone timestamp =
     (case timeClip timestamp of None \<Rightarrow> Inl DateNotValid | Some t \<Rightarrow> Inr (offsetOfName (tz_name timeZone t)))"

definition utcParts :: "int \<Rightarrow> zoned_parts" where
  "utcParts t = \<lparr>ld_year = utcFullYear t, ld_month = utcMonth t, ld_day = utcDate t, ld_hour = utcHours t,
     ld_minute = utcMinutes t, ld_second = utcSeconds t, zp_dayOfWeek = utcDay t\<rparr>"

definition getZonedParts :: "time_zone \<Rightarrow> int \<Rightarrow> schedule_error + zoned_parts" where
  "getZonedParts timeZone timestamp =
     (case timeClip timestamp of
        None \<Rightarrow> Inl DateNotValid
      | Some t \<Rightarrow> Inr (utcParts (t + tz_offset timeZone t)))"

definition sameLocalDateTime :: "'a local_date_time_scheme \<Rightarrow> 'b local_date_time_scheme \<Rightarrow> bool" where
  "sameLocalDateTime left right \<longleftrightarrow>
     ld_year left = ld_year right \<and> ld_month left = ld_month right \<and> ld_day left = ld_day right \<and>
     ld_hour left = ld_hour right \<and> ld_minute left = ld_minute right \<and> ld_second left = ld_second right"

fun refineCandidate :: "nat \<Rightarrow> time_zone \<Rightarrow> int \<Rightarrow> int \<Rightarrow> schedule_error + int" where
  "refineCandidate 0 timeZone naiveTimestamp candidate = Inr candidate"
| "refineCandidate (Suc n) timeZone naiveTimestamp candidate =
     and_then (getOffsetMilliseconds timeZone candidate) (\<lambda>offsetMilliseconds.
       let adjustedCandidate = naiveTimestamp - offsetMilliseconds
       in if adjustedCandidate = candidate then Inr candidate
          else refineCandidate n timeZone naiveTimestamp adjustedCandidate)"

text \<open>The instants the search looks at: every quarter of an hour within two hours.\<close>

definition nearbyTimestamps :: "int \<Rightarrow> int list" where
  "nearbyTimestamps candidate = map (\<lambda>k. candidate + (int k * 15 - 120) * 60000) [0..<17]"

fun filterMatches :: "time_zone \<Rightarrow> local_date_time \<Rightarrow> int list \<Rightarrow> schedule_error + int list" where
  "filterMatches timeZone localDateTime [] = Inr []"
| "filterMatches timeZone localDateTime (t # ts) =
     and_then (getZonedParts timeZone t) (\<lambda>parts.
     and_then (filterMatches timeZone localDateTime ts) (\<lambda>rest.
       Inr (if sameLocalDateTime localDateTime parts then t # rest else rest)))"

definition localDateTimeToTimestamp :: "time_zone \<Rightarrow> local_date_time \<Rightarrow> int \<Rightarrow> schedule_error + int option" where
  "localDateTimeToTimestamp timeZone localDateTime minimumTimestamp =
     (case dateUTC (ld_year localDateTime) (ld_month localDateTime) (ld_day localDateTime)
             (ld_hour localDateTime) (ld_minute localDateTime) (ld_second localDateTime) of
        None \<Rightarrow> Inl DateNotValid
      | Some naiveTimestamp \<Rightarrow>
          and_then (refineCandidate 6 timeZone naiveTimestamp naiveTimestamp) (\<lambda>candidate.
          and_then (filterMatches timeZone localDateTime
                      (filter (\<lambda>timestamp. timestamp \<ge> minimumTimestamp) (nearbyTimestamps candidate))) (\<lambda>matches.
            Inr (case sort matches of [] \<Rightarrow> None | t # _ \<Rightarrow> Some t))))"

text \<open>
  \<open>shiftLocalDateTime\<close> adds days, hours or minutes to the time value of the local date; an invalid date
  makes every getter \<open>NaN\<close>, which the next \<open>Date.UTC\<close> turns into an invalid date again, here at once.
\<close>

definition shiftLocalDateTime :: "local_date_time \<Rightarrow> int \<Rightarrow> int \<Rightarrow> int \<Rightarrow> schedule_error + local_date_time" where
  "shiftLocalDateTime localDateTime days hours minutes =
     (case dateUTC (ld_year localDateTime) (ld_month localDateTime) (ld_day localDateTime)
             (ld_hour localDateTime) (ld_minute localDateTime) (ld_second localDateTime) of
        None \<Rightarrow> Inl DateNotValid
      | Some date \<Rightarrow>
          (case timeClip (date + days * msPerDay + hours * 3600000 + minutes * 60000) of
             None \<Rightarrow> Inl DateNotValid
           | Some t \<Rightarrow> Inr (local_date_time.truncate (utcParts t))))"

definition selectNextValue :: "int list \<Rightarrow> int \<Rightarrow> int \<times> bool" where
  "selectNextValue values currentValue =
     (case find (\<lambda>v. v > currentValue) values of Some v \<Rightarrow> (v, False) | None \<Rightarrow> (hd values, True))"

definition matchesDay :: "zoned_parts \<Rightarrow> parsed_cron_expression \<Rightarrow> bool" where
  "matchesDay parts expression =
     (let matchesDayOfMonth = ld_day parts \<in> set (cf_values (ce_daysOfMonth expression));
          matchesDayOfWeek = zp_dayOfWeek parts \<in> set (cf_values (ce_daysOfWeek expression))
      in if cf_wildcard (ce_daysOfMonth expression) \<and> cf_wildcard (ce_daysOfWeek expression) then True
         else if cf_wildcard (ce_daysOfMonth expression) then matchesDayOfWeek
         else if cf_wildcard (ce_daysOfWeek expression) then matchesDayOfMonth
         else matchesDayOfMonth \<or> matchesDayOfWeek)"

section \<open>The search\<close>

definition nextSearchTimestamp :: "int \<Rightarrow> int" where
  "nextSearchTimestamp candidate = candidate + 1000"

definition startOfLocalDay :: "zoned_parts \<Rightarrow> local_date_time" where
  "startOfLocalDay parts = \<lparr>ld_year = ld_year parts, ld_month = ld_month parts, ld_day = ld_day parts,
     ld_hour = 0, ld_minute = 0, ld_second = 0\<rparr>"

text \<open>\<open>value ?? fallback\<close> for a local date time that has no instant.\<close>

definition orElse :: "schedule_error + int option \<Rightarrow> (unit \<Rightarrow> schedule_error + int) \<Rightarrow> schedule_error + int" where
  "orElse found fallback = and_then found (\<lambda>r. case r of Some t \<Rightarrow> Inr t | None \<Rightarrow> fallback ())"

definition advanceToNextMonth ::
    "int \<Rightarrow> zoned_parts \<Rightarrow> parsed_cron_expression \<Rightarrow> time_zone \<Rightarrow> schedule_error + int" where
  "advanceToNextMonth candidate parts e timeZone =
     (let (v, wrapped) = selectNextValue (cf_values (ce_months e)) (ld_month parts)
      in orElse (localDateTimeToTimestamp timeZone
           \<lparr>ld_year = ld_year parts + (if wrapped then 1 else 0), ld_month = v, ld_day = 1,
            ld_hour = 0, ld_minute = 0, ld_second = 0\<rparr> (nextSearchTimestamp candidate))
           (\<lambda>_. Inr (candidate + 86400000)))"

definition advanceToNextDay :: "int \<Rightarrow> zoned_parts \<Rightarrow> time_zone \<Rightarrow> schedule_error + int" where
  "advanceToNextDay candidate parts timeZone =
     orElse (and_then (shiftLocalDateTime (startOfLocalDay parts) 1 0 0) (\<lambda>nextDay.
         localDateTimeToTimestamp timeZone nextDay (nextSearchTimestamp candidate)))
       (\<lambda>_. Inr (candidate + 86400000))"

definition advanceToNextHour ::
    "int \<Rightarrow> zoned_parts \<Rightarrow> parsed_cron_expression \<Rightarrow> time_zone \<Rightarrow> schedule_error + int" where
  "advanceToNextHour candidate parts e timeZone =
     (let nextHour = fst (selectNextValue (cf_values (ce_hours e)) (ld_hour parts))
      in orElse (localDateTimeToTimestamp timeZone
           ((startOfLocalDay parts)\<lparr>ld_hour := nextHour\<rparr>) (nextSearchTimestamp candidate))
           (\<lambda>_. advanceToNextDay candidate parts timeZone))"

definition advanceToNextMinute ::
    "int \<Rightarrow> zoned_parts \<Rightarrow> parsed_cron_expression \<Rightarrow> time_zone \<Rightarrow> schedule_error + int" where
  "advanceToNextMinute candidate parts e timeZone =
     (let nextMinute = fst (selectNextValue (cf_values (ce_minutes e)) (ld_minute parts));
          hourStart = (startOfLocalDay parts)\<lparr>ld_hour := ld_hour parts\<rparr>
      in orElse (localDateTimeToTimestamp timeZone (hourStart\<lparr>ld_minute := nextMinute\<rparr>) (nextSearchTimestamp candidate))
           (\<lambda>_. orElse (and_then (shiftLocalDateTime hourStart 0 1 0) (\<lambda>nextHour.
                  localDateTimeToTimestamp timeZone nextHour (nextSearchTimestamp candidate)))
             (\<lambda>_. Inr (candidate + 3600000))))"

definition advanceToNextSecond ::
    "int \<Rightarrow> zoned_parts \<Rightarrow> parsed_cron_expression \<Rightarrow> time_zone \<Rightarrow> schedule_error + int" where
  "advanceToNextSecond candidate parts e timeZone =
     (let nextSecond = fst (selectNextValue (cf_values (ce_seconds e)) (ld_second parts));
          minuteStart = (startOfLocalDay parts)\<lparr>ld_hour := ld_hour parts, ld_minute := ld_minute parts\<rparr>
      in orElse (localDateTimeToTimestamp timeZone (minuteStart\<lparr>ld_second := nextSecond\<rparr>) (nextSearchTimestamp candidate))
           (\<lambda>_. orElse (and_then (shiftLocalDateTime minuteStart 0 0 1) (\<lambda>nextMinute.
                  localDateTimeToTimestamp timeZone nextMinute (nextSearchTimestamp candidate)))
             (\<lambda>_. Inr (candidate + 60000))))"

fun cronSearch :: "nat \<Rightarrow> parsed_cron_expression \<Rightarrow> time_zone \<Rightarrow> int \<Rightarrow> schedule_error + int" where
  "cronSearch iterations e timeZone candidate =
     (if iterations = 0 then Inl CronNoOccurrence
      else and_then (getZonedParts timeZone candidate) (\<lambda>parts.
        if ld_month parts \<notin> set (cf_values (ce_months e)) then
          and_then (advanceToNextMonth candidate parts e timeZone) (cronSearch (iterations - 1) e timeZone)
        else if \<not> matchesDay parts e then
          and_then (advanceToNextDay candidate parts timeZone) (cronSearch (iterations - 1) e timeZone)
        else if ld_hour parts \<notin> set (cf_values (ce_hours e)) then
          and_then (advanceToNextHour candidate parts e timeZone) (cronSearch (iterations - 1) e timeZone)
        else if ld_minute parts \<notin> set (cf_values (ce_minutes e)) then
          and_then (advanceToNextMinute candidate parts e timeZone) (cronSearch (iterations - 1) e timeZone)
        else if ld_second parts \<notin> set (cf_values (ce_seconds e)) then
          and_then (advanceToNextSecond candidate parts e timeZone) (cronSearch (iterations - 1) e timeZone)
        else Inr candidate))"

declare cronSearch.simps [simp del]

text \<open>The occurrence after an instant, for a parsed expression; a text is parsed first.\<close>

definition getNextCronOccurrence :: "parsed_cron_expression \<Rightarrow> rat \<Rightarrow> time_zone \<Rightarrow> schedule_error + int" where
  "getNextCronOccurrence e afterTimestamp timeZone =
     and_then (normalizeStorageTimestamp (JFin (of_int (\<lfloor>afterTimestamp / 1000\<rfloor> * 1000 + 1000)))) (\<lambda>candidate.
       cronSearch 100000 e timeZone candidate)"

definition nextCronOccurrenceOf :: "jsstring \<Rightarrow> rat \<Rightarrow> time_zone \<Rightarrow> schedule_error + int" where
  "nextCronOccurrenceOf expression afterTimestamp timeZone =
     and_then (parseCronExpression expression) (\<lambda>e. getNextCronOccurrence e afterTimestamp timeZone)"

section \<open>The search moves forward\<close>

definition cron_matches :: "parsed_cron_expression \<Rightarrow> zoned_parts \<Rightarrow> bool" where
  "cron_matches e parts \<longleftrightarrow>
     ld_month parts \<in> set (cf_values (ce_months e)) \<and> matchesDay parts e \<and>
     ld_hour parts \<in> set (cf_values (ce_hours e)) \<and> ld_minute parts \<in> set (cf_values (ce_minutes e)) \<and>
     ld_second parts \<in> set (cf_values (ce_seconds e))"

lemma filterMatches_sound:
  "filterMatches tz l ts = Inr r \<Longrightarrow> t \<in> set r \<Longrightarrow>
     t \<in> set ts \<and> (\<exists>parts. getZonedParts tz t = Inr parts \<and> sameLocalDateTime l parts)"
  by (induction ts arbitrary: r) (auto simp: and_then_Inr_iff split: if_splits)

lemma localDateTimeToTimestamp_sound:
  assumes "localDateTimeToTimestamp tz l m = Inr (Some t)"
  shows "m \<le> t" and "\<exists>parts. getZonedParts tz t = Inr parts \<and> sameLocalDateTime l parts"
proof -
  obtain c ts where f: "filterMatches tz l (filter (\<lambda>t. t \<ge> m) (nearbyTimestamps c)) = Inr ts"
    and t: "(case sort ts of [] \<Rightarrow> None | t # _ \<Rightarrow> Some t) = Some t"
    using assms by (auto simp: localDateTimeToTimestamp_def and_then_Inr_iff split: option.splits)
  have "t \<in> set (sort ts)" using t by (cases "sort ts") auto
  then have "t \<in> set ts" by simp
  from filterMatches_sound [OF f this]
  show "m \<le> t" "\<exists>parts. getZonedParts tz t = Inr parts \<and> sameLocalDateTime l parts" by auto
qed

lemma orElse_Inr:
  "orElse r f = Inr t \<longleftrightarrow> r = Inr (Some t) \<or> r = Inr None \<and> f () = Inr t"
  by (auto simp: orElse_def and_then_Inr_iff split: option.splits)

lemma advance_day_forward: "advanceToNextDay c p tz = Inr c' \<Longrightarrow> c < c'"
  by (auto simp: advanceToNextDay_def orElse_Inr and_then_Inr_iff nextSearchTimestamp_def
      dest: localDateTimeToTimestamp_sound(1))

lemma advance_forward:
  "advanceToNextMonth c p e tz = Inr c' \<Longrightarrow> c < c'"
  "advanceToNextHour c p e tz = Inr c' \<Longrightarrow> c < c'"
  "advanceToNextMinute c p e tz = Inr c' \<Longrightarrow> c < c'"
  "advanceToNextSecond c p e tz = Inr c' \<Longrightarrow> c < c'"
  by (auto simp: advanceToNextMonth_def advanceToNextHour_def advanceToNextMinute_def advanceToNextSecond_def
      Let_def split_beta orElse_Inr and_then_Inr_iff nextSearchTimestamp_def
      dest!: localDateTimeToTimestamp_sound(1) advance_day_forward)

lemma cronSearch_sound:
  "cronSearch n e tz c = Inr r \<Longrightarrow> c \<le> r \<and> (\<exists>parts. getZonedParts tz r = Inr parts \<and> cron_matches e parts)"
proof (induction n arbitrary: c)
  case 0
  then show ?case by (simp add: cronSearch.simps)
next
  case (Suc n)
  from Suc.prems obtain parts where parts: "getZonedParts tz c = Inr parts"
    by (subst (asm) cronSearch.simps) (auto simp: and_then_Inr_iff)
  consider c' where "c < c'" "cronSearch n e tz c' = Inr r" | "c = r" "cron_matches e parts"
    using Suc.prems parts
    by (subst (asm) cronSearch.simps)
      (auto simp: and_then_Inr_iff cron_matches_def dest: advance_forward advance_day_forward split: if_splits)
  then show ?case
  proof cases
    case 1
    then show ?thesis using Suc.IH [of c'] by auto
  next
    case 2
    then show ?thesis using parts by auto
  qed
qed

text \<open>More rounds do not change what is found.\<close>

lemma cronSearch_more: "cronSearch n e tz c = Inr r \<Longrightarrow> n \<le> m \<Longrightarrow> cronSearch m e tz c = Inr r"
proof (induction n arbitrary: m c)
  case 0
  then show ?case by (simp add: cronSearch.simps)
next
  case (Suc n)
  then obtain k where m: "m = Suc k" "n \<le> k" by (cases m) auto
  have more: "cronSearch n e tz c' = Inr r \<Longrightarrow> cronSearch k e tz c' = Inr r" for c' using Suc.IH m(2) by blast
  show ?case
    using Suc.prems(1) unfolding m(1)
    by (subst (asm) cronSearch.simps, subst cronSearch.simps) (auto simp: and_then_Inr_iff dest: more split: if_splits)
qed

lemma next_cron_after:
  assumes "getNextCronOccurrence e a tz = Inr r"
  shows "a < of_int r"
proof -
  have "\<lfloor>a / 1000\<rfloor> * 1000 + 1000 \<le> r"
    using assms unfolding getNextCronOccurrence_def normalize_int
    by (auto simp: and_then_Inr_iff dest: cronSearch_sound split: if_splits)
  then have "of_int (\<lfloor>a / 1000\<rfloor> * 1000 + 1000) \<le> (of_int r :: rat)" by (simp only: of_int_le_iff)
  moreover have "a / 1000 < of_int \<lfloor>a / 1000\<rfloor> + 1" by linarith
  ultimately show ?thesis by simp
qed

text \<open>The collection of due occurrences; the bound is checked as for intervals.\<close>

function collectCronFrom ::
    "parsed_cron_expression \<Rightarrow> time_zone \<Rightarrow> rat \<Rightarrow> nat option \<Rightarrow> rat list \<Rightarrow> rat \<Rightarrow> schedule_error + rat list" where
  "collectCronFrom e timeZone throughTimestamp maximum dueOccurrences nextOccurrence =
     (if nextOccurrence \<le> throughTimestamp \<and> below_maximum (length dueOccurrences) maximum then
        (case getNextCronOccurrence e nextOccurrence timeZone of
           Inl err \<Rightarrow> Inl err
         | Inr n \<Rightarrow>
             collectCronFrom e timeZone throughTimestamp maximum (dueOccurrences @ [nextOccurrence]) (of_int n))
      else Inr dueOccurrences)"
  by auto
termination
proof (relation "measure (\<lambda>(_, _, through, _, _, next). nat (\<lfloor>through\<rfloor> + 2 - \<lceil>next\<rceil>) + (if next \<in> \<int> then 0 else 1))")
  fix e timeZone maximum and throughTimestamp nextOccurrence :: rat and dueOccurrences :: "rat list" and n
  assume c: "nextOccurrence \<le> throughTimestamp \<and> below_maximum (length dueOccurrences) maximum"
    and n: "getNextCronOccurrence e nextOccurrence timeZone = Inr n"
  have less: "nextOccurrence < of_int n" by (rule next_cron_after [OF n])
  have "of_int \<lceil>nextOccurrence\<rceil> < nextOccurrence + 1" "throughTimestamp < of_int \<lfloor>throughTimestamp\<rfloor> + 1"
    by linarith+
  then have "of_int \<lceil>nextOccurrence\<rceil> < (of_int (\<lfloor>throughTimestamp\<rfloor> + 2) :: rat)" using c by simp
  then have room: "\<lceil>nextOccurrence\<rceil> < \<lfloor>throughTimestamp\<rfloor> + 2" by (simp only: of_int_less_iff)
  have "\<lceil>nextOccurrence\<rceil> \<le> n" using less by (simp add: ceiling_le_iff)
  moreover have "\<lceil>nextOccurrence\<rceil> < n" if "nextOccurrence \<in> \<int>" using that less by (auto elim: Ints_cases)
  ultimately show "((e, timeZone, throughTimestamp, maximum, dueOccurrences @ [nextOccurrence], of_int n),
      e, timeZone, throughTimestamp, maximum, dueOccurrences, nextOccurrence)
      \<in> measure (\<lambda>(_, _, through, _, _, next). nat (\<lfloor>through\<rfloor> + 2 - \<lceil>next\<rceil>) + (if next \<in> \<int> then 0 else 1))"
    using room by auto
qed simp

declare collectCronFrom.simps [simp del]

definition collectDueCronOccurrences ::
    "parsed_cron_expression \<Rightarrow> rat \<Rightarrow> rat \<Rightarrow> time_zone \<Rightarrow> jsnum option \<Rightarrow> schedule_error + rat list" where
  "collectDueCronOccurrences e firstDueAt throughTimestamp timeZone maxOccurrences =
     and_then (maximumOccurrences maxOccurrences) (\<lambda>maximum.
       collectCronFrom e timeZone throughTimestamp maximum [] firstDueAt)"

section \<open>The parser yields usable fields\<close>

definition field_ok :: "int \<Rightarrow> int \<Rightarrow> cron_field \<Rightarrow> bool" where
  "field_ok minimum maximum f \<longleftrightarrow> cf_values f \<noteq> [] \<and> sorted (cf_values f) \<and> distinct (cf_values f) \<and>
     (\<forall>v \<in> set (cf_values f). minimum \<le> v \<and> v \<le> maximum)"

definition expression_ok :: "parsed_cron_expression \<Rightarrow> bool" where
  "expression_ok e \<longleftrightarrow> field_ok 0 59 (ce_seconds e) \<and> field_ok 0 59 (ce_minutes e) \<and> field_ok 0 23 (ce_hours e) \<and>
     field_ok 1 31 (ce_daysOfMonth e) \<and> field_ok 1 12 (ce_months e) \<and> field_ok 0 6 (ce_daysOfWeek e)"

lemma addSteppedValues_result:
  assumes "0 < step"
  shows "set (addSteppedValues vs a b step) = set vs \<union> {v. a \<le> v \<and> v \<le> b \<and> step dvd (v - a)}
    \<and> (distinct vs \<longrightarrow> distinct (addSteppedValues vs a b step))"
  using assms
proof (induction vs a b step rule: addSteppedValues.induct)
  case (1 vs a b step)
  show ?case
  proof (cases "a \<le> b")
    case True
    have less: "a + step \<le> v" if "a \<le> v" "step dvd v - a" "v \<noteq> a" for v
      using that "1.prems" zdvd_imp_le [of step "v - a"] by simp
    have dvd: "step dvd v - (a + step) \<longleftrightarrow> step dvd v - a" for v
    proof -
      have "v - (a + step) = (v - a) - step" by simp
      then show ?thesis by (metis dvd_diff_left_iff dvd_refl)
    qed
    have "{v. a \<le> v \<and> v \<le> b \<and> step dvd v - a} = insert a {v. a + step \<le> v \<and> v \<le> b \<and> step dvd v - (a + step)}"
      using less "1.prems" True unfolding dvd by auto
    then show ?thesis
      using "1.IH" "1.prems" True by (subst (1 2) addSteppedValues.simps) (auto simp: set_add_def)
  next
    case False
    then show ?thesis by (subst (1 2) addSteppedValues.simps) auto
  qed
qed

lemma addSteppedValues_ok:
  assumes "0 < step" and "a \<le> b" and "lo \<le> a" and "b \<le> hi"
    and "distinct vs" and "\<forall>v \<in> set vs. lo \<le> v \<and> v \<le> hi"
  shows "addSteppedValues vs a b step \<noteq> []" "distinct (addSteppedValues vs a b step)"
    "\<forall>v \<in> set (addSteppedValues vs a b step). lo \<le> v \<and> v \<le> hi"
proof -
  note R = addSteppedValues_result [OF assms(1), of vs a b]
  have "a \<in> set (addSteppedValues vs a b step)" using R assms(2) by simp
  then show "addSteppedValues vs a b step \<noteq> []" by auto
  show "distinct (addSteppedValues vs a b step)" using R assms(5) by simp
  show "\<forall>v \<in> set (addSteppedValues vs a b step). lo \<le> v \<and> v \<le> hi" using R assms(2-4,6) by auto
qed

definition names_ok :: "int \<Rightarrow> int \<Rightarrow> (jsstring \<times> int) list \<Rightarrow> bool" where
  "names_ok minimum maximum names \<longleftrightarrow> (\<forall>(_, v) \<in> set names. minimum \<le> v \<and> v \<le> maximum)"

lemma parseNamedValue_range:
  "parseNamedValue t names lo hi = Inr v \<Longrightarrow> names_ok lo hi names \<Longrightarrow> lo \<le> v \<and> v \<le> hi"
  by (auto simp: parseNamedValue_def names_ok_def Let_def split: option.splits if_splits dest!: map_of_SomeD)

lemma parseCronStep_pos: "parseCronStep p = Inr step \<Longrightarrow> 0 < step"
  by (auto simp: parseCronStep_def split: option.splits if_splits)

lemma addCronSegmentValues_ok:
  assumes "addCronSegmentValues vs seg lo hi names = Inr r" and "names_ok lo hi names" and "lo \<le> hi"
    and "distinct vs" and "\<forall>v \<in> set vs. lo \<le> v \<and> v \<le> hi"
  shows "r \<noteq> [] \<and> distinct r \<and> (\<forall>v \<in> set r. lo \<le> v \<and> v \<le> hi)"
proof -
  obtain step a b where r: "r = addSteppedValues vs a b step" "0 < step" "a \<le> b" "lo \<le> a" "b \<le> hi"
  proof (cases "isWildcard (hd (splitParts 47 seg))")
    case True
    then show thesis
      using assms(1,3) that [of lo hi]
      by (auto simp: addCronSegmentValues_def Let_def and_then_Inr_iff dest: parseCronStep_pos)
  next
    case False
    then obtain step a b where "parseCronStep (nth_part (splitParts 47 seg) 1) = Inr step"
      "parseNamedValue (hd (splitParts 45 (hd (splitParts 47 seg)))) names lo hi = Inr a"
      and b: "(case nth_part (splitParts 45 (hd (splitParts 47 seg))) 1 of None \<Rightarrow> Inr a
         | Some t \<Rightarrow> parseNamedValue t names lo hi) = Inr b"
      and ab: "a \<le> b" "r = addSteppedValues vs a b step"
      using assms(1) by (auto simp: addCronSegmentValues_def Let_def and_then_Inr_iff split: if_splits)
    moreover have "lo \<le> b \<and> b \<le> hi"
      using b calculation(2) assms(2) by (auto split: option.splits dest: parseNamedValue_range)
    ultimately show thesis
      using that [of a b step] assms(2) by (auto dest: parseCronStep_pos parseNamedValue_range)
  qed
  from addSteppedValues_ok [OF r(2-5) assms(4,5)] show ?thesis unfolding r(1) by blast
qed

lemma addSegments_ok:
  assumes "addSegments vs segs lo hi names = Inr r" and "names_ok lo hi names" and "lo \<le> hi"
    and "distinct vs" and "\<forall>v \<in> set vs. lo \<le> v \<and> v \<le> hi" and "segs \<noteq> [] \<or> vs \<noteq> []"
  shows "r \<noteq> [] \<and> distinct r \<and> (\<forall>v \<in> set r. lo \<le> v \<and> v \<le> hi)"
  using assms
proof (induction segs arbitrary: vs)
  case (Cons seg segs)
  obtain vs' where v: "addCronSegmentValues vs (trim seg) lo hi names = Inr vs'" "addSegments vs' segs lo hi names = Inr r"
    using Cons.prems(1) by (auto simp: Let_def and_then_Inr_iff split: if_splits)
  from addCronSegmentValues_ok [OF v(1) Cons.prems(2-5)] show ?case
    using Cons.IH [OF v(2) Cons.prems(2,3)] by blast
qed simp

lemma splitParts_nonempty: "splitParts c s \<noteq> []"
  by (cases s) (auto split: list.splits)

lemma parseCronField_ok:
  assumes "parseCronField f lo hi names = Inr fld" and "names_ok lo hi names" and "lo \<le> hi"
  shows "field_ok lo hi fld"
proof (cases "isWildcard (trim f)")
  case True
  then have "fld = buildWildcardCronField lo hi" using assms(1) by (simp add: parseCronField_def Let_def)
  then show ?thesis
    using assms(3) by (auto simp: field_ok_def buildWildcardCronField_def distinct_map inj_on_def sorted_iff_nth_mono)
next
  case False
  then obtain r where r: "addSegments [] (splitParts 44 (trim f)) lo hi names = Inr r"
    "fld = \<lparr>cf_values = sort r, cf_wildcard = False\<rparr>"
    using assms(1) by (auto simp: parseCronField_def Let_def and_then_Inr_iff)
  have "r \<noteq> [] \<and> distinct r \<and> (\<forall>v \<in> set r. lo \<le> v \<and> v \<le> hi)"
    using addSegments_ok [OF r(1) assms(2,3)] splitParts_nonempty by simp
  moreover from this have "sort r \<noteq> []" by (metis length_0_conv length_sort)
  ultimately show ?thesis by (simp add: r(2) field_ok_def)
qed

lemma names_ok_tables: "names_ok 1 12 MONTH_NAMES" "names_ok 0 6 DAY_NAMES" "names_ok lo hi []"
  by (simp_all add: names_ok_def MONTH_NAMES_def DAY_NAMES_def)

lemma parseCronExpression_ok:
  assumes "parseCronExpression s = Inr e"
  shows "expression_ok e"
proof -
  define gs where "gs = (if length (spaceFields [] s) = 6 then spaceFields [] s else js ''0'' # spaceFields [] s)"
  obtain a b c d m w where f: "parseCronField (gs ! 0) 0 59 [] = Inr a" "parseCronField (gs ! 1) 0 59 [] = Inr b"
    "parseCronField (gs ! 2) 0 23 [] = Inr c" "parseCronField (gs ! 3) 1 31 [] = Inr d"
    "parseCronField (gs ! 4) 1 12 MONTH_NAMES = Inr m" "parseCronField (gs ! 5) 0 6 DAY_NAMES = Inr w"
    and e: "ce_seconds e = a" "ce_minutes e = b" "ce_hours e = c" "ce_daysOfMonth e = d" "ce_months e = m" "ce_daysOfWeek e = w"
  proof -
    have "and_then (parseCronField (gs ! 0) 0 59 []) (\<lambda>a. and_then (parseCronField (gs ! 1) 0 59 []) (\<lambda>b.
        and_then (parseCronField (gs ! 2) 0 23 []) (\<lambda>c. and_then (parseCronField (gs ! 3) 1 31 []) (\<lambda>d.
        and_then (parseCronField (gs ! 4) 1 12 MONTH_NAMES) (\<lambda>m. and_then (parseCronField (gs ! 5) 0 6 DAY_NAMES) (\<lambda>w.
        Inr \<lparr>ce_expression = s, ce_hasSeconds = (length (spaceFields [] s) = 6), ce_seconds = a, ce_minutes = b, ce_hours = c,
          ce_daysOfMonth = d, ce_months = m, ce_daysOfWeek = w\<rparr>)))))) = Inr e"
      using assms unfolding parseCronExpression_def Let_def gs_def [symmetric]
      by (simp only: sum.distinct split: if_split_asm)
    then show thesis unfolding and_then_Inr_iff using that by auto
  qed
  show ?thesis
    unfolding expression_ok_def e
    by (intro conjI; rule parseCronField_ok [OF f(1)] parseCronField_ok [OF f(2)] parseCronField_ok [OF f(3)]
        parseCronField_ok [OF f(4)] parseCronField_ok [OF f(5)] parseCronField_ok [OF f(6)]; simp add: names_ok_tables)
qed

section \<open>Properties\<close>

text \<open>
  C22: what the parser accepts is a usable expression: in each of the six fields the values are not empty,
  strictly increasing and within the bounds of the field, whatever names, ranges, steps and lists the text
  is made of.
\<close>

theorem cron_fields_valid:
  assumes "parseCronExpression s = Inr e"
  shows "expression_ok e"
  using assms by (rule parseCronExpression_ok)

text \<open>Half past nine on Mondays, the expression \<open>30 9 * * MON\<close>.\<close>

definition mondays :: parsed_cron_expression where
  "mondays = \<lparr>ce_expression = js ''30 9 * * MON'', ce_hasSeconds = False,
     ce_seconds = \<lparr>cf_values = [0], cf_wildcard = False\<rparr>, ce_minutes = \<lparr>cf_values = [30], cf_wildcard = False\<rparr>,
     ce_hours = \<lparr>cf_values = [9], cf_wildcard = False\<rparr>, ce_daysOfMonth = buildWildcardCronField 1 31,
     ce_months = buildWildcardCronField 1 12, ce_daysOfWeek = \<lparr>cf_values = [1], cf_wildcard = False\<rparr>\<rparr>"

lemma mondays_parsed: "parseCronExpression (js ''30 9 * * MON'') = Inr mondays"
  by code_simp

theorem cron_fields_valid_witness:
  "parseCronExpression (js ''30 9 * * MON'') = Inr mondays \<and> expression_ok mondays"
  using mondays_parsed cron_fields_valid [OF mondays_parsed] by simp

text \<open>
  C21: in any time zone, and whatever offset changes it has, an occurrence the search returns lies after the
  given instant, and its local date and time match every field of the expression.
\<close>

theorem cron_occurrence_matches:
  assumes "getNextCronOccurrence e after timeZone = Inr r"
  shows "after < of_int r \<and> (\<exists>parts. getZonedParts timeZone r = Inr parts \<and> cron_matches e parts)"
proof -
  obtain c where "cronSearch 100000 e timeZone c = Inr r"
    using assms by (auto simp: getNextCronOccurrence_def and_then_Inr_iff)
  then show ?thesis using cronSearch_sound next_cron_after [OF assms] by blast
qed

definition oneHourAhead :: time_zone where
  "oneHourAhead = \<lparr>tz_offset = (\<lambda>_. 3600000), tz_name = (\<lambda>_. js ''GMT+1'')\<rparr>"

theorem cron_occurrence_matches_witness:
  "getNextCronOccurrence mondays 0 oneHourAhead = Inr 376200000 \<and> (0 :: rat) < of_int 376200000 \<and>
   (\<exists>parts. getZonedParts oneHourAhead 376200000 = Inr parts \<and> cron_matches mondays parts)"
proof -
  have "cronSearch 8 mondays oneHourAhead 1000 = Inr 376200000" by code_simp
  then have "cronSearch 100000 mondays oneHourAhead 1000 = Inr 376200000" by (rule cronSearch_more) simp
  then have "getNextCronOccurrence mondays 0 oneHourAhead = Inr 376200000"
    using normalize_int [of 1000] by (simp add: getNextCronOccurrence_def MAX_SAFE_INTEGER_def)
  then show ?thesis using cron_occurrence_matches by blast
qed

end
