(* ===== verification/Cron_Utc.thy ===== *)
theory Cron_Utc
  imports Cron
begin

text \<open>
  The cron search in the default zone UTC finds the earliest match: no step of the search jumps over an
  instant that matches the expression.
\<close>

section \<open>Local date times of UTC\<close>

abbreviation utcLocal :: "int \<Rightarrow> local_date_time" where
  "utcLocal t \<equiv> local_date_time.truncate (utcParts t)"

lemma utcLocal_simps [simp]:
  "ld_year (utcLocal t) = utcFullYear t" "ld_month (utcLocal t) = utcMonth t" "ld_day (utcLocal t) = utcDate t"
  "ld_hour (utcLocal t) = utcHours t" "ld_minute (utcLocal t) = utcMinutes t" "ld_second (utcLocal t) = utcSeconds t"
  by (simp_all add: utcParts_def local_date_time.truncate_def)

lemma utcParts_simps [simp]:
  "ld_year (utcParts t) = utcFullYear t" "ld_month (utcParts t) = utcMonth t" "ld_day (utcParts t) = utcDate t"
  "ld_hour (utcParts t) = utcHours t" "ld_minute (utcParts t) = utcMinutes t" "ld_second (utcParts t) = utcSeconds t"
  "zp_dayOfWeek (utcParts t) = utcDay t"
  by (simp_all add: utcParts_def)

lemma utcLocal_eqI:
  assumes "ld_year l = utcFullYear t" "ld_month l = utcMonth t" "ld_day l = utcDate t"
    "ld_hour l = utcHours t" "ld_minute l = utcMinutes t" "ld_second l = utcSeconds t"
  shows "l = utcLocal t"
  using assms by (intro local_date_time.equality) simp_all

lemma same_utc_inj:
  assumes "sameLocalDateTime (utcLocal a) (utcParts b)" and "a mod 1000 = b mod 1000"
  shows "a = b"
proof -
  have idx: "monthIndex (utcDayNumber a) = monthIndex (utcDayNumber b)"
  proof -
    have "monthIndex (utcDayNumber a) div 12 = monthIndex (utcDayNumber b) div 12"
      "monthIndex (utcDayNumber a) mod 12 = monthIndex (utcDayNumber b) mod 12"
      using assms(1) by (simp_all add: sameLocalDateTime_def utcFullYear_def utcMonth_def)
    then show ?thesis by (metis mult_div_mod_eq)
  qed
  have "utcDayNumber a = utcDayNumber b"
    using assms(1) idx by (simp add: sameLocalDateTime_def utcDate_def dateFromDay_def)
  then show ?thesis
    using assms time_split [of a] time_split [of b] by (simp add: sameLocalDateTime_def)
qed

lemma year_from_1970: "0 \<le> t \<Longrightarrow> 1970 \<le> utcFullYear t"
proof -
  assume "0 \<le> t"
  then have "0 \<le> utcDayNumber t" by (simp add: utcDayNumber_def msPerDay_def)
  moreover have "yearFromDay 0 = 1970" by (rule yearFromDay_eqI) (simp_all add: dayFromYear_def)
  ultimately show ?thesis using yearFromDay_mono [of 0 "utcDayNumber t"] by (simp add: utcFullYear_def monthIndex_year)
qed

lemma dateUTC_utcLocal:
  assumes "0 \<le> t" and "t mod 1000 = 0"
  shows "dateUTC (utcFullYear t) (utcMonth t) (utcDate t) (utcHours t) (utcMinutes t) (utcSeconds t) = timeClip t"
proof -
  have "dayFromDate (utcFullYear t) (utcMonth t) (utcDate t) = utcDayNumber t"
    unfolding utcFullYear_def utcMonth_def utcDate_def by (rule dayFromDate_inverse)
  then show ?thesis
    using year_from_1970 [OF assms(1)] time_split [of t] assms(2) by (simp add: dateUTC_def)
qed

lemma getZonedParts_UTC: "getZonedParts UTC t = Inr p \<longleftrightarrow> \<bar>t\<bar> \<le> maxTime \<and> p = utcParts t"
  by (auto simp: getZonedParts_def UTC_def timeClip_def)

lemma offset_UTC: "getOffsetMilliseconds UTC t = Inr o' \<Longrightarrow> o' = 0"
  by (auto simp: getOffsetMilliseconds_def UTC_def offsetOfName_def js_def split: option.splits)

lemma refine_UTC: "refineCandidate (Suc n) UTC t t = Inr c \<Longrightarrow> c = t"
  by (auto simp: and_then_Inr_iff dest!: offset_UTC)

lemma nearby_mod: "t \<in> set (nearbyTimestamps c) \<Longrightarrow> t mod 1000 = c mod 1000"
  by (auto simp: nearbyTimestamps_def mod_add_right_eq [symmetric] mod_mult_right_eq [symmetric])

lemma nearby_self: "c \<in> set (nearbyTimestamps c)"
  by (auto simp: nearbyTimestamps_def image_iff intro!: bexI [of _ 8])

lemma filterMatches_complete:
  "filterMatches tz l ts = Inr r \<Longrightarrow> t \<in> set ts \<Longrightarrow> getZonedParts tz t = Inr p \<Longrightarrow> sameLocalDateTime l p \<Longrightarrow> t \<in> set r"
  by (induction ts arbitrary: r) (auto simp: and_then_Inr_iff split: if_splits)

lemma filterMatches_defined: "filterMatches tz l ts = Inr r \<Longrightarrow> t \<in> set ts \<Longrightarrow> \<exists>p. getZonedParts tz t = Inr p"
  by (induction ts arbitrary: r) (auto simp: and_then_Inr_iff)

text \<open>In UTC a local date time has exactly the instant it is read from.\<close>

lemma localDateTimeToTimestamp_UTC:
  assumes "localDateTimeToTimestamp UTC (utcLocal t) m = Inr r" and "0 \<le> t" and "t mod 1000 = 0"
  shows "r = (if m \<le> t then Some t else None)"
proof -
  obtain c ts where clip: "timeClip t = Some t"
    and c: "refineCandidate 6 UTC t t = Inr c"
    and f: "filterMatches UTC (utcLocal t) (filter (\<lambda>x. x \<ge> m) (nearbyTimestamps c)) = Inr ts"
    and r: "r = (case sort ts of [] \<Rightarrow> None | t # _ \<Rightarrow> Some t)"
    using assms(1) dateUTC_utcLocal [OF assms(2,3)]
    by (auto simp: localDateTimeToTimestamp_def and_then_Inr_iff timeClip_def split: option.splits if_splits)
  have "c = t" using c refine_UTC [of 5 t c] by (simp add: numeral_eq_Suc)
  have only: "x = t" if "x \<in> set ts" for x
  proof -
    from filterMatches_sound [OF f that] have "x \<in> set (nearbyTimestamps t)" "sameLocalDateTime (utcLocal t) (utcParts x)"
      by (auto simp: \<open>c = t\<close> getZonedParts_UTC)
    then show ?thesis using same_utc_inj [of t x] nearby_mod [of x t] by simp
  qed
  have "t \<in> set ts" if "m \<le> t"
  proof (rule filterMatches_complete [OF f])
    show "t \<in> set (filter (\<lambda>x. x \<ge> m) (nearbyTimestamps c))" using that nearby_self by (simp add: \<open>c = t\<close>)
    show "getZonedParts UTC t = Inr (utcParts t)" using clip by (simp add: getZonedParts_UTC timeClip_def split: if_splits)
  qed (simp add: sameLocalDateTime_def)
  moreover have "m \<le> t" if "t \<in> set ts" using filterMatches_sound [OF f that] by simp
  ultimately have iff: "t \<in> set ts \<longleftrightarrow> m \<le> t" by blast
  show ?thesis
  proof (cases "sort ts")
    case Nil
    then have "set ts = {}" by (metis set_sort empty_set)
    then show ?thesis using iff r Nil by simp
  next
    case (Cons x xs)
    then have "x \<in> set ts" by (metis set_sort list.set_intros(1))
    then show ?thesis using only [of x] iff r Cons by simp
  qed
qed

section \<open>Slots\<close>

text \<open>The parts of an instant from the day, hour and minute it lies in.\<close>

lemma slots:
  "utcDayNumber t = t div 3600000 div 24" "t div 3600000 = t div 60000 div 60" "t div 60000 = t div 1000 div 60"
  by (simp_all add: utcDayNumber_def msPerDay_def zdiv_zmult2_eq [symmetric])

definition day_start :: "int \<Rightarrow> int" where "day_start t = utcDayNumber t * msPerDay"
definition hour_start :: "int \<Rightarrow> int" where "hour_start t = t div 3600000 * 3600000"
definition minute_start :: "int \<Rightarrow> int" where "minute_start t = t div 60000 * 60000"

lemma unit_split: "(x :: int) * c = x div n * (n * c) + x mod n * c"
  by (metis div_mult_mod_eq distrib_right mult.assoc)

lemma starts_split:
  "hour_start t = day_start t + utcHours t * 3600000"
  "minute_start t = hour_start t + utcMinutes t * 60000"
  "t = minute_start t + utcSeconds t * 1000 + t mod 1000"
proof -
  show "hour_start t = day_start t + utcHours t * 3600000"
    using unit_split [of "t div 3600000" 3600000 24]
    by (simp add: hour_start_def day_start_def utcHours_def slots(1) msPerDay_def)
  show "minute_start t = hour_start t + utcMinutes t * 60000"
    using unit_split [of "t div 60000" 60000 60]
    by (simp add: hour_start_def minute_start_def utcMinutes_def slots(2))
  have "t = t div 1000 * 1000 + t mod 1000" by simp
  also have "t div 1000 * 1000 = minute_start t + utcSeconds t * 1000"
    using unit_split [of "t div 1000" 1000 60] by (simp add: minute_start_def utcSeconds_def slots(3))
  finally show "t = minute_start t + utcSeconds t * 1000 + t mod 1000" .
qed

text \<open>Adding a whole number of units below the next larger one changes one part only.\<close>

lemma at_day:
  assumes "0 \<le> k" and "k < msPerDay"
  shows "utcDayNumber (d * msPerDay + k) = d"
  using assms by (simp add: utcDayNumber_def msPerDay_def div_add1_eq div_pos_pos_trivial)

lemma mod_unit: "0 \<le> m \<Longrightarrow> m < n \<Longrightarrow> (q * n + m) mod n = (m :: int)"
  by simp

lemma clock_parts:
  fixes d h m s :: int
  assumes "0 \<le> h" "h < 24" "0 \<le> m" "m < 60" "0 \<le> s" "s < 60"
  defines "t \<equiv> d * msPerDay + h * 3600000 + m * 60000 + s * 1000"
  shows "utcDayNumber t = d" "utcHours t = h" "utcMinutes t = m" "utcSeconds t = s" "t mod 1000 = 0"
proof -
  have sec: "t div 1000 = (d * 1440 + h * 60 + m) * 60 + s" unfolding t_def msPerDay_def by simp
  have min: "t div 60000 = (d * 24 + h) * 60 + m"
    unfolding slots(3) sec using assms by simp
  have hour: "t div 3600000 = d * 24 + h"
    unfolding slots(2) min using assms by simp
  show "utcDayNumber t = d" unfolding slots(1) hour using assms by simp
  show "utcHours t = h" unfolding utcHours_def hour using assms by simp
  show "utcMinutes t = m" unfolding utcMinutes_def min by (rule mod_unit [OF assms(3,4)])
  show "utcSeconds t = s" unfolding utcSeconds_def sec by (rule mod_unit [OF assms(5,6)])
  show "t mod 1000 = 0" unfolding t_def msPerDay_def by simp
qed

lemma utcLocal_clock:
  assumes "0 \<le> h" "h < 24" "0 \<le> m" "m < 60" "0 \<le> s" "s < 60"
  shows "utcLocal (d * msPerDay + h * 3600000 + m * 60000 + s * 1000)
    = \<lparr>ld_year = monthIndex d div 12, ld_month = monthIndex d mod 12 + 1, ld_day = dateFromDay d,
       ld_hour = h, ld_minute = m, ld_second = s\<rparr>"
  using clock_parts [OF assms, of d]
  by (intro utcLocal_eqI [symmetric]) (simp_all add: utcFullYear_def utcMonth_def utcDate_def)

section \<open>No step skips a match\<close>

definition no_match :: "parsed_cron_expression \<Rightarrow> int \<Rightarrow> int \<Rightarrow> bool" where
  "no_match e a b \<longleftrightarrow> (\<forall>x. a \<le> x \<and> x < b \<longrightarrow> \<not> cron_matches e (utcParts x))"

lemma selectNextValue_cases:
  assumes "field_ok lo hi f" and "c \<notin> set (cf_values f)"
  obtains (later) v where "selectNextValue (cf_values f) c = (v, False)" "c < v" "lo \<le> v" "v \<le> hi"
      "\<And>x. c \<le> x \<Longrightarrow> x < v \<Longrightarrow> x \<notin> set (cf_values f)" "v \<in> set (cf_values f)"
  | (wraps) v where "selectNextValue (cf_values f) c = (v, True)" "v < c" "lo \<le> v" "v \<le> hi"
      "\<And>x. c \<le> x \<Longrightarrow> x \<notin> set (cf_values f)" "\<And>x. x < v \<Longrightarrow> x \<notin> set (cf_values f)"
proof (cases "find (\<lambda>v. v > c) (cf_values f)")
  case (Some v)
  obtain i where i: "i < length (cf_values f)" "c < cf_values f ! i" "v = cf_values f ! i"
    "\<And>j. j < i \<Longrightarrow> \<not> c < cf_values f ! j"
    using Some by (auto simp: find_Some_iff)
  have sorted: "sorted (cf_values f)" using assms(1) by (simp add: field_ok_def)
  show ?thesis
  proof (rule later)
    show "selectNextValue (cf_values f) c = (v, False)" using Some by (simp add: selectNextValue_def)
    show "c < v" "lo \<le> v" "v \<le> hi" using i(1-3) assms(1) by (auto simp: field_ok_def)
    show "v \<in> set (cf_values f)" using i(1,3) by simp
    fix x assume x: "c \<le> x" "x < v"
    show "x \<notin> set (cf_values f)"
    proof
      assume "x \<in> set (cf_values f)"
      then obtain j where j: "j < length (cf_values f)" "x = cf_values f ! j" by (auto simp: in_set_conv_nth)
      have "j < i" using x(2) j i(1,3) sorted by (metis not_less sorted_nth_mono)
      then have "x \<le> c" using i(4) [OF \<open>j < i\<close>] j(2) by simp
      then show False using x(1) \<open>x \<in> set (cf_values f)\<close> assms(2) by simp
    qed
  qed
next
  case None
  have ne: "cf_values f \<noteq> []" and sorted: "sorted (cf_values f)" using assms(1) by (simp_all add: field_ok_def)
  have le: "x < c" if "x \<in> set (cf_values f)" for x
    using None that assms(2) by (force simp: find_None_iff not_less order_le_less)
  show ?thesis
  proof (rule wraps)
    show "selectNextValue (cf_values f) c = (hd (cf_values f), True)" using None by (simp add: selectNextValue_def)
    show "hd (cf_values f) < c" "lo \<le> hd (cf_values f)" "hd (cf_values f) \<le> hi"
      using ne le assms(1) by (auto simp: field_ok_def)
    show "x \<notin> set (cf_values f)" if "c \<le> x" for x using le that by force
    show "x \<notin> set (cf_values f)" if "x < hd (cf_values f)" for x
      using that sorted ne by (cases "cf_values f") auto
  qed
qed

lemma mod1000_add: "a mod 1000 = 0 \<Longrightarrow> k mod 1000 = 0 \<Longrightarrow> (a + k) mod 1000 = (0 :: int)"
  by (subst mod_add_eq [symmetric]) simp

lemma seconds_apart: "a mod 1000 = 0 \<Longrightarrow> b mod 1000 = 0 \<Longrightarrow> a < b \<Longrightarrow> a + 1000 \<le> (b :: int)"
  by (auto simp: mod_eq_0_iff_dvd elim!: dvdE)

lemma day_start_parts:
  "utcDayNumber (day_start t) = utcDayNumber t" "day_start t \<le> t" "t < day_start t + msPerDay"
  using at_day [of 0 "utcDayNumber t"]
  by (simp_all add: day_start_def utcDayNumber_def msPerDay_def) 

lemma startOfLocalDay_utc: "startOfLocalDay (utcParts t) = utcLocal (day_start t)"
proof -
  have "utcLocal (day_start t) = \<lparr>ld_year = monthIndex (utcDayNumber t) div 12,
      ld_month = monthIndex (utcDayNumber t) mod 12 + 1, ld_day = dateFromDay (utcDayNumber t),
      ld_hour = 0, ld_minute = 0, ld_second = 0\<rparr>"
    using utcLocal_clock [of 0 0 0 "utcDayNumber t"] by (simp add: day_start_def)
  then show ?thesis
    unfolding startOfLocalDay_def utcParts_simps utcFullYear_def utcMonth_def utcDate_def by simp
qed

lemma shift_utc:
  assumes "shiftLocalDateTime (utcLocal t) d h m = Inr l" and "0 \<le> t" and "t mod 1000 = 0"
  shows "l = utcLocal (t + d * msPerDay + h * 3600000 + m * 60000)"
  using assms(1) dateUTC_utcLocal [OF assms(2,3)]
  by (auto simp: shiftLocalDateTime_def timeClip_def split: option.splits if_splits)

lemma advance_day_utc:
  assumes "advanceToNextDay c (utcParts c) UTC = Inr c'" and "0 \<le> c" and "c mod 1000 = 0"
  shows "c' = day_start c + msPerDay"
proof -
  have start: "0 \<le> day_start c" "day_start c mod 1000 = 0"
    using assms(2) by (simp_all add: day_start_def utcDayNumber_def msPerDay_def)
  have nxt: "0 \<le> day_start c + msPerDay" "(day_start c + msPerDay) mod 1000 = 0"
    using start mod1000_add [of "day_start c" msPerDay] by (simp_all add: msPerDay_def)
  have late: "c + 1000 \<le> day_start c + msPerDay"
    by (rule seconds_apart [OF assms(3) nxt(2) day_start_parts(3)])
  have "r = Some (day_start c + msPerDay)"
    if l: "shiftLocalDateTime (startOfLocalDay (utcParts c)) 1 0 0 = Inr l"
      and r: "localDateTimeToTimestamp UTC l (nextSearchTimestamp c) = Inr r" for l r
  proof -
    have "l = utcLocal (day_start c + msPerDay)"
      using shift_utc [OF l [unfolded startOfLocalDay_utc] start] by simp
    with r have "localDateTimeToTimestamp UTC (utcLocal (day_start c + msPerDay)) (nextSearchTimestamp c) = Inr r" by simp
    from localDateTimeToTimestamp_UTC [OF this nxt] show ?thesis using late by (simp add: nextSearchTimestamp_def)
  qed
  then show ?thesis
    using assms(1) by (fastforce simp: advanceToNextDay_def orElse_Inr and_then_Inr_iff)
qed

text \<open>The clock fields on a day: a local time of the day of an instant, and the fields of later instants.\<close>

lemma clock_local:
  assumes "0 \<le> h" "h < 24" "0 \<le> m" "m < 60" "0 \<le> s" "s < 60"
  shows "(startOfLocalDay (utcParts c))\<lparr>ld_hour := h, ld_minute := m, ld_second := s\<rparr>
    = utcLocal (day_start c + h * 3600000 + m * 60000 + s * 1000)"
  unfolding day_start_def utcLocal_clock [OF assms]
  by (simp add: startOfLocalDay_def utcFullYear_def utcMonth_def utcDate_def)

lemma clock_local_simps:
  "(startOfLocalDay p)\<lparr>ld_hour := h, ld_minute := 0, ld_second := 0\<rparr> = (startOfLocalDay p)\<lparr>ld_hour := h\<rparr>"
  "(startOfLocalDay p)\<lparr>ld_hour := h, ld_minute := m, ld_second := 0\<rparr> = (startOfLocalDay p)\<lparr>ld_hour := h, ld_minute := m\<rparr>"
  by (simp_all add: startOfLocalDay_def)

lemma local_in_day:
  assumes "localDateTimeToTimestamp UTC ((startOfLocalDay (utcParts c))\<lparr>ld_hour := h, ld_minute := m, ld_second := s\<rparr>)
      (nextSearchTimestamp c) = Inr r"
    and "0 \<le> c" "c mod 1000 = 0" "0 \<le> h" "h < 24" "0 \<le> m" "m < 60" "0 \<le> s" "s < 60"
  defines "t \<equiv> day_start c + h * 3600000 + m * 60000 + s * 1000"
  shows "r = (if c < t then Some t else None)" and "t mod 1000 = 0"
proof -
  have "0 \<le> day_start c" using assms(2) by (simp add: day_start_def utcDayNumber_def msPerDay_def)
  then have nonneg: "0 \<le> t" using assms by simp
  show mod: "t mod 1000 = 0"
    unfolding t_def day_start_def using clock_parts(5) [OF assms(4-9), of "utcDayNumber c"] by simp
  from assms(1) have "localDateTimeToTimestamp UTC (utcLocal t) (nextSearchTimestamp c) = Inr r"
    unfolding clock_local [OF assms(4-9)] t_def .
  from localDateTimeToTimestamp_UTC [OF this nonneg mod]
  have "r = (if c + 1000 \<le> t then Some t else None)" by (simp add: nextSearchTimestamp_def)
  moreover have "c + 1000 \<le> t \<longleftrightarrow> c < t" using seconds_apart [OF assms(3) mod] by auto
  ultimately show "r = (if c < t then Some t else None)" by simp
qed

lemmas local_in_day_hour = local_in_day [where m = 0 and s = 0, unfolded clock_local_simps, simplified]
lemmas local_in_day_minute = local_in_day [where s = 0, unfolded clock_local_simps, simplified]

lemma same_day: "day_start c \<le> x \<Longrightarrow> x < day_start c + msPerDay \<Longrightarrow> utcDayNumber x = utcDayNumber c"
  using at_day [of "x - day_start c" "utcDayNumber c"] by (simp add: day_start_def)

lemma slot_eqI: "q * n \<le> x \<Longrightarrow> x < q * n + n \<Longrightarrow> x div n = (q :: int)"
  by (rule int_div_pos_eq [of x n q "x - q * n"]) (simp_all add: algebra_simps)

lemma same_hour: "hour_start c \<le> x \<Longrightarrow> x < hour_start c + 3600000 \<Longrightarrow> x div 3600000 = c div 3600000"
  unfolding hour_start_def by (rule slot_eqI)

lemma same_minute: "minute_start c \<le> x \<Longrightarrow> x < minute_start c + 60000 \<Longrightarrow> x div 60000 = c div 60000"
  unfolding minute_start_def by (rule slot_eqI)

lemma hour_slot:
  assumes "x div 3600000 = c div 3600000"
  shows "utcHours x = utcHours c" "utcDayNumber x = utcDayNumber c" "hour_start x = hour_start c"
  using assms by (simp_all add: utcHours_def slots(1) hour_start_def)

lemma minute_slot:
  assumes "x div 60000 = c div 60000"
  shows "utcMinutes x = utcMinutes c" "x div 3600000 = c div 3600000" "minute_start x = minute_start c"
  using assms by (simp_all add: utcMinutes_def slots(2) minute_start_def)

lemma start_le: "day_start c \<le> hour_start c" "hour_start c \<le> minute_start c" "minute_start c \<le> c"
  "c < minute_start c + 60000" "c < hour_start c + 3600000" "hour_start c + 3600000 \<le> day_start c + msPerDay"
  "minute_start c + 60000 \<le> hour_start c + 3600000"
proof -
  note T = time_ranges [of c]
  show h: "day_start c \<le> hour_start c" "hour_start c \<le> minute_start c"
    using T starts_split(1,2) [of c] by linarith+
  show m: "minute_start c \<le> c" "c < minute_start c + 60000"
    using T(5,6) starts_split(3) [of c] pos_mod_bound [of 1000 c] pos_mod_sign [of 1000 c] by linarith+
  show mh: "minute_start c + 60000 \<le> hour_start c + 3600000" using T starts_split(2) [of c] by linarith
  show "c < hour_start c + 3600000" using m mh by linarith
  show "hour_start c + 3600000 \<le> day_start c + msPerDay"
    unfolding msPerDay_def using T(2) starts_split(1) [of c] by linarith
qed

text \<open>The value of a clock field lies between the value at the start and a bound not reached.\<close>

lemma field_between:
  "utcDayNumber x = utcDayNumber c \<Longrightarrow> c \<le> x \<Longrightarrow> utcHours c \<le> utcHours x"
  "utcDayNumber x = utcDayNumber c \<Longrightarrow> x < day_start c + v * 3600000 \<Longrightarrow> utcHours x < v"
  "x div 3600000 = c div 3600000 \<Longrightarrow> c \<le> x \<Longrightarrow> utcMinutes c \<le> utcMinutes x"
  "x div 3600000 = c div 3600000 \<Longrightarrow> x < hour_start c + v * 60000 \<Longrightarrow> utcMinutes x < v"
  "x div 60000 = c div 60000 \<Longrightarrow> c \<le> x \<Longrightarrow> utcSeconds c \<le> utcSeconds x"
  "x div 60000 = c div 60000 \<Longrightarrow> x < minute_start c + v * 1000 \<Longrightarrow> utcSeconds x < v"
proof -
  have less: "a < b" if "a * n < b * n" "0 < n" for a b n :: int using that by simp
  have day: "day_start x = day_start c" if "utcDayNumber x = utcDayNumber c" using that by (simp add: day_start_def)
  { assume d: "utcDayNumber x = utcDayNumber c" and "c \<le> x"
    then have "hour_start c \<le> hour_start x" by (simp add: hour_start_def zdiv_mono1)
    then show "utcHours c \<le> utcHours x" using starts_split(1) [of x] starts_split(1) [of c] day [OF d] by linarith }
  { assume d: "utcDayNumber x = utcDayNumber c" and "x < day_start c + v * 3600000"
    then have "utcHours x * 3600000 < v * 3600000"
      using starts_split(1) [of x] start_le(2,3) [of x] day [OF d] by linarith
    then show "utcHours x < v" by (rule less) simp }
  { assume d: "x div 3600000 = c div 3600000" and "c \<le> x"
    then have "minute_start c \<le> minute_start x" by (simp add: minute_start_def zdiv_mono1)
    then show "utcMinutes c \<le> utcMinutes x"
      using starts_split(2) [of x] starts_split(2) [of c] hour_slot(3) [OF d] by linarith }
  { assume d: "x div 3600000 = c div 3600000" and "x < hour_start c + v * 60000"
    then have "utcMinutes x * 60000 < v * 60000"
      using starts_split(2) [of x] start_le(3) [of x] hour_slot(3) [OF d] by linarith
    then show "utcMinutes x < v" by (rule less) simp }
  { assume d: "x div 60000 = c div 60000" and "c \<le> x"
    then have "c div 1000 \<le> x div 1000" by (simp add: zdiv_mono1)
    then show "utcSeconds c \<le> utcSeconds x"
      using d [unfolded slots(3)] div_mult_mod_eq [of "c div 1000" 60] div_mult_mod_eq [of "x div 1000" 60]
      unfolding utcSeconds_def by linarith }
  { assume d: "x div 60000 = c div 60000" and "x < minute_start c + v * 1000"
    then have "utcSeconds x * 1000 < v * 1000"
      using starts_split(3) [of x] minute_slot(3) [OF d] pos_mod_sign [of 1000 x] by linarith
    then show "utcSeconds x < v" by (rule less) simp }
qed

lemma no_match_day:
  assumes "\<not> matchesDay (utcParts c) e"
  shows "no_match e c (day_start c + msPerDay)"
  unfolding no_match_def
proof (intro allI impI)
  fix x
  assume "c \<le> x \<and> x < day_start c + msPerDay"
  then have "utcDayNumber x = utcDayNumber c" using day_start_parts(2) [of c] by (intro same_day) auto
  then have "matchesDay (utcParts x) e = matchesDay (utcParts c) e"
    by (simp add: matchesDay_def utcDate_def utcDay_def)
  then show "\<not> cron_matches e (utcParts x)" using assms by (simp add: cron_matches_def)
qed

lemma day_end_mod: "(day_start c + msPerDay) mod 1000 = 0"
  by (rule mod1000_add) (simp_all add: day_start_def msPerDay_def)

text \<open>
  No instant matches as long as its hour, minute or second stays within the values a field leaves out; the
  bound may be the end of the larger unit.
\<close>

lemma no_match_hours:
  assumes "\<And>x. utcHours c \<le> x \<Longrightarrow> x < v \<Longrightarrow> x \<notin> set (cf_values (ce_hours e))" and "v \<le> 24"
  shows "no_match e c (day_start c + v * 3600000)"
  unfolding no_match_def
proof (intro allI impI)
  fix x
  assume x: "c \<le> x \<and> x < day_start c + v * 3600000"
  have "v * 3600000 \<le> msPerDay" using assms(2) by (simp add: msPerDay_def)
  then have d: "utcDayNumber x = utcDayNumber c"
    using x day_start_parts(2) [of c] by (intro same_day) linarith+
  have "utcHours c \<le> utcHours x" "utcHours x < v" using field_between(1,2) [OF d] x by auto
  then show "\<not> cron_matches e (utcParts x)" using assms(1) by (simp add: cron_matches_def)
qed

lemma no_match_minutes:
  assumes "\<And>x. utcMinutes c \<le> x \<Longrightarrow> x < v \<Longrightarrow> x \<notin> set (cf_values (ce_minutes e))" and "v \<le> 60"
  shows "no_match e c (hour_start c + v * 60000)"
  unfolding no_match_def
proof (intro allI impI)
  fix x
  assume x: "c \<le> x \<and> x < hour_start c + v * 60000"
  have d: "x div 3600000 = c div 3600000"
    using x assms(2) start_le(2,3) [of c] by (intro same_hour) linarith+
  have "utcMinutes c \<le> utcMinutes x" "utcMinutes x < v" using field_between(3,4) [OF d] x by auto
  then show "\<not> cron_matches e (utcParts x)" using assms(1) by (simp add: cron_matches_def)
qed

lemma no_match_seconds:
  assumes "\<And>x. utcSeconds c \<le> x \<Longrightarrow> x < v \<Longrightarrow> x \<notin> set (cf_values (ce_seconds e))" and "v \<le> 60"
  shows "no_match e c (minute_start c + v * 1000)"
  unfolding no_match_def
proof (intro allI impI)
  fix x
  assume x: "c \<le> x \<and> x < minute_start c + v * 1000"
  have d: "x div 60000 = c div 60000"
    using x assms(2) start_le(3) [of c] by (intro same_minute) linarith+
  have "utcSeconds c \<le> utcSeconds x" "utcSeconds x < v" using field_between(5,6) [OF d] x by auto
  then show "\<not> cron_matches e (utcParts x)" using assms(1) by (simp add: cron_matches_def)
qed

text \<open>The instants at the start of an hour, a minute or a second of the slot of an instant.\<close>

lemma hour_instant:
  assumes "0 \<le> v" "v < 24"
  shows "utcDayNumber (day_start c + v * 3600000) = utcDayNumber c" "utcHours (day_start c + v * 3600000) = v"
    "hour_start (day_start c + v * 3600000) = day_start c + v * 3600000"
  using clock_parts(1,2) [of v 0 0 "utcDayNumber c"] assms starts_split(1) [of "day_start c + v * 3600000"]
  by (simp_all add: day_start_def)

lemma minute_instant:
  assumes "0 \<le> v" "v < 60"
  shows "(hour_start c + v * 60000) div 3600000 = c div 3600000" "utcMinutes (hour_start c + v * 60000) = v"
    "minute_start (hour_start c + v * 60000) = hour_start c + v * 60000"
proof -
  show d: "(hour_start c + v * 60000) div 3600000 = c div 3600000"
    by (rule same_hour) (use assms in simp_all)
  have "(hour_start c + v * 60000) div 60000 = c div 3600000 * 60 + v" by (simp add: hour_start_def)
  then show m: "utcMinutes (hour_start c + v * 60000) = v" using assms by (simp add: utcMinutes_def)
  show "minute_start (hour_start c + v * 60000) = hour_start c + v * 60000"
    by (simp add: minute_start_def hour_start_def)
qed

lemma second_instant:
  assumes "0 \<le> v" "v < 60"
  shows "(minute_start c + v * 1000) div 60000 = c div 60000" "utcSeconds (minute_start c + v * 1000) = v"
proof -
  show "(minute_start c + v * 1000) div 60000 = c div 60000" by (rule same_minute) (use assms in simp_all)
  have "(minute_start c + v * 1000) div 1000 = c div 60000 * 60 + v" by (simp add: minute_start_def)
  then show "utcSeconds (minute_start c + v * 1000) = v" using assms by (simp add: utcSeconds_def)
qed

lemma advance_hour_utc:
  assumes "advanceToNextHour c (utcParts c) e UTC = Inr c'" and c: "0 \<le> c" "c mod 1000 = 0"
    and f: "field_ok 0 23 (ce_hours e)" and out: "utcHours c \<notin> set (cf_values (ce_hours e))"
  shows "no_match e c c' \<and> c' mod 1000 = 0 \<and> (c' = day_start c + msPerDay \<or>
    utcDayNumber c' = utcDayNumber c \<and> utcHours c' \<in> set (cf_values (ce_hours e)) \<and> hour_start c' = c')"
proof -
  define v where "v = fst (selectNextValue (cf_values (ce_hours e)) (utcHours c))"
  define t where "t = day_start c + v * 3600000"
  obtain r where r: "localDateTimeToTimestamp UTC
      ((startOfLocalDay (utcParts c))\<lparr>ld_hour := v\<rparr>) (nextSearchTimestamp c) = Inr r"
    "r = Some c' \<or> r = None \<and> advanceToNextDay c (utcParts c) UTC = Inr c'"
    using assms(1) unfolding advanceToNextHour_def Let_def orElse_Inr by (auto simp: v_def)
  show ?thesis
  proof (cases rule: selectNextValue_cases [OF f out])
    case (1 w)
    then have v: "v = w" "0 \<le> v" "v < 24" "utcHours c < v" by (simp_all add: v_def)
    have "c < t" using start_le(5) [of c] starts_split(1) [of c] v(4) unfolding t_def by linarith
    with local_in_day_hour [OF r(1) c v(2,3)] r(2) have c': "c' = t" "t mod 1000 = 0" by (simp_all add: t_def)
    have "no_match e c t" unfolding t_def by (rule no_match_hours) (use 1(5) v in auto)
    then show ?thesis using c' hour_instant [OF v(2,3), of c] 1(6) v(1) by (simp add: t_def)
  next
    case (2 w)
    then have v: "v = w" "0 \<le> v" "v < 24" "v < utcHours c" by (simp_all add: v_def)
    have "\<not> c < t" using start_le(2,3) [of c] starts_split(1) [of c] v(4) unfolding t_def by linarith
    with local_in_day_hour(1) [OF r(1) c v(2,3)] have "r = None" by (simp add: t_def)
    with r(2) have c': "c' = day_start c + msPerDay" using advance_day_utc [OF _ c] by simp
    have "no_match e c (day_start c + 24 * 3600000)" by (rule no_match_hours) (use 2(5) in auto)
    then show ?thesis using c' day_end_mod by (simp add: msPerDay_def)
  qed
qed

lemma start_mods: "0 \<le> c \<Longrightarrow> 0 \<le> hour_start c" "0 \<le> c \<Longrightarrow> 0 \<le> minute_start c"
  "hour_start c mod 1000 = 0" "minute_start c mod 1000 = 0"
  by (simp_all add: hour_start_def minute_start_def pos_imp_zdiv_nonneg_iff)

lemma hour_local: "(startOfLocalDay (utcParts c))\<lparr>ld_hour := utcHours c\<rparr> = utcLocal (hour_start c)"
  using clock_local [of "utcHours c" 0 0 c] time_ranges [of c] starts_split(1) [of c]
  unfolding clock_local_simps by simp

lemma minute_local:
  "(startOfLocalDay (utcParts c))\<lparr>ld_hour := utcHours c, ld_minute := utcMinutes c\<rparr> = utcLocal (minute_start c)"
  using clock_local [of "utcHours c" "utcMinutes c" 0 c] time_ranges [of c] starts_split(1,2) [of c]
  unfolding clock_local_simps by simp

text \<open>The fallback of the minute and second steps: the start of the next hour or minute.\<close>

lemma next_boundary:
  assumes "shiftLocalDateTime (utcLocal t) 0 h m = Inr l" and "localDateTimeToTimestamp UTC l (nextSearchTimestamp c) = Inr r"
    and "0 \<le> t" "t mod 1000 = 0" "c mod 1000 = 0" "0 \<le> h * 3600000 + m * 60000" "c < t + h * 3600000 + m * 60000"
  shows "r = Some (t + h * 3600000 + m * 60000)" and "(t + h * 3600000 + m * 60000) mod 1000 = 0"
proof -
  define u where "u = t + h * 3600000 + m * 60000"
  have l: "l = utcLocal u" using shift_utc [OF assms(1,3,4)] by (simp add: u_def)
  have "(h * 3600000 + m * 60000) mod 1000 = 0" by (rule mod1000_add) simp_all
  then have u: "0 \<le> u" "u mod 1000 = 0"
    using assms(3,4,6) mod1000_add [of t "h * 3600000 + m * 60000"] by (simp_all add: u_def add.assoc)
  have "c + 1000 \<le> u" by (rule seconds_apart) (use assms(5,7) u in \<open>simp_all add: u_def\<close>)
  then show "r = Some (t + h * 3600000 + m * 60000)" "(t + h * 3600000 + m * 60000) mod 1000 = 0"
    using localDateTimeToTimestamp_UTC [OF assms(2) [unfolded l] u] u(2)
    by (simp_all add: nextSearchTimestamp_def flip: u_def)
qed

lemma advance_minute_utc:
  assumes "advanceToNextMinute c (utcParts c) e UTC = Inr c'" and c: "0 \<le> c" "c mod 1000 = 0"
    and f: "field_ok 0 59 (ce_minutes e)" and out: "utcMinutes c \<notin> set (cf_values (ce_minutes e))"
  shows "no_match e c c' \<and> c' mod 1000 = 0 \<and> (c' = hour_start c + 3600000 \<or>
    c' div 3600000 = c div 3600000 \<and> utcMinutes c' \<in> set (cf_values (ce_minutes e)) \<and> minute_start c' = c')"
proof -
  define v where "v = fst (selectNextValue (cf_values (ce_minutes e)) (utcMinutes c))"
  define t where "t = hour_start c + v * 60000"
  obtain r where r: "localDateTimeToTimestamp UTC
      ((startOfLocalDay (utcParts c))\<lparr>ld_hour := utcHours c, ld_minute := v\<rparr>) (nextSearchTimestamp c) = Inr r"
    "r = Some c' \<or> r = None \<and> (\<exists>l q. shiftLocalDateTime (utcLocal (hour_start c)) 0 1 0 = Inr l \<and>
       localDateTimeToTimestamp UTC l (nextSearchTimestamp c) = Inr q \<and> (q = Some c' \<or> q = None))"
    using assms(1) unfolding advanceToNextMinute_def Let_def orElse_Inr utcParts_simps hour_local and_then_Inr_iff
    by (auto simp: v_def hour_local [symmetric])
  note H = time_ranges(1,2) [of c]
  show ?thesis
  proof (cases rule: selectNextValue_cases [OF f out])
    case (1 w)
    then have v: "v = w" "0 \<le> v" "v < 60" "utcMinutes c < v" by (simp_all add: v_def)
    have "c < t" using start_le(4) [of c] starts_split(2) [of c] v(4) unfolding t_def by linarith
    with local_in_day_minute [OF r(1) c H v(2,3)] r(2) have c': "c' = t" "t mod 1000 = 0"
      by (simp_all add: t_def starts_split(1))
    have "no_match e c t" unfolding t_def by (rule no_match_minutes) (use 1(5) v in auto)
    then show ?thesis using c' minute_instant [OF v(2,3), of c] 1(6) v(1) by (simp add: t_def)
  next
    case (2 w)
    then have v: "v = w" "0 \<le> v" "v < 60" "v < utcMinutes c" by (simp_all add: v_def)
    have "\<not> c < t" using start_le(3) [of c] starts_split(2) [of c] v(4) unfolding t_def by linarith
    with local_in_day_minute(1) [OF r(1) c H v(2,3)] have "r = None" by (simp add: t_def starts_split(1))
    with r(2) obtain l q where lq: "shiftLocalDateTime (utcLocal (hour_start c)) 0 1 0 = Inr l"
      "localDateTimeToTimestamp UTC l (nextSearchTimestamp c) = Inr q" "q = Some c' \<or> q = None" by auto
    have c': "c' = hour_start c + 3600000" "c' mod 1000 = 0"
      using next_boundary [OF lq(1,2) start_mods(1) [OF c(1)] start_mods(3) c(2)] lq(3) start_le(5) [of c] by simp_all
    have "no_match e c (hour_start c + 60 * 60000)" by (rule no_match_minutes) (use 2(5) in auto)
    then show ?thesis using c' by simp
  qed
qed

lemma advance_second_utc:
  assumes "advanceToNextSecond c (utcParts c) e UTC = Inr c'" and c: "0 \<le> c" "c mod 1000 = 0"
    and f: "field_ok 0 59 (ce_seconds e)" and out: "utcSeconds c \<notin> set (cf_values (ce_seconds e))"
  shows "no_match e c c' \<and> c' mod 1000 = 0 \<and> (c' = minute_start c + 60000 \<or>
    c' div 60000 = c div 60000 \<and> utcSeconds c' \<in> set (cf_values (ce_seconds e)))"
proof -
  define v where "v = fst (selectNextValue (cf_values (ce_seconds e)) (utcSeconds c))"
  define t where "t = minute_start c + v * 1000"
  obtain r where r: "localDateTimeToTimestamp UTC
      ((startOfLocalDay (utcParts c))\<lparr>ld_hour := utcHours c, ld_minute := utcMinutes c, ld_second := v\<rparr>)
      (nextSearchTimestamp c) = Inr r"
    "r = Some c' \<or> r = None \<and> (\<exists>l q. shiftLocalDateTime (utcLocal (minute_start c)) 0 0 1 = Inr l \<and>
       localDateTimeToTimestamp UTC l (nextSearchTimestamp c) = Inr q \<and> (q = Some c' \<or> q = None))"
    using assms(1) unfolding advanceToNextSecond_def Let_def orElse_Inr utcParts_simps minute_local and_then_Inr_iff
    by (auto simp: v_def minute_local [symmetric])
  note H = time_ranges(1-4) [of c]
  have t: "t = day_start c + utcHours c * 3600000 + utcMinutes c * 60000 + v * 1000"
    by (simp add: t_def starts_split(1,2))
  have last: "c = minute_start c + utcSeconds c * 1000" using starts_split(3) [of c] c(2) by simp
  show ?thesis
  proof (cases rule: selectNextValue_cases [OF f out])
    case (1 w)
    then have v: "v = w" "0 \<le> v" "v < 60" "utcSeconds c < v" by (simp_all add: v_def)
    have "c < t" using last v(4) unfolding t_def by linarith
    with local_in_day [OF r(1) c H v(2,3), folded t] r(2) have c': "c' = t" "t mod 1000 = 0" by simp_all
    have "no_match e c t" unfolding t_def by (rule no_match_seconds) (use 1(5) v in auto)
    then show ?thesis using c' second_instant [OF v(2,3), of c] 1(6) v(1) by (simp add: t_def)
  next
    case (2 w)
    then have v: "v = w" "0 \<le> v" "v < 60" "v < utcSeconds c" by (simp_all add: v_def)
    have "\<not> c < t" using last v(4) unfolding t_def by linarith
    with local_in_day(1) [OF r(1) c H v(2,3)] have "r = None" by (simp add: t)
    with r(2) obtain l q where lq: "shiftLocalDateTime (utcLocal (minute_start c)) 0 0 1 = Inr l"
      "localDateTimeToTimestamp UTC l (nextSearchTimestamp c) = Inr q" "q = Some c' \<or> q = None" by auto
    have c': "c' = minute_start c + 60000" "c' mod 1000 = 0"
      using next_boundary [OF lq(1,2) start_mods(2) [OF c(1)] start_mods(4) c(2)] lq(3) start_le(4) [of c] by simp_all
    have "no_match e c (minute_start c + 60 * 1000)" by (rule no_match_seconds) (use 2(5) in auto)
    then show ?thesis using c' by simp
  qed
qed

lemma month_local:
  assumes "1 \<le> v" and "v \<le> 12"
  shows "\<lparr>ld_year = y, ld_month = v, ld_day = 1, ld_hour = 0, ld_minute = 0, ld_second = 0\<rparr>
    = utcLocal (firstDay (12 * y + (v - 1)) * msPerDay)"
proof -
  have "(12 * y + (v - 1)) div 12 = y" "(12 * y + (v - 1)) mod 12 = v - 1" using assms by simp_all
  then show ?thesis using utcLocal_clock [of 0 0 0 "firstDay (12 * y + (v - 1))"] by simp
qed

lemma month_of_index:
  assumes "12 * y + m - 1 \<le> monthIndex (utcDayNumber x)" and "monthIndex (utcDayNumber x) < 12 * y + 12" and "1 \<le> m"
  shows "m \<le> utcMonth x" and "utcMonth x = monthIndex (utcDayNumber x) - 12 * y + 1"
proof -
  have "monthIndex (utcDayNumber x) div 12 = y" by (rule slot_eqI) (use assms in linarith)+
  then show "utcMonth x = monthIndex (utcDayNumber x) - 12 * y + 1"
    using minus_mult_div_eq_mod [of "monthIndex (utcDayNumber x)" 12] by (simp add: utcMonth_def)
  then show "m \<le> utcMonth x" using assms(1) by linarith
qed

lemma index_of_month: "monthIndex (utcDayNumber c) = 12 * utcFullYear c + utcMonth c - 1"
  by (simp add: utcFullYear_def utcMonth_def)

lemma utcMonth_range: "1 \<le> utcMonth c" "utcMonth c \<le> 12"
proof -
  have "0 \<le> monthIndex (utcDayNumber c) mod 12" "monthIndex (utcDayNumber c) mod 12 < 12" by simp_all
  then show "1 \<le> utcMonth c" "utcMonth c \<le> 12" unfolding utcMonth_def by linarith+
qed

lemma month_start_after:
  assumes "monthIndex (utcDayNumber c) < i"
  shows "c < firstDay i * msPerDay"
proof -
  have "utcDayNumber c < firstDay i" using assms monthIndex_ge_iff [of i "utcDayNumber c"] by simp
  then have "(utcDayNumber c + 1) * msPerDay \<le> firstDay i * msPerDay"
    by (intro mult_right_mono) (simp_all add: msPerDay_def)
  then show ?thesis using day_start_parts(3) [of c] by (simp add: day_start_def algebra_simps)
qed

lemma before_month_start:
  assumes "x < firstDay i * msPerDay"
  shows "monthIndex (utcDayNumber x) < i"
proof -
  have "utcDayNumber x * msPerDay < firstDay i * msPerDay"
    using assms day_start_parts(2) [of x] by (simp add: day_start_def)
  then have "utcDayNumber x < firstDay i" by (simp add: msPerDay_def)
  then show ?thesis using monthIndex_ge_iff [of i "utcDayNumber x"] by simp
qed

text \<open>The start of the month the month step looks for.\<close>

definition month_target :: "parsed_cron_expression \<Rightarrow> int \<Rightarrow> int" where
  "month_target e c =
     (let (v, wrapped) = selectNextValue (cf_values (ce_months e)) (utcMonth c)
      in firstDay (12 * (utcFullYear c + (if wrapped then 1 else 0)) + (v - 1)) * msPerDay)"

lemma month_target:
  assumes f: "field_ok 1 12 (ce_months e)" and out: "utcMonth c \<notin> set (cf_values (ce_months e))"
  shows "c < month_target e c"
    and "no_match e c (month_target e c)"
    and "advanceToNextMonth c (utcParts c) e UTC =
      orElse (localDateTimeToTimestamp UTC (utcLocal (month_target e c)) (nextSearchTimestamp c))
        (\<lambda>_. Inr (c + 86400000))"
proof -
  obtain v wrapped where vw: "selectNextValue (cf_values (ce_months e)) (utcMonth c) = (v, wrapped)" by force
  define y i where "y = utcFullYear c + (if wrapped then 1 else 0)" and "i = 12 * y + (v - 1)"
  have t: "month_target e c = firstDay i * msPerDay" by (simp add: month_target_def vw i_def y_def)
  have "1 \<le> v \<and> v \<le> 12 \<and> (\<not> wrapped \<longrightarrow> utcMonth c < v)"
    by (cases rule: selectNextValue_cases [OF f out]) (use vw in auto)
  then have v: "1 \<le> v" "v \<le> 12" and later: "\<not> wrapped \<Longrightarrow> utcMonth c < v" by simp_all
  have idx: "monthIndex (utcDayNumber c) < i"
    using later v(1) utcMonth_range [of c] unfolding index_of_month i_def y_def by (cases wrapped) auto
  show "c < month_target e c" unfolding t by (rule month_start_after [OF idx])
  show "advanceToNextMonth c (utcParts c) e UTC =
      orElse (localDateTimeToTimestamp UTC (utcLocal (month_target e c)) (nextSearchTimestamp c))
        (\<lambda>_. Inr (c + 86400000))"
    unfolding advanceToNextMonth_def utcParts_simps vw t i_def month_local [OF v, symmetric] by (simp add: y_def)
  show "no_match e c (month_target e c)"
    unfolding no_match_def
  proof (intro allI impI)
    fix x
    assume x: "c \<le> x \<and> x < month_target e c"
    have hi: "monthIndex (utcDayNumber x) < i" using x before_month_start [of x i] by (simp add: t)
    have "utcDayNumber c \<le> utcDayNumber x" using x by (simp add: utcDayNumber_def msPerDay_def zdiv_mono1)
    then have lo: "12 * utcFullYear c + utcMonth c - 1 \<le> monthIndex (utcDayNumber x)"
      using monthIndex_mono index_of_month by metis
    have "utcMonth x \<notin> set (cf_values (ce_months e))"
    proof (cases rule: selectNextValue_cases [OF f out])
      case (1 w)
      then have w: "v = w" "\<not> wrapped" using vw by simp_all
      have "monthIndex (utcDayNumber x) < 12 * utcFullYear c + 12" using hi v w by (simp add: i_def y_def)
      note M = month_of_index [OF lo this utcMonth_range(1)]
      have "utcMonth x < w" using M(2) hi w by (simp add: i_def y_def)
      then show ?thesis using 1(5) M(1) by simp
    next
      case (2 w)
      then have w: "v = w" wrapped using vw by simp_all
      show ?thesis
      proof (cases "monthIndex (utcDayNumber x) < 12 * utcFullYear c + 12")
        case True
        then show ?thesis using 2(5) month_of_index(1) [OF lo True utcMonth_range(1)] by simp
      next
        case False
        have "utcMonth x = monthIndex (utcDayNumber x) - 12 * (utcFullYear c + 1) + 1"
          by (rule month_of_index(2) [of _ 1]) (use False hi v w in \<open>auto simp: i_def y_def\<close>)
        then have "utcMonth x < w" using hi w by (simp add: i_def y_def)
        then show ?thesis using 2(6) by simp
      qed
    qed
    then show "\<not> cron_matches e (utcParts x)" by (simp add: cron_matches_def)
  qed
qed

lemma month_target_day: "month_target e c mod 1000 = 0" "day_start (month_target e c) = month_target e c"
proof -
  obtain d where d: "month_target e c = d * msPerDay" unfolding month_target_def Let_def split_beta by blast
  show "month_target e c mod 1000 = 0" by (simp add: d msPerDay_def)
  show "day_start (month_target e c) = month_target e c" using at_day [of 0 d] by (simp add: d day_start_def msPerDay_def)
qed

lemma advance_month_utc:
  assumes "advanceToNextMonth c (utcParts c) e UTC = Inr c'" and c: "0 \<le> c" "c mod 1000 = 0"
    and f: "field_ok 1 12 (ce_months e)" and out: "utcMonth c \<notin> set (cf_values (ce_months e))"
  shows "c' = month_target e c"
proof -
  note T = month_target [OF f out]
  obtain r where r: "localDateTimeToTimestamp UTC (utcLocal (month_target e c)) (nextSearchTimestamp c) = Inr r"
    "r = Some c' \<or> r = None"
    using assms(1) unfolding T(3) by (auto simp: orElse_Inr)
  have "c + 1000 \<le> month_target e c" by (rule seconds_apart [OF c(2) month_target_day(1) T(1)])
  then show ?thesis
    using localDateTimeToTimestamp_UTC [OF r(1) _ month_target_day(1)] r(2) c(1) by (simp add: nextSearchTimestamp_def)
qed

section \<open>The search finds the earliest match\<close>

lemma no_match_trans: "no_match e a b \<Longrightarrow> no_match e b c \<Longrightarrow> no_match e a c"
  unfolding no_match_def by (meson not_less)

text \<open>
  One round of the search: the candidate is returned, or replaced by a later one past instants that do not
  match. The shape of the new candidate says which fields it settles.
\<close>

definition search_step :: "parsed_cron_expression \<Rightarrow> int \<Rightarrow> schedule_error + int" where
  "search_step e c =
     (if utcMonth c \<notin> set (cf_values (ce_months e)) then advanceToNextMonth c (utcParts c) e UTC
      else if \<not> matchesDay (utcParts c) e then advanceToNextDay c (utcParts c) UTC
      else if utcHours c \<notin> set (cf_values (ce_hours e)) then advanceToNextHour c (utcParts c) e UTC
      else if utcMinutes c \<notin> set (cf_values (ce_minutes e)) then advanceToNextMinute c (utcParts c) e UTC
      else advanceToNextSecond c (utcParts c) e UTC)"

lemma cronSearch_UTC:
  assumes "\<bar>c\<bar> \<le> maxTime"
  shows "cronSearch (Suc n) e UTC c =
    (if cron_matches e (utcParts c) then Inr c else and_then (search_step e c) (cronSearch n e UTC))"
  using assms getZonedParts_UTC [of c "utcParts c"]
  by (subst cronSearch.simps) (auto simp: search_step_def cron_matches_def)

lemma step_no_match:
  assumes "search_step e c = Inr c'" and c: "0 \<le> c" "c mod 1000 = 0" and e: "expression_ok e"
    and out: "\<not> cron_matches e (utcParts c)"
  shows "no_match e c c' \<and> c' mod 1000 = 0 \<and> c < c'"
proof -
  note F = e [unfolded expression_ok_def]
  consider (month) "utcMonth c \<notin> set (cf_values (ce_months e))" "advanceToNextMonth c (utcParts c) e UTC = Inr c'"
    | (day) "\<not> matchesDay (utcParts c) e" "advanceToNextDay c (utcParts c) UTC = Inr c'"
    | (hour) "utcHours c \<notin> set (cf_values (ce_hours e))" "advanceToNextHour c (utcParts c) e UTC = Inr c'"
    | (minute) "utcMinutes c \<notin> set (cf_values (ce_minutes e))" "advanceToNextMinute c (utcParts c) e UTC = Inr c'"
    | (second) "utcSeconds c \<notin> set (cf_values (ce_seconds e))" "advanceToNextSecond c (utcParts c) e UTC = Inr c'"
    using assms(1) out by (auto simp: search_step_def cron_matches_def split: if_splits)
  then show ?thesis
  proof cases
    case month
    then show ?thesis
      using advance_month_utc [OF month(2) c _ month(1)] month_target [of e c] month_target_day [of e c] F by simp
  next
    case day
    then show ?thesis
      using advance_day_utc [OF day(2) c] no_match_day [OF day(1)] day_end_mod [of c] day_start_parts(3) [of c] by simp
  next
    case hour
    then show ?thesis using advance_hour_utc [OF hour(2) c _ hour(1)] advance_forward(2) [OF hour(2)] F by simp
  next
    case minute
    then show ?thesis using advance_minute_utc [OF minute(2) c _ minute(1)] advance_forward(3) [OF minute(2)] F by simp
  next
    case second
    then show ?thesis using advance_second_utc [OF second(2) c _ second(1)] advance_forward(4) [OF second(2)] F by simp
  qed
qed

lemma cronSearch_least:
  assumes "cronSearch n e UTC c = Inr r" and "0 \<le> c" "c mod 1000 = 0" and e: "expression_ok e"
  shows "no_match e c r \<and> r mod 1000 = 0"
  using assms(1-3)
proof (induction n arbitrary: c)
  case 0
  then show ?case by (simp add: cronSearch.simps)
next
  case (Suc n)
  have range: "\<bar>c\<bar> \<le> maxTime"
    using Suc.prems(1) by (subst (asm) cronSearch.simps) (auto simp: and_then_Inr_iff getZonedParts_UTC)
  show ?case
  proof (cases "cron_matches e (utcParts c)")
    case True
    then have "r = c" using Suc.prems(1) cronSearch_UTC [OF range] by simp
    then show ?thesis using Suc.prems(3) by (auto simp: no_match_def)
  next
    case False
    then obtain c' where c': "search_step e c = Inr c'" "cronSearch n e UTC c' = Inr r"
      using Suc.prems(1) cronSearch_UTC [OF range] by (auto simp: and_then_Inr_iff)
    note S = step_no_match [OF c'(1) Suc.prems(2,3) e False]
    then show ?thesis using Suc.IH [OF c'(2)] Suc.prems(2) no_match_trans by fastforce
  qed
qed

text \<open>Away from the end of the range of dates every step is defined.\<close>

lemma filterMatches_total:
  "(\<And>t. t \<in> set ts \<Longrightarrow> \<exists>p. getZonedParts tz t = Inr p) \<Longrightarrow> \<exists>r. filterMatches tz l ts = Inr r"
proof (induction ts)
  case (Cons t ts)
  then obtain p r where "getZonedParts tz t = Inr p" "filterMatches tz l ts = Inr r" by (meson list.set_intros)
  then show ?case by simp
qed simp

lemma nearby_range: "x \<in> set (nearbyTimestamps c) \<Longrightarrow> \<bar>x - c\<bar> \<le> 7200000"
  by (auto simp: nearbyTimestamps_def)

lemma local_defined:
  assumes "0 \<le> t" "t mod 1000 = 0" "t + 7200000 \<le> maxTime"
  shows "\<exists>r. localDateTimeToTimestamp UTC (utcLocal t) m = Inr r"
proof -
  have clip: "timeClip t = Some t" using assms by (simp add: timeClip_def)
  have "getOffsetMilliseconds UTC t = Inr 0"
    by (simp add: getOffsetMilliseconds_def clip UTC_def offsetOfName_def js_def)
  then have "refineCandidate 6 UTC t t = Inr t" by (simp add: numeral_eq_Suc)
  moreover have "\<exists>r. filterMatches UTC (utcLocal t) (filter (\<lambda>x. x \<ge> m) (nearbyTimestamps t)) = Inr r"
  proof (rule filterMatches_total)
    fix x
    assume "x \<in> set (filter (\<lambda>x. x \<ge> m) (nearbyTimestamps t))"
    then have "\<bar>x - t\<bar> \<le> 7200000" by (simp add: nearby_range)
    then have "\<bar>x\<bar> \<le> maxTime" using assms(1,3) unfolding maxTime_def by linarith
    then show "\<exists>p. getZonedParts UTC x = Inr p" by (simp add: getZonedParts_UTC)
  qed
  ultimately show ?thesis
    using dateUTC_utcLocal [OF assms(1,2)] clip by (auto simp: localDateTimeToTimestamp_def)
qed

lemma orElse_defined: "\<exists>r. found = Inr r \<Longrightarrow> \<exists>t. fallback () = Inr t \<Longrightarrow> \<exists>t. orElse found fallback = Inr t"
  by (auto simp: orElse_def split: option.splits)

lemma shift_defined:
  assumes "0 \<le> t" "t mod 1000 = 0" "0 \<le> k" "t + k + 7200000 \<le> maxTime" "k mod 1000 = 0"
    and "k = d * msPerDay + h * 3600000 + n * 60000"
  shows "\<exists>r. and_then (shiftLocalDateTime (utcLocal t) d h n) (\<lambda>l. localDateTimeToTimestamp UTC l m) = Inr r"
proof -
  have k: "t + d * msPerDay + h * 3600000 + n * 60000 = t + k" using assms(6) by simp
  have "dateUTC (utcFullYear t) (utcMonth t) (utcDate t) (utcHours t) (utcMinutes t) (utcSeconds t) = Some t"
    using dateUTC_utcLocal [OF assms(1,2)] assms(1,3,4) by (simp add: timeClip_def)
  then have "shiftLocalDateTime (utcLocal t) d h n = Inr (utcLocal (t + k))"
    unfolding shiftLocalDateTime_def utcLocal_simps using assms(1,3,4) by (simp add: k timeClip_def)
  moreover have "\<exists>r. localDateTimeToTimestamp UTC (utcLocal (t + k)) m = Inr r"
    by (rule local_defined) (use assms mod1000_add [of t k] in simp_all)
  ultimately show ?thesis by simp
qed

lemma day_start_sign: "0 \<le> c \<Longrightarrow> 0 \<le> day_start c" "day_start c mod 1000 = 0"
  by (simp_all add: day_start_def utcDayNumber_def msPerDay_def)

lemma local_in_day_defined:
  assumes "0 \<le> c" "c + 2 * msPerDay \<le> maxTime" "0 \<le> h" "h < 24" "0 \<le> m" "m < 60" "0 \<le> s" "s < 60"
  shows "\<exists>r. localDateTimeToTimestamp UTC ((startOfLocalDay (utcParts c))\<lparr>ld_hour := h, ld_minute := m, ld_second := s\<rparr>) k = Inr r"
  unfolding clock_local [OF assms(3-8)]
proof (rule local_defined)
  show "0 \<le> day_start c + h * 3600000 + m * 60000 + s * 1000" using assms(3,5,7) day_start_sign(1) [OF assms(1)] by simp
  show "(day_start c + h * 3600000 + m * 60000 + s * 1000) mod 1000 = 0"
    using clock_parts(5) [OF assms(3-8), of "utcDayNumber c"] by (simp add: day_start_def)
  show "day_start c + h * 3600000 + m * 60000 + s * 1000 + 7200000 \<le> maxTime"
    using assms(2,4,6,8) day_start_parts(2) [of c] unfolding msPerDay_def by linarith
qed

lemmas local_in_day_defined_hour = local_in_day_defined [where m = 0 and s = 0, unfolded clock_local_simps, simplified]
lemmas local_in_day_defined_minute = local_in_day_defined [where s = 0, unfolded clock_local_simps, simplified]

lemma selectNextValue_range:
  assumes "field_ok lo hi f" and "c \<notin> set (cf_values f)"
  shows "lo \<le> fst (selectNextValue (cf_values f) c)" "fst (selectNextValue (cf_values f) c) \<le> hi"
  by (cases rule: selectNextValue_cases [OF assms]; simp)+

lemma advance_day_defined:
  assumes "0 \<le> c" "c + 2 * msPerDay \<le> maxTime"
  shows "\<exists>c'. advanceToNextDay c (utcParts c) UTC = Inr c'"
  unfolding advanceToNextDay_def startOfLocalDay_utc
  by (rule orElse_defined, rule shift_defined [of _ msPerDay])
    (use assms day_start_sign [of c] day_start_parts(2) [of c] in \<open>simp_all add: msPerDay_def\<close>)

lemma advance_clock_defined:
  assumes c: "0 \<le> c" "c mod 1000 = 0" "c + 2 * msPerDay \<le> maxTime" and e: "expression_ok e"
  shows "utcHours c \<notin> set (cf_values (ce_hours e)) \<Longrightarrow> \<exists>c'. advanceToNextHour c (utcParts c) e UTC = Inr c'"
    and "utcMinutes c \<notin> set (cf_values (ce_minutes e)) \<Longrightarrow> \<exists>c'. advanceToNextMinute c (utcParts c) e UTC = Inr c'"
    and "utcSeconds c \<notin> set (cf_values (ce_seconds e)) \<Longrightarrow> \<exists>c'. advanceToNextSecond c (utcParts c) e UTC = Inr c'"
proof -
  note T = time_ranges(1-6) [of c]
  have F: "field_ok 0 23 (ce_hours e)" "field_ok 0 59 (ce_minutes e)" "field_ok 0 59 (ce_seconds e)"
    using e by (simp_all add: expression_ok_def)
  { assume out: "utcHours c \<notin> set (cf_values (ce_hours e))"
    show "\<exists>c'. advanceToNextHour c (utcParts c) e UTC = Inr c'"
      unfolding advanceToNextHour_def Let_def utcParts_simps
      by (rule orElse_defined [OF local_in_day_defined_hour advance_day_defined])
        (use selectNextValue_range [OF F(1) out] c in simp_all) }
  { assume out: "utcMinutes c \<notin> set (cf_values (ce_minutes e))"
    have "\<exists>r. and_then (shiftLocalDateTime (utcLocal (hour_start c)) 0 1 0)
        (\<lambda>l. localDateTimeToTimestamp UTC l (nextSearchTimestamp c)) = Inr r"
      by (rule shift_defined [of _ 3600000])
        (use c start_mods(1,3) [of c] start_le(2,3) [of c] in \<open>simp_all add: msPerDay_def\<close>)
    then show "\<exists>c'. advanceToNextMinute c (utcParts c) e UTC = Inr c'"
      unfolding advanceToNextMinute_def Let_def utcParts_simps hour_local [symmetric]
      by (intro orElse_defined local_in_day_defined_minute)
        (use selectNextValue_range [OF F(2) out] c T in simp_all) }
  { assume out: "utcSeconds c \<notin> set (cf_values (ce_seconds e))"
    have "\<exists>r. and_then (shiftLocalDateTime (utcLocal (minute_start c)) 0 0 1)
        (\<lambda>l. localDateTimeToTimestamp UTC l (nextSearchTimestamp c)) = Inr r"
      by (rule shift_defined [of _ 60000])
        (use c start_mods(2,4) [of c] start_le(3) [of c] in \<open>simp_all add: msPerDay_def\<close>)
    then show "\<exists>c'. advanceToNextSecond c (utcParts c) e UTC = Inr c'"
      unfolding advanceToNextSecond_def Let_def utcParts_simps minute_local [symmetric]
      by (intro orElse_defined local_in_day_defined)
        (use selectNextValue_range [OF F(3) out] c T in simp_all) }
qed

lemma step_defined:
  assumes c: "0 \<le> c" "c mod 1000 = 0" and e: "expression_ok e" and out: "\<not> cron_matches e (utcParts c)"
    and x: "cron_matches e (utcParts x)" "c \<le> x" "x + 2 * msPerDay \<le> maxTime"
  shows "\<exists>c'. search_step e c = Inr c'"
proof -
  have room: "c + 2 * msPerDay \<le> maxTime" using x by linarith
  have "\<exists>c'. advanceToNextMonth c (utcParts c) e UTC = Inr c'" if "utcMonth c \<notin> set (cf_values (ce_months e))"
  proof -
    have f: "field_ok 1 12 (ce_months e)" using e by (simp add: expression_ok_def)
    note M = month_target [OF f that]
    have "month_target e c \<le> x" using M(2) x by (meson no_match_def not_less)
    then have "\<exists>r. localDateTimeToTimestamp UTC (utcLocal (month_target e c)) (nextSearchTimestamp c) = Inr r"
      using c(1) M(1) x(3) by (intro local_defined month_target_day) (simp_all add: msPerDay_def)
    then show ?thesis unfolding M(3) by (rule orElse_defined) simp
  qed
  then show ?thesis
    using advance_day_defined [OF c(1) room] advance_clock_defined [OF c room e] out
    by (auto simp: search_step_def cron_matches_def)
qed

section \<open>The bound on the rounds suffices\<close>

text \<open>How far the fields of a candidate agree with the expression, from the month down.\<close>

definition day_ok :: "parsed_cron_expression \<Rightarrow> int \<Rightarrow> bool" where
  "day_ok e c \<longleftrightarrow> utcMonth c \<in> set (cf_values (ce_months e)) \<and> matchesDay (utcParts c) e"

definition hour_ok :: "parsed_cron_expression \<Rightarrow> int \<Rightarrow> bool" where
  "hour_ok e c \<longleftrightarrow> day_ok e c \<and> utcHours c \<in> set (cf_values (ce_hours e))"

definition minute_ok :: "parsed_cron_expression \<Rightarrow> int \<Rightarrow> bool" where
  "minute_ok e c \<longleftrightarrow> hour_ok e c \<and> utcMinutes c \<in> set (cf_values (ce_minutes e))"

lemma matches_fields: "cron_matches e (utcParts c) \<longleftrightarrow> minute_ok e c \<and> utcSeconds c \<in> set (cf_values (ce_seconds e))"
  by (auto simp: cron_matches_def minute_ok_def hour_ok_def day_ok_def)

lemma same_slot_ok:
  "utcDayNumber x = utcDayNumber c \<Longrightarrow> day_ok e x = day_ok e c"
  "x div 3600000 = c div 3600000 \<Longrightarrow> hour_ok e x = hour_ok e c"
  "x div 60000 = c div 60000 \<Longrightarrow> minute_ok e x = minute_ok e c"
proof -
  show day: "day_ok e x = day_ok e c" if "utcDayNumber x = utcDayNumber c" for x c
    using that by (simp add: day_ok_def matchesDay_def utcMonth_def utcDate_def utcDay_def)
  show hour: "hour_ok e x = hour_ok e c" if "x div 3600000 = c div 3600000" for x c
    using day [OF hour_slot(2) [OF that]] hour_slot(1) [OF that] by (simp add: hour_ok_def)
  show "minute_ok e x = minute_ok e c" if "x div 60000 = c div 60000"
    using hour [OF minute_slot(2) [OF that]] minute_slot(1) [OF that] by (simp add: minute_ok_def)
qed

text \<open>A minute, hour or day whose larger fields agree holds a match, since no field is empty.\<close>

lemma field_value: "field_ok lo hi f \<Longrightarrow> \<exists>v \<in> set (cf_values f). lo \<le> v \<and> v \<le> hi"
  by (cases "cf_values f") (auto simp: field_ok_def)

lemma match_in_minute:
  assumes "minute_ok e c" and "expression_ok e"
  shows "\<exists>y \<ge> minute_start c. y < minute_start c + 60000 \<and> cron_matches e (utcParts y)"
proof -
  obtain v where v: "v \<in> set (cf_values (ce_seconds e))" "0 \<le> v" "v < 60"
    using field_value [of 0 59 "ce_seconds e"] assms(2) by (auto simp: expression_ok_def)
  note S = second_instant [OF v(2,3), of c]
  show ?thesis
    by (rule exI [of _ "minute_start c + v * 1000"]) (use v S assms(1) same_slot_ok(3) [OF S(1)] in \<open>simp add: matches_fields\<close>)
qed

lemma match_in_hour:
  assumes "hour_ok e c" and "expression_ok e"
  shows "\<exists>y \<ge> hour_start c. y < hour_start c + 3600000 \<and> cron_matches e (utcParts y)"
proof -
  obtain v where v: "v \<in> set (cf_values (ce_minutes e))" "0 \<le> v" "v < 60"
    using field_value [of 0 59 "ce_minutes e"] assms(2) by (auto simp: expression_ok_def)
  note M = minute_instant [OF v(2,3), of c]
  have "minute_ok e (hour_start c + v * 60000)"
    using v(1) M(2) same_slot_ok(2) [OF M(1), of e] assms(1) by (simp add: minute_ok_def)
  from match_in_minute [OF this assms(2)] v(2,3) show ?thesis unfolding M(3) by (elim exE conjE) (intro exI conjI; simp)
qed

lemma match_in_day:
  assumes "day_ok e c" and "expression_ok e"
  shows "\<exists>y \<ge> day_start c. y < day_start c + msPerDay \<and> cron_matches e (utcParts y)"
proof -
  obtain v where v: "v \<in> set (cf_values (ce_hours e))" "0 \<le> v" "v < 24"
    using field_value [of 0 23 "ce_hours e"] assms(2) by (auto simp: expression_ok_def)
  note H = hour_instant [OF v(2,3), of c]
  have "hour_ok e (day_start c + v * 3600000)"
    using v(1) H(2) same_slot_ok(1) [OF H(1), of e] assms(1) by (simp add: hour_ok_def)
  from match_in_hour [OF this assms(2)] v(2,3) show ?thesis
    unfolding H(3) by (elim exE conjE) (intro exI conjI; simp add: msPerDay_def)
qed

text \<open>Where one round leads.\<close>

lemma day_end_start: "day_start (day_start c + msPerDay) = day_start c + msPerDay"
  using at_day [of 0 "utcDayNumber c + 1"] by (simp add: day_start_def msPerDay_def algebra_simps)

lemma day_aligned_later:
  assumes "day_start c' = c'" "c < c'"
  shows "utcDayNumber c < utcDayNumber c'"
proof (rule ccontr)
  assume "\<not> utcDayNumber c < utcDayNumber c'"
  then have "day_start c' \<le> day_start c" by (simp add: day_start_def msPerDay_def)
  then show False using assms day_start_parts(2) [of c] by linarith
qed

lemma search_step_cases:
  assumes "search_step e c = Inr c'" and c: "0 \<le> c" "c mod 1000 = 0" and e: "expression_ok e"
    and out: "\<not> cron_matches e (utcParts c)"
  obtains (day) "\<not> hour_ok e c" "day_start c' = c'" "c < c'"
  | (hour) "day_ok e c" "\<not> hour_ok e c" "hour_ok e c'" "hour_start c' = c'"
  | (hour_end) "hour_ok e c" "\<not> minute_ok e c" "c' = hour_start c + 3600000"
  | (minute) "hour_ok e c" "\<not> minute_ok e c" "minute_ok e c'" "minute_start c' = c'"
  | (minute_end) "minute_ok e c" "c' = minute_start c + 60000"
  | (match) "minute_ok e c" "cron_matches e (utcParts c')"
proof -
  have F: "field_ok 1 12 (ce_months e)" "field_ok 0 23 (ce_hours e)" "field_ok 0 59 (ce_minutes e)" "field_ok 0 59 (ce_seconds e)"
    using e by (simp_all add: expression_ok_def)
  consider (mo) "utcMonth c \<notin> set (cf_values (ce_months e))" "advanceToNextMonth c (utcParts c) e UTC = Inr c'"
    | (da) "\<not> day_ok e c" "advanceToNextDay c (utcParts c) UTC = Inr c'"
    | (ho) "day_ok e c" "utcHours c \<notin> set (cf_values (ce_hours e))" "advanceToNextHour c (utcParts c) e UTC = Inr c'"
    | (mi) "hour_ok e c" "utcMinutes c \<notin> set (cf_values (ce_minutes e))" "advanceToNextMinute c (utcParts c) e UTC = Inr c'"
    | (se) "minute_ok e c" "utcSeconds c \<notin> set (cf_values (ce_seconds e))" "advanceToNextSecond c (utcParts c) e UTC = Inr c'"
    using assms(1) out
    by (auto simp: search_step_def matches_fields minute_ok_def hour_ok_def day_ok_def split: if_splits)
  then show thesis
  proof cases
    case mo
    from advance_month_utc [OF mo(2) c F(1) mo(1)] show thesis
      using day mo(1) month_target(1) [OF F(1) mo(1)] month_target_day(2) [of e c] by (simp add: hour_ok_def day_ok_def)
  next
    case da
    from advance_day_utc [OF da(2) c] show thesis
      using day da(1) day_end_start [of c] day_start_parts(3) [of c] by (simp add: hour_ok_def)
  next
    case ho
    from advance_hour_utc [OF ho(3) c F(2) ho(2)] consider "c' = day_start c + msPerDay"
      | "utcDayNumber c' = utcDayNumber c" "utcHours c' \<in> set (cf_values (ce_hours e))" "hour_start c' = c'" by blast
    then show thesis
      by cases (use day ho(2) day_end_start [of c] day_start_parts(3) [of c] in \<open>simp add: hour_ok_def\<close>,
        use hour ho(1,2) same_slot_ok(1) [of c' c e] in \<open>simp add: hour_ok_def\<close>)
  next
    case mi
    from advance_minute_utc [OF mi(3) c F(3) mi(2)] consider "c' = hour_start c + 3600000"
      | "c' div 3600000 = c div 3600000" "utcMinutes c' \<in> set (cf_values (ce_minutes e))" "minute_start c' = c'" by blast
    then show thesis
      by cases (use hour_end mi(1,2) in \<open>simp add: minute_ok_def\<close>, use minute mi(1,2) same_slot_ok(2) [of c' c e] in \<open>simp add: minute_ok_def\<close>)
  next
    case se
    from advance_second_utc [OF se(3) c F(4) se(2)] consider "c' = minute_start c + 60000"
      | "c' div 60000 = c div 60000" "utcSeconds c' \<in> set (cf_values (ce_seconds e))" by blast
    then show thesis
      by cases (use minute_end se(1) in simp, use match se(1) same_slot_ok(3) [of c' c e] in \<open>simp add: matches_fields\<close>)
  qed
qed

text \<open>A candidate on its way to a match, and that a number of rounds finds one.\<close>

definition towards :: "parsed_cron_expression \<Rightarrow> int \<Rightarrow> int \<Rightarrow> bool" where
  "towards e c x \<longleftrightarrow> expression_ok e \<and> 0 \<le> c \<and> c mod 1000 = 0 \<and> c \<le> x \<and> cron_matches e (utcParts x) \<and>
     x + 2 * msPerDay \<le> maxTime"

definition finds :: "nat \<Rightarrow> parsed_cron_expression \<Rightarrow> int \<Rightarrow> bool" where
  "finds n e c \<longleftrightarrow> (\<exists>r. cronSearch n e UTC c = Inr r)"

lemma towards_range: "towards e c x \<Longrightarrow> \<bar>c\<bar> \<le> maxTime"
  by (simp add: towards_def msPerDay_def)

lemma finds_step:
  assumes "towards e c x"
    and "\<And>c'. search_step e c = Inr c' \<Longrightarrow> \<not> cron_matches e (utcParts c) \<Longrightarrow> no_match e c c' \<Longrightarrow> towards e c' x \<Longrightarrow> finds n e c'"
  shows "finds (Suc n) e c"
proof (cases "cron_matches e (utcParts c)")
  case True
  then show ?thesis unfolding finds_def using cronSearch_UTC [OF towards_range [OF assms(1)]] by auto
next
  case False
  have T: "0 \<le> c" "c mod 1000 = 0" "expression_ok e" "cron_matches e (utcParts x)" "c \<le> x" "x + 2 * msPerDay \<le> maxTime"
    using assms(1) by (simp_all add: towards_def)
  obtain c' where c': "search_step e c = Inr c'" using step_defined [OF T(1-3) False T(4-6)] by blast
  have N: "no_match e c c'" "c' mod 1000 = 0" "c < c'" using step_no_match [OF c' T(1-3) False] by simp_all
  have "c' \<le> x" using N(1) T(4,5) by (meson no_match_def not_less)
  then have "towards e c' x" using N T by (simp add: towards_def)
  from assms(2) [OF c' False N(1) this] show ?thesis
    unfolding finds_def using cronSearch_UTC [OF towards_range [OF assms(1)]] c' False by auto
qed

lemma finds_mono: "finds n e c \<Longrightarrow> n \<le> m \<Longrightarrow> finds m e c"
  unfolding finds_def using cronSearch_more by blast

lemma finds_match: "towards e c x \<Longrightarrow> cron_matches e (utcParts c) \<Longrightarrow> finds (Suc n) e c"
  by (rule finds_step) simp_all

text \<open>From the start of a unit whose larger fields agree, the search settles the smaller fields one by one.\<close>

lemma finds_in_minute:
  assumes "towards e c x" "minute_ok e c" "minute_start c = c"
  shows "finds 2 e c"
  unfolding numeral_2_eq_2
proof (rule finds_step [OF assms(1)])
  fix c'
  assume c': "search_step e c = Inr c'" "\<not> cron_matches e (utcParts c)" "no_match e c c'" "towards e c' x"
  have e: "expression_ok e" "0 \<le> c" "c mod 1000 = 0" using assms(1) by (simp_all add: towards_def)
  obtain y where y: "c \<le> y" "y < c + 60000" "cron_matches e (utcParts y)"
    using match_in_minute [OF assms(2) e(1)] assms(3) by auto
  have "c' \<le> y" using c'(3) y by (meson no_match_def not_less)
  from c'(1) e(2,3,1) c'(2) show "finds (Suc 0) e c'"
    by (cases rule: search_step_cases)
      (use \<open>c' \<le> y\<close> y assms(2,3) finds_match [OF c'(4)] in \<open>auto simp: minute_ok_def\<close>)
qed

lemma finds_in_hour:
  assumes "towards e c x" "hour_ok e c" "hour_start c = c"
  shows "finds 3 e c"
proof (cases "minute_ok e c")
  case True
  have "minute_start c = c" using start_le(2,3) [of c] assms(3) by simp
  from finds_in_minute [OF assms(1) True this] show ?thesis by (rule finds_mono) simp
next
  case False
  have e: "expression_ok e" "0 \<le> c" "c mod 1000 = 0" using assms(1) by (simp_all add: towards_def)
  obtain y where y: "c \<le> y" "y < c + 3600000" "cron_matches e (utcParts y)"
    using match_in_hour [OF assms(2) e(1)] assms(3) by auto
  have "finds (Suc 2) e c"
  proof (rule finds_step [OF assms(1)])
    fix c'
    assume c': "search_step e c = Inr c'" "\<not> cron_matches e (utcParts c)" "no_match e c c'" "towards e c' x"
    have "c' \<le> y" using c'(3) y by (meson no_match_def not_less)
    from c'(1) e(2,3,1) c'(2) show "finds 2 e c'"
      by (cases rule: search_step_cases)
        (use \<open>c' \<le> y\<close> y assms(2,3) False finds_in_minute [OF c'(4)] in \<open>auto simp: hour_ok_def\<close>)
  qed
  then show ?thesis by (simp add: numeral_3_eq_3)
qed

lemma finds_in_day:
  assumes "towards e c x" "day_ok e c" "day_start c = c"
  shows "finds 4 e c"
proof (cases "hour_ok e c")
  case True
  have "hour_start c = c" using start_le(1,2,3) [of c] assms(3) by simp
  from finds_in_hour [OF assms(1) True this] show ?thesis by (rule finds_mono) simp
next
  case False
  have e: "expression_ok e" "0 \<le> c" "c mod 1000 = 0" using assms(1) by (simp_all add: towards_def)
  obtain y where y: "c \<le> y" "y < day_start c + msPerDay" "cron_matches e (utcParts y)"
    using match_in_day [OF assms(2) e(1)] assms(3) by auto
  have "utcDayNumber y = utcDayNumber c" by (rule same_day) (use y assms(3) in simp_all)
  have "finds (Suc 3) e c"
  proof (rule finds_step [OF assms(1)])
    fix c'
    assume c': "search_step e c = Inr c'" "\<not> cron_matches e (utcParts c)" "no_match e c c'" "towards e c' x"
    have "c' \<le> y" using c'(3) y by (meson no_match_def not_less)
    then have "utcDayNumber c' \<le> utcDayNumber c"
      unfolding \<open>utcDayNumber y = utcDayNumber c\<close> [symmetric] by (simp add: utcDayNumber_def msPerDay_def zdiv_mono1)
    from c'(1) e(2,3,1) c'(2) show "finds 3 e c'"
      by (cases rule: search_step_cases)
        (use \<open>utcDayNumber c' \<le> utcDayNumber c\<close> day_aligned_later [of c' c] False finds_in_hour [OF c'(4)]
          in \<open>auto simp: minute_ok_def\<close>)
  qed
  then show ?thesis by (simp add: eval_nat_numeral)
qed

text \<open>From any candidate, one round per day to the match and at most seven more.\<close>

abbreviation days_to :: "int \<Rightarrow> int \<Rightarrow> nat" where
  "days_to c x \<equiv> nat (utcDayNumber x - utcDayNumber c)"

lemma days_to_mono: "c \<le> c' \<Longrightarrow> days_to c' x \<le> days_to c x"
proof -
  assume "c \<le> c'"
  then have "utcDayNumber c \<le> utcDayNumber c'" by (simp add: utcDayNumber_def msPerDay_def zdiv_mono1)
  then show ?thesis by simp
qed

lemma finds_from_day:
  "towards e c x \<Longrightarrow> day_start c = c \<Longrightarrow> finds (4 + days_to c x) e c"
proof (induction "days_to c x" arbitrary: c rule: less_induct)
  case less
  have e: "expression_ok e" "0 \<le> c" "c mod 1000 = 0" using less.prems(1) by (simp_all add: towards_def)
  show ?case
  proof (cases "day_ok e c")
    case True
    from finds_in_day [OF less.prems(1) True less.prems(2)] show ?thesis by (rule finds_mono) simp
  next
    case False
    have "finds (Suc (3 + days_to c x)) e c"
    proof (rule finds_step [OF less.prems(1)])
      fix c'
      assume c': "search_step e c = Inr c'" "\<not> cron_matches e (utcParts c)" "no_match e c c'" "towards e c' x"
      have day: "day_start c' = c'" "c < c'"
        using c'(1) e(2,3,1) c'(2) by (cases rule: search_step_cases; use False in \<open>simp add: hour_ok_def minute_ok_def\<close>)+
      have "utcDayNumber c' \<le> utcDayNumber x"
        using c'(4) by (simp add: towards_def utcDayNumber_def msPerDay_def zdiv_mono1)
      then have "days_to c' x < days_to c x" using day_aligned_later [OF day] by simp
      with less.hyps [OF this c'(4) day(1)] show "finds (3 + days_to c x) e c'" by (elim finds_mono) linarith
    qed
    then show ?thesis by simp
  qed
qed

lemma finds_after_day:
  assumes "towards e c' x" "day_start c' = c'" "c < c'" "4 + days_to c x \<le> n"
  shows "finds n e c'"
  using finds_from_day [OF assms(1,2)] days_to_mono [of c c' x] assms(3,4) by (elim finds_mono) linarith

lemma finds_from_hour:
  assumes "towards e c x" "hour_start c = c"
  shows "finds (5 + days_to c x) e c"
proof (cases "hour_ok e c")
  case True
  from finds_in_hour [OF assms(1) True assms(2)] show ?thesis by (rule finds_mono) simp
next
  case False
  have e: "expression_ok e" "0 \<le> c" "c mod 1000 = 0" using assms(1) by (simp_all add: towards_def)
  have "finds (Suc (4 + days_to c x)) e c"
  proof (rule finds_step [OF assms(1)])
    fix c'
    assume c': "search_step e c = Inr c'" "\<not> cron_matches e (utcParts c)" "no_match e c c'" "towards e c' x"
    from c'(1) e(2,3,1) c'(2) show "finds (4 + days_to c x) e c'"
    proof (cases rule: search_step_cases)
      case day
      then show ?thesis by (intro finds_after_day [OF c'(4), where c = c]) simp_all
    next
      case hour
      from finds_in_hour [OF c'(4) hour(3,4)] show ?thesis by (rule finds_mono) simp
    qed (use False in \<open>simp_all add: minute_ok_def\<close>)
  qed
  then show ?thesis by simp
qed

lemma finds_after_hour:
  assumes "towards e c' x" "c' = hour_start c + 3600000" "5 + days_to c x \<le> n"
  shows "finds n e c'"
proof -
  have "hour_start c' = c'" by (simp add: assms(2) hour_start_def)
  from finds_from_hour [OF assms(1) this] show ?thesis
    using days_to_mono [of c c' x] start_le(5) [of c] assms(2,3) by (elim finds_mono) linarith
qed

lemma finds_from_minute:
  assumes "towards e c x" "minute_start c = c"
  shows "finds (6 + days_to c x) e c"
proof (cases "minute_ok e c")
  case True
  from finds_in_minute [OF assms(1) True assms(2)] show ?thesis by (rule finds_mono) simp
next
  case False
  have e: "expression_ok e" "0 \<le> c" "c mod 1000 = 0" using assms(1) by (simp_all add: towards_def)
  have "finds (Suc (5 + days_to c x)) e c"
  proof (rule finds_step [OF assms(1)])
    fix c'
    assume c': "search_step e c = Inr c'" "\<not> cron_matches e (utcParts c)" "no_match e c c'" "towards e c' x"
    from c'(1) e(2,3,1) c'(2) show "finds (5 + days_to c x) e c'"
    proof (cases rule: search_step_cases)
      case day
      then show ?thesis by (intro finds_after_day [OF c'(4), where c = c]) simp_all
    next
      case hour
      from finds_in_hour [OF c'(4) hour(3,4)] show ?thesis by (rule finds_mono) simp
    next
      case hour_end
      then show ?thesis by (intro finds_after_hour [OF c'(4), where c = c]) simp_all
    next
      case minute
      from finds_in_minute [OF c'(4) minute(3,4)] show ?thesis by (rule finds_mono) simp
    qed (use False in simp_all)
  qed
  then show ?thesis by simp
qed

lemma finds_from:
  assumes "towards e c x"
  shows "finds (7 + days_to c x) e c"
proof -
  have e: "expression_ok e" "0 \<le> c" "c mod 1000 = 0" using assms(1) by (simp_all add: towards_def)
  have "finds (Suc (6 + days_to c x)) e c"
  proof (rule finds_step [OF assms])
    fix c'
    assume c': "search_step e c = Inr c'" "\<not> cron_matches e (utcParts c)" "no_match e c c'" "towards e c' x"
    from c'(1) e(2,3,1) c'(2) show "finds (6 + days_to c x) e c'"
    proof (cases rule: search_step_cases)
      case day
      then show ?thesis by (intro finds_after_day [OF c'(4), where c = c]) simp_all
    next
      case hour
      from finds_in_hour [OF c'(4) hour(3,4)] show ?thesis by (rule finds_mono) simp
    next
      case hour_end
      then show ?thesis by (intro finds_after_hour [OF c'(4), where c = c]) simp_all
    next
      case minute
      from finds_in_minute [OF c'(4) minute(3,4)] show ?thesis by (rule finds_mono) simp
    next
      case minute_end
      have "minute_start c' = c'" by (simp add: minute_end(2) minute_start_def)
      from finds_from_minute [OF c'(4) this] show ?thesis
        by (rule finds_mono) (use days_to_mono [of c c' x] start_le(4) [of c] minute_end(2) in simp)
    next
      case match
      from finds_match [OF c'(4) match(2), of 0] show ?thesis by (rule finds_mono) simp
    qed
  qed
  then show ?thesis by simp
qed

text \<open>The first candidate is the next whole second.\<close>

lemma next_second_le:
  fixes after :: rat
  assumes "after < of_int y" and "y mod 1000 = 0"
  shows "\<lfloor>after / 1000\<rfloor> * 1000 + 1000 \<le> y"
proof -
  obtain q where q: "y = 1000 * q" using assms(2) by (auto simp: mod_eq_0_iff_dvd elim: dvdE)
  have "after / 1000 < of_int q" using assms(1) by (simp add: q)
  then have "\<lfloor>after / 1000\<rfloor> < q" by (simp add: floor_less_iff)
  then show ?thesis by (simp add: q)
qed

lemma day_distance: "x < c + n * msPerDay \<Longrightarrow> utcDayNumber x - utcDayNumber c \<le> n"
proof -
  assume "x < c + n * msPerDay"
  then have "day_start x < day_start c + (n + 1) * msPerDay"
    using day_start_parts(2) [of x] day_start_parts(3) [of c] by (simp add: algebra_simps)
  then have "utcDayNumber x * msPerDay < (utcDayNumber c + (n + 1)) * msPerDay"
    by (simp add: day_start_def algebra_simps)
  then show ?thesis by (simp add: msPerDay_def)
qed

text \<open>
  C19: for an expression the parser accepts, the default time zone and an instant from 1970 on, let some
  later whole second match the expression, less than 99,990 days ahead and at least two days before the end
  of the range of dates. Then the search returns, within its 100,000 rounds, the earliest matching whole
  second after the instant.
\<close>

theorem cron_next_is_earliest:
  assumes "parseCronExpression s = Inr e" and "0 \<le> after"
    and "cron_matches e (utcParts x)" and "x mod 1000 = 0" and "after < of_int x"
    and "x < \<lfloor>after\<rfloor> + 99990 * msPerDay" and "x + 2 * msPerDay \<le> maxTime"
  shows "\<exists>r. getNextCronOccurrence e after UTC = Inr r \<and> after < of_int r \<and> r mod 1000 = 0 \<and>
    cron_matches e (utcParts r) \<and>
    (\<forall>y. after < of_int y \<and> y < r \<and> y mod 1000 = 0 \<longrightarrow> \<not> cron_matches e (utcParts y))"
proof -
  define c where "c = \<lfloor>after / 1000\<rfloor> * 1000 + 1000"
  have c: "0 \<le> c" "c mod 1000 = 0" using assms(2) by (simp_all add: c_def)
  have x: "c \<le> x" unfolding c_def by (rule next_second_le [OF assms(5,4)])
  have "after < of_int c" using floor_correct [of "after / 1000"] by (simp add: c_def)
  then have "\<lfloor>after\<rfloor> < c" by (simp add: floor_less_iff)
  then have "days_to c x \<le> 99990" using day_distance [of x c 99990] assms(6) by linarith
  moreover have e: "expression_ok e" by (rule parseCronExpression_ok [OF assms(1)])
  then have "towards e c x" using c x assms(3,7) by (simp add: towards_def)
  ultimately have "finds 100000 e c" by (intro finds_mono [OF finds_from [of e c x]]) simp_all
  then obtain r where r: "cronSearch 100000 e UTC c = Inr r" by (auto simp: finds_def)
  have "c \<le> MAX_SAFE_INTEGER" using x assms(7) by (simp add: msPerDay_def maxTime_def MAX_SAFE_INTEGER_def)
  then have n: "getNextCronOccurrence e after UTC = Inr r"
    unfolding getNextCronOccurrence_def c_def [symmetric] normalize_int using c(1) r by simp
  have least: "no_match e c r" "r mod 1000 = 0" using cronSearch_least [OF r c e] by simp_all
  have "\<not> cron_matches e (utcParts y)" if "after < of_int y" "y < r" "y mod 1000 = 0" for y
    using least(1) next_second_le [OF that(1,3)] that(2) by (simp add: no_match_def c_def)
  moreover have "cron_matches e (utcParts r)" using cronSearch_sound [OF r] by (auto simp: getZonedParts_UTC)
  ultimately show ?thesis using n next_cron_after [OF n] least(2) by (intro exI [of _ r]) simp
qed

theorem cron_next_is_earliest_witness:
  "\<exists>r. getNextCronOccurrence mondays 0 UTC = Inr r \<and> (0 :: rat) < of_int r \<and> r mod 1000 = 0 \<and>
    cron_matches mondays (utcParts r) \<and>
    (\<forall>y. (0 :: rat) < of_int y \<and> y < r \<and> y mod 1000 = 0 \<longrightarrow> \<not> cron_matches mondays (utcParts y))"
proof (rule cron_next_is_earliest [OF mondays_parsed, of 0 379800000])
  show "cron_matches mondays (utcParts 379800000)" by code_simp
qed (simp_all add: msPerDay_def maxTime_def)

end
