(* ===== verification/Timer_Scheduler.thy ===== *)
theory Timer_Scheduler
  imports Memory_Storage Storage_Keys Schedule_Interval
begin

text \<open>
  Durable timers: \<open>src/src/core/scheduler/timer-batch.ts\<close>, \<open>timer-sources.ts\<close>, \<open>timer-deferral.ts\<close> and
  the class of \<open>scheduler-class.ts\<close>.

  A tick scans the five key families of timers up to the current time, merges them by fire time and runs
  the callback on each. The callback is the engine's: a parameter that takes the scheduler and the store,
  says whether it returned, deferred the timer or threw, and returns both changed. A scan is the snapshot
  the storage contract describes, taken when its source is first read; \<open>MemoryStorage\<close> reads each value
  when its turn comes (\<open>memory_scan_during\<close>), which differs when a callback changes the entry of a timer
  whose turn is still to come in the same tick. The commit of the tick's deletions
  is a parameter too (the engine fences it). The current time is a whole number of milliseconds. What is
  logged is not modelled.
\<close>

section \<open>Timer entries\<close>

datatype timer_kind =
    Sleep
  | VisibilityTimeout
  | ExecutionDeadline
  | DelayedStart
  | ScheduleTick
  | TerminalCleanup
  | Teardown
  | WaitCondition

record timer_entry =
  te_id :: jsstring
  te_workflowId :: jsstring
  te_fireAt :: rat
  te_kind :: timer_kind
  te_executionTimeoutMs :: jsval

datatype timer_error =
    TimerTimestamp schedule_error
  | TimerKey
  | TimerDecode
  | TimerStorage storage_error

fun kindName :: "timer_kind \<Rightarrow> jsstring" where
  "kindName Sleep = js ''sleep''"
| "kindName VisibilityTimeout = js ''visibility-timeout''"
| "kindName ExecutionDeadline = js ''execution-deadline''"
| "kindName DelayedStart = js ''delayed-start''"
| "kindName ScheduleTick = js ''schedule''"
| "kindName TerminalCleanup = js ''terminal-cleanup''"
| "kindName Teardown = js ''teardown''"
| "kindName WaitCondition = js ''wait-condition''"

definition timerKinds :: "timer_kind list" where
  "timerKinds = [Sleep, VisibilityTimeout, ExecutionDeadline, DelayedStart, ScheduleTick, TerminalCleanup, Teardown,
     WaitCondition]"

definition kindOf :: "jsval \<Rightarrow> timer_kind option" where
  "kindOf v = find (\<lambda>k. v = JString (kindName k)) timerKinds"

definition isTimerEntryKind :: "jsval \<Rightarrow> bool" where
  "isTimerEntryKind v \<longleftrightarrow> kindOf v \<noteq> None"

definition hasStringProperty :: "jsval \<Rightarrow> string \<Rightarrow> bool" where
  "hasStringProperty v property = isString (field v (js property))"

definition hasFiniteNumberProperty :: "jsval \<Rightarrow> string \<Rightarrow> bool" where
  "hasFiniteNumberProperty v property = (case field v (js property) of JNumber n \<Rightarrow> isFinite n | _ \<Rightarrow> False)"

definition isTimerEntry :: "jsval \<Rightarrow> bool" where
  "isTimerEntry v \<longleftrightarrow> isObject v \<and> hasStringProperty v ''id'' \<and> hasStringProperty v ''workflowId'' \<and>
     hasFiniteNumberProperty v ''fireAt'' \<and> isTimerEntryKind (field v (js ''kind''))"

text \<open>The entry a value is, once the guard has accepted it, and the value an entry is encoded from.\<close>

definition stringOf :: "jsval \<Rightarrow> jsstring" where
  "stringOf v = (case v of JString s \<Rightarrow> s | _ \<Rightarrow> [])"

definition finiteOf :: "jsval \<Rightarrow> rat" where
  "finiteOf v = (case v of JNumber (JFin r) \<Rightarrow> r | _ \<Rightarrow> 0)"

definition timerEntryOf :: "jsval \<Rightarrow> timer_entry" where
  "timerEntryOf v =
     \<lparr>te_id = stringOf (field v (js ''id'')), te_workflowId = stringOf (field v (js ''workflowId'')),
      te_fireAt = finiteOf (field v (js ''fireAt'')),
      te_kind = (case kindOf (field v (js ''kind'')) of Some k \<Rightarrow> k | None \<Rightarrow> Sleep),
      te_executionTimeoutMs = field v (js ''executionTimeoutMs'')\<rparr>"

definition timerValue :: "timer_entry \<Rightarrow> jsval" where
  "timerValue e = JObject
     ([(js ''id'', JString (te_id e)), (js ''workflowId'', JString (te_workflowId e)),
       (js ''fireAt'', JNumber (JFin (te_fireAt e))), (js ''kind'', JString (kindName (te_kind e)))]
      @ (if te_executionTimeoutMs e = JUndefined then [] else [(js ''executionTimeoutMs'', te_executionTimeoutMs e)]))"

definition timer_key :: "jsstring option \<Rightarrow> timer_error + jsstring" where
  "timer_key k = (case k of None \<Rightarrow> Inl TimerKey | Some s \<Rightarrow> Inr s)"

definition timerIndexKey :: "jsstring \<Rightarrow> jsstring" where
  "timerIndexKey i = js ''timer-idx:'' @ i"

definition buildTimerBatchOperations :: "value_codec \<Rightarrow> timer_entry \<Rightarrow> timer_error + batch_operation list" where
  "buildTimerBatchOperations C entry =
     and_then (map_sum TimerTimestamp id (normalizeStorageTimestamp (JFin (te_fireAt entry)))) (\<lambda>fireAt.
       let normalizedEntry = entry\<lparr>te_fireAt := of_int fireAt\<rparr>
       in if te_kind entry = TerminalCleanup then
            and_then (timer_key (KEYS_terminalCleanup (nat fireAt) (te_id entry))) (\<lambda>key.
              Inr [Put key (vc_encode C (JString (te_workflowId entry)))])
          else if te_kind entry = Teardown then
            and_then (timer_key (KEYS_teardownTimer (nat fireAt) (te_id entry))) (\<lambda>key.
              Inr [Put key (vc_encode C (JString (te_workflowId entry)))])
          else
            and_then (timer_key (case te_kind entry of
                DelayedStart \<Rightarrow> KEYS_delayedStart (nat fireAt) (te_workflowId entry)
              | ScheduleTick \<Rightarrow> KEYS_scheduleTick (nat fireAt) (te_workflowId entry)
              | _ \<Rightarrow> KEYS_deadline (nat fireAt) (te_id entry))) (\<lambda>deadlineKey.
              Inr [Put deadlineKey (vc_encode C (timerValue normalizedEntry)),
                   Put (timerIndexKey (te_id entry)) (vc_encode C (JString deadlineKey))]))"

section \<open>Deferral\<close>

definition MAX_TIMER_DEFERRAL_BACKOFF_MS :: rat where
  "MAX_TIMER_DEFERRAL_BACKOFF_MS = 30000"

record timer_deferral =
  td_attempts :: nat
  td_retryAt :: rat

definition timerDeferralBackoffMs :: "rat \<Rightarrow> nat \<Rightarrow> rat" where
  "timerDeferralBackoffMs pollIntervalMs attempts =
     (let exponent = min (attempts - 1) 30
      in min (max pollIntervalMs 1 * 2 ^ exponent) MAX_TIMER_DEFERRAL_BACKOFF_MS)"

section \<open>Sources\<close>

record scanned_timer =
  st_key :: jsstring
  st_entry :: timer_entry

text \<open>
  \<open>Number(text)\<close>: white space around a decimal literal, a radix literal or nothing; \<open>NaN\<close> otherwise.
\<close>

definition exponentValue :: "jsstring \<Rightarrow> int option" where
  "exponentValue s =
     (case s of
        [] \<Rightarrow> Some 0
      | c # rest \<Rightarrow>
          if c \<noteq> 101 \<and> c \<noteq> 69 then None
          else let negative = (case rest of d # _ \<Rightarrow> d = 45 | [] \<Rightarrow> False);
                   digits = (case rest of d # ds \<Rightarrow> if d = 45 \<or> d = 43 then ds else rest | [] \<Rightarrow> [])
               in if digits = [] \<or> \<not> list_all isDigit digits then None
                  else Some ((if negative then - 1 else 1) * int (digits_value 0 digits)))"

definition powerOfTen :: "int \<Rightarrow> rat" where
  "powerOfTen n = (if 0 \<le> n then 10 ^ nat n else 1 / 10 ^ nat (- n))"

definition decimalLiteral :: "jsstring \<Rightarrow> rat option" where
  "decimalLiteral s =
     (let whole = takeWhile isDigit s;
          rest = dropWhile isDigit s;
          point = (case rest of c # _ \<Rightarrow> c = 46 | [] \<Rightarrow> False);
          fraction = (if point then takeWhile isDigit (tl rest) else []);
          tail = (if point then dropWhile isDigit (tl rest) else rest)
      in if whole = [] \<and> fraction = [] then None
         else map_option (\<lambda>e. of_nat (digits_value 0 (whole @ fraction)) * powerOfTen (e - int (length fraction)))
                (exponentValue tail))"

fun radixValue :: "nat \<Rightarrow> nat \<Rightarrow> jsstring \<Rightarrow> nat option" where
  "radixValue base acc [] = Some acc"
| "radixValue base acc (c # cs) =
     (let d = (if isDigit c then unat c - 48
               else if 97 \<le> lowerAscii c \<and> lowerAscii c \<le> 102 then unat (lowerAscii c) - 87 else 16)
      in if d < base then radixValue base (acc * base + d) cs else None)"

definition radixLiteral :: "jsstring \<Rightarrow> nat option" where
  "radixLiteral s =
     (case s of
        z # b # d # ds \<Rightarrow>
          if z \<noteq> 48 then None
          else if lowerAscii b = 120 then radixValue 16 0 (d # ds)
          else if lowerAscii b = 111 then radixValue 8 0 (d # ds)
          else if lowerAscii b = 98 then radixValue 2 0 (d # ds)
          else None
      | _ \<Rightarrow> None)"

definition jsNumber :: "jsstring \<Rightarrow> jsnum" where
  "jsNumber text =
     (let s = trim text;
          negative = (case s of c # _ \<Rightarrow> c = 45 | [] \<Rightarrow> False);
          unsigned = (case s of c # cs \<Rightarrow> if c = 45 \<or> c = 43 then cs else s | [] \<Rightarrow> [])
      in if s = [] then JFin 0
         else case radixLiteral s of
           Some n \<Rightarrow> JFin (of_nat n)
         | None \<Rightarrow>
             if unsigned = js ''Infinity'' then (if negative then JNegInf else JInf)
             else case decimalLiteral unsigned of
               None \<Rightarrow> JNaN
             | Some r \<Rightarrow> JFin (if negative then - r else r))"

text \<open>The two ways a source reads an entry; \<open>None\<close> is a corrupted entry.\<close>

datatype timer_reader = ReadScanned | ReadWorkflow timer_kind

definition decodeTimer :: "value_codec \<Rightarrow> bytes \<Rightarrow> timer_error + jsval" where
  "decodeTimer C b = (case vc_decode C b of None \<Rightarrow> Inl TimerDecode | Some v \<Rightarrow> Inr v)"

definition workflowPrefix :: "timer_kind \<Rightarrow> jsstring" where
  "workflowPrefix kind = (if kind = TerminalCleanup then js ''wf-cleanup:'' else js ''wf-teardown:'')"

text \<open>\<open>indexOf(':', n)\<close>, and the two slices around it.\<close>

definition splitAfterPrefix :: "jsstring \<Rightarrow> nat \<Rightarrow> (jsstring \<times> jsstring) option" where
  "splitAfterPrefix key n =
     (let rest = drop n key; stamp = takeWhile (\<lambda>c. c \<noteq> 58) rest
      in if length stamp = length rest then None else Some (stamp, drop (Suc (length stamp)) rest))"

definition parseWorkflowTimer :: "timer_kind \<Rightarrow> jsstring \<Rightarrow> jsval \<Rightarrow> timer_entry option" where
  "parseWorkflowTimer kind key decodedWorkflowId =
     (case splitAfterPrefix key (length (workflowPrefix kind)) of
        None \<Rightarrow> None
      | Some (stamp, rest) \<Rightarrow>
          (case (jsNumber stamp, tryDecodeStorageKeyComponent rest, decodedWorkflowId) of
             (JFin fireAt, Some timerId, JString workflowId) \<Rightarrow>
               if isSafeInteger (JFin fireAt) \<and> 0 \<le> fireAt
               then Some \<lparr>te_id = timerId, te_workflowId = workflowId, te_fireAt = fireAt, te_kind = kind,
                          te_executionTimeoutMs = JUndefined\<rparr>
               else None
           | _ \<Rightarrow> None))"

definition parseTimer :: "value_codec \<Rightarrow> timer_reader \<Rightarrow> jsstring \<Rightarrow> bytes \<Rightarrow> timer_error + timer_entry option" where
  "parseTimer C reader key value =
     and_then (decodeTimer C value) (\<lambda>decoded.
       Inr (case reader of
              ReadScanned \<Rightarrow> if isTimerEntry decoded then Some (timerEntryOf decoded) else None
            | ReadWorkflow kind \<Rightarrow> parseWorkflowTimer kind key decoded))"

fun readNext ::
    "'s storage \<Rightarrow> value_codec \<Rightarrow> timer_reader \<Rightarrow> (jsstring \<times> bytes) list \<Rightarrow> 's
     \<Rightarrow> (timer_error + scanned_timer option \<times> (jsstring \<times> bytes) list) \<times> 's" where
  "readNext S C reader [] s = (Inr (None, []), s)"
| "readNext S C reader ((key, value) # pending) s =
     (case parseTimer C reader key value of
        Inl err \<Rightarrow> (Inl err, s)
      | Inr (Some entry) \<Rightarrow> (Inr (Some \<lparr>st_key = key, st_entry = entry\<rparr>, pending), s)
      | Inr None \<Rightarrow>
          (case delete_op S s key of
             (Inl err, s') \<Rightarrow> (Inl (TimerStorage err), s')
           | (Inr _, s') \<Rightarrow> readNext S C reader pending s'))"

record timer_source =
  ts_reader :: timer_reader
  ts_pending :: "(jsstring \<times> bytes) list"
  ts_next :: "scanned_timer option"

definition advanceTimerSource ::
    "'s storage \<Rightarrow> value_codec \<Rightarrow> timer_source \<Rightarrow> 's \<Rightarrow> (timer_error + timer_source) \<times> 's" where
  "advanceTimerSource S C source s =
     (case readNext S C (ts_reader source) (ts_pending source) s of
        (Inl err, s') \<Rightarrow> (Inl err, s')
      | (Inr (n, pending), s') \<Rightarrow> (Inr (source\<lparr>ts_pending := pending, ts_next := n\<rparr>), s'))"

text \<open>\<open>compareScannedTimerEntries(a, b) < 0\<close>; \<open>localeCompare\<close> depends on the locale and is a parameter.\<close>

definition timerPrecedes :: "(jsstring \<Rightarrow> jsstring \<Rightarrow> bool) \<Rightarrow> scanned_timer \<Rightarrow> scanned_timer \<Rightarrow> bool" where
  "timerPrecedes localeLess left right =
     (if te_fireAt (st_entry left) \<noteq> te_fireAt (st_entry right)
      then te_fireAt (st_entry left) < te_fireAt (st_entry right)
      else localeLess (st_key left) (st_key right))"

fun selectNextTimerSource ::
    "(jsstring \<Rightarrow> jsstring \<Rightarrow> bool) \<Rightarrow> (nat \<times> scanned_timer) option \<Rightarrow> nat \<Rightarrow> timer_source list
     \<Rightarrow> (nat \<times> scanned_timer) option" where
  "selectNextTimerSource localeLess selected i [] = selected"
| "selectNextTimerSource localeLess selected i (source # sources) =
     selectNextTimerSource localeLess
       (case ts_next source of
          None \<Rightarrow> selected
        | Some e \<Rightarrow>
            (case selected of
               None \<Rightarrow> Some (i, e)
             | Some (_, f) \<Rightarrow> if timerPrecedes localeLess e f then Some (i, e) else selected))
       (Suc i) sources"

definition shouldDeleteTimerIndexWithoutLookup :: "timer_entry \<Rightarrow> bool" where
  "shouldDeleteTimerIndexWithoutLookup entry \<longleftrightarrow>
     te_kind entry \<noteq> ScheduleTick \<and> te_kind entry \<noteq> TerminalCleanup \<and> te_kind entry \<noteq> Teardown"

section \<open>The scheduler\<close>

record scheduler =
  sc_pollIntervalMs :: rat
  sc_polling :: bool
  sc_stopped :: bool
  sc_deferred :: "(jsstring \<times> timer_deferral) list"

definition newScheduler :: "rat option \<Rightarrow> scheduler" where
  "newScheduler pollIntervalMs =
     \<lparr>sc_pollIntervalMs = (case pollIntervalMs of Some p \<Rightarrow> p | None \<Rightarrow> 1000), sc_polling = False,
      sc_stopped = False, sc_deferred = []\<rparr>"

definition scheduler_start :: "scheduler \<Rightarrow> scheduler" where
  "scheduler_start sch = (if sc_polling sch then sch else sch\<lparr>sc_stopped := False, sc_polling := True\<rparr>)"

definition scheduler_stop :: "scheduler \<Rightarrow> scheduler" where
  "scheduler_stop sch = sch\<lparr>sc_stopped := True, sc_polling := False\<rparr>"

definition scheduler_schedule ::
    "'s storage \<Rightarrow> value_codec \<Rightarrow> timer_entry \<Rightarrow> 's \<Rightarrow> (timer_error + unit) \<times> 's" where
  "scheduler_schedule S C entry s =
     (case buildTimerBatchOperations C entry of
        Inl err \<Rightarrow> (Inl err, s)
      | Inr ops \<Rightarrow> (case batch_op S s ops of (r, s') \<Rightarrow> (map_sum TimerStorage id r, s')))"

definition releaseDeferredTimer :: "jsstring \<Rightarrow> scheduler \<Rightarrow> scheduler" where
  "releaseDeferredTimer i sch = sch\<lparr>sc_deferred := AList.delete i (sc_deferred sch)\<rparr>"

definition scheduler_cancel ::
    "'s storage \<Rightarrow> value_codec \<Rightarrow> jsstring \<Rightarrow> scheduler \<Rightarrow> 's \<Rightarrow> (timer_error + unit) \<times> scheduler \<times> 's" where
  "scheduler_cancel S C i sch s =
     (let sch' = releaseDeferredTimer i sch
      in case get_op S s (timerIndexKey i) of
        Inl err \<Rightarrow> (Inl (TimerStorage err), sch', s)
      | Inr None \<Rightarrow> (Inr (), sch', s)
      | Inr (Some b) \<Rightarrow>
          (case decodeTimer C b of
             Inl err \<Rightarrow> (Inl err, sch', s)
           | Inr (JString deadlineKey) \<Rightarrow>
               (case batch_op S s [Delete deadlineKey, Delete (timerIndexKey i)] of
                  (r, s') \<Rightarrow> (map_sum TimerStorage id r, sch', s'))
           | Inr _ \<Rightarrow>
               (case delete_op S s (timerIndexKey i) of (r, s') \<Rightarrow> (map_sum TimerStorage id r, sch', s'))))"

definition isDeferred :: "scheduler \<Rightarrow> jsstring \<Rightarrow> nat \<Rightarrow> bool" where
  "isDeferred sch i currentTime \<longleftrightarrow>
     (case map_of (sc_deferred sch) i of None \<Rightarrow> False | Some d \<Rightarrow> td_retryAt d > of_nat currentTime)"

definition deferTimer :: "timer_entry \<Rightarrow> nat \<Rightarrow> scheduler \<Rightarrow> scheduler" where
  "deferTimer entry currentTime sch =
     (let attempts = (case map_of (sc_deferred sch) (te_id entry) of None \<Rightarrow> 0 | Some d \<Rightarrow> td_attempts d) + 1;
          backoffMs = timerDeferralBackoffMs (sc_pollIntervalMs sch) attempts
      in sch\<lparr>sc_deferred := AList.update (te_id entry)
               \<lparr>td_attempts = attempts, td_retryAt = of_nat currentTime + backoffMs\<rparr> (sc_deferred sch)\<rparr>)"

definition buildScheduleTimerIndexDeleteOperation ::
    "'s storage \<Rightarrow> value_codec \<Rightarrow> scanned_timer \<Rightarrow> 's \<Rightarrow> timer_error + batch_operation list" where
  "buildScheduleTimerIndexDeleteOperation S C nextEntry s =
     (let indexKey = timerIndexKey (te_id (st_entry nextEntry))
      in case get_op S s indexKey of
        Inl err \<Rightarrow> Inl (TimerStorage err)
      | Inr None \<Rightarrow> Inr []
      | Inr (Some b) \<Rightarrow>
          and_then (decodeTimer C b) (\<lambda>decodedIndexValue.
            Inr (if isString decodedIndexValue \<and> decodedIndexValue \<noteq> JString (st_key nextEntry) then []
                 else [Delete indexKey])))"

definition buildTimerIndexDeleteOperation ::
    "'s storage \<Rightarrow> value_codec \<Rightarrow> scanned_timer \<Rightarrow> 's \<Rightarrow> timer_error + batch_operation list" where
  "buildTimerIndexDeleteOperation S C nextEntry s =
     (if te_kind (st_entry nextEntry) = ScheduleTick then buildScheduleTimerIndexDeleteOperation S C nextEntry s
      else if shouldDeleteTimerIndexWithoutLookup (st_entry nextEntry)
      then Inr [Delete (timerIndexKey (te_id (st_entry nextEntry)))]
      else Inr [])"

definition buildTimerCleanupOperations ::
    "'s storage \<Rightarrow> value_codec \<Rightarrow> scanned_timer \<Rightarrow> 's \<Rightarrow> timer_error + batch_operation list" where
  "buildTimerCleanupOperations S C nextEntry s =
     and_then (buildTimerIndexDeleteOperation S C nextEntry s) (\<lambda>indexDelete.
       Inr (Delete (st_key nextEntry) # indexDelete))"

datatype callback_outcome = CallbackReturned | CallbackDeferred | CallbackThrew

type_synonym 's timer_callback = "timer_entry \<Rightarrow> scheduler \<Rightarrow> 's \<Rightarrow> callback_outcome \<times> scheduler \<times> 's"

datatype timer_processing_result = TimerProcessed | TimerRetry | TimerDeferred

text \<open>A failed lookup of the index leaves the timer to the next tick.\<close>

definition appendTimerCleanupOperationsAfterCallback ::
    "'s storage \<Rightarrow> value_codec \<Rightarrow> scanned_timer \<Rightarrow> batch_operation list \<Rightarrow> 's \<Rightarrow> batch_operation list" where
  "appendTimerCleanupOperationsAfterCallback S C nextEntry cleanupOperations s =
     (case buildTimerCleanupOperations S C nextEntry s of
        Inl _ \<Rightarrow> cleanupOperations
      | Inr ops \<Rightarrow> cleanupOperations @ ops)"

definition processSelectedTimer ::
    "'s storage \<Rightarrow> value_codec \<Rightarrow> 's timer_callback \<Rightarrow> scanned_timer \<Rightarrow> batch_operation list \<Rightarrow> nat \<Rightarrow> scheduler \<Rightarrow> 's
     \<Rightarrow> timer_processing_result \<times> batch_operation list \<times> scheduler \<times> 's" where
  "processSelectedTimer S C onTimerFired nextEntry cleanupOperations currentTime sch s =
     (if isDeferred sch (te_id (st_entry nextEntry)) currentTime then (TimerDeferred, cleanupOperations, sch, s)
      else case onTimerFired (st_entry nextEntry) sch s of
        (CallbackDeferred, sch', s') \<Rightarrow>
          (TimerDeferred, cleanupOperations, deferTimer (st_entry nextEntry) currentTime sch', s')
      | (CallbackThrew, sch', s') \<Rightarrow> (TimerRetry, cleanupOperations, sch', s')
      | (CallbackReturned, sch', s') \<Rightarrow>
          (TimerProcessed, appendTimerCleanupOperationsAfterCallback S C nextEntry cleanupOperations s',
           releaseDeferredTimer (te_id (st_entry nextEntry)) sch', s'))"

text \<open>
  The state of a tick. Beside what the code keeps, it records the timers whose callback ran and those
  among them that were processed.
\<close>

record 's tick =
  tk_sources :: "timer_source list"
  tk_cleanup :: "batch_operation list"
  tk_seen :: "jsstring list"
  tk_fired :: "scanned_timer list"
  tk_processed :: "scanned_timer list"
  tk_scheduler :: scheduler
  tk_store :: 's

definition tickTimer ::
    "'s storage \<Rightarrow> value_codec \<Rightarrow> 's timer_callback \<Rightarrow> nat \<Rightarrow> scanned_timer \<Rightarrow> 's tick \<Rightarrow> 's tick" where
  "tickTimer S C onTimerFired currentTime nextEntry tk =
     (case processSelectedTimer S C onTimerFired nextEntry (tk_cleanup tk) currentTime (tk_scheduler tk) (tk_store tk) of
        (result, cleanup, sch, s) \<Rightarrow>
          tk\<lparr>tk_seen := te_id (st_entry nextEntry) # tk_seen tk, tk_cleanup := cleanup,
             tk_fired := tk_fired tk @
               (if isDeferred (tk_scheduler tk) (te_id (st_entry nextEntry)) currentTime then [] else [nextEntry]),
             tk_processed := tk_processed tk @ (if result = TimerProcessed then [nextEntry] else []),
             tk_scheduler := sch, tk_store := s\<rparr>)"

definition source_work :: "timer_source \<Rightarrow> nat" where
  "source_work source = length (ts_pending source) + (if ts_next source = None then 0 else 1)"

lemma readNext_shorter:
  "readNext S C reader pending s = (Inr (n, rest), s') \<Longrightarrow> length rest + (if n = None then 0 else 1) \<le> length pending"
proof (induction pending arbitrary: s)
  case (Cons kv pending)
  then show ?case
    by (cases kv) (fastforce split: sum.splits option.splits prod.splits dest!: Cons.IH)
qed simp

lemma select_is_next:
  "selectNextTimerSource cmp sel i sources = Some (j, e) \<Longrightarrow>
     sel = Some (j, e) \<or> (i \<le> j \<and> j - i < length sources \<and> ts_next (sources ! (j - i)) = Some e)"
proof (induction sources arbitrary: sel i)
  case (Cons source sources)
  define sel' where "sel' = (case ts_next source of None \<Rightarrow> sel
    | Some e \<Rightarrow> (case sel of None \<Rightarrow> Some (i, e) | Some (_, f) \<Rightarrow> if timerPrecedes cmp e f then Some (i, e) else sel))"
  have sel': "sel' = sel \<or> (\<exists>e. ts_next source = Some e \<and> sel' = Some (i, e))"
    by (auto simp: sel'_def split: option.splits)
  from Cons.IH [of sel' "Suc i"] Cons.prems
  consider "sel' = Some (j, e)" | "Suc i \<le> j" "j - Suc i < length sources" "ts_next (sources ! (j - Suc i)) = Some e"
    by (auto simp: sel'_def)
  then show ?case
  proof cases
    case 1
    then show ?thesis using sel' by auto
  next
    case 2
    then have "j - i = Suc (j - Suc i)" by simp
    with 2 show ?thesis by (intro disjI2) simp
  qed
qed simp

lemma sum_list_update_less:
  fixes f :: "'a \<Rightarrow> nat"
  assumes "i < length xs" and "f y < f (xs ! i)"
  shows "sum_list (map f (xs[i := y])) < sum_list (map f xs)"
  using assms by (induction xs arbitrary: i) (auto simp: nth_Cons split: nat.splits)

function tickLoop ::
    "'s storage \<Rightarrow> value_codec \<Rightarrow> (jsstring \<Rightarrow> jsstring \<Rightarrow> bool) \<Rightarrow> 's timer_callback \<Rightarrow> nat \<Rightarrow> bool \<Rightarrow> 's tick
     \<Rightarrow> timer_error option \<times> 's tick" where
  "tickLoop S C localeLess onTimerFired currentTime respectStopped tk =
     (case selectNextTimerSource localeLess None 0 (tk_sources tk) of
        None \<Rightarrow> (None, tk)
      | Some (i, nextEntry) \<Rightarrow>
          if respectStopped \<and> sc_stopped (tk_scheduler tk) then (None, tk)
          else
            let tk1 = tickTimer S C onTimerFired currentTime nextEntry tk
            in (case advanceTimerSource S C (tk_sources tk ! i) (tk_store tk1) of
                  (Inl err, s) \<Rightarrow> (Some err, tk1\<lparr>tk_store := s\<rparr>)
                | (Inr source, s) \<Rightarrow>
                    tickLoop S C localeLess onTimerFired currentTime respectStopped
                      (tk1\<lparr>tk_sources := (tk_sources tk)[i := source], tk_store := s\<rparr>)))"
  by pat_completeness auto
termination
proof (relation "measure (\<lambda>(_, _, _, _, _, _, tk). sum_list (map source_work (tk_sources tk)))")
  fix S :: "'s storage" and C localeLess onTimerFired currentTime respectStopped and tk tk1 :: "'s tick"
    and x2 x i nextEntry y s source s'
  assume sel: "selectNextTimerSource localeLess None 0 (tk_sources tk) = Some x2" "(i, nextEntry) = x2"
    and adv: "(y, s) = advanceTimerSource S C (tk_sources tk ! i) (tk_store tk1)" "y = Inr source"
  have n: "i < length (tk_sources tk)" "ts_next (tk_sources tk ! i) = Some nextEntry"
    using select_is_next [of localeLess None 0 "tk_sources tk" i nextEntry] sel by simp_all
  have "source_work source < source_work (tk_sources tk ! i)"
    using adv n(2) readNext_shorter [of S C "ts_reader (tk_sources tk ! i)" "ts_pending (tk_sources tk ! i)"]
    by (fastforce simp: advanceTimerSource_def source_work_def split: prod.splits sum.splits)
  from sum_list_update_less [of i "tk_sources tk" source_work, OF n(1) this]
  show "((S, C, localeLess, onTimerFired, currentTime, respectStopped,
      tk1\<lparr>tk_sources := (tk_sources tk)[i := source], tk_store := s\<rparr>),
      S, C, localeLess, onTimerFired, currentTime, respectStopped, tk)
      \<in> measure (\<lambda>(_, _, _, _, _, _, tk). sum_list (map source_work (tk_sources tk)))"
    by simp
qed simp

declare tickLoop.simps [simp del]

definition EXPIRED_TIMER_SCAN_LIMIT_PER_SOURCE :: nat where
  "EXPIRED_TIMER_SCAN_LIMIT_PER_SOURCE = 1000"

record timer_scan =
  sn_prefix :: jsstring
  sn_bound :: "jsstring option"
  sn_reader :: timer_reader

definition timerScans :: "nat \<Rightarrow> timer_scan list" where
  "timerScans currentTime =
     [\<lparr>sn_prefix = js ''wf-deadline:'', sn_bound = KEYS_deadline currentTime [], sn_reader = ReadScanned\<rparr>,
      \<lparr>sn_prefix = js ''wf-delayed:'', sn_bound = KEYS_delayedStart currentTime [], sn_reader = ReadScanned\<rparr>,
      \<lparr>sn_prefix = js ''schedule-due:'', sn_bound = KEYS_scheduleTick currentTime [], sn_reader = ReadScanned\<rparr>,
      \<lparr>sn_prefix = js ''wf-cleanup:'', sn_bound = KEYS_terminalCleanup currentTime [],
       sn_reader = ReadWorkflow TerminalCleanup\<rparr>,
      \<lparr>sn_prefix = js ''wf-teardown:'', sn_bound = KEYS_teardownTimer currentTime [], sn_reader = ReadWorkflow Teardown\<rparr>]"

definition timerScanOptions :: "jsstring \<Rightarrow> nat \<Rightarrow> scan_options" where
  "timerScanOptions bound limit =
     default_scan_options\<lparr>so_lt := Some (resolvePrefixRangeEnd bound), so_limit := Some (JFin (of_nat limit))\<rparr>"

text \<open>A source is scanned and advanced to its first entry, in the order of the sources.\<close>

fun openSources ::
    "'s storage \<Rightarrow> value_codec \<Rightarrow> nat \<Rightarrow> timer_scan list \<Rightarrow> 's \<Rightarrow> (timer_error + timer_source list) \<times> 's" where
  "openSources S C limit [] s = (Inr [], s)"
| "openSources S C limit (scan # scans) s =
     (case sn_bound scan of
        None \<Rightarrow> (Inl TimerKey, s)
      | Some bound \<Rightarrow>
          (case scan_op S s (sn_prefix scan) (timerScanOptions bound limit) of
             Inl err \<Rightarrow> (Inl (TimerStorage err), s)
           | Inr found \<Rightarrow>
               (case advanceTimerSource S C \<lparr>ts_reader = sn_reader scan, ts_pending = found, ts_next = None\<rparr> s of
                  (Inl err, s') \<Rightarrow> (Inl err, s')
                | (Inr source, s') \<Rightarrow>
                    (case openSources S C limit scans s' of
                       (Inl err, s'') \<Rightarrow> (Inl err, s'')
                     | (Inr sources, s'') \<Rightarrow> (Inr (source # sources), s'')))))"

definition pruneDeferrals :: "jsstring list \<Rightarrow> nat \<Rightarrow> bool \<Rightarrow> scheduler \<Rightarrow> scheduler" where
  "pruneDeferrals seenTimerIds currentTime respectStopped sch =
     (if respectStopped \<and> sc_stopped sch then sch
      else sch\<lparr>sc_deferred := filter (\<lambda>(i, d). \<not> (td_retryAt d \<le> of_nat currentTime \<and> i \<notin> set seenTimerIds)) (sc_deferred sch)\<rparr>)"

text \<open>A failed commit is logged; the timers stay in the store.\<close>

definition deleteProcessedTimerKeys ::
    "('s \<Rightarrow> batch_operation list \<Rightarrow> ('s, unit) storage_result) \<Rightarrow> batch_operation list \<Rightarrow> 's \<Rightarrow> 's" where
  "deleteProcessedTimerKeys commitTimerCleanup cleanupOperations s =
     (if cleanupOperations = [] then s else snd (commitTimerCleanup s cleanupOperations))"

definition startTick :: "timer_source list \<Rightarrow> scheduler \<Rightarrow> 's \<Rightarrow> 's tick" where
  "startTick sources sch s = \<lparr>tk_sources = sources, tk_cleanup = [], tk_seen = [], tk_fired = [], tk_processed = [],
     tk_scheduler = sch, tk_store = s\<rparr>"

record 's timer_host =
  th_storage :: "'s storage"
  th_codec :: value_codec
  th_localeLess :: "jsstring \<Rightarrow> jsstring \<Rightarrow> bool"
  th_onTimerFired :: "'s timer_callback"
  th_commitTimerCleanup :: "'s \<Rightarrow> batch_operation list \<Rightarrow> ('s, unit) storage_result"

definition processExpiredTimers ::
    "'s timer_host \<Rightarrow> nat \<Rightarrow> bool \<Rightarrow> scheduler \<Rightarrow> 's \<Rightarrow> timer_error option \<times> 's tick" where
  "processExpiredTimers H currentTime respectStopped sch s =
     (case openSources (th_storage H) (th_codec H) (EXPIRED_TIMER_SCAN_LIMIT_PER_SOURCE + length (sc_deferred sch))
             (timerScans currentTime) s of
        (Inl err, s') \<Rightarrow> (Some err, startTick [] sch s')
      | (Inr sources, s') \<Rightarrow>
          (case tickLoop (th_storage H) (th_codec H) (th_localeLess H) (th_onTimerFired H) currentTime respectStopped
                  (startTick sources sch s') of
             (Some err, tk) \<Rightarrow> (Some err, tk)
           | (None, tk) \<Rightarrow>
               (None, tk\<lparr>tk_store := deleteProcessedTimerKeys (th_commitTimerCleanup H) (tk_cleanup tk) (tk_store tk),
                         tk_scheduler := pruneDeferrals (tk_seen tk) currentTime respectStopped (tk_scheduler tk)\<rparr>)))"

definition scheduler_tick :: "'s timer_host \<Rightarrow> nat \<Rightarrow> scheduler \<Rightarrow> 's \<Rightarrow> timer_error option \<times> 's tick" where
  "scheduler_tick H currentTime sch s =
     (if sc_stopped sch then (None, startTick [] sch s) else processExpiredTimers H currentTime True sch s)"

definition scheduler_flush :: "'s timer_host \<Rightarrow> nat \<Rightarrow> scheduler \<Rightarrow> 's \<Rightarrow> timer_error option \<times> 's tick" where
  "scheduler_flush H currentTime sch s =
     (case processExpiredTimers H currentTime False sch s of
        (Some err, tk) \<Rightarrow> (Some err, tk)
      | (None, tk) \<Rightarrow> (None, tk\<lparr>tk_scheduler := scheduler_stop (tk_scheduler tk)\<rparr>))"

end
