(* ===== verification/Timer_Scheduler_Properties.thy ===== *)
theory Timer_Scheduler_Properties
  imports Timer_Scheduler
begin

text \<open>
  What a tick of the scheduler guarantees over a store of well-formed timers: the order in which timers
  fire, that none starves behind deferred ones, and which keys it deletes; that scheduling writes
  well-formed timers; and the effect of an entry that does not decode. The loop is handled once, by the
  rule \<open>tickLoop_rule\<close> for invariants of a tick over readable sources.
\<close>

section \<open>Selection\<close>

abbreviation fire :: "scanned_timer \<Rightarrow> rat" where
  "fire e \<equiv> te_fireAt (st_entry e)"

lemma select_minimal:
  "selectNextTimerSource cmp sel i sources = Some (j, e) \<Longrightarrow>
     (\<forall>k f. sel = Some (k, f) \<longrightarrow> fire e \<le> fire f) \<and>
     (\<forall>source \<in> set sources. \<forall>f. ts_next source = Some f \<longrightarrow> fire e \<le> fire f)"
proof (induction sources arbitrary: sel i)
  case (Cons source sources)
  define sel' where "sel' = (case ts_next source of None \<Rightarrow> sel
    | Some e \<Rightarrow> (case sel of None \<Rightarrow> Some (i, e) | Some (_, f) \<Rightarrow> if timerPrecedes cmp e f then Some (i, e) else sel))"
  have IH: "\<forall>k f. sel' = Some (k, f) \<longrightarrow> fire e \<le> fire f"
    "\<forall>source \<in> set sources. \<forall>f. ts_next source = Some f \<longrightarrow> fire e \<le> fire f"
    using Cons.IH [of sel' "Suc i"] Cons.prems by (auto simp: sel'_def)
  have below: "\<exists>k g. sel' = Some (k, g) \<and> fire g \<le> fire f" if "sel = Some (m, f) \<or> ts_next source = Some f" for m f
    using that by (auto simp: sel'_def timerPrecedes_def split: option.splits if_splits)
  have "fire e \<le> fire f" if "sel = Some (m, f) \<or> ts_next source = Some f" for m f
    using below [OF that] IH(1) order_trans by blast
  then show ?case using IH(2) by auto
qed simp

lemma select_None:
  "selectNextTimerSource cmp sel i sources = None \<longleftrightarrow> sel = None \<and> (\<forall>source \<in> set sources. ts_next source = None)"
proof (induction sources arbitrary: sel i)
  case (Cons source sources)
  show ?case by (auto simp: Cons.IH split: option.splits)
qed simp

lemmas selected =
  select_is_next [of cmp None 0, simplified] for cmp

text \<open>The timers a source still has to yield, and sources whose entries can all be read.\<close>

definition parsedTimers :: "value_codec \<Rightarrow> timer_reader \<Rightarrow> (jsstring \<times> bytes) list \<Rightarrow> scanned_timer list" where
  "parsedTimers C reader found =
     List.map_filter (\<lambda>(k, v). case parseTimer C reader k v of
         Inr (Some e) \<Rightarrow> Some \<lparr>st_key = k, st_entry = e\<rparr> | _ \<Rightarrow> None) found"

definition remaining :: "value_codec \<Rightarrow> timer_source \<Rightarrow> scanned_timer list" where
  "remaining C source = (case ts_next source of None \<Rightarrow> [] | Some e \<Rightarrow> [e])
     @ parsedTimers C (ts_reader source) (ts_pending source)"

definition readable :: "value_codec \<Rightarrow> timer_reader \<Rightarrow> (jsstring \<times> bytes) list \<Rightarrow> bool" where
  "readable C reader found \<longleftrightarrow> (\<forall>(k, v) \<in> set found. \<exists>e. parseTimer C reader k v = Inr (Some e))"

definition source_ok :: "value_codec \<Rightarrow> timer_source \<Rightarrow> bool" where
  "source_ok C source \<longleftrightarrow> readable C (ts_reader source) (ts_pending source) \<and>
     (ts_next source = None \<longrightarrow> ts_pending source = [])"

lemma advance_readable:
  assumes "readable C (ts_reader source) (ts_pending source)"
  shows "\<exists>source'. advanceTimerSource S C source s = (Inr source', s) \<and> source_ok C source' \<and>
    ts_reader source' = ts_reader source \<and>
    remaining C source' = parsedTimers C (ts_reader source) (ts_pending source)"
proof (cases "ts_pending source")
  case Nil
  then show ?thesis by (simp add: advanceTimerSource_def source_ok_def readable_def remaining_def parsedTimers_def)
next
  case (Cons kv rest)
  obtain k v where kv: "kv = (k, v)" by force
  obtain e where e: "parseTimer C (ts_reader source) k v = Inr (Some e)"
    using assms Cons kv by (auto simp: readable_def)
  show ?thesis
    using assms Cons kv e
    by (auto simp: advanceTimerSource_def source_ok_def readable_def remaining_def parsedTimers_def map_filter_simps)
qed

lemma remaining_next: "ts_next source = Some e \<Longrightarrow> remaining C source = e # parsedTimers C (ts_reader source) (ts_pending source)"
  by (simp add: remaining_def)

lemma remaining_empty: "source_ok C source \<Longrightarrow> remaining C source = [] \<longleftrightarrow> ts_next source = None"
  by (auto simp: remaining_def source_ok_def parsedTimers_def map_filter_simps split: option.splits)

definition tick_queue :: "value_codec \<Rightarrow> 's tick \<Rightarrow> scanned_timer list" where
  "tick_queue C tk = concat (map (remaining C) (tk_sources tk))"

lemma set_tick_queue: "set (tick_queue C tk) = \<Union>(set ` remaining C ` set (tk_sources tk))"
  by (auto simp: tick_queue_def)

text \<open>One round over readable sources.\<close>

definition tickRound ::
    "'s storage \<Rightarrow> value_codec \<Rightarrow> 's timer_callback \<Rightarrow> nat \<Rightarrow> nat \<Rightarrow> scanned_timer \<Rightarrow> timer_source \<Rightarrow> 's tick \<Rightarrow> 's tick" where
  "tickRound S C cb now i e source tk = (tickTimer S C cb now e tk)\<lparr>tk_sources := (tk_sources tk)[i := source]\<rparr>"

lemma tickTimer_sources [simp]: "tk_sources (tickTimer S C cb now e tk) = tk_sources tk"
  by (simp add: tickTimer_def split: prod.splits)

lemma tickLoop_rule:
  assumes "I tk" and "\<And>tk. I tk \<Longrightarrow> \<forall>source \<in> set (tk_sources tk). source_ok C source"
    and step: "\<And>tk i e source. I tk \<Longrightarrow> i < length (tk_sources tk) \<Longrightarrow> ts_next (tk_sources tk ! i) = Some e \<Longrightarrow>
      (\<forall>source \<in> set (tk_sources tk). sorted (map fire (remaining C source))) \<longrightarrow> (\<forall>f \<in> set (tick_queue C tk). fire e \<le> fire f) \<Longrightarrow>
      \<not> (respectStopped \<and> sc_stopped (tk_scheduler tk)) \<Longrightarrow> source_ok C source \<Longrightarrow>
      ts_reader source = ts_reader (tk_sources tk ! i) \<Longrightarrow>
      remaining C (tk_sources tk ! i) = e # remaining C source \<Longrightarrow> I (tickRound S C cb now i e source tk)"
  shows "\<exists>tk'. tickLoop S C cmp cb now respectStopped tk = (None, tk') \<and> I tk' \<and>
    ((\<forall>source \<in> set (tk_sources tk'). remaining C source = []) \<or> respectStopped \<and> sc_stopped (tk_scheduler tk'))"
  using assms(1)
proof (induction "sum_list (map source_work (tk_sources tk))" arbitrary: tk rule: less_induct)
  case less
  note ok = assms(2) [OF less.prems]
  show ?case
  proof (cases "selectNextTimerSource cmp None 0 (tk_sources tk)")
    case None
    then have "\<forall>source \<in> set (tk_sources tk). remaining C source = []"
      using ok remaining_empty by (auto simp: select_None)
    then show ?thesis using None less.prems by (subst tickLoop.simps) simp
  next
    case (Some ie)
    obtain i e where ie: "ie = (i, e)" by force
    note sel = Some [unfolded ie]
    have n: "i < length (tk_sources tk)" "ts_next (tk_sources tk ! i) = Some e" using selected [OF sel] by simp_all
    show ?thesis
    proof (cases "respectStopped \<and> sc_stopped (tk_scheduler tk)")
      case True
      then show ?thesis using sel less.prems by (subst tickLoop.simps) simp
    next
      case False
      let ?tk1 = "tickTimer S C cb now e tk"
      have "source_ok C (tk_sources tk ! i)" using ok n(1) by simp
      then obtain source where source: "advanceTimerSource S C (tk_sources tk ! i) (tk_store ?tk1) = (Inr source, tk_store ?tk1)"
        "source_ok C source" "ts_reader source = ts_reader (tk_sources tk ! i)"
        "remaining C (tk_sources tk ! i) = e # remaining C source"
        using advance_readable [of C "tk_sources tk ! i" S "tk_store ?tk1"] remaining_next [OF n(2), of C]
        by (auto simp: source_ok_def)
      have least: "(\<forall>source \<in> set (tk_sources tk). sorted (map fire (remaining C source))) \<longrightarrow>
          (\<forall>f \<in> set (tick_queue C tk). fire e \<le> fire f)"
      proof (intro impI ballI)
        fix f
        assume srt: "\<forall>source \<in> set (tk_sources tk). sorted (map fire (remaining C source))"
          and "f \<in> set (tick_queue C tk)"
        then obtain src where src: "src \<in> set (tk_sources tk)" "f \<in> set (remaining C src)" by (auto simp: set_tick_queue)
        then obtain g where g: "ts_next src = Some g" using remaining_empty [of C src] ok by fastforce
        have "fire g \<le> fire f" using srt src remaining_next [OF g, of C] by fastforce
        moreover have "fire e \<le> fire g" using select_minimal [OF sel] src(1) g by blast
        ultimately show "fire e \<le> fire f" by linarith
      qed
      have I': "I (tickRound S C cb now i e source tk)"
        by (rule step [OF less.prems n least False source(2-4)])
      have "source_work source < source_work (tk_sources tk ! i)"
        using source(1) n(2) readNext_shorter [of S C "ts_reader (tk_sources tk ! i)" "ts_pending (tk_sources tk ! i)"]
        by (fastforce simp: advanceTimerSource_def source_work_def split: prod.splits sum.splits)
      from sum_list_update_less [of i "tk_sources tk" source_work, OF n(1) this]
      have "sum_list (map source_work (tk_sources (tickRound S C cb now i e source tk)))
          < sum_list (map source_work (tk_sources tk))"
        by (simp add: tickRound_def)
      moreover have "tickLoop S C cmp cb now respectStopped tk =
          tickLoop S C cmp cb now respectStopped (tickRound S C cb now i e source tk)"
        using sel False source(1) by (subst tickLoop.simps) (auto simp: tickRound_def Let_def)
      ultimately show ?thesis using less.hyps [OF _ I'] by simp
    qed
  qed
qed

section \<open>Timers fire in order\<close>

lemma tick_queue_round:
  assumes "i < length (tk_sources tk)" and "remaining C (tk_sources tk ! i) = e # remaining C source"
  obtains A B where "tick_queue C tk = A @ e # B" and "tick_queue C (tickRound S C' cb now i e source tk) = A @ B"
proof
  let ?A = "concat (map (remaining C) (take i (tk_sources tk)))"
  let ?B = "remaining C source @ concat (map (remaining C) (drop (Suc i) (tk_sources tk)))"
  show "tick_queue C tk = ?A @ e # ?B"
    using arg_cong [OF id_take_nth_drop [OF assms(1)], of "\<lambda>xs. concat (map (remaining C) xs)"] assms(2)
    by (simp add: tick_queue_def)
  show "tick_queue C (tickRound S C' cb now i e source tk) = ?A @ ?B"
    using assms(1) by (simp add: tick_queue_def tickRound_def upd_conv_take_nth_drop)
qed

lemma tickTimer_fired:
  "tk_fired (tickTimer S C cb now e tk) =
     tk_fired tk @ (if isDeferred (tk_scheduler tk) (te_id (st_entry e)) now then [] else [e])"
  by (simp add: tickTimer_def split: prod.splits)

lemma tickRound_simps [simp]:
  "tk_fired (tickRound S C cb now i e source tk) = tk_fired (tickTimer S C cb now e tk)"
  "tk_processed (tickRound S C cb now i e source tk) = tk_processed (tickTimer S C cb now e tk)"
  "tk_scheduler (tickRound S C cb now i e source tk) = tk_scheduler (tickTimer S C cb now e tk)"
  "tk_store (tickRound S C cb now i e source tk) = tk_store (tickTimer S C cb now e tk)"
  "tk_cleanup (tickRound S C cb now i e source tk) = tk_cleanup (tickTimer S C cb now e tk)"
  "tk_sources (tickRound S C cb now i e source tk) = (tk_sources tk)[i := source]"
  by (simp_all add: tickRound_def)

lemma set_update_cases: "x \<in> set (xs[i := y]) \<Longrightarrow> x = y \<or> x \<in> set xs"
  using set_update_subset_insert [of xs i y] by blast

definition ordered_tick :: "value_codec \<Rightarrow> 's tick \<Rightarrow> bool" where
  "ordered_tick C tk \<longleftrightarrow>
     (\<forall>source \<in> set (tk_sources tk). source_ok C source \<and> sorted (map fire (remaining C source))) \<and>
     sorted (map fire (tk_fired tk)) \<and> (\<forall>f \<in> set (tk_fired tk). \<forall>g \<in> set (tick_queue C tk). fire f \<le> fire g)"

lemma ordered_round:
  assumes I: "ordered_tick C tk" and i: "i < length (tk_sources tk)" "ts_next (tk_sources tk ! i) = Some e"
    and least: "(\<forall>source \<in> set (tk_sources tk). sorted (map fire (remaining C source))) \<longrightarrow>
      (\<forall>f \<in> set (tick_queue C tk). fire e \<le> fire f)"
    and source: "source_ok C source" "remaining C (tk_sources tk ! i) = e # remaining C source"
  shows "ordered_tick C (tickRound S C cb now i e source tk)"
proof -
  obtain A B where q: "tick_queue C tk = A @ e # B" "tick_queue C (tickRound S C cb now i e source tk) = A @ B"
    using tick_queue_round [OF i(1) source(2)] by blast
  have srt: "sorted (map fire (remaining C src))" if "src \<in> set (tk_sources tk)" for src
    using I that by (simp add: ordered_tick_def)
  have first: "fire e \<le> fire f" if "f \<in> set (tick_queue C tk)" for f
    using least srt that by blast
  have "sorted (map fire (remaining C source))"
    using srt [of "tk_sources tk ! i"] i(1) source(2) by simp
  then have sources: "source_ok C src \<and> sorted (map fire (remaining C src))" if "src \<in> set ((tk_sources tk)[i := source])" for src
    using set_update_cases [OF that] I source(1) by (auto simp: ordered_tick_def)
  have fired: "sorted (map fire (tk_fired tk))" "\<forall>f \<in> set (tk_fired tk). \<forall>g \<in> set (tick_queue C tk). fire f \<le> fire g"
    using I by (simp_all add: ordered_tick_def)
  have "\<forall>f \<in> set (tk_fired tk). fire f \<le> fire e" using fired(2) q(1) by simp
  then show ?thesis
    unfolding ordered_tick_def tickRound_simps tickTimer_fired
    using sources fired first q by (auto simp: sorted_append)
qed

lemma tickLoop_ordered:
  assumes "ordered_tick C tk"
  shows "\<exists>tk'. tickLoop S C cmp cb now respectStopped tk = (None, tk') \<and> ordered_tick C tk'"
proof -
  have "\<exists>tk'. tickLoop S C cmp cb now respectStopped tk = (None, tk') \<and> ordered_tick C tk' \<and>
    ((\<forall>source \<in> set (tk_sources tk'). remaining C source = []) \<or> respectStopped \<and> sc_stopped (tk_scheduler tk'))"
    using assms by (rule tickLoop_rule) (simp add: ordered_tick_def, blast intro: ordered_round)
  then show ?thesis by blast
qed

section \<open>No due timer starves\<close>

text \<open>A callback may release deferred timers, but neither stops the scheduler nor defers another timer.\<close>

definition releases_only :: "'s timer_callback \<Rightarrow> bool" where
  "releases_only cb \<longleftrightarrow> (\<forall>e sch s out sch' s'. cb e sch s = (out, sch', s') \<longrightarrow>
     sc_stopped sch' = sc_stopped sch \<and>
     (\<forall>i d. map_of (sc_deferred sch') i = Some d \<longrightarrow> map_of (sc_deferred sch) i = Some d))"

lemma tickTimer_scheduler:
  assumes "releases_only cb"
  shows "sc_stopped (tk_scheduler (tickTimer S C cb now e tk)) = sc_stopped (tk_scheduler tk)"
    and "i \<noteq> te_id (st_entry e) \<Longrightarrow> \<not> isDeferred (tk_scheduler tk) i now \<Longrightarrow>
      \<not> isDeferred (tk_scheduler (tickTimer S C cb now e tk)) i now"
proof -
  obtain out sch s where cb: "cb (st_entry e) (tk_scheduler tk) (tk_store tk) = (out, sch, s)" by (metis prod_cases3)
  have r: "sc_stopped sch = sc_stopped (tk_scheduler tk)"
    "\<And>i d. map_of (sc_deferred sch) i = Some d \<Longrightarrow> map_of (sc_deferred (tk_scheduler tk)) i = Some d"
    using assms cb unfolding releases_only_def by blast+
  note D = tickTimer_def processSelectedTimer_def deferTimer_def releaseDeferredTimer_def Let_def
  show "sc_stopped (tk_scheduler (tickTimer S C cb now e tk)) = sc_stopped (tk_scheduler tk)"
    using r(1) cb by (cases out) (simp_all add: D)
  assume i: "i \<noteq> te_id (st_entry e)" and nd: "\<not> isDeferred (tk_scheduler tk) i now"
  have "\<not> isDeferred sch i now" using nd r(2) [of i] by (auto simp: isDeferred_def split: option.splits)
  then show "\<not> isDeferred (tk_scheduler (tickTimer S C cb now e tk)) i now"
    using i nd cb by (cases out) (auto simp: D isDeferred_def update_conv' delete_conv' split: option.splits)
qed

definition awaits :: "value_codec \<Rightarrow> nat \<Rightarrow> scanned_timer \<Rightarrow> 's tick \<Rightarrow> bool" where
  "awaits C now e tk \<longleftrightarrow> (\<forall>source \<in> set (tk_sources tk). source_ok C source) \<and> \<not> sc_stopped (tk_scheduler tk) \<and>
     distinct (map (\<lambda>f. te_id (st_entry f)) (tick_queue C tk)) \<and>
     (e \<in> set (tk_fired tk) \<or> e \<in> set (tick_queue C tk) \<and> \<not> isDeferred (tk_scheduler tk) (te_id (st_entry e)) now)"

lemma awaits_round:
  assumes I: "awaits C now e tk" and cb: "releases_only cb" and i: "i < length (tk_sources tk)"
    and source: "source_ok C source" "remaining C (tk_sources tk ! i) = f # remaining C source"
  shows "awaits C now e (tickRound S C cb now i f source tk)"
proof -
  obtain A B where q: "tick_queue C tk = A @ f # B" "tick_queue C (tickRound S C cb now i f source tk) = A @ B"
    using tick_queue_round [OF i source(2)] by blast
  have sources: "\<forall>src \<in> set ((tk_sources tk)[i := source]). source_ok C src"
    using I source(1) by (auto simp: awaits_def dest!: set_update_cases)
  note T = tickTimer_scheduler [OF cb, where S = S and C = C and now = now and e = f and tk = tk]
  have dist: "distinct (map (\<lambda>f. te_id (st_entry f)) (A @ f # B))" using I q(1) by (simp add: awaits_def)
  consider "e \<in> set (tk_fired tk)" | "e = f" "\<not> isDeferred (tk_scheduler tk) (te_id (st_entry f)) now"
    | "e \<in> set (A @ B)" "\<not> isDeferred (tk_scheduler tk) (te_id (st_entry e)) now"
    using I q(1) by (auto simp: awaits_def)
  then have "e \<in> set (tk_fired (tickTimer S C cb now f tk)) \<or>
      e \<in> set (A @ B) \<and> \<not> isDeferred (tk_scheduler (tickTimer S C cb now f tk)) (te_id (st_entry e)) now"
  proof cases
    case 3
    then have "te_id (st_entry e) \<noteq> te_id (st_entry f)" using dist by (auto simp: image_iff)
    then show ?thesis using 3 T(2) by simp
  qed (simp_all add: tickTimer_fired)
  then show ?thesis
    using I sources dist T(1) unfolding awaits_def q(2) tickRound_simps by simp
qed

lemma tickLoop_fires:
  assumes "awaits C now e tk" and "releases_only cb"
  shows "\<exists>tk'. tickLoop S C cmp cb now respectStopped tk = (None, tk') \<and> e \<in> set (tk_fired tk')"
proof -
  have "\<exists>tk'. tickLoop S C cmp cb now respectStopped tk = (None, tk') \<and> awaits C now e tk' \<and>
    ((\<forall>source \<in> set (tk_sources tk'). remaining C source = []) \<or> respectStopped \<and> sc_stopped (tk_scheduler tk'))"
    using assms(1) by (rule tickLoop_rule) (simp add: awaits_def, blast intro: awaits_round [OF _ assms(2)])
  then show ?thesis by (force simp: awaits_def set_tick_queue)
qed

text \<open>Skipping at most \<open>d\<close> elements, the first \<open>n\<close> of the others lie within the first \<open>n + d\<close> of all.\<close>

lemma take_filter_within:
  "length (filter P xs) \<le> d \<Longrightarrow> set (take n (filter (\<lambda>x. \<not> P x) xs)) \<subseteq> set (take (n + d) xs)"
proof (induction xs arbitrary: n d)
  case (Cons x xs)
  show ?case
  proof (cases "P x")
    case True
    then obtain d' where d: "d = Suc d'" "length (filter P xs) \<le> d'" using Cons.prems by (cases d) auto
    from Cons.IH [OF d(2), of n] True show ?thesis by (auto simp: d(1))
  next
    case False
    show ?thesis
    proof (cases n)
      case (Suc m)
      then show ?thesis using Cons.IH [of d m] Cons.prems False by auto
    qed simp
  qed
qed simp

lemma deferred_few:
  assumes "distinct (map f xs)"
  shows "length (filter (\<lambda>e. isDeferred sch (f e) now) xs) \<le> length (sc_deferred sch)"
proof -
  let ?ys = "map f (filter (\<lambda>e. isDeferred sch (f e) now) xs)"
  have "distinct ?ys" using assms by (simp add: distinct_map_filter)
  then have "length ?ys = card (set ?ys)" by (rule distinct_card [symmetric])
  also have "\<dots> \<le> card (fst ` set (sc_deferred sch))"
    by (rule card_mono) (auto simp: isDeferred_def split: option.splits dest!: map_of_SomeD intro: rev_image_eqI)
  also have "\<dots> \<le> length (sc_deferred sch)" by (metis card_length length_map set_map)
  finally show ?thesis by simp
qed

section \<open>A tick deletes the timers it processed\<close>

text \<open>The deletions a timer adds, at most.\<close>

definition cleanup_weight :: "scanned_timer \<Rightarrow> nat" where
  "cleanup_weight e = (if te_kind (st_entry e) = TerminalCleanup \<or> te_kind (st_entry e) = Teardown then 1 else 2)"

lemma buildTimerCleanupOperations_shape:
  assumes "buildTimerCleanupOperations S C e s = Inr ops"
  shows "ops = [Delete (st_key e)] \<or> ops = [Delete (st_key e), Delete (timerIndexKey (te_id (st_entry e)))]"
    and "length ops \<le> cleanup_weight e"
  using assms
  by (auto simp: buildTimerCleanupOperations_def buildTimerIndexDeleteOperation_def and_then_Inr_iff Let_def
      buildScheduleTimerIndexDeleteOperation_def shouldDeleteTimerIndexWithoutLookup_def cleanup_weight_def
      split: if_splits sum.splits option.splits)

lemma buildTimerCleanupOperations_defined:
  "te_kind (st_entry e) \<noteq> ScheduleTick \<Longrightarrow> \<exists>ops. buildTimerCleanupOperations S C e s = Inr ops"
  by (simp add: buildTimerCleanupOperations_def buildTimerIndexDeleteOperation_def)

lemma tickTimer_cases:
  obtains (skipped) "tk_cleanup (tickTimer S C cb now e tk) = tk_cleanup tk" "tk_processed (tickTimer S C cb now e tk) = tk_processed tk"
  | (processed) "tk_processed (tickTimer S C cb now e tk) = tk_processed tk @ [e]"
      "tk_cleanup (tickTimer S C cb now e tk) =
        appendTimerCleanupOperationsAfterCallback S C e (tk_cleanup tk) (tk_store (tickTimer S C cb now e tk))"
      "\<not> isDeferred (tk_scheduler tk) (te_id (st_entry e)) now"
proof -
  obtain out sch s where cb: "cb (st_entry e) (tk_scheduler tk) (tk_store tk) = (out, sch, s)" by (metis prod_cases3)
  show thesis
    using skipped processed cb
    by (cases "isDeferred (tk_scheduler tk) (te_id (st_entry e)) now"; cases out)
      (simp_all add: tickTimer_def processSelectedTimer_def)
qed

definition deletes_processed :: "value_codec \<Rightarrow> nat \<Rightarrow> 's tick \<Rightarrow> bool" where
  "deletes_processed C n tk \<longleftrightarrow> (\<forall>source \<in> set (tk_sources tk). source_ok C source) \<and>
     set (tk_processed tk) \<subseteq> set (tk_fired tk) \<and>
     (\<forall>op \<in> set (tk_cleanup tk). \<exists>e \<in> set (tk_processed tk).
        op = Delete (st_key e) \<or> op = Delete (timerIndexKey (te_id (st_entry e)))) \<and>
     (\<forall>e \<in> set (tk_processed tk). te_kind (st_entry e) \<noteq> ScheduleTick \<longrightarrow> Delete (st_key e) \<in> set (tk_cleanup tk)) \<and>
     length (tk_cleanup tk) + sum_list (map cleanup_weight (tick_queue C tk)) \<le> n"

lemma deletes_processed_round:
  assumes I: "deletes_processed C n tk" and i: "i < length (tk_sources tk)"
    and source: "source_ok C source" "remaining C (tk_sources tk ! i) = e # remaining C source"
  shows "deletes_processed C n (tickRound S C cb now i e source tk)"
proof -
  obtain A B where q: "tick_queue C tk = A @ e # B" "tick_queue C (tickRound S C cb now i e source tk) = A @ B"
    using tick_queue_round [OF i source(2)] by blast
  have sources: "\<forall>src \<in> set ((tk_sources tk)[i := source]). source_ok C src"
    using I source(1) by (auto simp: deletes_processed_def dest!: set_update_cases)
  let ?s = "tk_store (tickTimer S C cb now e tk)"
  show ?thesis
  proof (cases rule: tickTimer_cases [of S C cb now e tk])
    case skipped
    then show ?thesis
      using I sources unfolding deletes_processed_def q tickRound_simps by (auto simp: tickTimer_fired)
  next
    case processed
    show ?thesis
    proof (cases "buildTimerCleanupOperations S C e ?s")
      case (Inl err)
      then have "te_kind (st_entry e) = ScheduleTick" using buildTimerCleanupOperations_defined [of e S C ?s] by auto
      then show ?thesis
        using I sources processed Inl unfolding deletes_processed_def q tickRound_simps
        by (auto simp: tickTimer_fired appendTimerCleanupOperationsAfterCallback_def)
    next
      case (Inr ops)
      note ops = buildTimerCleanupOperations_shape [OF Inr]
      have cleanup: "tk_cleanup (tickTimer S C cb now e tk) = tk_cleanup tk @ ops"
        using processed(2) Inr by (simp add: appendTimerCleanupOperationsAfterCallback_def)
      show ?thesis
        using I sources processed(1,3) ops unfolding deletes_processed_def q tickRound_simps cleanup
        by (auto simp: tickTimer_fired)
    qed
  qed
qed

section \<open>Timers in the store\<close>

definition scan_found :: "store \<Rightarrow> nat \<Rightarrow> timer_scan \<Rightarrow> (jsstring \<times> bytes) list" where
  "scan_found m limit scan = scan_entries m (sn_prefix scan) (timerScanOptions (the (sn_bound scan)) limit)"

context storage_spec
begin

lemma openSources_readable:
  assumes "invar s"
    and "\<And>scan. scan \<in> set scans \<Longrightarrow> sn_prefix scan \<noteq> [] \<and> sn_bound scan \<noteq> None \<and>
      readable C (sn_reader scan) (scan_found (contents s) limit scan)"
  shows "\<exists>sources. openSources S C limit scans s = (Inr sources, s) \<and> (\<forall>source \<in> set sources. source_ok C source) \<and>
    map (remaining C) sources = map (\<lambda>scan. parsedTimers C (sn_reader scan) (scan_found (contents s) limit scan)) scans"
  using assms(2)
proof (induction scans)
  case (Cons scan scans)
  obtain sources where IH: "openSources S C limit scans s = (Inr sources, s)" "\<forall>source \<in> set sources. source_ok C source"
    "map (remaining C) sources = map (\<lambda>scan. parsedTimers C (sn_reader scan) (scan_found (contents s) limit scan)) scans"
    using Cons.IH Cons.prems by auto
  obtain bound where b: "sn_bound scan = Some bound" using Cons.prems [of scan] by auto
  have f: "scan_op S s (sn_prefix scan) (timerScanOptions bound limit) = Inr (scan_found (contents s) limit scan)"
    using scan_spec [OF assms(1)] Cons.prems [of scan] b by (simp add: scan_found_def)
  let ?src = "\<lparr>ts_reader = sn_reader scan, ts_pending = scan_found (contents s) limit scan, ts_next = None\<rparr>"
  obtain source where "advanceTimerSource S C ?src s = (Inr source, s)" "source_ok C source"
    "remaining C source = parsedTimers C (sn_reader scan) (scan_found (contents s) limit scan)"
    using advance_readable [of C ?src S s] Cons.prems [of scan] by auto
  then show ?case using IH b f by auto
qed simp

end

text \<open>
  A stored timer: its value reads back as an entry, and its key carries the entry's fire time behind the
  prefix of its family.
\<close>

definition timer_record :: "value_codec \<Rightarrow> timer_scan \<Rightarrow> jsstring \<Rightarrow> bytes \<Rightarrow> bool" where
  "timer_record C scan k v \<longleftrightarrow> (\<exists>e t r. parseTimer C (sn_reader scan) k v = Inr (Some e) \<and> te_fireAt e = of_nat t \<and>
     t < 10 ^ 16 \<and> k = sn_prefix scan @ formatSortableTimestamp t @ 58 # r)"

definition timer_store :: "value_codec \<Rightarrow> store \<Rightarrow> bool" where
  "timer_store C m \<longleftrightarrow> (\<forall>scan \<in> set (timerScans 0). \<forall>k v. m k = Some v \<longrightarrow> in_prefix_range (sn_prefix scan) k \<longrightarrow>
     timer_record C scan k v)"

text \<open>The due timers of a family, in key order.\<close>

definition family :: "value_codec \<Rightarrow> store \<Rightarrow> timer_scan \<Rightarrow> scanned_timer list" where
  "family C m scan = parsedTimers C (sn_reader scan)
     (map (\<lambda>k. (k, the (m k))) (sorted_list_of_set {k \<in> dom m. in_prefix_range (sn_prefix scan) k}))"

definition due :: "value_codec \<Rightarrow> store \<Rightarrow> nat \<Rightarrow> timer_scan \<Rightarrow> scanned_timer list" where
  "due C m now scan = filter (\<lambda>e. fire e \<le> of_nat now) (family C m scan)"

lemma timerScans_shape:
  assumes "scan \<in> set (timerScans now)"
  shows "sn_prefix scan \<noteq> []" and "sn_bound scan = Some (sn_prefix scan @ formatSortableTimestamp now @ [58])"
    and "\<exists>scan0 \<in> set (timerScans 0). sn_prefix scan0 = sn_prefix scan \<and> sn_reader scan0 = sn_reader scan"
  using assms
  by (auto simp: timerScans_def KEYS_deadline_def KEYS_delayedStart_def KEYS_scheduleTick_def KEYS_terminalCleanup_def
      KEYS_teardownTimer_def formatSortableTimestamp_def encodeStorageKeyComponent_def js_def)

lemma append_less_same_length:
  "length xs = length ys \<Longrightarrow> (xs @ a < ys @ b) \<longleftrightarrow> xs < ys \<or> xs = ys \<and> a < (b :: 'a :: linorder list)"
  by (induction xs ys rule: list_induct2) auto

lemma length_formatSortableTimestamp: "t < 10 ^ 16 \<Longrightarrow> length (formatSortableTimestamp t) = 16"
  unfolding formatSortableTimestamp_def by (simp only: padStart_fixed zero_less_numeral length_map length_fixedDigits)

lemma formatSortableTimestamp_eq_iff:
  "t < 10 ^ 16 \<Longrightarrow> u < 10 ^ 16 \<Longrightarrow> formatSortableTimestamp t = formatSortableTimestamp u \<longleftrightarrow> t = u"
  by (metis formatSortableTimestamp_less_iff less_irrefl linorder_neqE_nat)

lemma stamped_less:
  assumes "t < 10 ^ 16" and "u < 10 ^ 16"
  shows "p @ formatSortableTimestamp t @ a < p @ formatSortableTimestamp u @ b \<longleftrightarrow> t < u \<or> t = u \<and> a < b"
  using assms length_formatSortableTimestamp [of t] length_formatSortableTimestamp [of u]
  by (simp add: append_less_same_length formatSortableTimestamp_less_iff formatSortableTimestamp_eq_iff)

lemma due_bound:
  assumes "t < 10 ^ 16" and "now < 10 ^ 16"
  shows "p @ formatSortableTimestamp t @ 58 # r < resolvePrefixRangeEnd (p @ formatSortableTimestamp now @ [58]) \<longleftrightarrow> t \<le> now"
proof -
  have "resolvePrefixRangeEnd (p @ formatSortableTimestamp now @ [58]) = p @ formatSortableTimestamp now @ [59]"
    by (simp add: resolvePrefixRangeEnd_def butlast_append)
  then show ?thesis using stamped_less [OF assms, of p "58 # r" "[59]"] by auto
qed

lemma sorted_list_of_set_Collect:
  assumes "finite A"
  shows "sorted_list_of_set {k \<in> A. P k} = filter P (sorted_list_of_set A)"
proof (rule sorted_distinct_set_unique)
  show "sorted (filter P (sorted_list_of_set A))" using sorted_filter [of id "sorted_list_of_set A" P] by simp
qed (use assms in simp_all)

lemma take_limit_of_nat: "take_limit (Some (JFin (of_nat n))) c xs = take (n - c) xs"
  by (induction xs arbitrary: c) (auto simp: limitReached_def Suc_diff_le take_Cons' split: nat.splits)

lemma readable_mono: "readable C reader xs \<Longrightarrow> set ys \<subseteq> set xs \<Longrightarrow> readable C reader ys"
  unfolding readable_def by blast

lemma parsed_readable:
  "readable C reader xs \<Longrightarrow> parsedTimers C reader (take n xs) = take n (parsedTimers C reader xs)"
proof (induction xs arbitrary: n)
  case (Cons kv xs)
  then show ?case by (cases kv; cases n) (auto simp: readable_def parsedTimers_def map_filter_simps split: sum.splits option.splits)
qed (simp add: parsedTimers_def map_filter_simps)

text \<open>The keys of a family and what is stored under them.\<close>

abbreviation family_keys :: "store \<Rightarrow> timer_scan \<Rightarrow> jsstring list" where
  "family_keys m scan \<equiv> sorted_list_of_set {k \<in> dom m. in_prefix_range (sn_prefix scan) k}"

abbreviation with_values :: "store \<Rightarrow> jsstring list \<Rightarrow> (jsstring \<times> bytes) list" where
  "with_values m ks \<equiv> map (\<lambda>k. (k, the (m k))) ks"

lemma family_key:
  assumes "timer_store C m" "finite (dom m)" "scan \<in> set (timerScans now)" "k \<in> set (family_keys m scan)"
  shows "\<exists>e t r. parseTimer C (sn_reader scan) k (the (m k)) = Inr (Some e) \<and> te_fireAt e = of_nat t \<and> t < 10 ^ 16 \<and>
    k = sn_prefix scan @ formatSortableTimestamp t @ 58 # r"
proof -
  obtain v where v: "m k = Some v" "in_prefix_range (sn_prefix scan) k" using assms(2,4) by auto
  have "timer_record C scan k v"
    using timerScans_shape(3) [OF assms(3)] assms(1) v by (fastforce simp: timer_store_def timer_record_def)
  then show ?thesis using v(1) by (simp add: timer_record_def)
qed

lemma family_sorted:
  assumes key: "\<And>k. k \<in> set ks \<Longrightarrow> \<exists>e t r. parseTimer C (sn_reader scan) k (the (m k)) = Inr (Some e) \<and>
      te_fireAt e = of_nat t \<and> t < 10 ^ 16 \<and> k = sn_prefix scan @ formatSortableTimestamp t @ 58 # r"
    and "sorted ks"
  shows "sorted (map fire (parsedTimers C (sn_reader scan) (with_values m ks)))"
  using assms
proof (induction ks)
  case (Cons k ks)
  then obtain e t r where e: "parseTimer C (sn_reader scan) k (the (m k)) = Inr (Some e)" "te_fireAt e = of_nat t" "t < 10 ^ 16"
    "k = sn_prefix scan @ formatSortableTimestamp t @ 58 # r" by (meson list.set_intros(1))
  have "te_fireAt e \<le> fire f" if f: "f \<in> set (parsedTimers C (sn_reader scan) (with_values m ks))" for f
  proof -
    obtain k' where k': "k' \<in> set ks" "parseTimer C (sn_reader scan) k' (the (m k')) = Inr (Some (st_entry f))"
      using f by (auto simp: parsedTimers_def map_filter_def split: sum.splits option.splits)
    then obtain u r' where u: "te_fireAt (st_entry f) = of_nat u" "u < 10 ^ 16"
      "k' = sn_prefix scan @ formatSortableTimestamp u @ 58 # r'" using Cons.prems(1) [of k'] by auto
    have "\<not> k' < k" using Cons.prems(2) k'(1) by auto
    then have "t \<le> u" using stamped_less [OF u(2) e(3), of "sn_prefix scan" "58 # r'" "58 # r"] e(4) u(3) by auto
    then show ?thesis using e(2) u(1) by simp
  qed
  then show ?case using Cons e(1) by (auto simp: parsedTimers_def map_filter_simps)
qed (simp add: parsedTimers_def map_filter_simps)

lemma scanned_keys:
  assumes "finite (dom m)"
  shows "scan_found m limit scan =
    take limit (with_values m (filter (\<lambda>k. k < resolvePrefixRangeEnd (the (sn_bound scan))) (family_keys m scan)))"
proof -
  let ?opts = "timerScanOptions (the (sn_bound scan)) limit"
  have "{k \<in> dom m. in_prefix_range (sn_prefix scan) k \<and> matchesScanOptions k ?opts}
      = {k \<in> {k \<in> dom m. in_prefix_range (sn_prefix scan) k}. k < resolvePrefixRangeEnd (the (sn_bound scan))}"
    by (auto simp: timerScanOptions_def default_scan_options_def matchesScanOptions_def)
  moreover have "finite {k \<in> dom m. in_prefix_range (sn_prefix scan) k}" using assms by simp
  ultimately have K: "sorted_list_of_set {k \<in> dom m. in_prefix_range (sn_prefix scan) k \<and> matchesScanOptions k ?opts}
      = filter (\<lambda>k. k < resolvePrefixRangeEnd (the (sn_bound scan))) (family_keys m scan)"
    by (simp only: sorted_list_of_set_Collect)
  have o: "so_limit (timerScanOptions b limit) = Some (JFin (of_nat limit))" "\<not> so_reverse (timerScanOptions b limit)" for b
    by (simp_all add: timerScanOptions_def default_scan_options_def)
  show ?thesis
    unfolding scan_found_def scan_entries_def scan_keys_def Let_def K o(1) take_limit_of_nat using o(2) by (simp add: take_map)
qed

lemma scan_found_due:
  assumes m: "timer_store C m" "finite (dom m)" and scan: "scan \<in> set (timerScans now)" and now: "now < 10 ^ 16"
  shows "readable C (sn_reader scan) (scan_found m limit scan)"
    and "parsedTimers C (sn_reader scan) (scan_found m limit scan) = take limit (due C m now scan)"
    and "sorted (map fire (due C m now scan))"
proof -
  define lt where "lt = (\<lambda>k. k < resolvePrefixRangeEnd (the (sn_bound scan)))"
  note key = family_key [OF m scan]
  note found = scanned_keys [OF m(2), of limit scan, folded lt_def]
  have lt: "lt k \<longleftrightarrow> te_fireAt e \<le> of_nat now"
    if "k \<in> set (family_keys m scan)" "parseTimer C (sn_reader scan) k (the (m k)) = Inr (Some e)" for k e
    using key [OF that(1)] that(2) due_bound [OF _ now, where p = "sn_prefix scan"] timerScans_shape(2) [OF scan]
    by (auto simp: lt_def)
  have part: "readable C (sn_reader scan) (with_values m (filter lt (family_keys m scan)))"
    unfolding readable_def
  proof (clarify, goal_cases)
    case (1 k v)
    then have "k \<in> set (family_keys m scan)" "v = the (m k)" by auto
    then show ?case using key [of k] by blast
  qed
  then show "readable C (sn_reader scan) (scan_found m limit scan)"
    unfolding found by (rule readable_mono) (rule set_take_subset)
  have filter: "parsedTimers C (sn_reader scan) (with_values m (filter lt ks)) =
      filter (\<lambda>e. fire e \<le> of_nat now) (parsedTimers C (sn_reader scan) (with_values m ks))"
    if "set ks \<subseteq> set (family_keys m scan)" for ks
    using that
  proof (induction ks)
    case (Cons k ks)
    then obtain e where "parseTimer C (sn_reader scan) k (the (m k)) = Inr (Some e)" using key [of k] by auto
    then show ?case using Cons lt [of k e] by (auto simp: parsedTimers_def map_filter_simps)
  qed (simp add: parsedTimers_def map_filter_simps)
  show "parsedTimers C (sn_reader scan) (scan_found m limit scan) = take limit (due C m now scan)"
    unfolding found parsed_readable [OF part] filter [OF subset_refl] due_def family_def ..
  have "sorted (map fire (family C m scan))"
    unfolding family_def by (rule family_sorted [OF key]) simp_all
  then show "sorted (map fire (due C m now scan))" unfolding due_def by (rule sorted_filter)
qed

context storage_spec
begin

lemma open_due:
  assumes "invar s" and "timer_store C (contents s)" and "now < 10 ^ 16"
  shows "\<exists>sources. openSources S C limit (timerScans now) s = (Inr sources, s) \<and> (\<forall>source \<in> set sources. source_ok C source) \<and>
    map (remaining C) sources = map (\<lambda>scan. take limit (due C (contents s) now scan)) (timerScans now)"
proof -
  note due = scan_found_due [OF assms(2) finite_contents [OF assms(1)] _ assms(3)]
  have "\<exists>sources. openSources S C limit (timerScans now) s = (Inr sources, s) \<and> (\<forall>source \<in> set sources. source_ok C source) \<and>
    map (remaining C) sources = map (\<lambda>scan. parsedTimers C (sn_reader scan) (scan_found (contents s) limit scan)) (timerScans now)"
    by (rule openSources_readable [OF assms(1)]) (use due(1) timerScans_shape(1,2) in auto)
  moreover have "map (\<lambda>scan. parsedTimers C (sn_reader scan) (scan_found (contents s) limit scan)) (timerScans now)
      = map (\<lambda>scan. take limit (due C (contents s) now scan)) (timerScans now)"
    using due(2) by simp
  ultimately show ?thesis by simp
qed

end

abbreviation tick_limit :: "scheduler \<Rightarrow> nat" where
  "tick_limit sch \<equiv> EXPIRED_TIMER_SCAN_LIMIT_PER_SOURCE + length (sc_deferred sch)"

lemma process_result:
  assumes "openSources (th_storage H) (th_codec H) (tick_limit sch) (timerScans now) s = (Inr sources, s)"
    and "tickLoop (th_storage H) (th_codec H) (th_localeLess H) (th_onTimerFired H) now respectStopped (startTick sources sch s)
      = (None, tk)"
  shows "\<exists>tk'. processExpiredTimers H now respectStopped sch s = (None, tk') \<and> tk_fired tk' = tk_fired tk \<and>
    tk_processed tk' = tk_processed tk \<and>
    tk_store tk' = deleteProcessedTimerKeys (th_commitTimerCleanup H) (tk_cleanup tk) (tk_store tk)"
  using assms by (simp add: processExpiredTimers_def)

lemma queue_start: "tick_queue C (startTick sources sch s) = concat (map (remaining C) sources)"
  by (simp add: tick_queue_def startTick_def)

section \<open>Scheduling writes well-formed timers\<close>

lemma timerValue_roundtrip: "isTimerEntry (timerValue e)" "timerEntryOf (timerValue e) = e"
proof -
  have kind: "kindOf (JString (kindName (te_kind e))) = Some (te_kind e)"
    by (cases "te_kind e") (simp_all add: kindOf_def timerKinds_def)
  note D = timerValue_def field_def kind stringOf_def finiteOf_def
  show "isTimerEntry (timerValue e)"
    by (simp add: D isTimerEntry_def isObject_def hasStringProperty_def isString_def hasFiniteNumberProperty_def
        isFinite_def isTimerEntryKind_def)
  show "timerEntryOf (timerValue e) = e"
    by (simp add: D timerEntryOf_def) 
qed

lemma digits_value_snoc: "digits_value n (xs @ [c]) = 10 * digits_value n xs + (unat c - 48)"
  by (induction xs arbitrary: n) simp_all

lemma digits_value_numberString: "digits_value 0 (numberString t) = t"
proof (induction t rule: decimalDigits.induct)
  case (1 n)
  show ?case
  proof (cases "n < 10")
    case True
    moreover have "unat (of_nat (48 + n) :: 16 word) = 48 + n" by (rule unat_of_nat16) (use True in simp)
    ultimately show ?thesis by (simp add: numberString_def decimalDigits.simps [of n] del: of_nat_add)
  next
    case False
    have "numberString n = numberString (n div 10) @ [of_nat (48 + n mod 10)]"
      using False by (simp add: numberString_def decimalDigits.simps [of n])
    moreover have "unat (of_nat (48 + n mod 10) :: 16 word) = 48 + n mod 10" by (rule unat_of_nat16) simp
    ultimately show ?thesis using 1 False by (simp add: digits_value_snoc del: of_nat_add)
  qed
qed

lemma digits_value_padded: "digits_value 0 (formatSortableTimestamp t) = t"
proof -
  have "digits_value 0 (replicate k 48 @ s) = digits_value 0 s" for k s by (induction k) simp_all
  then show ?thesis by (simp add: formatSortableTimestamp_def padStart_def digits_value_numberString)
qed

lemma stamp_digits: "list_all isDigit (formatSortableTimestamp t)" "formatSortableTimestamp t \<noteq> []"
proof -
  show "list_all isDigit (formatSortableTimestamp t)"
    unfolding list_all_iff formatSortableTimestamp_def
    by (auto dest!: padded_range simp: isDigit_def word_le_nat_alt)
  show "formatSortableTimestamp t \<noteq> []"
    by (auto simp: formatSortableTimestamp_def padStart_def numberString_def decimalDigits.simps [of t])
qed

lemma digit_class:
  assumes "isDigit c"
  shows "c \<noteq> 45" "c \<noteq> 43" "lowerAscii c = c" "c \<noteq> 120" "c \<noteq> 111" "c \<noteq> 98" "c \<noteq> 73"
proof -
  have c: "48 \<le> uint c" "uint c \<le> 57" using assms by (simp_all add: isDigit_def word_le_def)
  then show "c \<noteq> 45" "c \<noteq> 43" "c \<noteq> 120" "c \<noteq> 111" "c \<noteq> 98" "c \<noteq> 73" by auto
  show "lowerAscii c = c" using c by (auto simp: lowerAscii_def word_le_def)
qed

lemma jsNumber_digits:
  assumes "ds \<noteq> []" and "list_all isDigit ds"
  shows "jsNumber ds = JFin (of_nat (digits_value 0 ds))"
proof -
  obtain c cs where ds: "ds = c # cs" "isDigit c" "list_all isDigit cs" using assms by (cases ds) auto
  have trim: "trim ds = ds"
    using assms by (intro trim_id) (auto simp: list_all_iff isDigit_simps)
  have "radixLiteral ds = None"
    using ds by (auto simp: radixLiteral_def digit_class split: list.splits)
  moreover have "ds \<noteq> js ''Infinity''" using ds digit_class(7) [OF ds(2)] by (auto simp: js_def)
  moreover have "decimalLiteral ds = Some (of_nat (digits_value 0 ds))"
    using assms by (simp add: decimalLiteral_def list_all_iff exponentValue_def powerOfTen_def takeWhile_eq_all_conv [THEN iffD2]
        dropWhile_eq_Nil_conv [THEN iffD2])
  ultimately show ?thesis using ds digit_class [OF ds(2)] by (simp add: jsNumber_def trim [unfolded ds(1)])
qed

lemma parseWorkflowTimer_key:
  assumes "encodeURIComponent i = Some enc" and "int t \<le> MAX_SAFE_INTEGER"
  shows "parseWorkflowTimer kind (workflowPrefix kind @ formatSortableTimestamp t @ 58 # enc) (JString w)
    = Some \<lparr>te_id = i, te_workflowId = w, te_fireAt = of_nat t, te_kind = kind, te_executionTimeoutMs = JUndefined\<rparr>"
proof -
  have "58 \<notin> set (formatSortableTimestamp t)"
    using colon_padded [of t 16] by (simp add: formatSortableTimestamp_def colonUnit_def)
  then have "takeWhile (\<lambda>c. c \<noteq> 58) (formatSortableTimestamp t @ 58 # enc) = formatSortableTimestamp t"
    by (subst takeWhile_append2) auto
  then have "splitAfterPrefix (workflowPrefix kind @ formatSortableTimestamp t @ 58 # enc) (length (workflowPrefix kind))
      = Some (formatSortableTimestamp t, enc)"
    by (simp add: splitAfterPrefix_def)
  moreover have "jsNumber (formatSortableTimestamp t) = JFin (of_nat t)"
    using jsNumber_digits [OF stamp_digits(2,1)] by (simp add: digits_value_padded)
  moreover have "isSafeInteger (JFin (of_nat t))"
    using assms(2) floor_of_int [of "int t", where 'a = rat] by (simp add: isSafeInteger_def)
  ultimately show ?thesis
    using decode_encode [OF assms(1)] by (simp add: parseWorkflowTimer_def tryDecodeStorageKeyComponent_def)
qed

definition codec_roundtrip :: "value_codec \<Rightarrow> bool" where
  "codec_roundtrip C \<longleftrightarrow> (\<forall>v. vc_decode C (vc_encode C v) = Some v)"

text \<open>The keys of one family do not lie in the range of another, and index keys lie in none.\<close>

lemma range_prefix: "scan \<in> set (timerScans now) \<Longrightarrow> in_prefix_range (sn_prefix scan) k \<longleftrightarrow> prefix (sn_prefix scan) k"
proof -
  assume "scan \<in> set (timerScans now)"
  then have "sn_prefix scan \<noteq> [] \<and> last (sn_prefix scan) = 58"
    unfolding timerScans_def list.set insert_iff empty_iff by (elim disjE; simp add: js_def)
  then have "sn_prefix scan \<noteq> [] \<and> last (sn_prefix scan) \<noteq> - 1" by simp
  then show ?thesis using resolvePrefixRangeEnd_exact [of "sn_prefix scan"] by blast
qed

lemma families_apart:
  assumes "a \<in> set (timerScans 0)" and "b \<in> set (timerScans 0)" and "in_prefix_range (sn_prefix b) (sn_prefix a @ r)"
  shows "b = a"
proof -
  have "prefix (sn_prefix b) (sn_prefix a @ r)" using range_prefix [OF assms(2)] assms(3) by blast
  then show ?thesis
    using assms(1,2) unfolding timerScans_def list.set insert_iff empty_iff
    by (elim disjE; simp add: js_def)
qed

lemma index_in_no_family: "scan \<in> set (timerScans 0) \<Longrightarrow> \<not> in_prefix_range (sn_prefix scan) (timerIndexKey i)"
proof -
  assume scan: "scan \<in> set (timerScans 0)"
  then have "\<not> prefix (sn_prefix scan) (timerIndexKey i)"
    unfolding timerScans_def list.set insert_iff empty_iff by (elim disjE; simp add: timerIndexKey_def js_def)
  then show ?thesis using range_prefix [OF scan] by blast
qed

definition timerFamily :: "timer_kind \<Rightarrow> timer_scan" where
  "timerFamily kind = timerScans 0 !
     (case kind of DelayedStart \<Rightarrow> 1 | ScheduleTick \<Rightarrow> 2 | TerminalCleanup \<Rightarrow> 3 | Teardown \<Rightarrow> 4 | _ \<Rightarrow> 0)"

lemma timerFamily_in: "timerFamily kind \<in> set (timerScans 0)"
  unfolding timerFamily_def by (rule nth_mem) (simp add: timerScans_def split: timer_kind.splits)

lemma render_timer_key:
  "renderKey [Lit p, Raw stamp, Lit '':'', Enc i] = Some key \<longleftrightarrow>
     (\<exists>enc. encodeURIComponent i = Some enc \<and> key = js p @ stamp @ 58 # enc)"
  by (auto simp: encodeStorageKeyComponent_def js_def split: option.splits)

lemma scanned_record:
  assumes "codec_roundtrip C" and "scan \<in> set (timerScans 0)" "sn_reader scan = ReadScanned"
    and "te_fireAt e = of_nat t" "t < 10 ^ 16" "key = sn_prefix scan @ formatSortableTimestamp t @ 58 # r"
  shows "timer_record C scan key (vc_encode C (timerValue e))"
  using assms timerValue_roundtrip [of e]
  by (auto simp: timer_record_def parseTimer_def decodeTimer_def codec_roundtrip_def)

lemma workflow_record:
  assumes "codec_roundtrip C" and "encodeURIComponent i = Some enc" and "int t \<le> MAX_SAFE_INTEGER"
    and "kind = TerminalCleanup \<or> kind = Teardown"
  shows "timer_record C (timerFamily kind) (workflowPrefix kind @ formatSortableTimestamp t @ 58 # enc) (vc_encode C (JString w))"
proof -
  have family: "sn_reader (timerFamily kind) = ReadWorkflow kind" "sn_prefix (timerFamily kind) = workflowPrefix kind"
    using assms(4) by (auto simp: timerFamily_def timerScans_def workflowPrefix_def)
  have "t < 10 ^ 16" using assms(3) by (simp add: MAX_SAFE_INTEGER_def)
  then show ?thesis
    using assms(1) parseWorkflowTimer_key [OF assms(2,3), of kind w]
    by (auto simp: timer_record_def family parseTimer_def decodeTimer_def codec_roundtrip_def)
qed

text \<open>Every write of a timer is one record of its family, and an index for the kinds that can be cancelled.\<close>

lemma buildTimerBatchOperations_record:
  assumes "buildTimerBatchOperations C entry = Inr ops" and C: "codec_roundtrip C"
  shows "\<exists>key v. timer_record C (timerFamily (te_kind entry)) key v \<and>
    (ops = [Put key v] \<or> ops = [Put key v, Put (timerIndexKey (te_id entry)) (vc_encode C (JString key))])"
proof -
  obtain n where n: "normalizeStorageTimestamp (JFin (te_fireAt entry)) = Inr n"
    using assms(1) by (cases "normalizeStorageTimestamp (JFin (te_fireAt entry))") (simp_all add: buildTimerBatchOperations_def)
  then have range: "0 \<le> n" "n \<le> MAX_SAFE_INTEGER"
    by (auto simp: normalizeStorageTimestamp_def isSafeInteger_def Let_def split: if_splits)
  have t: "int (nat n) \<le> MAX_SAFE_INTEGER" "nat n < 10 ^ 16" "of_int n = (of_nat (nat n) :: rat)"
    using range by (simp_all add: MAX_SAFE_INTEGER_def)
  show ?thesis
  proof (cases "te_kind entry = TerminalCleanup \<or> te_kind entry = Teardown")
    case True
    then obtain key where key: "(if te_kind entry = TerminalCleanup then KEYS_terminalCleanup (nat n) (te_id entry)
        else KEYS_teardownTimer (nat n) (te_id entry)) = Some key" "ops = [Put key (vc_encode C (JString (te_workflowId entry)))]"
      using assms(1) n by (auto simp: buildTimerBatchOperations_def and_then_Inr_iff timer_key_def Let_def split: option.splits)
    then obtain enc where enc: "encodeURIComponent (te_id entry) = Some enc"
      "key = workflowPrefix (te_kind entry) @ formatSortableTimestamp (nat n) @ 58 # enc"
      using True by (auto simp: KEYS_terminalCleanup_def KEYS_teardownTimer_def render_timer_key workflowPrefix_def
          simp del: renderKey.simps)
    show ?thesis using workflow_record [OF C enc(1) t(1) True] enc(2) key(2) by blast
  next
    case False
    let ?e = "entry\<lparr>te_fireAt := of_int n\<rparr>"
    obtain key where key: "(case te_kind entry of DelayedStart \<Rightarrow> KEYS_delayedStart (nat n) (te_workflowId entry)
        | ScheduleTick \<Rightarrow> KEYS_scheduleTick (nat n) (te_workflowId entry) | _ \<Rightarrow> KEYS_deadline (nat n) (te_id entry)) = Some key"
      "ops = [Put key (vc_encode C (timerValue ?e)), Put (timerIndexKey (te_id entry)) (vc_encode C (JString key))]"
      using assms(1) n False
      by (auto simp: buildTimerBatchOperations_def and_then_Inr_iff timer_key_def Let_def split: option.splits)
    obtain r where r: "key = sn_prefix (timerFamily (te_kind entry)) @ formatSortableTimestamp (nat n) @ 58 # r"
    proof -
      define p where "p = (case te_kind entry of DelayedStart \<Rightarrow> ''wf-delayed:'' | ScheduleTick \<Rightarrow> ''schedule-due:'' | _ \<Rightarrow> ''wf-deadline:'')"
      define i where "i = (if te_kind entry = DelayedStart \<or> te_kind entry = ScheduleTick then te_workflowId entry else te_id entry)"
      have "renderKey [Lit p, Raw (formatSortableTimestamp (nat n)), Lit '':'', Enc i] = Some key"
        using key(1) by (cases "te_kind entry") (simp_all add: p_def i_def KEYS_delayedStart_def KEYS_scheduleTick_def
            KEYS_deadline_def formatSortableTimestamp_def del: renderKey.simps)
      moreover have "js p = sn_prefix (timerFamily (te_kind entry))"
        using False by (cases "te_kind entry") (simp_all add: p_def timerFamily_def timerScans_def)
      ultimately show thesis unfolding render_timer_key using that by auto
    qed
    have "sn_reader (timerFamily (te_kind entry)) = ReadScanned"
      using False by (cases "te_kind entry") (simp_all add: timerFamily_def timerScans_def)
    moreover have "te_fireAt ?e = of_nat (nat n)" unfolding t(3) [symmetric] by simp
    ultimately have "timer_record C (timerFamily (te_kind entry)) key (vc_encode C (timerValue ?e))"
      by (rule scanned_record [OF C timerFamily_in _ _ t(2) r])
    then show ?thesis using key(2) by blast
  qed
qed

lemma timer_record_key: "timer_record C scan k v \<Longrightarrow> \<exists>r. k = sn_prefix scan @ r"
  by (auto simp: timer_record_def)

lemma timer_store_put:
  assumes "timer_store C m" and "timer_record C (timerFamily kind) key v"
  shows "timer_store C (m(key \<mapsto> v))"
  unfolding timer_store_def
proof (intro ballI allI impI)
  fix scan k w
  assume scan: "scan \<in> set (timerScans 0)" and k: "(m(key \<mapsto> v)) k = Some w" "in_prefix_range (sn_prefix scan) k"
  show "timer_record C scan k w"
  proof (cases "k = key")
    case True
    obtain r where "key = sn_prefix (timerFamily kind) @ r" using timer_record_key [OF assms(2)] by blast
    then have "scan = timerFamily kind" using families_apart [OF timerFamily_in scan] k(2) True by blast
    then show ?thesis using True k(1) assms(2) by simp
  next
    case False
    then show ?thesis using assms(1) scan k by (simp add: timer_store_def)
  qed
qed

lemma timer_store_index: "timer_store C m \<Longrightarrow> timer_store C (m(timerIndexKey i \<mapsto> v))"
  unfolding timer_store_def using index_in_no_family by (metis fun_upd_apply)

lemma schedule_keeps_timer_store:
  assumes "memory_invar s" and "timer_store C (memory_contents s)" and "codec_roundtrip C"
    and "scheduler_schedule memoryStorage C entry s = (r, s')"
  shows "memory_invar s' \<and> timer_store C (memory_contents s')"
proof (cases "buildTimerBatchOperations C entry")
  case (Inl err)
  then show ?thesis using assms by (simp add: scheduler_schedule_def)
next
  case (Inr ops)
  obtain key v where kv: "timer_record C (timerFamily (te_kind entry)) key v"
    "ops = [Put key v] \<or> ops = [Put key v, Put (timerIndexKey (te_id entry)) (vc_encode C (JString key))]"
    using buildTimerBatchOperations_record [OF Inr assms(3)] by blast
  have "length ops \<le> MAX_BATCH_OPERATIONS" using kv(2) by (auto simp: MAX_BATCH_OPERATIONS_def)
  from mem.batch_ok [OF assms(1) this] obtain s'' where "batch_op memoryStorage s ops = (Inr (), s'')" "memory_invar s''"
    "memory_contents s'' = apply_operations ops (memory_contents s)" by blast
  then show ?thesis
    using assms(4) Inr kv(2) timer_store_put [OF assms(2) kv(1)] timer_store_index
    by (auto simp: scheduler_schedule_def)
qed

text \<open>
  C27: over a store of well-formed timers, a tick fires the timers of all five families merged by fire time:
  no callback runs before that of an earlier timer, and no tick fails.
\<close>

theorem timers_fire_in_order:
  assumes "th_storage H = memoryStorage" and "memory_invar s" and "timer_store (th_codec H) (memory_contents s)"
    and "now < 10 ^ 16" and "\<not> sc_stopped sch"
  shows "\<exists>tk. scheduler_tick H now sch s = (None, tk) \<and> sorted (map fire (tk_fired tk))"
proof -
  obtain sources where sources: "openSources memoryStorage (th_codec H) (tick_limit sch) (timerScans now) s = (Inr sources, s)"
    "\<forall>source \<in> set sources. source_ok (th_codec H) source"
    "map (remaining (th_codec H)) sources
      = map (\<lambda>scan. take (tick_limit sch) (due (th_codec H) (memory_contents s) now scan)) (timerScans now)"
    using mem.open_due [OF assms(2-4)] by blast
  have "sorted (map fire (remaining (th_codec H) source))" if source: "source \<in> set sources" for source
  proof -
    obtain scan where "scan \<in> set (timerScans now)"
      "remaining (th_codec H) source = take (tick_limit sch) (due (th_codec H) (memory_contents s) now scan)"
      using source arg_cong [OF sources(3), of set] by auto
    then show ?thesis
      using scan_found_due(3) [OF assms(3) mem.finite_contents [OF assms(2)] _ assms(4)]
      by (simp add: take_map [symmetric])
  qed
  then have "ordered_tick (th_codec H) (startTick sources sch s)"
    using sources(2) by (simp add: ordered_tick_def startTick_def)
  from tickLoop_ordered [OF this] obtain tk where
    "tickLoop memoryStorage (th_codec H) (th_localeLess H) (th_onTimerFired H) now True (startTick sources sch s) = (None, tk)"
    "ordered_tick (th_codec H) tk" by blast
  then show ?thesis
    using process_result [of H sch now s sources True tk] sources(1) assms(1,5)
    by (auto simp: scheduler_tick_def ordered_tick_def)
qed

lemma distinct_take_all:
  "distinct (map f (concat xss)) \<Longrightarrow> distinct (map f (concat (map (take n) xss)))"
proof (induction xss)
  case (Cons xs xss)
  have "set (concat (map (take n) xss)) \<subseteq> set (concat xss)" by (auto dest: in_set_takeD)
  then have "f ` set (concat (map (take n) xss)) \<subseteq> f ` set (concat xss)" by (rule image_mono)
  moreover have "f ` set (take n xs) \<subseteq> f ` set xs" by (intro image_mono set_take_subset)
  moreover have "distinct (map f (take n xs))" using Cons.prems by (simp add: take_map [symmetric] distinct_take)
  moreover have "f ` set xs \<inter> f ` set (concat xss) = {}" using Cons.prems by simp
  ultimately have "distinct (map f (take n xs))" "f ` set (take n xs) \<inter> f ` set (concat (map (take n) xss)) = {}" by blast+
  moreover have "distinct (map f (concat (map (take n) xss)))" using Cons by simp
  ultimately show ?case by (simp only: list.map concat.simps map_append distinct_append set_map)
qed simp

text \<open>What callbacks leave alone in the store.\<close>

definition keeps_store :: "memory_storage timer_callback \<Rightarrow> bool" where
  "keeps_store cb \<longleftrightarrow> (\<forall>e sch s out sch' s'. memory_invar s \<longrightarrow> cb e sch s = (out, sch', s') \<longrightarrow> memory_invar s')"

definition keeps_key :: "memory_storage timer_callback \<Rightarrow> jsstring \<Rightarrow> bool" where
  "keeps_key cb k \<longleftrightarrow> (\<forall>e sch s out sch' s'. memory_invar s \<longrightarrow> cb e sch s = (out, sch', s') \<longrightarrow>
     memory_contents s' k = memory_contents s k)"

text \<open>
  C25: no due timer starves behind deferred ones. Let the ids of the due timers be distinct, and let the
  callbacks neither stop the scheduler, nor defer other timers, nor write or delete the stored entry of a
  due timer. Then of each family a tick runs the callbacks of the first thousand due timers that are not
  deferred, however many deferred timers lie before them in the store. The condition on the entries makes
  the scan of the in-memory store the snapshot taken here (\<open>memory_scan_stable\<close>): a timer that an
  earlier callback of the tick deletes is skipped by \<open>MemoryStorage\<close>, which reads each entry only when
  its turn comes (\<open>memory_scan_during\<close>).
\<close>

theorem due_timers_fire:
  assumes "th_storage H = memoryStorage" and "memory_invar s" and "timer_store (th_codec H) (memory_contents s)"
    and "now < 10 ^ 16" and "\<not> sc_stopped sch" and "releases_only (th_onTimerFired H)"
    and "distinct (map (\<lambda>e. te_id (st_entry e)) (concat (map (due (th_codec H) (memory_contents s) now) (timerScans now))))"
    and "keeps_store (th_onTimerFired H)"
    and "\<And>scan e. scan \<in> set (timerScans now) \<Longrightarrow> e \<in> set (due (th_codec H) (memory_contents s) now scan) \<Longrightarrow>
           keeps_key (th_onTimerFired H) (st_key e)"
    and "scan \<in> set (timerScans now)"
    and "e \<in> set (take 1000 (filter (\<lambda>e. \<not> isDeferred sch (te_id (st_entry e)) now) (due (th_codec H) (memory_contents s) now scan)))"
  shows "\<exists>tk. scheduler_tick H now sch s = (None, tk) \<and> e \<in> set (tk_fired tk)"
proof -
  let ?due = "due (th_codec H) (memory_contents s) now"
  obtain sources where sources: "openSources memoryStorage (th_codec H) (tick_limit sch) (timerScans now) s = (Inr sources, s)"
    "\<forall>source \<in> set sources. source_ok (th_codec H) source"
    "map (remaining (th_codec H)) sources = map (\<lambda>scan. take (tick_limit sch) (?due scan)) (timerScans now)"
    using mem.open_due [OF assms(2-4)] by blast
  have q: "tick_queue (th_codec H) (startTick sources sch s)
      = concat (map (take (tick_limit sch)) (map ?due (timerScans now)))"
    by (simp add: queue_start sources(3) comp_def)
  have "distinct (map (\<lambda>e. te_id (st_entry e)) (?due scan))"
    using assms(7,10) by (auto simp: map_concat distinct_concat_iff)
  from take_filter_within [OF deferred_few [OF this], of 1000 sch now] have "e \<in> set (take (tick_limit sch) (?due scan))"
    using assms(11) by (auto simp: EXPIRED_TIMER_SCAN_LIMIT_PER_SOURCE_def)
  moreover have "\<not> isDeferred sch (te_id (st_entry e)) now" using assms(11) by (auto dest: in_set_takeD)
  ultimately have "awaits (th_codec H) now e (startTick sources sch s)"
    using sources(2) assms(5,10) distinct_take_all [OF assms(7), of "tick_limit sch"] unfolding awaits_def q
    by (auto simp: startTick_def)
  from tickLoop_fires [OF this assms(6)] obtain tk where
    "tickLoop memoryStorage (th_codec H) (th_localeLess H) (th_onTimerFired H) now True (startTick sources sch s) = (None, tk)"
    "e \<in> set (tk_fired tk)" by blast
  then show ?thesis
    using process_result [of H sch now s sources True tk] sources(1) assms(1,5) by (auto simp: scheduler_tick_def)
qed

lemma tickTimer_store:
  "tk_store (tickTimer S C cb now e tk) =
     (if isDeferred (tk_scheduler tk) (te_id (st_entry e)) now then tk_store tk
      else snd (snd (cb (st_entry e) (tk_scheduler tk) (tk_store tk))))"
  by (auto simp: tickTimer_def processSelectedTimer_def split: prod.splits callback_outcome.splits)

definition kept :: "memory_storage timer_callback \<Rightarrow> store \<Rightarrow> memory_storage tick \<Rightarrow> bool" where
  "kept cb m tk \<longleftrightarrow> memory_invar (tk_store tk) \<and> (\<forall>k. keeps_key cb k \<longrightarrow> memory_contents (tk_store tk) k = m k)"

lemma kept_round:
  assumes "kept cb m tk" and "keeps_store cb"
  shows "kept cb m (tickRound S C cb now i e source tk)"
proof -
  obtain out sch s where cb: "cb (st_entry e) (tk_scheduler tk) (tk_store tk) = (out, sch, s)" by (metis prod_cases3)
  have inv: "memory_invar (tk_store tk)" using assms(1) by (simp add: kept_def)
  have "memory_invar s" using assms(2) inv cb by (auto simp: keeps_store_def)
  moreover have "memory_contents s k = memory_contents (tk_store tk) k" if "keeps_key cb k" for k
    using that inv cb by (auto simp: keeps_key_def)
  ultimately show ?thesis using assms(1) by (simp add: kept_def tickTimer_store cb)
qed

lemma tickLoop_deletes:
  assumes "deletes_processed C n tk" "kept cb m tk" "keeps_store cb"
  shows "\<exists>tk'. tickLoop S C cmp cb now respectStopped tk = (None, tk') \<and> deletes_processed C n tk' \<and> kept cb m tk'"
proof -
  have "\<exists>tk'. tickLoop S C cmp cb now respectStopped tk = (None, tk') \<and> (deletes_processed C n tk' \<and> kept cb m tk') \<and>
    ((\<forall>source \<in> set (tk_sources tk'). remaining C source = []) \<or> respectStopped \<and> sc_stopped (tk_scheduler tk'))"
  proof (rule tickLoop_rule [where I = "\<lambda>tk. deletes_processed C n tk \<and> kept cb m tk"])
    show "deletes_processed C n tk \<and> kept cb m tk" using assms(1,2) by simp
    fix tk :: "memory_storage tick"
    assume I: "deletes_processed C n tk \<and> kept cb m tk"
    then show "\<forall>source \<in> set (tk_sources tk). source_ok C source" by (simp add: deletes_processed_def)
    fix i e source
    assume "i < length (tk_sources tk)" "source_ok C source" "remaining C (tk_sources tk ! i) = e # remaining C source"
    then show "deletes_processed C n (tickRound S C cb now i e source tk) \<and> kept cb m (tickRound S C cb now i e source tk)"
      using I deletes_processed_round kept_round [OF _ assms(3)] by blast
  qed
  then show ?thesis by blast
qed

lemma sum_list_bound: "(\<And>x. x \<in> set xs \<Longrightarrow> f x \<le> c) \<Longrightarrow> sum_list (map f xs) \<le> c * length xs" for f :: "'a \<Rightarrow> nat"
proof (induction xs)
  case (Cons x xs)
  then have "f x \<le> c" "sum_list (map f xs) \<le> c * length xs" by simp_all
  then show ?case by simp
qed simp

lemma parseWorkflowTimer_kind: "parseWorkflowTimer kind key v = Some e \<Longrightarrow> te_kind e = kind"
  unfolding parseWorkflowTimer_def by (auto split: option.splits prod.splits jsnum.splits jsval.splits if_splits)

lemma due_weight:
  assumes "e \<in> set (due C m now scan)"
  shows "cleanup_weight e \<le> 2"
    and "sn_reader scan = ReadWorkflow kind \<Longrightarrow> kind = TerminalCleanup \<or> kind = Teardown \<Longrightarrow> cleanup_weight e \<le> 1"
proof -
  show "cleanup_weight e \<le> 2" by (simp add: cleanup_weight_def)
  assume r: "sn_reader scan = ReadWorkflow kind" "kind = TerminalCleanup \<or> kind = Teardown"
  obtain k v where "parseTimer C (sn_reader scan) k v = Inr (Some (st_entry e))"
    using assms by (auto simp: due_def family_def parsedTimers_def map_filter_def split: sum.splits option.splits)
  then have "te_kind (st_entry e) = kind"
    by (auto simp: parseTimer_def and_then_Inr_iff r(1) dest: parseWorkflowTimer_kind)
  then show "cleanup_weight e \<le> 1" using r(2) by (simp add: cleanup_weight_def)
qed

lemma family_weight:
  assumes "\<And>e. e \<in> set xs \<Longrightarrow> cleanup_weight e \<le> c"
  shows "sum_list (map cleanup_weight (take n xs)) \<le> c * n"
proof -
  have "sum_list (map cleanup_weight (take n xs)) \<le> c * length (take n xs)"
    by (rule sum_list_bound) (use assms in \<open>auto dest: in_set_takeD\<close>)
  also have "\<dots> \<le> c * n" by simp
  finally show ?thesis .
qed

lemma tick_weight:
  "sum_list (map cleanup_weight (concat (map (\<lambda>scan. take n (due C m now scan)) (timerScans now)))) \<le> 8 * n"
proof -
  let ?w = "\<lambda>scan. sum_list (map cleanup_weight (take n (due C m now scan)))"
  have two: "?w scan \<le> 2 * n" for scan by (rule family_weight) (rule due_weight(1))
  have one: "?w scan \<le> n" if "sn_reader scan = ReadWorkflow TerminalCleanup \<or> sn_reader scan = ReadWorkflow Teardown" for scan
    using family_weight [of "due C m now scan" 1 n] due_weight(2) that by auto
  have split: "sum_list (map cleanup_weight (concat (map (\<lambda>scan. take n (due C m now scan)) scans))) = sum_list (map ?w scans)" for scans
    by (induction scans) simp_all
  obtain a b c d e where scans: "timerScans now = [a, b, c, d, e]"
    and "sn_reader d = ReadWorkflow TerminalCleanup" "sn_reader e = ReadWorkflow Teardown"
    by (simp add: timerScans_def)
  then have "?w d \<le> n" "?w e \<le> n" using one by blast+
  then show ?thesis unfolding split scans using two [of a] two [of b] two [of c] by simp
qed

text \<open>
  C26: a tick deletes exactly what it processed. With at most 250 deferred timers its deletions fit one batch.
  Then every timer whose callback returned is gone from the store, schedule ticks apart (their index may be
  unreadable), and a value that the callbacks leave alone changes only if it is the key or the index
  of a processed timer: a timer whose callback threw or deferred it survives for the next tick.
\<close>

theorem tick_deletes_exactly_processed:
  assumes "th_storage H = memoryStorage" and "th_commitTimerCleanup H = memory_batch"
    and "memory_invar s" and "timer_store (th_codec H) (memory_contents s)"
    and "now < 10 ^ 16" and "\<not> sc_stopped sch" and "length (sc_deferred sch) \<le> 250"
    and "keeps_store (th_onTimerFired H)"
  shows "\<exists>tk. scheduler_tick H now sch s = (None, tk) \<and> set (tk_processed tk) \<subseteq> set (tk_fired tk) \<and>
    (\<forall>e \<in> set (tk_processed tk). te_kind (st_entry e) \<noteq> ScheduleTick \<longrightarrow> memory_contents (tk_store tk) (st_key e) = None) \<and>
    (\<forall>k. keeps_key (th_onTimerFired H) k \<longrightarrow> memory_contents (tk_store tk) k \<noteq> memory_contents s k \<longrightarrow>
       (\<exists>e \<in> set (tk_processed tk). k = st_key e \<or> k = timerIndexKey (te_id (st_entry e))))"
proof -
  obtain sources where sources: "openSources memoryStorage (th_codec H) (tick_limit sch) (timerScans now) s = (Inr sources, s)"
    "\<forall>source \<in> set sources. source_ok (th_codec H) source"
    "map (remaining (th_codec H)) sources
      = map (\<lambda>scan. take (tick_limit sch) (due (th_codec H) (memory_contents s) now scan)) (timerScans now)"
    using mem.open_due [OF assms(3-5)] by blast
  have "8 * tick_limit sch \<le> MAX_BATCH_OPERATIONS"
    using assms(7) by (simp add: EXPIRED_TIMER_SCAN_LIMIT_PER_SOURCE_def MAX_BATCH_OPERATIONS_def)
  then have "deletes_processed (th_codec H) MAX_BATCH_OPERATIONS (startTick sources sch s)"
    using sources(2) order_trans [OF tick_weight [of "tick_limit sch" "th_codec H" "memory_contents s" now]]
    by (auto simp: deletes_processed_def queue_start sources(3)) (auto simp: startTick_def)
  moreover have "kept (th_onTimerFired H) (memory_contents s) (startTick sources sch s)"
    using assms(3) by (simp add: kept_def startTick_def)
  ultimately obtain tk where
    loop: "tickLoop memoryStorage (th_codec H) (th_localeLess H) (th_onTimerFired H) now True (startTick sources sch s) = (None, tk)"
    and D: "deletes_processed (th_codec H) MAX_BATCH_OPERATIONS tk" and K: "kept (th_onTimerFired H) (memory_contents s) tk"
    using tickLoop_deletes [OF _ _ assms(8)] by blast
  obtain tk' where tk': "scheduler_tick H now sch s = (None, tk')" "tk_fired tk' = tk_fired tk" "tk_processed tk' = tk_processed tk"
    "tk_store tk' = deleteProcessedTimerKeys memory_batch (tk_cleanup tk) (tk_store tk)"
    using process_result [of H sch now s sources True tk] sources(1) loop assms(1,2,6) by (auto simp: scheduler_tick_def)
  define ks where "ks = map op_key (tk_cleanup tk)"
  have ops: "tk_cleanup tk = map Delete ks"
    using D unfolding ks_def deletes_processed_def map_map by (intro map_idI [symmetric]) auto
  have "length (tk_cleanup tk) \<le> MAX_BATCH_OPERATIONS" using D by (simp add: deletes_processed_def)
  from mem.batch_ok [OF _ this, of "tk_store tk"] K obtain s' where
    "memory_batch (tk_store tk) (tk_cleanup tk) = (Inr (), s')"
    "memory_contents s' = apply_operations (tk_cleanup tk) (memory_contents (tk_store tk))"
    by (auto simp: kept_def memoryStorage_def)
  then have store: "memory_contents (tk_store tk') = memory_contents (tk_store tk) |` (- set ks)"
    unfolding tk'(4) deleteProcessedTimerKeys_def ops by (auto simp: apply_deletes)
  have del: "k \<in> set ks \<longleftrightarrow> Delete k \<in> set (tk_cleanup tk)" for k unfolding ops by auto
  show ?thesis
    using D K unfolding tk'(1) deletes_processed_def kept_def
    by (intro exI [of _ tk'] conjI) (auto simp: tk'(2,3) store del restrict_map_def)
qed

section \<open>A sample\<close>

text \<open>One sleep timer due at 5, in a store of its own, with a codec that knows its value.\<close>

definition demoTimer :: timer_entry where
  "demoTimer = \<lparr>te_id = js ''a'', te_workflowId = js ''w'', te_fireAt = 5, te_kind = Sleep, te_executionTimeoutMs = JUndefined\<rparr>"

definition demoTimerKey :: jsstring where
  "demoTimerKey = js ''wf-deadline:0000000000000005:a''"

definition demoTimerCodec :: value_codec where
  "demoTimerCodec = \<lparr>vc_encode = (\<lambda>v. if v = timerValue demoTimer then [1] else []),
     vc_decode = (\<lambda>b. if b = [1] then Some (timerValue demoTimer) else None)\<rparr>"

definition demoTimerStore :: memory_storage where
  "demoTimerStore = \<lparr>mem_data = [(demoTimerKey, [1])]\<rparr>"

definition demoTimerHost :: "memory_storage timer_host" where
  "demoTimerHost = \<lparr>th_storage = memoryStorage, th_codec = demoTimerCodec, th_localeLess = (<),
     th_onTimerFired = (\<lambda>e sch s. (CallbackReturned, sch, s)), th_commitTimerCleanup = memory_batch\<rparr>"

lemma demo_timer_contents: "memory_invar demoTimerStore" "memory_contents demoTimerStore = [demoTimerKey \<mapsto> [1]]"
  by (simp_all add: demoTimerStore_def memory_invar_def memory_contents_def)

lemma demo_key: "demoTimerKey = js ''wf-deadline:'' @ formatSortableTimestamp 5 @ 58 # js ''a''"
  by code_simp

lemma demo_parse: "parseTimer demoTimerCodec ReadScanned demoTimerKey [1] = Inr (Some demoTimer)"
  using timerValue_roundtrip [of demoTimer] by (simp add: parseTimer_def decodeTimer_def demoTimerCodec_def)

lemma demo_family:
  "scan \<in> set (timerScans now) \<Longrightarrow> in_prefix_range (sn_prefix scan) demoTimerKey \<longleftrightarrow> sn_prefix scan = js ''wf-deadline:''"
proof -
  assume scan: "scan \<in> set (timerScans now)"
  then have "prefix (sn_prefix scan) demoTimerKey \<longleftrightarrow> sn_prefix scan = js ''wf-deadline:''"
    unfolding timerScans_def list.set insert_iff empty_iff by (elim disjE; simp add: demoTimerKey_def js_def)
  then show ?thesis using range_prefix [OF scan] by blast
qed

lemma demo_timer_store: "timer_store demoTimerCodec (memory_contents demoTimerStore)"
  unfolding timer_store_def demo_timer_contents(2)
proof (intro ballI allI impI)
  fix scan k and v :: bytes
  assume scan: "scan \<in> set (timerScans 0)" and k: "[demoTimerKey \<mapsto> [1]] k = Some v" "in_prefix_range (sn_prefix scan) k"
  then have kv: "k = demoTimerKey" "v = [1]" by (simp_all split: if_splits)
  then have p: "sn_prefix scan = js ''wf-deadline:''" using demo_family [OF scan] k(2) by simp
  then have "sn_reader scan = ReadScanned" using scan by (auto simp: timerScans_def)
  then show "timer_record demoTimerCodec scan k v"
    using demo_parse by (auto simp: timer_record_def kv p demo_key [symmetric] demoTimer_def
        intro!: exI [of _ demoTimer] exI [of _ 5] exI [of _ "js ''a''"])
qed

lemma demo_due:
  assumes "scan \<in> set (timerScans 10)"
  shows "due demoTimerCodec (memory_contents demoTimerStore) 10 scan =
    (if sn_prefix scan = js ''wf-deadline:'' then [\<lparr>st_key = demoTimerKey, st_entry = demoTimer\<rparr>] else [])"
proof -
  have keys: "{k \<in> dom [demoTimerKey \<mapsto> [1]]. in_prefix_range (sn_prefix scan) k} =
      (if sn_prefix scan = js ''wf-deadline:'' then {demoTimerKey} else {})"
    using demo_family [OF assms] by auto
  have "sn_prefix scan = js ''wf-deadline:'' \<Longrightarrow> sn_reader scan = ReadScanned"
    using assms by (auto simp: timerScans_def)
  then show ?thesis
    using demo_parse unfolding due_def family_def demo_timer_contents(2) keys
    by (simp add: parsedTimers_def map_filter_simps demoTimer_def)
qed

lemma demo_dues:
  "concat (map (due demoTimerCodec (memory_contents demoTimerStore) 10) (timerScans 10))
     = [\<lparr>st_key = demoTimerKey, st_entry = demoTimer\<rparr>]"
proof -
  have "map (due demoTimerCodec (memory_contents demoTimerStore) 10) (timerScans 10) =
      map (\<lambda>scan. if sn_prefix scan = js ''wf-deadline:'' then [\<lparr>st_key = demoTimerKey, st_entry = demoTimer\<rparr>] else [])
        (timerScans 10)"
    using demo_due by simp
  then show ?thesis by (simp add: timerScans_def)
qed

lemma demo_callback: "releases_only (th_onTimerFired demoTimerHost)" "keeps_store (th_onTimerFired demoTimerHost)"
  "keeps_key (th_onTimerFired demoTimerHost) k"
  by (auto simp: demoTimerHost_def releases_only_def keeps_store_def keeps_key_def)

theorem timers_fire_in_order_witness:
  "\<exists>tk. scheduler_tick demoTimerHost 10 (newScheduler None) demoTimerStore = (None, tk) \<and> sorted (map fire (tk_fired tk))"
  by (rule timers_fire_in_order)
    (use demo_timer_contents(1) demo_timer_store in \<open>simp_all add: demoTimerHost_def newScheduler_def\<close>)

theorem due_timers_fire_witness:
  "\<exists>tk. scheduler_tick demoTimerHost 10 (newScheduler None) demoTimerStore = (None, tk) \<and>
     \<lparr>st_key = demoTimerKey, st_entry = demoTimer\<rparr> \<in> set (tk_fired tk)"
  by (rule due_timers_fire [where scan = "timerScans 10 ! 0"])
    (use demo_timer_contents(1) demo_timer_store demo_callback demo_dues demo_due [of "timerScans 10 ! 0"] in
      \<open>simp_all add: demoTimerHost_def newScheduler_def isDeferred_def timerScans_def\<close>)

theorem tick_deletes_exactly_processed_witness:
  "\<exists>tk. scheduler_tick demoTimerHost 10 (newScheduler None) demoTimerStore = (None, tk) \<and>
    set (tk_processed tk) \<subseteq> set (tk_fired tk) \<and>
    (\<forall>e \<in> set (tk_processed tk). te_kind (st_entry e) \<noteq> ScheduleTick \<longrightarrow> memory_contents (tk_store tk) (st_key e) = None) \<and>
    (\<forall>k. keeps_key (th_onTimerFired demoTimerHost) k \<longrightarrow> memory_contents (tk_store tk) k \<noteq> memory_contents demoTimerStore k \<longrightarrow>
       (\<exists>e \<in> set (tk_processed tk). k = st_key e \<or> k = timerIndexKey (te_id (st_entry e))))"
  by (rule tick_deletes_exactly_processed)
    (use demo_timer_contents(1) demo_timer_store demo_callback in \<open>simp_all add: demoTimerHost_def newScheduler_def\<close>)

text \<open>
  C37: an entry that does not decode stops every timer. When the first due entry under \<open>wf-deadline:\<close> holds
  bytes the codec rejects, the tick throws before it fires any timer of any family, leaves the entry in
  place and so fails again on every later tick; an entry that decodes to something else is removed.
\<close>

theorem undecodable_timer_blocks_tick:
  assumes "th_storage H = memoryStorage" and "memory_invar s" and "\<not> sc_stopped sch"
    and "scan_found (memory_contents s) (tick_limit sch) (hd (timerScans now)) = (k, v) # found"
    and "vc_decode (th_codec H) v = None"
  shows "\<exists>tk. scheduler_tick H now sch s = (Some TimerDecode, tk) \<and> tk_fired tk = [] \<and> tk_store tk = s \<and> tk_scheduler tk = sch"
proof -
  obtain scan scans bound where scans: "timerScans now = scan # scans" "sn_bound scan = Some bound" "sn_prefix scan \<noteq> []"
    using timerScans_shape [of "hd (timerScans now)" now] by (cases "timerScans now") (auto simp: timerScans_def)
  have "scan_op memoryStorage s (sn_prefix scan) (timerScanOptions bound (tick_limit sch)) = Inr ((k, v) # found)"
    using mem.scan_spec [OF assms(2) scans(3)] assms(4) scans(1,2) by (simp add: scan_found_def)
  then have "openSources memoryStorage (th_codec H) (tick_limit sch) (timerScans now) s = (Inl TimerDecode, s)"
    using assms(5) by (simp add: scans advanceTimerSource_def parseTimer_def decodeTimer_def)
  then show ?thesis using assms(1,3) by (simp add: scheduler_tick_def processExpiredTimers_def startTick_def)
qed

definition brokenTimerHost :: "memory_storage timer_host" where
  "brokenTimerHost = demoTimerHost\<lparr>th_codec := demoTimerCodec\<lparr>vc_decode := (\<lambda>_. None)\<rparr>\<rparr>"

theorem undecodable_timer_blocks_tick_witness:
  "\<exists>tk. scheduler_tick brokenTimerHost 10 (newScheduler None) demoTimerStore = (Some TimerDecode, tk) \<and> tk_fired tk = [] \<and>
     tk_store tk = demoTimerStore \<and> tk_scheduler tk = newScheduler None"
proof (rule undecodable_timer_blocks_tick)
  have "scan_found (memory_contents demoTimerStore) 1000 (timerScans 10 ! 0) = [(demoTimerKey, [1])]"
  proof -
    let ?opts = "timerScanOptions (the (sn_bound (timerScans 10 ! 0))) 1000"
    have "resolvePrefixRangeEnd (the (KEYS_deadline 10 [])) = js ''wf-deadline:0000000000000010;''" by code_simp
    moreover have "demoTimerKey < js ''wf-deadline:0000000000000010;''" by code_simp
    ultimately have "matchesScanOptions demoTimerKey ?opts"
      by (simp add: timerScans_def matchesScanOptions_def timerScanOptions_def default_scan_options_def)
    then have keys: "{k \<in> dom [demoTimerKey \<mapsto> [1]]. in_prefix_range (sn_prefix (timerScans 10 ! 0)) k \<and> matchesScanOptions k ?opts}
        = {demoTimerKey}"
      using demo_family [of "timerScans 10 ! 0" 10] by (auto simp: timerScans_def)
    show ?thesis
      unfolding scan_found_def scan_entries_def scan_keys_def demo_timer_contents(2) keys Let_def
      by (simp add: timerScanOptions_def default_scan_options_def limitReached_def)
  qed
  then show "scan_found (memory_contents demoTimerStore) (tick_limit (newScheduler None)) (hd (timerScans 10)) = (demoTimerKey, [1]) # []"
    by (simp add: newScheduler_def timerScans_def EXPIRED_TIMER_SCAN_LIMIT_PER_SOURCE_def)
qed (use demo_timer_contents(1) in \<open>simp_all add: brokenTimerHost_def demoTimerHost_def newScheduler_def\<close>)

end
