(* ===== verification/Schedule_State.thy ===== *)
theory Schedule_State
  imports Lease Event_Log Cron Timer_Scheduler
begin

text \<open>
  Schedule records and their validation: the types of \<open>src/src/core/types/schedules.ts\<close>, the guards and
  decoders of \<open>src/src/core/engine/validation/schedule.ts\<close> and \<open>schedule-options.ts\<close>, the identifiers of
  \<open>src/src/core/workflow-identifiers.ts\<close>, the run metadata of \<open>src/src/core/engine/schedule-run-metadata.ts\<close>
  and the cadence and jitter of \<open>schedule-occurrence.ts\<close> and \<open>schedule-jitter.ts\<close>.

  What a caller or the store supplies is an untyped value; a decoded record is typed. A rejected record is
  \<open>None\<close> (the source logs a warning and returns \<open>null\<close>), a throw is \<open>Inl\<close>. The default time zone of the
  host is a parameter.
\<close>

section \<open>Errors\<close>

datatype schedule_failure =
    WorkflowNotRegistered
  | IdentifierNotString
  | IdentifierEmpty
  | IdentifierTooLong
  | IdentifierControl
  | SpecNotValid
  | SpecCronNotString
  | SpecCron schedule_error
  | SpecEveryNotDuration
  | SpecEvery schedule_error
  | SpecEveryNotPositive
  | OptionsNotObject
  | OptionOverlap
  | OptionBackfill
  | OptionDescription
  | OptionJitterNotDuration
  | OptionJitter schedule_error
  | OptionJitterNotPositive
  | FilterNotObject
  | FilterStatus
  | FilterWorkflowType
  | FilterBound
  | NoCadence
  | ScheduleOccurrence schedule_error
  | NonAdvancingOccurrence
  | ScheduleExists
  | ScheduleNotFound
  | ScheduleIsCancelled
  | ScheduleDecode
  | ScheduleKeyNotValid
  | ScheduleTimer timer_error
  | ScheduleStorage storage_error
  | ScheduleEngine engine_error
  | ScheduleCommitLost
  | SchedulePersistence schedule_failure
  | WorkflowCallback

section \<open>Identifiers\<close>

definition MAX_WORKFLOW_ID_LENGTH :: nat where
  "MAX_WORKFLOW_ID_LENGTH = 128"

definition containsControlCharacter :: "jsstring \<Rightarrow> bool" where
  "containsControlCharacter value = list_ex (\<lambda>c. c \<le> 0x1f \<or> c = 0x7f) value"

definition assertValidWorkflowId :: "jsstring \<Rightarrow> schedule_failure + unit" where
  "assertValidWorkflowId i =
     (if length i = 0 then Inl IdentifierEmpty
      else if length i > MAX_WORKFLOW_ID_LENGTH then Inl IdentifierTooLong
      else if containsControlCharacter i then Inl IdentifierControl
      else Inr ())"

definition coerceStartWorkflowId :: "jsval \<Rightarrow> schedule_failure + jsstring" where
  "coerceStartWorkflowId value =
     (case value of
        JString s \<Rightarrow> and_then (assertValidWorkflowId s) (\<lambda>_. Inr s)
      | _ \<Rightarrow> Inl IdentifierNotString)"

definition coerceScheduleId :: "jsval \<Rightarrow> schedule_failure + jsstring" where
  "coerceScheduleId scheduleId = coerceStartWorkflowId scheduleId"

text \<open>The identifier a value is, when it is a valid one.\<close>

definition scheduleIdentifier :: "jsval \<Rightarrow> jsstring option" where
  "scheduleIdentifier value = (case coerceStartWorkflowId value of Inr s \<Rightarrow> Some s | Inl _ \<Rightarrow> None)"

section \<open>The record\<close>

datatype schedule_status = ScheduleActive | SchedulePaused | ScheduleCancelled

datatype schedule_overlap = OverlapSkip | OverlapQueue | OverlapCancelRunning | OverlapAllow

record schedule_queued_run =
  qr_workflowId :: jsstring
  qr_queuedAt :: int
  qr_occurrence :: "int option"

record schedule_state =
  ss_id :: jsstring
  ss_workflowType :: jsstring
  ss_input :: jsval
  ss_description :: "jsstring option"
  ss_cronExpression :: "jsstring option"
  ss_intervalMs :: "int option"
  ss_status :: schedule_status
  ss_overlap :: schedule_overlap
  ss_backfill :: bool
  ss_jitterMs :: "int option"
  ss_createdAt :: int
  ss_updatedAt :: int
  ss_lastFireAt :: "int option"
  ss_lastMissedFireAt :: "int option"
  ss_missedFireCount :: int
  ss_nextFireAt :: "int option"
  ss_currentWorkflowId :: "jsstring option"
  ss_queuedRuns :: "schedule_queued_run list"

fun statusName :: "schedule_status \<Rightarrow> jsstring" where
  "statusName ScheduleActive = js ''active''"
| "statusName SchedulePaused = js ''paused''"
| "statusName ScheduleCancelled = js ''cancelled''"

definition SCHEDULE_STATUSES :: "schedule_status list" where
  "SCHEDULE_STATUSES = [ScheduleActive, SchedulePaused, ScheduleCancelled]"

fun overlapName :: "schedule_overlap \<Rightarrow> jsstring" where
  "overlapName OverlapSkip = js ''skip''"
| "overlapName OverlapQueue = js ''queue''"
| "overlapName OverlapCancelRunning = js ''cancel-running''"
| "overlapName OverlapAllow = js ''allow''"

definition SCHEDULE_OVERLAP_POLICIES :: "schedule_overlap list" where
  "SCHEDULE_OVERLAP_POLICIES = [OverlapSkip, OverlapQueue, OverlapCancelRunning, OverlapAllow]"

definition scheduleStatus :: "jsval \<Rightarrow> schedule_status option" where
  "scheduleStatus value = find (\<lambda>s. value = JString (statusName s)) SCHEDULE_STATUSES"

definition scheduleOverlapPolicy :: "jsval \<Rightarrow> schedule_overlap option" where
  "scheduleOverlapPolicy value = find (\<lambda>p. value = JString (overlapName p)) SCHEDULE_OVERLAP_POLICIES"

definition scheduleTimestamp :: "jsval \<Rightarrow> int option" where
  "scheduleTimestamp value = (case safeInteger value of Some t \<Rightarrow> if 0 \<le> t then Some t else None | None \<Rightarrow> None)"

definition isRecord :: "jsval \<Rightarrow> bool" where
  "isRecord value = (case value of JArray _ \<Rightarrow> False | _ \<Rightarrow> isObject value)"

section \<open>Specifications and options\<close>

datatype schedule_spec = CronSpec jsstring | IntervalSpec int

definition durationOf :: "jsval \<Rightarrow> duration option" where
  "durationOf value = (case value of JString s \<Rightarrow> Some (DurationString s) | JNumber n \<Rightarrow> Some (DurationNumber n) | _ \<Rightarrow> None)"

definition normalizeIntervalEvery :: "jsval \<Rightarrow> schedule_failure + schedule_spec" where
  "normalizeIntervalEvery every =
     (case durationOf every of
        None \<Rightarrow> Inl SpecEveryNotDuration
      | Some d \<Rightarrow>
          and_then (map_sum SpecEvery id (parseDuration d)) (\<lambda>milliseconds.
            let intervalMs = \<lceil>milliseconds\<rceil>
            in if \<not> isSafeInteger (JFin (of_int intervalMs)) \<or> intervalMs \<le> 0 then Inl SpecEveryNotPositive
               else Inr (IntervalSpec intervalMs)))"

definition normalizeCronSpec :: "jsval \<Rightarrow> schedule_failure + schedule_spec" where
  "normalizeCronSpec cronExpression =
     (case cronExpression of
        JString c \<Rightarrow> and_then (map_sum SpecCron id (parseCronExpression c)) (\<lambda>_. Inr (CronSpec c))
      | _ \<Rightarrow> Inl SpecCronNotString)"

definition normalizeScheduleSpec :: "jsval \<Rightarrow> schedule_failure + schedule_spec" where
  "normalizeScheduleSpec spec =
     (if isString spec then normalizeCronSpec spec
      else if \<not> isObject spec then Inl SpecNotValid
      else let hasCron = field spec (js ''cron'') \<noteq> JUndefined;
               hasEvery = field spec (js ''every'') \<noteq> JUndefined
           in if hasCron = hasEvery then Inl SpecNotValid
              else if hasEvery then normalizeIntervalEvery (field spec (js ''every''))
              else normalizeCronSpec (field spec (js ''cron'')))"

definition normalizeScheduleDescription :: "jsval \<Rightarrow> schedule_failure + jsstring" where
  "normalizeScheduleDescription description = (case description of JString s \<Rightarrow> Inr s | _ \<Rightarrow> Inl OptionDescription)"

definition normalizeScheduleOverlap :: "jsval \<Rightarrow> schedule_failure + schedule_overlap" where
  "normalizeScheduleOverlap overlap =
     (if overlap = JUndefined then Inr OverlapSkip
      else case scheduleOverlapPolicy overlap of None \<Rightarrow> Inl OptionOverlap | Some p \<Rightarrow> Inr p)"

definition normalizeScheduleBackfill :: "jsval \<Rightarrow> schedule_failure + bool" where
  "normalizeScheduleBackfill backfill =
     (case backfill of JUndefined \<Rightarrow> Inr False | JBool b \<Rightarrow> Inr b | _ \<Rightarrow> Inl OptionBackfill)"

definition normalizeScheduleJitter :: "jsval \<Rightarrow> schedule_failure + int" where
  "normalizeScheduleJitter value =
     (case durationOf value of
        None \<Rightarrow> Inl OptionJitterNotDuration
      | Some d \<Rightarrow>
          and_then (map_sum OptionJitter id (parseDuration d)) (\<lambda>milliseconds.
            let jitterMs = \<lceil>milliseconds\<rceil>
            in if \<not> isSafeInteger (JFin (of_int jitterMs)) \<or> jitterMs \<le> 0 then Inl OptionJitterNotPositive
               else Inr jitterMs))"

text \<open>An option that is spread in only when it is given.\<close>

definition given :: "jsval \<Rightarrow> (jsval \<Rightarrow> 'e + 'a) \<Rightarrow> 'e + 'a option" where
  "given value f = (if value = JUndefined then Inr None else map_sum id Some (f value))"

record normalized_schedule_options =
  so_overlapPolicy :: schedule_overlap
  so_backfill :: bool
  so_id :: "jsstring option"
  so_description :: "jsstring option"
  so_jitterMs :: "int option"

definition normalizeScheduleOptions :: "jsval \<Rightarrow> schedule_failure + normalized_schedule_options" where
  "normalizeScheduleOptions options =
     (if options = JUndefined
      then Inr \<lparr>so_overlapPolicy = OverlapSkip, so_backfill = False, so_id = None, so_description = None, so_jitterMs = None\<rparr>
      else if \<not> isObject options then Inl OptionsNotObject
      else
        and_then (normalizeScheduleOverlap (field options (js ''overlap''))) (\<lambda>overlap.
        and_then (normalizeScheduleBackfill (field options (js ''backfill''))) (\<lambda>backfill.
        and_then (given (field options (js ''id'')) coerceStartWorkflowId) (\<lambda>i.
        and_then (given (field options (js ''description'')) normalizeScheduleDescription) (\<lambda>description.
        and_then (given (field options (js ''jitter'')) normalizeScheduleJitter) (\<lambda>jitterMs.
          Inr \<lparr>so_overlapPolicy = overlap, so_backfill = backfill, so_id = i, so_description = description,
               so_jitterMs = jitterMs\<rparr>))))))"

record normalized_schedule_update =
  su_description :: "jsstring option"
  su_overlap :: "schedule_overlap option"
  su_backfill :: "bool option"
  su_jitterMs :: "int option"

definition normalizeScheduleUpdateOptions :: "jsval \<Rightarrow> schedule_failure + normalized_schedule_update" where
  "normalizeScheduleUpdateOptions options =
     (if options = JUndefined
      then Inr \<lparr>su_description = None, su_overlap = None, su_backfill = None, su_jitterMs = None\<rparr>
      else if \<not> isObject options then Inl OptionsNotObject
      else
        and_then (given (field options (js ''description'')) normalizeScheduleDescription) (\<lambda>description.
        and_then (given (field options (js ''overlap'')) normalizeScheduleOverlap) (\<lambda>overlap.
        and_then (given (field options (js ''backfill'')) normalizeScheduleBackfill) (\<lambda>backfill.
        and_then (given (field options (js ''jitter'')) normalizeScheduleJitter) (\<lambda>jitterMs.
          Inr \<lparr>su_description = description, su_overlap = overlap, su_backfill = backfill, su_jitterMs = jitterMs\<rparr>)))))"

section \<open>Filters\<close>

definition filterStatuses :: "jsval \<Rightarrow> jsval list" where
  "filterStatuses status = (case status of JArray xs \<Rightarrow> xs | _ \<Rightarrow> [status])"

definition validateScheduleFilterStatus :: "jsval \<Rightarrow> schedule_failure + unit" where
  "validateScheduleFilterStatus status =
     (if status = JUndefined then Inr ()
      else if list_all (\<lambda>s. scheduleStatus s \<noteq> None) (filterStatuses status) then Inr () else Inl FilterStatus)"

definition validateScheduleFilterWorkflowType :: "jsval \<Rightarrow> schedule_failure + unit" where
  "validateScheduleFilterWorkflowType workflowType =
     (case workflowType of
        JUndefined \<Rightarrow> Inr ()
      | JString s \<Rightarrow> if length s = 0 then Inl FilterWorkflowType else Inr ()
      | _ \<Rightarrow> Inl FilterWorkflowType)"

definition validateScheduleFilterBound :: "jsval \<Rightarrow> schedule_failure + unit" where
  "validateScheduleFilterBound value =
     (if value = JUndefined then Inr ()
      else case safeInteger value of Some n \<Rightarrow> if n < 0 then Inl FilterBound else Inr () | None \<Rightarrow> Inl FilterBound)"

definition normalizeScheduleFilter :: "jsval \<Rightarrow> schedule_failure + jsval" where
  "normalizeScheduleFilter criteria =
     (if criteria = JUndefined then Inr JUndefined
      else if \<not> isObject criteria then Inl FilterNotObject
      else
        and_then (validateScheduleFilterStatus (field criteria (js ''status''))) (\<lambda>_.
        and_then (validateScheduleFilterWorkflowType (field criteria (js ''workflowType''))) (\<lambda>_.
        and_then (validateScheduleFilterBound (field criteria (js ''limit''))) (\<lambda>_.
        and_then (validateScheduleFilterBound (field criteria (js ''offset''))) (\<lambda>_. Inr criteria)))))"

definition matchesScheduleFilter :: "schedule_state \<Rightarrow> jsval \<Rightarrow> bool" where
  "matchesScheduleFilter state criteria \<longleftrightarrow>
     (field criteria (js ''status'') = JUndefined \<or>
        JString (statusName (ss_status state)) \<in> set (filterStatuses (field criteria (js ''status'')))) \<and>
     (field criteria (js ''workflowType'') = JUndefined \<or>
        field criteria (js ''workflowType'') = JString (ss_workflowType state))"

text \<open>
  \<open>paginateScheduleSummaries\<close> sorts by creation time and then by \<open>localeCompare\<close> of the ids, a parameter,
  with a stable sort, and takes a page.
\<close>

definition summaryPrecedes :: "(jsstring \<Rightarrow> jsstring \<Rightarrow> bool) \<Rightarrow> schedule_state \<Rightarrow> schedule_state \<Rightarrow> bool" where
  "summaryPrecedes localeLess left right =
     (if ss_createdAt left \<noteq> ss_createdAt right then ss_createdAt left < ss_createdAt right
      else localeLess (ss_id left) (ss_id right))"

fun insertSummary :: "(jsstring \<Rightarrow> jsstring \<Rightarrow> bool) \<Rightarrow> schedule_state \<Rightarrow> schedule_state list \<Rightarrow> schedule_state list" where
  "insertSummary localeLess x [] = [x]"
| "insertSummary localeLess x (y # ys) =
     (if summaryPrecedes localeLess x y then x # y # ys else y # insertSummary localeLess x ys)"

definition filterBound :: "jsval \<Rightarrow> nat \<Rightarrow> nat" where
  "filterBound value fallback = (case safeInteger value of Some n \<Rightarrow> nat n | None \<Rightarrow> fallback)"

record schedule_page =
  pg_items :: "schedule_state list"
  pg_total :: nat
  pg_offset :: nat
  pg_limit :: nat

definition paginateScheduleSummaries ::
    "(jsstring \<Rightarrow> jsstring \<Rightarrow> bool) \<Rightarrow> schedule_state list \<Rightarrow> jsval \<Rightarrow> schedule_page" where
  "paginateScheduleSummaries localeLess items criteria =
     (let sortedItems = foldl (\<lambda>ys x. insertSummary localeLess x ys) [] items;
          offset = filterBound (field criteria (js ''offset'')) 0;
          limit = filterBound (field criteria (js ''limit'')) (length items)
      in \<lparr>pg_items = take limit (drop offset sortedItems), pg_total = length items, pg_offset = offset,
          pg_limit = limit\<rparr>)"

section \<open>Decoding a record\<close>

definition decodeScheduleCadence :: "jsval \<Rightarrow> (jsstring option \<times> int option) option" where
  "decodeScheduleCadence decoded =
     (let cronExpression = field decoded (js ''cronExpression''); intervalMs = field decoded (js ''intervalMs'');
          hasCron = cronExpression \<noteq> JUndefined; hasInterval = intervalMs \<noteq> JUndefined
      in if hasCron = hasInterval then None
         else if hasInterval then
           (case safeInteger intervalMs of Some i \<Rightarrow> if i \<le> 0 then None else Some (None, Some i) | None \<Rightarrow> None)
         else
           (case cronExpression of
              JString c \<Rightarrow> (case parseCronExpression c of Inl _ \<Rightarrow> None | Inr _ \<Rightarrow> Some (Some c, None))
            | _ \<Rightarrow> None))"

definition decodeScheduleIdentityFields ::
    "jsval \<Rightarrow> (jsstring \<times> jsstring \<times> (jsstring option \<times> int option) \<times> schedule_status \<times> schedule_overlap) option" where
  "decodeScheduleIdentityFields decoded =
     Option.bind (scheduleIdentifier (field decoded (js ''id''))) (\<lambda>i.
     Option.bind (case field decoded (js ''workflowType'') of
                    JString t \<Rightarrow> if length t = 0 then None else Some t | _ \<Rightarrow> None) (\<lambda>workflowType.
     Option.bind (decodeScheduleCadence decoded) (\<lambda>cadence.
     Option.bind (scheduleStatus (field decoded (js ''status''))) (\<lambda>status.
     Option.bind (scheduleOverlapPolicy (field decoded (js ''overlap''))) (\<lambda>overlap.
       Some (i, workflowType, cadence, status, overlap))))))"

definition decodeScheduleBackfill :: "jsval \<Rightarrow> bool option" where
  "decodeScheduleBackfill decoded = (case field decoded (js ''backfill'') of JBool b \<Rightarrow> Some b | _ \<Rightarrow> None)"

definition decodeScheduleDescription :: "jsval \<Rightarrow> jsstring option option" where
  "decodeScheduleDescription decoded =
     (case field decoded (js ''description'') of JUndefined \<Rightarrow> Some None | JString s \<Rightarrow> Some (Some s) | _ \<Rightarrow> None)"

definition decodeScheduleJitterMs :: "jsval \<Rightarrow> int option option" where
  "decodeScheduleJitterMs decoded =
     (let jitterMs = field decoded (js ''jitterMs'')
      in if jitterMs = JUndefined then Some None
         else case safeInteger jitterMs of Some j \<Rightarrow> if j \<le> 0 then None else Some (Some j) | None \<Rightarrow> None)"

definition optionalTimestamp :: "jsval \<Rightarrow> int option option" where
  "optionalTimestamp value = (if value = JUndefined then Some None else map_option Some (scheduleTimestamp value))"

definition decodeScheduleTimestamps :: "jsval \<Rightarrow> (int \<times> int \<times> int option \<times> int option) option" where
  "decodeScheduleTimestamps decoded =
     Option.bind (scheduleTimestamp (field decoded (js ''createdAt''))) (\<lambda>createdAt.
     Option.bind (scheduleTimestamp (field decoded (js ''updatedAt''))) (\<lambda>updatedAt.
     Option.bind (optionalTimestamp (field decoded (js ''lastFireAt''))) (\<lambda>lastFireAt.
     Option.bind (optionalTimestamp (field decoded (js ''lastMissedFireAt''))) (\<lambda>lastMissedFireAt.
       Some (createdAt, updatedAt, lastFireAt, lastMissedFireAt)))))"

definition decodeScheduleNextFireAt :: "jsval \<Rightarrow> int option option" where
  "decodeScheduleNextFireAt decoded =
     (case field decoded (js ''nextFireAt'') of
        JUndefined \<Rightarrow> None
      | JNull \<Rightarrow> Some None
      | nextFireAt \<Rightarrow> map_option Some (scheduleTimestamp nextFireAt))"

definition decodeScheduleCurrentWorkflowId :: "jsval \<Rightarrow> jsstring option option" where
  "decodeScheduleCurrentWorkflowId decoded =
     (let currentWorkflowId = field decoded (js ''currentWorkflowId'')
      in if currentWorkflowId = JUndefined then Some None
         else map_option Some (scheduleIdentifier currentWorkflowId))"

fun decodeQueuedRuns :: "jsstring list \<Rightarrow> jsval list \<Rightarrow> schedule_queued_run list option" where
  "decodeQueuedRuns workflowIds [] = Some []"
| "decodeQueuedRuns workflowIds (queuedRun # queuedRuns) =
     (if \<not> isRecord queuedRun then None
      else
        Option.bind (scheduleIdentifier (field queuedRun (js ''workflowId''))) (\<lambda>workflowId.
        Option.bind (scheduleTimestamp (field queuedRun (js ''queuedAt''))) (\<lambda>queuedAt.
        Option.bind (optionalTimestamp (field queuedRun (js ''occurrence''))) (\<lambda>occurrence.
          if workflowId \<in> set workflowIds then None
          else map_option (\<lambda>result. \<lparr>qr_workflowId = workflowId, qr_queuedAt = queuedAt, qr_occurrence = occurrence\<rparr> # result)
                 (decodeQueuedRuns (workflowId # workflowIds) queuedRuns)))))"

definition decodeScheduleQueuedRuns :: "jsval \<Rightarrow> schedule_queued_run list option" where
  "decodeScheduleQueuedRuns decoded =
     (case field decoded (js ''queuedRuns'') of JArray queuedRuns \<Rightarrow> decodeQueuedRuns [] queuedRuns | _ \<Rightarrow> None)"

definition decodeScheduleMissedFireCount :: "jsval \<Rightarrow> int option" where
  "decodeScheduleMissedFireCount decoded =
     (let missedFireCount = field decoded (js ''missedFireCount'')
      in if missedFireCount = JUndefined then Some 0
         else case safeInteger missedFireCount of Some n \<Rightarrow> if n < 0 then None else Some n | None \<Rightarrow> None)"

text \<open>The runtime fields are put into the record the identity fields have begun.\<close>

definition decodeScheduleRuntimeFields :: "jsval \<Rightarrow> schedule_state \<Rightarrow> schedule_state option" where
  "decodeScheduleRuntimeFields decoded identity =
     Option.bind (decodeScheduleDescription decoded) (\<lambda>description.
     Option.bind (decodeScheduleBackfill decoded) (\<lambda>backfill.
     Option.bind (decodeScheduleJitterMs decoded) (\<lambda>jitterMs.
     Option.bind (decodeScheduleTimestamps decoded) (\<lambda>(createdAt, updatedAt, lastFireAt, lastMissedFireAt).
     Option.bind (decodeScheduleNextFireAt decoded) (\<lambda>nextFireAt.
     Option.bind (decodeScheduleCurrentWorkflowId decoded) (\<lambda>currentWorkflowId.
     Option.bind (decodeScheduleQueuedRuns decoded) (\<lambda>queuedRuns.
     Option.bind (decodeScheduleMissedFireCount decoded) (\<lambda>missedFireCount.
       if currentWorkflowId \<noteq> None \<and> list_ex (\<lambda>r. Some (qr_workflowId r) = currentWorkflowId) queuedRuns then None
       else Some (identity\<lparr>ss_description := description, ss_backfill := backfill, ss_jitterMs := jitterMs,
              ss_createdAt := createdAt, ss_updatedAt := updatedAt, ss_lastFireAt := lastFireAt,
              ss_lastMissedFireAt := lastMissedFireAt, ss_nextFireAt := nextFireAt,
              ss_currentWorkflowId := currentWorkflowId, ss_missedFireCount := missedFireCount,
              ss_queuedRuns := queuedRuns\<rparr>)))))))))"

definition scheduleStateOf :: "jsval \<Rightarrow> schedule_state option" where
  "scheduleStateOf decoded =
     (if \<not> isRecord decoded then None
      else
        Option.bind (decodeScheduleIdentityFields decoded) (\<lambda>(i, workflowType, (cronExpression, intervalMs), status, overlap).
          decodeScheduleRuntimeFields decoded
            \<lparr>ss_id = i, ss_workflowType = workflowType, ss_input = field decoded (js ''input''), ss_description = None,
             ss_cronExpression = cronExpression, ss_intervalMs = intervalMs, ss_status = status, ss_overlap = overlap,
             ss_backfill = False, ss_jitterMs = None, ss_createdAt = 0, ss_updatedAt = 0, ss_lastFireAt = None,
             ss_lastMissedFireAt = None, ss_missedFireCount = 0, ss_nextFireAt = None, ss_currentWorkflowId = None,
             ss_queuedRuns = []\<rparr>))"

definition decodeScheduleState :: "value_codec \<Rightarrow> bytes \<Rightarrow> schedule_failure + schedule_state option" where
  "decodeScheduleState C b =
     (case vc_decode C b of None \<Rightarrow> Inl ScheduleDecode | Some decoded \<Rightarrow> Inr (scheduleStateOf decoded))"

text \<open>The value a record is encoded from: absent optional properties are left out.\<close>

definition property :: "string \<Rightarrow> ('a \<Rightarrow> jsval) \<Rightarrow> 'a option \<Rightarrow> (jsstring \<times> jsval) list" where
  "property k f x = (case x of None \<Rightarrow> [] | Some v \<Rightarrow> [(js k, f v)])"

definition numberValue :: "int \<Rightarrow> jsval" where
  "numberValue n = JNumber (JFin (of_int n))"

definition queuedRunValue :: "schedule_queued_run \<Rightarrow> jsval" where
  "queuedRunValue r = JObject
     ([(js ''workflowId'', JString (qr_workflowId r)), (js ''queuedAt'', numberValue (qr_queuedAt r))]
      @ property ''occurrence'' numberValue (qr_occurrence r))"

definition scheduleValue :: "schedule_state \<Rightarrow> jsval" where
  "scheduleValue s = JObject
     ([(js ''id'', JString (ss_id s)), (js ''workflowType'', JString (ss_workflowType s)), (js ''input'', ss_input s)]
      @ property ''description'' JString (ss_description s)
      @ property ''cronExpression'' JString (ss_cronExpression s)
      @ property ''intervalMs'' numberValue (ss_intervalMs s)
      @ [(js ''status'', JString (statusName (ss_status s))), (js ''overlap'', JString (overlapName (ss_overlap s))),
         (js ''backfill'', JBool (ss_backfill s))]
      @ property ''jitterMs'' numberValue (ss_jitterMs s)
      @ [(js ''createdAt'', numberValue (ss_createdAt s)), (js ''updatedAt'', numberValue (ss_updatedAt s))]
      @ property ''lastFireAt'' numberValue (ss_lastFireAt s)
      @ property ''lastMissedFireAt'' numberValue (ss_lastMissedFireAt s)
      @ [(js ''nextFireAt'', case ss_nextFireAt s of None \<Rightarrow> JNull | Some t \<Rightarrow> numberValue t),
         (js ''missedFireCount'', numberValue (ss_missedFireCount s))]
      @ property ''currentWorkflowId'' JString (ss_currentWorkflowId s)
      @ [(js ''queuedRuns'', JArray (map queuedRunValue (ss_queuedRuns s)))])"

section \<open>Run metadata\<close>

definition runMetadataValue :: "jsstring \<Rightarrow> int option \<Rightarrow> jsval" where
  "runMetadataValue scheduleId occurrence =
     JObject ((js ''id'', JString scheduleId) # property ''occurrence'' numberValue occurrence)"

definition encodeScheduleRunMetadata :: "value_codec \<Rightarrow> jsstring \<Rightarrow> int option \<Rightarrow> bytes" where
  "encodeScheduleRunMetadata C scheduleId occurrence = vc_encode C (runMetadataValue scheduleId occurrence)"

definition runMetadataOf :: "jsval \<Rightarrow> (jsstring \<times> int option) option" where
  "runMetadataOf decoded =
     (if isString decoded then map_option (\<lambda>i. (i, None)) (scheduleIdentifier decoded)
      else if \<not> isRecord decoded then None
      else
        Option.bind (scheduleIdentifier (field decoded (js ''id''))) (\<lambda>i.
          let occurrence = field decoded (js ''occurrence'')
          in if occurrence = JUndefined then Some (i, None)
             else map_option (\<lambda>n. (i, Some n)) (safeInteger occurrence)))"

definition decodeScheduleRunMetadata :: "value_codec \<Rightarrow> bytes \<Rightarrow> (jsstring \<times> int option) option" where
  "decodeScheduleRunMetadata C b = Option.bind (vc_decode C b) runMetadataOf"

section \<open>Cadence and jitter\<close>

datatype schedule_cadence = CronCadence jsstring | IntervalCadence int int

definition resolveScheduleCadence :: "jsstring option \<Rightarrow> int option \<Rightarrow> int \<Rightarrow> schedule_failure + schedule_cadence" where
  "resolveScheduleCadence cronExpression intervalMs createdAt =
     (case intervalMs of
        Some i \<Rightarrow> Inr (IntervalCadence i createdAt)
      | None \<Rightarrow> (case cronExpression of Some c \<Rightarrow> Inr (CronCadence c) | None \<Rightarrow> Inl NoCadence))"

definition cadenceOf :: "schedule_state \<Rightarrow> schedule_failure + schedule_cadence" where
  "cadenceOf s = resolveScheduleCadence (ss_cronExpression s) (ss_intervalMs s) (ss_createdAt s)"

definition nextOccurrence :: "time_zone \<Rightarrow> schedule_cadence \<Rightarrow> int \<Rightarrow> schedule_failure + int" where
  "nextOccurrence timeZone cadence afterTimestamp =
     map_sum ScheduleOccurrence id
       (case cadence of
          IntervalCadence intervalMs anchor \<Rightarrow>
            getNextIntervalOccurrence (JFin (of_int anchor)) (JFin (of_int intervalMs)) (JFin (of_int afterTimestamp))
        | CronCadence c \<Rightarrow> nextCronOccurrenceOf c (of_int afterTimestamp) timeZone)"

definition getNextScheduleOccurrence :: "time_zone \<Rightarrow> schedule_state \<Rightarrow> int \<Rightarrow> schedule_failure + int" where
  "getNextScheduleOccurrence timeZone s afterTimestamp =
     and_then (cadenceOf s) (\<lambda>cadence. nextOccurrence timeZone cadence afterTimestamp)"

definition dueOccurrences :: "time_zone \<Rightarrow> schedule_cadence \<Rightarrow> int \<Rightarrow> int \<Rightarrow> nat \<Rightarrow> schedule_failure + int list" where
  "dueOccurrences timeZone cadence firstDueAt throughTimestamp maximum =
     map_sum ScheduleOccurrence (map floor)
       (case cadence of
          IntervalCadence intervalMs anchor \<Rightarrow>
            collectDueIntervalOccurrences (of_int anchor) (of_int intervalMs) (of_int firstDueAt)
              (of_int throughTimestamp) (Some (JFin (of_nat maximum)))
        | CronCadence c \<Rightarrow>
            and_then (parseCronExpression c) (\<lambda>e.
              collectDueCronOccurrences e (of_int firstDueAt) (of_int throughTimestamp) timeZone
                (Some (JFin (of_nat maximum)))))"

definition collectDueScheduleOccurrences ::
    "time_zone \<Rightarrow> schedule_state \<Rightarrow> int \<Rightarrow> int \<Rightarrow> nat \<Rightarrow> schedule_failure + int list" where
  "collectDueScheduleOccurrences timeZone s firstDueAt throughTimestamp maximum =
     and_then (cadenceOf s) (\<lambda>cadence. dueOccurrences timeZone cadence firstDueAt throughTimestamp maximum)"

text \<open>
  \<open>TextEncoder\<close>: UTF-8, a lone surrogate as U+FFFD. \<open>BigInt\<close> of a hexadecimal literal reads the digits
  that \<open>fnv1a64\<close> wrote.
\<close>

fun textEncode :: "jsstring \<Rightarrow> bytes" where
  "textEncode [] = []"
| "textEncode (c # cs) =
     (let n = unat c in
      if \<not> isHighSurrogate n \<and> \<not> isLowSurrogate n then map of_nat (utf8Octets n) @ textEncode cs
      else case cs of
             d # ds \<Rightarrow>
               if isHighSurrogate n \<and> isLowSurrogate (unat d)
               then map of_nat (utf8Octets ((n - 0xD800) * 0x400 + (unat d - 0xDC00) + 0x10000)) @ textEncode ds
               else map of_nat (utf8Octets 0xFFFD) @ textEncode cs
           | [] \<Rightarrow> map of_nat (utf8Octets 0xFFFD))"

definition hashString :: "jsstring \<Rightarrow> jsstring" where
  "hashString data = fnv1a64 (textEncode data)"

definition hexBigInt :: "jsstring \<Rightarrow> nat" where
  "hexBigInt digits = foldl (\<lambda>n c. 16 * n + (if unat c \<le> 57 then unat c - 48 else unat c - 87)) 0 digits"

definition computeScheduleJitterOffset :: "jsstring \<Rightarrow> int \<Rightarrow> int option \<Rightarrow> int" where
  "computeScheduleJitterOffset scheduleId nominalFireAt jitterMs =
     (case jitterMs of
        None \<Rightarrow> 0
      | Some j \<Rightarrow>
          if j \<le> 0 then 0
          else int (hexBigInt (hashString (scheduleId @ 0 # numberString (nat nominalFireAt)))) mod j)"

definition resolveEffectiveScheduleFireAt :: "schedule_state \<Rightarrow> int \<Rightarrow> int" where
  "resolveEffectiveScheduleFireAt s nominalFireAt =
     nominalFireAt + computeScheduleJitterOffset (ss_id s) nominalFireAt (ss_jitterMs s)"

lemma jitter_offset_bounds:
  "0 \<le> computeScheduleJitterOffset i t j" "j = Some k \<Longrightarrow> 0 < k \<Longrightarrow> computeScheduleJitterOffset i t j < k"
  by (auto simp: computeScheduleJitterOffset_def split: option.splits)

text \<open>
  The properties of valid records: a record the decoder accepts is valid, and a valid record is read back
  as it was written.
\<close>

definition valid_identifier :: "jsstring \<Rightarrow> bool" where
  "valid_identifier i \<longleftrightarrow> assertValidWorkflowId i = Inr ()"

definition valid_timestamp :: "int \<Rightarrow> bool" where
  "valid_timestamp t \<longleftrightarrow> 0 \<le> t \<and> t \<le> MAX_SAFE_INTEGER"

definition valid_run :: "schedule_queued_run \<Rightarrow> bool" where
  "valid_run r \<longleftrightarrow> valid_identifier (qr_workflowId r) \<and> valid_timestamp (qr_queuedAt r) \<and>
     pred_option valid_timestamp (qr_occurrence r)"

definition valid_cadence :: "jsstring option \<Rightarrow> int option \<Rightarrow> bool" where
  "valid_cadence c i \<longleftrightarrow>
     (case (c, i) of
        (None, Some n) \<Rightarrow> 0 < n \<and> n \<le> MAX_SAFE_INTEGER
      | (Some e, None) \<Rightarrow> \<exists>p. parseCronExpression e = Inr p
      | _ \<Rightarrow> False)"

definition valid_schedule :: "schedule_state \<Rightarrow> bool" where
  "valid_schedule s \<longleftrightarrow>
     valid_identifier (ss_id s) \<and> ss_workflowType s \<noteq> [] \<and> valid_cadence (ss_cronExpression s) (ss_intervalMs s) \<and>
     pred_option (\<lambda>j. 0 < j \<and> j \<le> MAX_SAFE_INTEGER) (ss_jitterMs s) \<and>
     valid_timestamp (ss_createdAt s) \<and> valid_timestamp (ss_updatedAt s) \<and>
     pred_option valid_timestamp (ss_lastFireAt s) \<and> pred_option valid_timestamp (ss_lastMissedFireAt s) \<and>
     valid_timestamp (ss_missedFireCount s) \<and> pred_option valid_timestamp (ss_nextFireAt s) \<and>
     pred_option valid_identifier (ss_currentWorkflowId s) \<and> list_all valid_run (ss_queuedRuns s) \<and>
     distinct (map qr_workflowId (ss_queuedRuns s)) \<and>
     pred_option (\<lambda>w. w \<notin> qr_workflowId ` set (ss_queuedRuns s)) (ss_currentWorkflowId s)"

section \<open>Reading back what was written\<close>

lemma scheduleIdentifier_iff: "scheduleIdentifier v = Some i \<longleftrightarrow> v = JString i \<and> valid_identifier i"
  by (cases v) (auto simp: scheduleIdentifier_def coerceStartWorkflowId_def valid_identifier_def and_then_def split: sum.splits)

lemma safeInteger_iff: "safeInteger v = Some n \<longleftrightarrow> v = numberValue n \<and> \<bar>n\<bar> \<le> MAX_SAFE_INTEGER"
  by (auto simp: safeInteger_def numberValue_def isSafeInteger_def split: jsval.splits jsnum.splits if_splits)

lemma safeInteger_number: "safeInteger (JNumber (JFin (of_int n))) = (if \<bar>n\<bar> \<le> MAX_SAFE_INTEGER then Some n else None)"
  by (simp add: safeInteger_def isSafeInteger_def)

lemma scheduleTimestamp_iff: "scheduleTimestamp v = Some t \<longleftrightarrow> v = numberValue t \<and> valid_timestamp t"
proof -
  have "scheduleTimestamp v = Some t \<longleftrightarrow> safeInteger v = Some t \<and> 0 \<le> t"
    by (auto simp: scheduleTimestamp_def split: option.splits if_splits)
  then show ?thesis by (auto simp: safeInteger_iff valid_timestamp_def)
qed

lemma scheduleStatus_iff: "scheduleStatus v = Some s \<longleftrightarrow> v = JString (statusName s)"
  by (cases s) (auto simp: scheduleStatus_def SCHEDULE_STATUSES_def js_def split: if_splits)

lemma scheduleOverlapPolicy_iff: "scheduleOverlapPolicy v = Some p \<longleftrightarrow> v = JString (overlapName p)"
  by (cases p) (auto simp: scheduleOverlapPolicy_def SCHEDULE_OVERLAP_POLICIES_def js_def split: if_splits)

lemma optionalTimestamp_iff:
  "optionalTimestamp v = Some x \<longleftrightarrow>
     (case x of None \<Rightarrow> v = JUndefined | Some t \<Rightarrow> v = numberValue t \<and> valid_timestamp t)"
  by (auto simp: optionalTimestamp_def scheduleTimestamp_iff numberValue_def split: option.splits)

lemma map_of_property: "map_of (property k f x) n = (if n = js k then map_option f x else None)"
  by (cases x) (auto simp: property_def)

lemma field_scheduleValue:
  "field (scheduleValue s) (js k) =
     (if k = ''id'' then JString (ss_id s)
      else if k = ''workflowType'' then JString (ss_workflowType s)
      else if k = ''input'' then ss_input s
      else if k = ''description'' then case_option JUndefined JString (ss_description s)
      else if k = ''cronExpression'' then case_option JUndefined JString (ss_cronExpression s)
      else if k = ''intervalMs'' then case_option JUndefined numberValue (ss_intervalMs s)
      else if k = ''status'' then JString (statusName (ss_status s))
      else if k = ''overlap'' then JString (overlapName (ss_overlap s))
      else if k = ''backfill'' then JBool (ss_backfill s)
      else if k = ''jitterMs'' then case_option JUndefined numberValue (ss_jitterMs s)
      else if k = ''createdAt'' then numberValue (ss_createdAt s)
      else if k = ''updatedAt'' then numberValue (ss_updatedAt s)
      else if k = ''lastFireAt'' then case_option JUndefined numberValue (ss_lastFireAt s)
      else if k = ''lastMissedFireAt'' then case_option JUndefined numberValue (ss_lastMissedFireAt s)
      else if k = ''nextFireAt'' then case_option JNull numberValue (ss_nextFireAt s)
      else if k = ''missedFireCount'' then numberValue (ss_missedFireCount s)
      else if k = ''currentWorkflowId'' then case_option JUndefined JString (ss_currentWorkflowId s)
      else if k = ''queuedRuns'' then JArray (map queuedRunValue (ss_queuedRuns s))
      else JUndefined)"
  unfolding scheduleValue_def field_def jsval.case map_of_append map_add_def map_of_property map_of.simps js_eq_iff
  by (simp split: option.split)

lemma field_queuedRunValue:
  "field (queuedRunValue r) (js k) =
     (if k = ''workflowId'' then JString (qr_workflowId r)
      else if k = ''queuedAt'' then numberValue (qr_queuedAt r)
      else if k = ''occurrence'' then case_option JUndefined numberValue (qr_occurrence r)
      else JUndefined)"
  unfolding queuedRunValue_def field_def jsval.case map_of_append map_add_def map_of_property map_of.simps js_eq_iff
  by (simp split: option.split)

lemma record_values: "isRecord (scheduleValue s)" "isRecord (queuedRunValue r)"
  by (simp_all add: isRecord_def isObject_def scheduleValue_def queuedRunValue_def)

lemma decodeQueuedRuns_valid:
  "decodeQueuedRuns ids vs = Some rs \<Longrightarrow>
     list_all valid_run rs \<and> distinct (map qr_workflowId rs) \<and> qr_workflowId ` set rs \<inter> set ids = {}"
proof (induction ids vs arbitrary: rs rule: decodeQueuedRuns.induct)
  case (2 ids v vs)
  obtain w q occ rs' where parts: "scheduleIdentifier (field v (js ''workflowId'')) = Some w"
    "scheduleTimestamp (field v (js ''queuedAt'')) = Some q" "optionalTimestamp (field v (js ''occurrence'')) = Some occ"
    "w \<notin> set ids" "decodeQueuedRuns (w # ids) vs = Some rs'"
    "rs = \<lparr>qr_workflowId = w, qr_queuedAt = q, qr_occurrence = occ\<rparr> # rs'" "isRecord v"
    using "2.prems" by (auto split: if_splits bind_splits)
  have "list_all valid_run rs' \<and> distinct (map qr_workflowId rs') \<and> qr_workflowId ` set rs' \<inter> set (w # ids) = {}"
    using "2.IH" parts by simp
  moreover have "valid_run \<lparr>qr_workflowId = w, qr_queuedAt = q, qr_occurrence = occ\<rparr>"
    using parts by (auto simp: valid_run_def scheduleIdentifier_iff scheduleTimestamp_iff optionalTimestamp_iff split: option.splits)
  ultimately show ?case using parts by auto
qed simp

lemma decodeQueuedRuns_values:
  "list_all valid_run rs \<Longrightarrow> distinct (map qr_workflowId rs) \<Longrightarrow> qr_workflowId ` set rs \<inter> set ids = {} \<Longrightarrow>
     decodeQueuedRuns ids (map queuedRunValue rs) = Some rs"
proof (induction rs arbitrary: ids)
  case (Cons r rs)
  have "scheduleIdentifier (JString (qr_workflowId r)) = Some (qr_workflowId r)"
    "scheduleTimestamp (numberValue (qr_queuedAt r)) = Some (qr_queuedAt r)"
    "optionalTimestamp (case_option JUndefined numberValue (qr_occurrence r)) = Some (qr_occurrence r)"
    using Cons.prems by (auto simp: valid_run_def scheduleIdentifier_iff scheduleTimestamp_iff optionalTimestamp_iff split: option.split)
  moreover have "decodeQueuedRuns (qr_workflowId r # ids) (map queuedRunValue rs) = Some rs"
    using Cons.prems by (intro Cons.IH) auto
  ultimately show ?case using Cons.prems by (simp add: record_values field_queuedRunValue)
qed simp

lemma decodeScheduleCadence_iff:
  "decodeScheduleCadence v = Some (c, i) \<longleftrightarrow>
     field v (js ''cronExpression'') = case_option JUndefined JString c \<and>
     field v (js ''intervalMs'') = case_option JUndefined numberValue i \<and> valid_cadence c i"
  by (cases c; cases i)
    (auto simp: decodeScheduleCadence_def Let_def valid_cadence_def safeInteger_iff safeInteger_number numberValue_def
      split: option.splits jsval.splits sum.splits if_splits)

lemma decodeScheduleIdentityFields_iff:
  "decodeScheduleIdentityFields v = Some (i, t, (c, n), st, ov) \<longleftrightarrow>
     field v (js ''id'') = JString i \<and> valid_identifier i \<and> field v (js ''workflowType'') = JString t \<and> t \<noteq> [] \<and>
     decodeScheduleCadence v = Some (c, n) \<and> field v (js ''status'') = JString (statusName st) \<and>
     field v (js ''overlap'') = JString (overlapName ov)"
  by (auto simp: decodeScheduleIdentityFields_def scheduleIdentifier_iff scheduleStatus_iff scheduleOverlapPolicy_iff
      bind_eq_Some_conv split: jsval.splits if_splits)

lemma decodeScheduleDescription_iff:
  "decodeScheduleDescription v = Some d \<longleftrightarrow> field v (js ''description'') = case_option JUndefined JString d"
  by (auto simp: decodeScheduleDescription_def split: jsval.splits option.splits)

lemma decodeScheduleJitterMs_iff:
  "decodeScheduleJitterMs v = Some j \<longleftrightarrow>
     field v (js ''jitterMs'') = case_option JUndefined numberValue j \<and> pred_option (\<lambda>j. 0 < j \<and> j \<le> MAX_SAFE_INTEGER) j"
  by (cases j) (auto simp: decodeScheduleJitterMs_def Let_def safeInteger_iff safeInteger_number numberValue_def
      split: option.splits if_splits)

lemma decodeScheduleTimestamps_iff:
  "decodeScheduleTimestamps v = Some (c, u, f, m) \<longleftrightarrow>
     field v (js ''createdAt'') = numberValue c \<and> valid_timestamp c \<and>
     field v (js ''updatedAt'') = numberValue u \<and> valid_timestamp u \<and>
     field v (js ''lastFireAt'') = case_option JUndefined numberValue f \<and> pred_option valid_timestamp f \<and>
     field v (js ''lastMissedFireAt'') = case_option JUndefined numberValue m \<and> pred_option valid_timestamp m"
  by (cases f; cases m) (auto simp: decodeScheduleTimestamps_def scheduleTimestamp_iff optionalTimestamp_iff bind_eq_Some_conv)

lemma decodeScheduleNextFireAt_iff:
  "decodeScheduleNextFireAt v = Some n \<longleftrightarrow>
     field v (js ''nextFireAt'') = case_option JNull numberValue n \<and> pred_option valid_timestamp n"
  by (cases n) (auto simp: decodeScheduleNextFireAt_def scheduleTimestamp_iff numberValue_def split: jsval.splits)

lemma decodeScheduleCurrentWorkflowId_iff:
  "decodeScheduleCurrentWorkflowId v = Some w \<longleftrightarrow>
     field v (js ''currentWorkflowId'') = case_option JUndefined JString w \<and> pred_option valid_identifier w"
  by (cases w) (auto simp: decodeScheduleCurrentWorkflowId_def Let_def scheduleIdentifier_iff)

lemmas schedule_decoder_iffs =
  decodeScheduleIdentityFields_iff decodeScheduleCadence_iff decodeScheduleDescription_iff decodeScheduleJitterMs_iff
  decodeScheduleTimestamps_iff decodeScheduleNextFireAt_iff decodeScheduleCurrentWorkflowId_iff

lemma scheduleStateOf_valid:
  assumes "scheduleStateOf v = Some s"
  shows "valid_schedule s"
proof -
  have missed: "valid_timestamp n" if "decodeScheduleMissedFireCount v = Some n" for n
    using that by (auto simp: decodeScheduleMissedFireCount_def Let_def safeInteger_iff valid_timestamp_def MAX_SAFE_INTEGER_def
        split: if_splits option.splits)
  have queued: "list_all valid_run rs \<and> distinct (map qr_workflowId rs)" if "decodeScheduleQueuedRuns v = Some rs" for rs
    using that decodeQueuedRuns_valid [of "[]"] by (auto simp: decodeScheduleQueuedRuns_def split: jsval.splits)
  show ?thesis
    using assms
    by (auto simp: scheduleStateOf_def decodeScheduleRuntimeFields_def bind_eq_Some_conv schedule_decoder_iffs
        valid_schedule_def list_ex_iff Option.pred_option_def dest!: missed queued split: if_splits)
qed

lemma schedule_value_roundtrip:
  assumes "valid_schedule s"
  shows "scheduleStateOf (scheduleValue s) = Some s"
proof -
  note v = assms [unfolded valid_schedule_def]
  let ?v = "scheduleValue s"
  have "decodeScheduleIdentityFields ?v =
      Some (ss_id s, ss_workflowType s, (ss_cronExpression s, ss_intervalMs s), ss_status s, ss_overlap s)"
    using v by (simp add: schedule_decoder_iffs field_scheduleValue)
  moreover have "decodeScheduleDescription ?v = Some (ss_description s)"
    "decodeScheduleJitterMs ?v = Some (ss_jitterMs s)"
    "decodeScheduleTimestamps ?v = Some (ss_createdAt s, ss_updatedAt s, ss_lastFireAt s, ss_lastMissedFireAt s)"
    "decodeScheduleNextFireAt ?v = Some (ss_nextFireAt s)"
    "decodeScheduleCurrentWorkflowId ?v = Some (ss_currentWorkflowId s)"
    using v by (simp_all only: schedule_decoder_iffs field_scheduleValue) simp_all
  moreover have "decodeScheduleBackfill ?v = Some (ss_backfill s)"
    by (simp add: decodeScheduleBackfill_def field_scheduleValue)
  moreover have "decodeScheduleQueuedRuns ?v = Some (ss_queuedRuns s)"
    using v by (simp add: decodeScheduleQueuedRuns_def field_scheduleValue decodeQueuedRuns_values)
  moreover have "decodeScheduleMissedFireCount ?v = Some (ss_missedFireCount s)"
    using v by (simp add: decodeScheduleMissedFireCount_def field_scheduleValue numberValue_def safeInteger_number
        valid_timestamp_def)
  moreover have "\<not> (ss_currentWorkflowId s \<noteq> None \<and>
      list_ex (\<lambda>r. Some (qr_workflowId r) = ss_currentWorkflowId s) (ss_queuedRuns s))"
    using v by (auto simp: list_ex_iff Option.pred_option_def)
  ultimately show ?thesis
    by (simp add: scheduleStateOf_def record_values decodeScheduleRuntimeFields_def field_scheduleValue)
qed

text \<open>Whatever is written, the decoder returns nothing but the record that was written.\<close>

lemma numberValue_inject [simp]:
  "numberValue a = numberValue b \<longleftrightarrow> a = b" "numberValue a \<noteq> JUndefined" "JUndefined \<noteq> numberValue a"
  by (simp_all add: numberValue_def)

lemma statusName_inject [simp]: "statusName a = statusName b \<longleftrightarrow> a = b"
  by (cases a; cases b) simp_all

lemma overlapName_inject [simp]: "overlapName a = overlapName b \<longleftrightarrow> a = b"
  by (cases a; cases b) simp_all

lemma case_option_inject:
  "(\<And>a. f a \<noteq> d) \<Longrightarrow> (\<And>a b. f a = f b \<longleftrightarrow> a = b) \<Longrightarrow> case_option d f x = case_option d f y \<longleftrightarrow> x = y"
  by (auto split: option.splits)

lemma optional_values_inject [simp]:
  "case_option JUndefined JString x = case_option JUndefined JString y \<longleftrightarrow> x = y"
  "case_option JUndefined numberValue u = case_option JUndefined numberValue v \<longleftrightarrow> u = v"
  "case_option JNull numberValue u = case_option JNull numberValue v \<longleftrightarrow> u = v"
  by (rule case_option_inject; simp add: numberValue_def)+

lemma decodeQueuedRuns_unique: "decodeQueuedRuns ids (map queuedRunValue rs) = Some rs' \<Longrightarrow> rs' = rs"
proof (induction rs arbitrary: ids rs')
  case (Cons r rs)
  obtain w q occ rs'' where "JString (qr_workflowId r) = JString w" "numberValue (qr_queuedAt r) = numberValue q"
    "case_option JUndefined numberValue (qr_occurrence r) = case_option JUndefined numberValue occ"
    "decodeQueuedRuns (w # ids) (map queuedRunValue rs) = Some rs''"
    "rs' = \<lparr>qr_workflowId = w, qr_queuedAt = q, qr_occurrence = occ\<rparr> # rs''"
    using Cons.prems
    by (auto simp: field_queuedRunValue scheduleIdentifier_iff scheduleTimestamp_iff optionalTimestamp_iff
        split: if_splits bind_splits option.splits)
  then show ?case using Cons.IH by auto
qed simp

lemma scheduleStateOf_value_unique:
  assumes "scheduleStateOf (scheduleValue s) = Some t"
  shows "t = s"
proof -
  have queued: "rs = ss_queuedRuns s" if "decodeScheduleQueuedRuns (scheduleValue s) = Some rs" for rs
    using that decodeQueuedRuns_unique by (auto simp: decodeScheduleQueuedRuns_def field_scheduleValue)
  have missed: "n = ss_missedFireCount s" if "decodeScheduleMissedFireCount (scheduleValue s) = Some n" for n
    using that by (auto simp: decodeScheduleMissedFireCount_def field_scheduleValue safeInteger_iff numberValue_def
        split: option.splits if_splits)
  have backfill: "b = ss_backfill s" if "decodeScheduleBackfill (scheduleValue s) = Some b" for b
    using that by (simp add: decodeScheduleBackfill_def field_scheduleValue)
  show ?thesis
    using assms
    by (auto simp: scheduleStateOf_def decodeScheduleRuntimeFields_def bind_eq_Some_conv schedule_decoder_iffs
        field_scheduleValue dest!: queued missed backfill split: if_splits)
qed

end
