(* ===== verification/Schedules.thy ===== *)
theory Schedules
  imports Schedule_State
begin

text \<open>
  The schedules of the engine: \<open>src/src/core/engine/schedules.ts\<close>, \<open>schedule-run.ts\<close>,
  \<open>schedule-overlap.ts\<close>, \<open>schedule-timer.ts\<close> and the schedule part of \<open>storage-io.ts\<close>.

  An operation takes the engine state and returns it changed, with a result or what it threw. Clock readings
  and fresh identifiers are taken from sequences in the state. Starting, cancelling and failing a workflow,
  waiting for its turn and the services resolver belong to other parts of the engine and are parameters, as is
  the status of a stored workflow. They act on the engine state too: what other callers do while the timer
  handler awaits one of them is part of its action. The chain of promises in \<open>storage-io.ts\<close> keeps
  \<open>updateSchedule\<close> out of the handler, and no other operation. A current workflow id is never the empty
  string, which the decoder rejects.
\<close>

section \<open>Engine state and sequencing\<close>

datatype workflow_status =
    WorkflowPending | WorkflowRunning | WorkflowCompleted | WorkflowFailed | WorkflowCancelled | WorkflowTimedOut
  | WorkflowSuspended

datatype schedule_event =
    ScheduleFired jsstring jsstring int "int option"
  | ScheduleMissedFire jsstring int int int

datatype service_resolution = ServicesAvailable jsval | ServicesUnavailable

record 's schedule_engine =
  en_internals :: engine_internals
  en_scheduler :: scheduler
  en_pendingScheduleCreations :: "jsstring list"
  en_workflowServices :: "(jsstring \<times> jsval) list"
  en_workflowsNeedingTerminalCleanup :: "jsstring list"
  en_events :: "schedule_event list"
  en_clock :: "nat \<Rightarrow> int"
  en_uuids :: "nat \<Rightarrow> jsstring"
  en_store :: 's

type_synonym ('s, 'a) engine_action = "'s schedule_engine \<Rightarrow> (schedule_failure + 'a) \<times> 's schedule_engine"

record 's schedule_host =
  sh_storage :: "'s storage"
  sh_codec :: value_codec
  sh_timeZone :: time_zone
  sh_localeLess :: "jsstring \<Rightarrow> jsstring \<Rightarrow> bool"
  sh_registered :: "jsstring \<Rightarrow> bool"
  sh_later :: "'s \<Rightarrow> 's"
  sh_workflowStatus :: "jsstring \<Rightarrow> ('s, workflow_status option) engine_action"
  sh_startWorkflow :: "jsstring \<Rightarrow> jsval \<Rightarrow> jsstring \<Rightarrow> batch_operation list \<Rightarrow> ('s, unit) engine_action"
  sh_cancelWorkflow :: "jsstring \<Rightarrow> ('s, unit) engine_action"
  sh_failWorkflow :: "jsstring \<Rightarrow> ('s, unit) engine_action"
  sh_flushStarts :: "('s, unit) engine_action"
  sh_waitForTurn :: "jsstring \<Rightarrow> ('s, unit) engine_action"
  sh_resolveServices :: "(jsstring \<Rightarrow> schedule_state \<Rightarrow> int option \<Rightarrow> unit + service_resolution) option"

definition ret :: "'a \<Rightarrow> ('s, 'a) engine_action" where
  "ret x e = (Inr x, e)"

definition throw :: "schedule_failure \<Rightarrow> ('s, 'a) engine_action" where
  "throw err e = (Inl err, e)"

definition lift :: "schedule_failure + 'a \<Rightarrow> ('s, 'a) engine_action" where
  "lift r e = (r, e)"

definition seq :: "('s, 'a) engine_action \<Rightarrow> ('a \<Rightarrow> ('s, 'b) engine_action) \<Rightarrow> ('s, 'b) engine_action" where
  "seq m f e = (case m e of (Inl err, e') \<Rightarrow> (Inl err, e') | (Inr x, e') \<Rightarrow> f x e')"

definition getNow :: "('s, int) engine_action" where
  "getNow e = (Inr (en_clock e 0), e\<lparr>en_clock := (\<lambda>n. en_clock e (Suc n))\<rparr>)"

definition randomUUID :: "('s, jsstring) engine_action" where
  "randomUUID e = (Inr (en_uuids e 0), e\<lparr>en_uuids := (\<lambda>n. en_uuids e (Suc n))\<rparr>)"

definition dispatchEvent :: "schedule_event \<Rightarrow> ('s, unit) engine_action" where
  "dispatchEvent event e = (Inr (), e\<lparr>en_events := en_events e @ [event]\<rparr>)"

definition scheduleKey :: "jsstring option \<Rightarrow> schedule_failure + jsstring" where
  "scheduleKey k = (case k of None \<Rightarrow> Inl ScheduleKeyNotValid | Some s \<Rightarrow> Inr s)"

definition storageGet :: "'s schedule_host \<Rightarrow> jsstring \<Rightarrow> ('s, bytes option) engine_action" where
  "storageGet H key e = (map_sum ScheduleStorage id (get_op (sh_storage H) (en_store e) key), e)"

definition storageDelete :: "'s schedule_host \<Rightarrow> jsstring \<Rightarrow> ('s, unit) engine_action" where
  "storageDelete H key e =
     (case delete_op (sh_storage H) (en_store e) key of (r, s) \<Rightarrow> (map_sum ScheduleStorage id r, e\<lparr>en_store := s\<rparr>))"

definition storageScan :: "'s schedule_host \<Rightarrow> jsstring \<Rightarrow> ('s, (jsstring \<times> bytes) list) engine_action" where
  "storageScan H prefix0 e =
     (map_sum ScheduleStorage id (scan_op (sh_storage H) (en_store e) prefix0 default_scan_options), e)"

definition commitWrite :: "'s schedule_host \<Rightarrow> batch_operation list \<Rightarrow> ('s, unit) engine_action" where
  "commitWrite H operations e =
     (case commitFencedEngineWrite (sh_storage H) (en_internals e) (en_store e) (sh_later H) operations []
             ScheduleCommitLost of
        (r, E, s) \<Rightarrow>
          (case r of Inl (Inl err) \<Rightarrow> Inl (ScheduleEngine err) | Inl (Inr err) \<Rightarrow> Inl err | Inr () \<Rightarrow> Inr (),
           e\<lparr>en_internals := E, en_store := s\<rparr>))"

section \<open>Persistence\<close>

definition KEYS_scheduleRunBySchedule :: "jsstring \<Rightarrow> jsstring \<Rightarrow> jsstring option" where
  "KEYS_scheduleRunBySchedule i w = renderKey [Lit ''schedule-run-by-schedule:'', Enc i, Lit '':'', Enc w]"

definition KEYS_terminalCleanupNeeded :: "jsstring \<Rightarrow> jsstring option" where
  "KEYS_terminalCleanupNeeded w = renderKey [Lit ''wf-cleanup-needed:'', Enc w]"

definition KEYS_workflowHasServices :: "jsstring \<Rightarrow> jsstring option" where
  "KEYS_workflowHasServices w = renderKey [Lit ''wf-has-services:'', Enc w]"

definition createScheduleTimerId :: "jsstring \<Rightarrow> jsstring" where
  "createScheduleTimerId scheduleId = js ''schedule:'' @ scheduleId"

definition clearScheduleCurrentWorkflow :: "schedule_state \<Rightarrow> schedule_state" where
  "clearScheduleCurrentWorkflow s = s\<lparr>ss_currentWorkflowId := None\<rparr>"

definition loadScheduleState :: "'s schedule_host \<Rightarrow> jsstring \<Rightarrow> ('s, schedule_state option) engine_action" where
  "loadScheduleState H scheduleId =
     seq (lift (scheduleKey (KEYS_schedule scheduleId))) (\<lambda>key.
     seq (storageGet H key) (\<lambda>r.
       case r of None \<Rightarrow> ret None | Some b \<Rightarrow> lift (decodeScheduleState (sh_codec H) b)))"

definition requireScheduleState :: "'s schedule_host \<Rightarrow> jsstring \<Rightarrow> ('s, schedule_state) engine_action" where
  "requireScheduleState H scheduleId =
     seq (loadScheduleState H scheduleId) (\<lambda>r. case r of None \<Rightarrow> throw ScheduleNotFound | Some s \<Rightarrow> ret s)"

definition scheduleTickKey :: "schedule_state \<Rightarrow> int \<Rightarrow> schedule_failure + jsstring" where
  "scheduleTickKey s nominalFireAt =
     scheduleKey (KEYS_scheduleTick (nat (resolveEffectiveScheduleFireAt s nominalFireAt)) (ss_id s))"

definition buildPreviousScheduleTimerDeleteOperations ::
    "schedule_state option \<Rightarrow> schedule_failure + batch_operation list" where
  "buildPreviousScheduleTimerDeleteOperations previousState =
     (case previousState of
        None \<Rightarrow> Inr []
      | Some p \<Rightarrow>
          if ss_status p \<noteq> ScheduleActive then Inr []
          else case ss_nextFireAt p of
            None \<Rightarrow> Inr []
          | Some t \<Rightarrow> and_then (scheduleTickKey p t) (\<lambda>key. Inr [Delete key]))"

definition scheduleTimerEntry :: "schedule_state \<Rightarrow> int \<Rightarrow> timer_entry" where
  "scheduleTimerEntry s nominalFireAt =
     \<lparr>te_id = createScheduleTimerId (ss_id s), te_workflowId = ss_id s,
      te_fireAt = of_int (resolveEffectiveScheduleFireAt s nominalFireAt), te_kind = ScheduleTick,
      te_executionTimeoutMs = JUndefined\<rparr>"

definition buildNextScheduleTimerOperations ::
    "value_codec \<Rightarrow> schedule_state \<Rightarrow> bool \<Rightarrow> schedule_failure + batch_operation list" where
  "buildNextScheduleTimerOperations C s includeTimer =
     (if \<not> includeTimer \<or> ss_status s \<noteq> ScheduleActive then Inr []
      else case ss_nextFireAt s of
        None \<Rightarrow> Inr []
      | Some t \<Rightarrow> map_sum ScheduleTimer id (buildTimerBatchOperations C (scheduleTimerEntry s t)))"

definition buildScheduleTimerReplacementOperations ::
    "value_codec \<Rightarrow> schedule_state \<Rightarrow> bool \<Rightarrow> schedule_state option \<Rightarrow> schedule_failure + batch_operation list" where
  "buildScheduleTimerReplacementOperations C s includeTimer previousState =
     and_then (buildPreviousScheduleTimerDeleteOperations previousState) (\<lambda>deleteOperations.
     and_then (buildNextScheduleTimerOperations C s includeTimer) (\<lambda>nextTimerOperations.
       Inr (if nextTimerOperations \<noteq> [] then deleteOperations @ nextTimerOperations
            else if previousState = None then deleteOperations
            else deleteOperations @ [Delete (timerIndexKey (createScheduleTimerId (ss_id s)))])))"

definition scheduleWriteOperations ::
    "value_codec \<Rightarrow> schedule_state \<Rightarrow> bool \<Rightarrow> schedule_state option \<Rightarrow> batch_operation list
     \<Rightarrow> schedule_failure + batch_operation list" where
  "scheduleWriteOperations C s includeTimer previousState additionalOperations =
     and_then (scheduleKey (KEYS_schedule (ss_id s))) (\<lambda>key.
     and_then (buildScheduleTimerReplacementOperations C s includeTimer previousState) (\<lambda>timerOperations.
       Inr (Put key (vc_encode C (scheduleValue s)) # timerOperations @ additionalOperations)))"

text \<open>\<open>includeTimer\<close> is optional and defaults to whether the schedule is active.\<close>

definition writeScheduleState ::
    "'s schedule_host \<Rightarrow> schedule_state \<Rightarrow> bool option \<Rightarrow> schedule_state option \<Rightarrow> batch_operation list
     \<Rightarrow> ('s, unit) engine_action" where
  "writeScheduleState H s includeTimer previousState additionalOperations =
     seq (lift (scheduleWriteOperations (sh_codec H) s
           (case includeTimer of Some b \<Rightarrow> b | None \<Rightarrow> ss_status s = ScheduleActive) previousState additionalOperations))
       (commitWrite H)"

section \<open>Launching a run\<close>

record scheduled_run_start =
  rs_occurrence :: "int option"
  rs_workflowId :: "jsstring option"
  rs_scheduleStateAfterStart :: "schedule_state option"
  rs_completedWorkflowId :: "jsstring option"

definition scheduleRunOperations ::
    "value_codec \<Rightarrow> schedule_state \<Rightarrow> jsstring \<Rightarrow> scheduled_run_start \<Rightarrow> schedule_failure + batch_operation list" where
  "scheduleRunOperations C s workflowId options =
     and_then (scheduleKey (KEYS_scheduleRun workflowId)) (\<lambda>run.
     and_then (scheduleKey (KEYS_scheduleRunLink workflowId)) (\<lambda>link.
     and_then (scheduleKey (KEYS_scheduleRunBySchedule (ss_id s) workflowId)) (\<lambda>bySchedule.
     and_then (scheduleKey (KEYS_terminalCleanupNeeded workflowId)) (\<lambda>cleanup.
     and_then (case rs_scheduleStateAfterStart options of
                 None \<Rightarrow> Inr []
               | Some t \<Rightarrow> and_then (scheduleKey (KEYS_schedule (ss_id t))) (\<lambda>key. Inr [Put key (vc_encode C (scheduleValue t))]))
       (\<lambda>statePut.
     and_then (case rs_completedWorkflowId options of
                 None \<Rightarrow> Inr []
               | Some w \<Rightarrow> and_then (scheduleKey (KEYS_scheduleRun w)) (\<lambda>key. Inr [Delete key]))
       (\<lambda>completedDelete.
       let metadata = encodeScheduleRunMetadata C (ss_id s) (rs_occurrence options)
       in Inr ([Put run metadata, Put link metadata, Put bySchedule [], Put cleanup []] @ statePut @ completedDelete)))))))"

definition resolveScheduledRunServices ::
    "'s schedule_host \<Rightarrow> jsstring \<Rightarrow> schedule_state \<Rightarrow> int option \<Rightarrow> service_resolution option" where
  "resolveScheduledRunServices H workflowId s occurrence =
     (case sh_resolveServices H of
        None \<Rightarrow> None
      | Some resolver \<Rightarrow>
          Some (case resolver workflowId s occurrence of Inl _ \<Rightarrow> ServicesUnavailable | Inr resolution \<Rightarrow> resolution))"

definition serviceOperations :: "jsstring \<Rightarrow> service_resolution option \<Rightarrow> schedule_failure + batch_operation list" where
  "serviceOperations workflowId resolution =
     (case resolution of
        None \<Rightarrow> Inr []
      | Some _ \<Rightarrow> and_then (scheduleKey (KEYS_workflowHasServices workflowId)) (\<lambda>key. Inr [Put key []]))"

definition registerRun :: "jsstring \<Rightarrow> service_resolution option \<Rightarrow> ('s, unit) engine_action" where
  "registerRun workflowId resolution e =
     (Inr (), e\<lparr>en_workflowServices := (case resolution of
                  Some (ServicesAvailable services) \<Rightarrow> AList.update workflowId services (en_workflowServices e)
                | _ \<Rightarrow> en_workflowServices e),
                en_workflowsNeedingTerminalCleanup := List.insert workflowId (en_workflowsNeedingTerminalCleanup e)\<rparr>)"

text \<open>A failure of \<open>failWorkflow\<close> is reported and not thrown.\<close>

definition failUnavailable :: "'s schedule_host \<Rightarrow> jsstring \<Rightarrow> service_resolution option \<Rightarrow> ('s, unit) engine_action" where
  "failUnavailable H workflowId resolution e =
     (if resolution = Some ServicesUnavailable then (Inr (), snd (sh_failWorkflow H workflowId e)) else (Inr (), e))"

definition startScheduledRun ::
    "'s schedule_host \<Rightarrow> schedule_state \<Rightarrow> scheduled_run_start \<Rightarrow> ('s, jsstring) engine_action" where
  "startScheduledRun H s options =
     seq (case rs_workflowId options of Some w \<Rightarrow> ret w | None \<Rightarrow> randomUUID) (\<lambda>workflowId.
     seq (lift (scheduleRunOperations (sh_codec H) s workflowId options)) (\<lambda>runOperations.
       let resolution = resolveScheduledRunServices H workflowId s (rs_occurrence options)
       in seq (lift (serviceOperations workflowId resolution)) (\<lambda>services.
          seq (registerRun workflowId resolution) (\<lambda>_.
          seq (sh_startWorkflow H (ss_workflowType s) (ss_input s) workflowId (runOperations @ services)) (\<lambda>_.
          seq getNow (\<lambda>now.
          seq (dispatchEvent (ScheduleFired (ss_id s) workflowId now (rs_occurrence options))) (\<lambda>_.
          seq (failUnavailable H workflowId resolution) (\<lambda>_.
            ret workflowId))))))))"

section \<open>Overlap\<close>

definition startScheduleRunInOccupiedSlot ::
    "'s schedule_host \<Rightarrow> schedule_state \<Rightarrow> int option \<Rightarrow> ('s, schedule_state) engine_action" where
  "startScheduleRunInOccupiedSlot H s occurrence =
     seq randomUUID (\<lambda>workflowId.
     seq (startScheduledRun H s \<lparr>rs_occurrence = occurrence, rs_workflowId = Some workflowId,
            rs_scheduleStateAfterStart = None, rs_completedWorkflowId = None\<rparr>) (\<lambda>_.
       ret (s\<lparr>ss_currentWorkflowId := Some workflowId\<rparr>)))"

definition applyBlockedScheduleOccurrence ::
    "'s schedule_host \<Rightarrow> schedule_state \<Rightarrow> bool \<Rightarrow> int option \<Rightarrow> ('s, schedule_state) engine_action" where
  "applyBlockedScheduleOccurrence H s hasActiveWorkflow occurrence =
     (if \<not> hasActiveWorkflow then startScheduleRunInOccupiedSlot H s occurrence
      else case ss_overlap s of
        OverlapCancelRunning \<Rightarrow>
          seq (case ss_currentWorkflowId s of Some w \<Rightarrow> sh_cancelWorkflow H w | None \<Rightarrow> ret ()) (\<lambda>_.
            startScheduleRunInOccupiedSlot H (clearScheduleCurrentWorkflow s) occurrence)
      | OverlapQueue \<Rightarrow>
          seq randomUUID (\<lambda>workflowId.
          seq getNow (\<lambda>now.
            ret (s\<lparr>ss_queuedRuns := ss_queuedRuns s @
                   [\<lparr>qr_workflowId = workflowId, qr_queuedAt = now, qr_occurrence = occurrence\<rparr>]\<rparr>)))
      | _ \<Rightarrow> ret s)"

definition drainQueuedScheduleRun ::
    "'s schedule_host \<Rightarrow> schedule_state \<Rightarrow> jsstring option \<Rightarrow> ('s, schedule_state) engine_action" where
  "drainQueuedScheduleRun H s completedWorkflowId =
     (case ss_queuedRuns s of
        [] \<Rightarrow> ret s
      | queuedRun # remainingQueuedRuns \<Rightarrow>
          let stateAfterStart = s\<lparr>ss_currentWorkflowId := Some (qr_workflowId queuedRun), ss_queuedRuns := remainingQueuedRuns\<rparr>
          in seq (startScheduledRun H s \<lparr>rs_occurrence = qr_occurrence queuedRun, rs_workflowId = Some (qr_workflowId queuedRun),
                 rs_scheduleStateAfterStart = Some stateAfterStart, rs_completedWorkflowId = completedWorkflowId\<rparr>) (\<lambda>_.
               ret stateAfterStart))"

section \<open>Operations of the engine\<close>

text \<open>The handle that \<open>schedule\<close> returns is the id.\<close>

definition cadenceFields :: "schedule_spec \<Rightarrow> jsstring option \<times> int option" where
  "cadenceFields spec = (case spec of IntervalSpec i \<Rightarrow> (None, Some i) | CronSpec c \<Rightarrow> (Some c, None))"

definition nextForCadence :: "'s schedule_host \<Rightarrow> schedule_spec \<Rightarrow> int \<Rightarrow> schedule_failure + int" where
  "nextForCadence H spec now =
     and_then (resolveScheduleCadence (fst (cadenceFields spec)) (snd (cadenceFields spec)) now) (\<lambda>cadence.
       nextOccurrence (sh_timeZone H) cadence now)"

definition createSchedule ::
    "'s schedule_host \<Rightarrow> jsstring \<Rightarrow> jsval \<Rightarrow> schedule_spec \<Rightarrow> normalized_schedule_options \<Rightarrow> jsstring
     \<Rightarrow> ('s, jsstring) engine_action" where
  "createSchedule H type input spec options scheduleId =
     seq (lift (scheduleKey (KEYS_schedule scheduleId))) (\<lambda>key.
     seq (storageGet H key) (\<lambda>existing.
       if existing \<noteq> None then throw ScheduleExists
       else
         seq getNow (\<lambda>now.
         seq (lift (nextForCadence H spec now)) (\<lambda>nextFireAt.
         seq (writeScheduleState H
               \<lparr>ss_id = scheduleId, ss_workflowType = type, ss_input = input, ss_description = so_description options,
                ss_cronExpression = fst (cadenceFields spec), ss_intervalMs = snd (cadenceFields spec),
                ss_status = ScheduleActive, ss_overlap = so_overlapPolicy options, ss_backfill = so_backfill options,
                ss_jitterMs = so_jitterMs options, ss_createdAt = now, ss_updatedAt = now, ss_lastFireAt = None,
                ss_lastMissedFireAt = None, ss_missedFireCount = 0, ss_nextFireAt = Some nextFireAt,
                ss_currentWorkflowId = None, ss_queuedRuns = []\<rparr> None None []) (\<lambda>_.
           ret scheduleId)))))"

definition schedule ::
    "'s schedule_host \<Rightarrow> jsstring \<Rightarrow> jsval \<Rightarrow> jsval \<Rightarrow> jsval \<Rightarrow> ('s, jsstring) engine_action" where
  "schedule H type input spec options =
     (if \<not> sh_registered H type then throw WorkflowNotRegistered
      else
        seq (lift (normalizeScheduleSpec spec)) (\<lambda>normalizedSpec.
        seq (lift (normalizeScheduleOptions options)) (\<lambda>normalizedOptions.
        seq (case so_id normalizedOptions of Some i \<Rightarrow> ret i | None \<Rightarrow> randomUUID) (\<lambda>scheduleId e.
          if scheduleId \<in> set (en_pendingScheduleCreations e) then (Inl ScheduleExists, e)
          else
            case createSchedule H type input normalizedSpec normalizedOptions scheduleId
                   (e\<lparr>en_pendingScheduleCreations := scheduleId # en_pendingScheduleCreations e\<rparr>) of
              (r, e') \<Rightarrow>
                (r, e'\<lparr>en_pendingScheduleCreations := removeAll scheduleId (en_pendingScheduleCreations e')\<rparr>)))))"

definition cancelScheduleTimer :: "'s schedule_host \<Rightarrow> jsstring \<Rightarrow> ('s, unit) engine_action" where
  "cancelScheduleTimer H scheduleId e =
     (case scheduler_cancel (sh_storage H) (sh_codec H) (createScheduleTimerId scheduleId) (en_scheduler e) (en_store e) of
        (r, sch, s) \<Rightarrow> (map_sum ScheduleTimer id r, e\<lparr>en_scheduler := sch, en_store := s\<rparr>))"

definition pauseSchedule :: "'s schedule_host \<Rightarrow> jsval \<Rightarrow> ('s, unit) engine_action" where
  "pauseSchedule H scheduleId =
     seq (lift (coerceScheduleId scheduleId)) (\<lambda>i.
     seq (requireScheduleState H i) (\<lambda>state.
       if ss_status state \<noteq> ScheduleActive then ret ()
       else
         seq (cancelScheduleTimer H i) (\<lambda>_.
         seq getNow (\<lambda>now.
         seq (lift (getNextScheduleOccurrence (sh_timeZone H) state now)) (\<lambda>nextFireAt.
           writeScheduleState H
             (state\<lparr>ss_status := SchedulePaused, ss_updatedAt := now, ss_nextFireAt := Some nextFireAt, ss_queuedRuns := []\<rparr>)
             (Some False) None [])))))"

definition resumeSchedule :: "'s schedule_host \<Rightarrow> jsval \<Rightarrow> ('s, unit) engine_action" where
  "resumeSchedule H scheduleId =
     seq (lift (coerceScheduleId scheduleId)) (\<lambda>i.
     seq (requireScheduleState H i) (\<lambda>state.
       if ss_status state = ScheduleCancelled then throw ScheduleIsCancelled
       else if ss_status state = ScheduleActive then ret ()
       else
         seq getNow (\<lambda>now.
         seq (lift (getNextScheduleOccurrence (sh_timeZone H) state now)) (\<lambda>nextFireAt.
           writeScheduleState H
             (state\<lparr>ss_status := ScheduleActive, ss_updatedAt := now, ss_nextFireAt := Some nextFireAt\<rparr>) None None []))))"

definition cancelSchedule :: "'s schedule_host \<Rightarrow> jsval \<Rightarrow> ('s, unit) engine_action" where
  "cancelSchedule H scheduleId =
     seq (lift (coerceScheduleId scheduleId)) (\<lambda>i.
     seq (requireScheduleState H i) (\<lambda>state.
     seq (if ss_status state = ScheduleActive then cancelScheduleTimer H i else ret ()) (\<lambda>_.
     seq getNow (\<lambda>now.
       writeScheduleState H
         (state\<lparr>ss_status := ScheduleCancelled, ss_updatedAt := now, ss_nextFireAt := None, ss_queuedRuns := []\<rparr>)
         (Some False) None []))))"

text \<open>An option that is left out keeps the stored value; an interval is anchored anew at the update.\<close>

definition applyScheduleUpdate ::
    "schedule_state \<Rightarrow> schedule_spec \<Rightarrow> normalized_schedule_update \<Rightarrow> int \<Rightarrow> int option \<Rightarrow> schedule_state" where
  "applyScheduleUpdate state spec options now nextFireAt =
     state\<lparr>ss_description := (case su_description options of Some d \<Rightarrow> Some d | None \<Rightarrow> ss_description state),
           ss_overlap := (case su_overlap options of Some p \<Rightarrow> p | None \<Rightarrow> ss_overlap state),
           ss_backfill := (case su_backfill options of Some b \<Rightarrow> b | None \<Rightarrow> ss_backfill state),
           ss_jitterMs := (case su_jitterMs options of Some j \<Rightarrow> Some j | None \<Rightarrow> ss_jitterMs state),
           ss_cronExpression := fst (cadenceFields spec), ss_intervalMs := snd (cadenceFields spec),
           ss_createdAt := (case spec of IntervalSpec _ \<Rightarrow> now | CronSpec _ \<Rightarrow> ss_createdAt state),
           ss_updatedAt := now, ss_nextFireAt := nextFireAt\<rparr>"

definition updateSchedule :: "'s schedule_host \<Rightarrow> jsval \<Rightarrow> jsval \<Rightarrow> jsval \<Rightarrow> ('s, unit) engine_action" where
  "updateSchedule H scheduleId newSpec options =
     seq (lift (coerceScheduleId scheduleId)) (\<lambda>i.
     seq (lift (normalizeScheduleSpec newSpec)) (\<lambda>spec.
     seq (lift (normalizeScheduleUpdateOptions options)) (\<lambda>normalizedOptions.
     seq (requireScheduleState H i) (\<lambda>state.
     seq getNow (\<lambda>now.
     seq (if ss_status state = ScheduleCancelled then ret None
          else seq (lift (nextForCadence H spec now)) (\<lambda>t. ret (Some t))) (\<lambda>nextFireAt.
       writeScheduleState H (applyScheduleUpdate state spec normalizedOptions now nextFireAt)
         (Some (ss_status state = ScheduleActive)) (Some state) []))))))"

text \<open>A summary is a record without its input. Both listing and recovery skip keys with a further colon.\<close>

definition toScheduleSummary :: "schedule_state \<Rightarrow> schedule_state" where
  "toScheduleSummary s = s\<lparr>ss_input := JUndefined\<rparr>"

definition isScheduleRecordKey :: "jsstring \<Rightarrow> bool" where
  "isScheduleRecordKey key \<longleftrightarrow> 58 \<notin> set (drop (length (js ''schedule:'')) key)"

fun collectSchedules :: "value_codec \<Rightarrow> jsval \<Rightarrow> (jsstring \<times> bytes) list \<Rightarrow> schedule_failure + schedule_state list" where
  "collectSchedules C criteria [] = Inr []"
| "collectSchedules C criteria ((key, value) # entries) =
     (if \<not> isScheduleRecordKey key then collectSchedules C criteria entries
      else and_then (decodeScheduleState C value) (\<lambda>state.
        case state of
          None \<Rightarrow> collectSchedules C criteria entries
        | Some s \<Rightarrow>
            if \<not> matchesScheduleFilter s criteria then collectSchedules C criteria entries
            else and_then (collectSchedules C criteria entries) (\<lambda>items. Inr (toScheduleSummary s # items))))"

definition listSchedules :: "'s schedule_host \<Rightarrow> jsval \<Rightarrow> ('s, schedule_page) engine_action" where
  "listSchedules H criteria =
     seq (lift (normalizeScheduleFilter criteria)) (\<lambda>normalizedFilter.
     seq (storageScan H (js ''schedule:'')) (\<lambda>entries.
     seq (lift (collectSchedules (sh_codec H) normalizedFilter entries)) (\<lambda>items.
       ret (paginateScheduleSummaries (sh_localeLess H) items normalizedFilter))))"

definition hasCurrentScheduleTimer :: "'s schedule_host \<Rightarrow> schedule_state \<Rightarrow> int \<Rightarrow> ('s, bool) engine_action" where
  "hasCurrentScheduleTimer H state nextFireAt =
     seq (lift (scheduleTickKey state nextFireAt)) (\<lambda>timerKey.
     seq (storageGet H timerKey) (\<lambda>timerBytes.
       if timerBytes = None then ret False
       else
         seq (storageGet H (timerIndexKey (createScheduleTimerId (ss_id state)))) (\<lambda>timerIndexBytes.
           case timerIndexBytes of
             None \<Rightarrow> ret False
           | Some b \<Rightarrow>
               (case vc_decode (sh_codec H) b of
                  None \<Rightarrow> throw ScheduleDecode
                | Some v \<Rightarrow> ret (v = JString timerKey)))))"

definition recoverScheduleTimer :: "'s schedule_host \<Rightarrow> schedule_state \<Rightarrow> ('s, unit) engine_action" where
  "recoverScheduleTimer H state =
     (if ss_status state \<noteq> ScheduleActive then ret ()
      else case ss_nextFireAt state of
        None \<Rightarrow> ret ()
      | Some t \<Rightarrow>
          seq (hasCurrentScheduleTimer H state t) (\<lambda>current.
            if current then ret () else writeScheduleState H state None None []))"

fun recoverEntries :: "'s schedule_host \<Rightarrow> (jsstring \<times> bytes) list \<Rightarrow> ('s, unit) engine_action" where
  "recoverEntries H [] = ret ()"
| "recoverEntries H ((key, value) # entries) =
     (if \<not> isScheduleRecordKey key then recoverEntries H entries
      else
        seq (lift (decodeScheduleState (sh_codec H) value)) (\<lambda>state.
        seq (case state of None \<Rightarrow> ret () | Some s \<Rightarrow> recoverScheduleTimer H s) (\<lambda>_.
          recoverEntries H entries)))"

definition recoverOrphanedScheduleTimers :: "'s schedule_host \<Rightarrow> ('s, unit) engine_action" where
  "recoverOrphanedScheduleTimers H = seq (storageScan H (js ''schedule:'')) (recoverEntries H)"

section \<open>Occurrences\<close>

definition scheduledRunOccupiesSlot :: "workflow_status option \<Rightarrow> bool" where
  "scheduledRunOccupiesSlot status \<longleftrightarrow>
     status = Some WorkflowRunning \<or> status = Some WorkflowPending \<or> status = Some WorkflowSuspended"

definition refreshScheduledWorkflowState ::
    "'s schedule_host \<Rightarrow> schedule_state \<Rightarrow> ('s, schedule_state \<times> workflow_status option) engine_action" where
  "refreshScheduledWorkflowState H state =
     (case ss_currentWorkflowId state of
        None \<Rightarrow> ret (state, None)
      | Some w \<Rightarrow>
          seq (sh_workflowStatus H w) (\<lambda>currentWorkflowState.
            if scheduledRunOccupiesSlot currentWorkflowState then ret (state, currentWorkflowState)
            else
              seq (lift (scheduleKey (KEYS_scheduleRun w))) (\<lambda>key.
              seq (storageDelete H key) (\<lambda>_.
                ret (clearScheduleCurrentWorkflow state, currentWorkflowState)))))"

definition applyScheduleOccurrence ::
    "'s schedule_host \<Rightarrow> schedule_state \<Rightarrow> int option \<Rightarrow> ('s, schedule_state) engine_action" where
  "applyScheduleOccurrence H state occurrence =
     seq (refreshScheduledWorkflowState H state) (\<lambda>(refreshedState, currentWorkflowState).
       let active = scheduledRunOccupiesSlot currentWorkflowState
       in seq (if \<not> active \<and> ss_queuedRuns refreshedState \<noteq> []
               then seq (drainQueuedScheduleRun H refreshedState None) (\<lambda>s. ret (s, True))
               else ret (refreshedState, active)) (\<lambda>(stateForOccurrence, hasActiveWorkflow).
            if ss_overlap stateForOccurrence = OverlapAllow then
              seq (startScheduledRun H stateForOccurrence \<lparr>rs_occurrence = occurrence, rs_workflowId = None,
                     rs_scheduleStateAfterStart = None, rs_completedWorkflowId = None\<rparr>) (\<lambda>_.
                ret stateForOccurrence)
            else applyBlockedScheduleOccurrence H stateForOccurrence hasActiveWorkflow occurrence))"

definition settleBackfillScheduleState :: "'s schedule_host \<Rightarrow> schedule_state \<Rightarrow> ('s, schedule_state) engine_action" where
  "settleBackfillScheduleState H state =
     (case ss_currentWorkflowId state of
        None \<Rightarrow> ret state
      | Some w \<Rightarrow>
          seq (sh_flushStarts H) (\<lambda>_.
          seq (sh_waitForTurn H w) (\<lambda>_.
          seq (refreshScheduledWorkflowState H state) (\<lambda>(refreshed, _).
            ret refreshed))))"

definition deleteTransientScheduleRunMetadata :: "'s schedule_host \<Rightarrow> jsstring \<Rightarrow> ('s, unit) engine_action" where
  "deleteTransientScheduleRunMetadata H workflowId =
     seq (lift (scheduleKey (KEYS_scheduleRun workflowId))) (\<lambda>key. commitWrite H [Delete key])"

definition settleScheduledWorkflow :: "'s schedule_host \<Rightarrow> schedule_state \<Rightarrow> jsstring \<Rightarrow> ('s, unit) engine_action" where
  "settleScheduledWorkflow H state workflowId =
     seq getNow (\<lambda>now.
       let clearedState = (clearScheduleCurrentWorkflow state)\<lparr>ss_updatedAt := now\<rparr>
       in if ss_status clearedState = ScheduleActive \<and> ss_queuedRuns clearedState \<noteq> []
          then seq (drainQueuedScheduleRun H clearedState (Some workflowId)) (\<lambda>_. ret ())
          else
            seq (lift (scheduleKey (KEYS_scheduleRun workflowId))) (\<lambda>key.
              writeScheduleState H clearedState (Some False) None [Delete key]))"

definition handleScheduledWorkflowTerminal :: "'s schedule_host \<Rightarrow> jsstring \<Rightarrow> ('s, unit) engine_action" where
  "handleScheduledWorkflowTerminal H workflowId =
     seq (lift (scheduleKey (KEYS_scheduleRun workflowId))) (\<lambda>key.
     seq (storageGet H key) (\<lambda>scheduleRunBytes.
       case scheduleRunBytes of
         None \<Rightarrow> ret ()
       | Some b \<Rightarrow>
           (case decodeScheduleRunMetadata (sh_codec H) b of
              None \<Rightarrow> deleteTransientScheduleRunMetadata H workflowId
            | Some (scheduleId, _) \<Rightarrow>
                seq (loadScheduleState H scheduleId) (\<lambda>state.
                  case state of
                    None \<Rightarrow> deleteTransientScheduleRunMetadata H workflowId
                  | Some s \<Rightarrow>
                      if ss_currentWorkflowId s \<noteq> Some workflowId then deleteTransientScheduleRunMetadata H workflowId
                      else settleScheduledWorkflow H s workflowId))))"

section \<open>The timer of a schedule\<close>

definition SCHEDULE_LATE_GRACE_MILLISECONDS :: int where
  "SCHEDULE_LATE_GRACE_MILLISECONDS = 1000"

definition MAX_SCHEDULE_BACKFILL_OCCURRENCES_PER_TICK :: nat where
  "MAX_SCHEDULE_BACKFILL_OCCURRENCES_PER_TICK = 256"

definition MAX_MISSED_FIRE_COUNT_PER_TICK :: nat where
  "MAX_MISSED_FIRE_COUNT_PER_TICK = MAX_SCHEDULE_BACKFILL_OCCURRENCES_PER_TICK"

record missed_schedule_occurrences =
  ms_count :: nat
  ms_lastMissedFireAt :: int
  ms_windowStart :: int
  ms_windowEnd :: int

record schedule_timer_work =
  tw_dueOccurrences :: "int list"
  tw_missedOccurrences :: "missed_schedule_occurrences option"
  tw_occurrencesToProcess :: "int list"
  tw_skipMissedOccurrences :: bool

definition isCurrentActiveScheduleTimer :: "schedule_state option \<Rightarrow> timer_entry \<Rightarrow> bool" where
  "isCurrentActiveScheduleTimer state entry \<longleftrightarrow>
     (case state of
        None \<Rightarrow> False
      | Some s \<Rightarrow>
          ss_status s = ScheduleActive \<and>
          (case ss_nextFireAt s of
             None \<Rightarrow> False
           | Some t \<Rightarrow> of_int (resolveEffectiveScheduleFireAt s t) = te_fireAt entry))"

text \<open>The loop stops at the bound on the count, which is its fuel.\<close>

fun countMissedLoop ::
    "time_zone \<Rightarrow> schedule_state \<Rightarrow> int \<Rightarrow> nat \<Rightarrow> nat \<Rightarrow> int \<Rightarrow> int \<Rightarrow> schedule_failure + (nat \<times> int \<times> int)" where
  "countMissedLoop timeZone state throughTimestamp 0 n lastMissedFireAt occurrence = Inr (n, lastMissedFireAt, occurrence)"
| "countMissedLoop timeZone state throughTimestamp (Suc fuel) n lastMissedFireAt occurrence =
     (if occurrence \<le> throughTimestamp then
        and_then (getNextScheduleOccurrence timeZone state occurrence) (\<lambda>following.
          if following \<le> occurrence then Inl NonAdvancingOccurrence
          else countMissedLoop timeZone state throughTimestamp fuel (Suc n) occurrence following)
      else Inr (n, lastMissedFireAt, occurrence))"

definition countMissedScheduleOccurrences ::
    "time_zone \<Rightarrow> schedule_state \<Rightarrow> int \<Rightarrow> int \<Rightarrow> schedule_failure + missed_schedule_occurrences" where
  "countMissedScheduleOccurrences timeZone state firstDueAt throughTimestamp =
     and_then (countMissedLoop timeZone state throughTimestamp MAX_MISSED_FIRE_COUNT_PER_TICK 0 firstDueAt firstDueAt)
       (\<lambda>(n, lastMissedFireAt, occurrence).
         Inr \<lparr>ms_count = n, ms_lastMissedFireAt = lastMissedFireAt, ms_windowStart = firstDueAt,
              ms_windowEnd = (if occurrence \<le> throughTimestamp then lastMissedFireAt else throughTimestamp)\<rparr>)"

definition planScheduleTimerWork ::
    "time_zone \<Rightarrow> schedule_state \<Rightarrow> int \<Rightarrow> int \<Rightarrow> int \<Rightarrow> schedule_failure + schedule_timer_work option" where
  "planScheduleTimerWork timeZone state nextFireAt fireAt now =
     and_then (collectDueScheduleOccurrences timeZone state nextFireAt (max now fireAt)
                 (if ss_backfill state then MAX_SCHEDULE_BACKFILL_OCCURRENCES_PER_TICK else 2)) (\<lambda>found.
       if found = [] then Inr None
       else if \<not> ss_backfill state \<and> now - fireAt > SCHEDULE_LATE_GRACE_MILLISECONDS then
         and_then (countMissedScheduleOccurrences timeZone state nextFireAt now) (\<lambda>missed.
           Inr (Some \<lparr>tw_dueOccurrences = found, tw_missedOccurrences = Some missed, tw_occurrencesToProcess = [],
                      tw_skipMissedOccurrences = True\<rparr>))
       else
         Inr (Some \<lparr>tw_dueOccurrences = found, tw_missedOccurrences = None,
                    tw_occurrencesToProcess = (if ss_backfill state then found else take 1 found),
                    tw_skipMissedOccurrences = False\<rparr>))"

definition resolveNextScheduleFireAt ::
    "time_zone \<Rightarrow> schedule_state \<Rightarrow> schedule_timer_work \<Rightarrow> int \<Rightarrow> schedule_failure + int" where
  "resolveNextScheduleFireAt timeZone state work now =
     getNextScheduleOccurrence timeZone state
       (if tw_skipMissedOccurrences work
        then (case tw_missedOccurrences work of Some m \<Rightarrow> ms_lastMissedFireAt m | None \<Rightarrow> now)
        else if tw_occurrencesToProcess work \<noteq> [] then last (tw_occurrencesToProcess work)
        else last (tw_dueOccurrences work))"

definition persistScheduleTimerState ::
    "'s schedule_host \<Rightarrow> schedule_state \<Rightarrow> bool option \<Rightarrow> ('s, unit) engine_action" where
  "persistScheduleTimerState H state includeTimer e =
     (case writeScheduleState H state includeTimer None [] e of
        (Inl err, e') \<Rightarrow> (Inl (SchedulePersistence err), e')
      | (Inr u, e') \<Rightarrow> (Inr u, e'))"

text \<open>
  The loop over the occurrences. Beside its result it returns the state the handler saw last, which is
  what the handler pauses when a step throws.
\<close>

definition applyTimerOccurrence ::
    "'s schedule_host \<Rightarrow> schedule_timer_work \<Rightarrow> int \<Rightarrow> schedule_state \<Rightarrow> int \<Rightarrow> bool \<Rightarrow> ('s, schedule_state) engine_action" where
  "applyTimerOccurrence H work now state occurrence finalOccurrence =
     seq (applyScheduleOccurrence H state (Some occurrence)) (\<lambda>applied.
       let fired = applied\<lparr>ss_lastFireAt := Some occurrence, ss_updatedAt := now\<rparr>
       in if finalOccurrence then
            seq (lift (resolveNextScheduleFireAt (sh_timeZone H) fired work now)) (\<lambda>t. ret (fired\<lparr>ss_nextFireAt := Some t\<rparr>))
          else ret fired)"

definition settleTimerOccurrence ::
    "'s schedule_host \<Rightarrow> schedule_timer_work \<Rightarrow> int \<Rightarrow> schedule_state \<Rightarrow> bool \<Rightarrow> ('s, schedule_state) engine_action" where
  "settleTimerOccurrence H work now state finalOccurrence =
     seq (settleBackfillScheduleState H state) (\<lambda>settled.
       if finalOccurrence then
         seq (lift (resolveNextScheduleFireAt (sh_timeZone H) settled work now)) (\<lambda>t.
           let rearmed = settled\<lparr>ss_updatedAt := now, ss_nextFireAt := Some t\<rparr>
           in seq (persistScheduleTimerState H rearmed None) (\<lambda>_. ret rearmed))
       else ret settled)"

fun processScheduleTimerOccurrences ::
    "'s schedule_host \<Rightarrow> bool \<Rightarrow> schedule_timer_work \<Rightarrow> int \<Rightarrow> int list \<Rightarrow> schedule_state \<Rightarrow> 's schedule_engine
     \<Rightarrow> (schedule_failure + unit) \<times> schedule_state \<times> 's schedule_engine" where
  "processScheduleTimerOccurrences H backfill work now [] state e = (Inr (), state, e)"
| "processScheduleTimerOccurrences H backfill work now (occurrence # occurrences) state e =
     (let finalOccurrence = (occurrences = [])
      in case applyTimerOccurrence H work now state occurrence finalOccurrence e of
        (Inl err, e') \<Rightarrow> (Inl err, state, e')
      | (Inr processed, e') \<Rightarrow>
          (case persistScheduleTimerState H processed (Some finalOccurrence) e' of
             (Inl err, e'') \<Rightarrow> (Inl err, processed, e'')
           | (Inr _, e'') \<Rightarrow>
               if backfill \<and> ss_currentWorkflowId processed \<noteq> None then
                 (case settleTimerOccurrence H work now processed finalOccurrence e'' of
                    (Inl err, e3) \<Rightarrow> (Inl err, processed, e3)
                  | (Inr settled, e3) \<Rightarrow> processScheduleTimerOccurrences H backfill work now occurrences settled e3)
               else processScheduleTimerOccurrences H backfill work now occurrences processed e''))"

definition skipMissedOccurrences ::
    "'s schedule_host \<Rightarrow> schedule_timer_work \<Rightarrow> int \<Rightarrow> schedule_state \<Rightarrow> 's schedule_engine
     \<Rightarrow> (schedule_failure + unit) \<times> schedule_state \<times> 's schedule_engine" where
  "skipMissedOccurrences H work now state e =
     (case resolveNextScheduleFireAt (sh_timeZone H) state work now of
        Inl err \<Rightarrow> (Inl err, state, e)
      | Inr t \<Rightarrow>
          let skipped = state\<lparr>ss_updatedAt := now, ss_nextFireAt := Some t\<rparr>;
              counted = (case tw_missedOccurrences work of
                 None \<Rightarrow> skipped
               | Some m \<Rightarrow> skipped\<lparr>ss_lastMissedFireAt := Some (ms_lastMissedFireAt m),
                             ss_missedFireCount := ss_missedFireCount state + int (ms_count m)\<rparr>)
          in case seq (persistScheduleTimerState H counted None) (\<lambda>_.
                    case tw_missedOccurrences work of
                      None \<Rightarrow> ret ()
                    | Some m \<Rightarrow> dispatchEvent (ScheduleMissedFire (ss_id counted) (int (ms_count m)) (ms_windowStart m) (ms_windowEnd m))) e of
               (r, e') \<Rightarrow> (r, counted, e'))"

definition pauseScheduleAfterTimerFailure :: "'s schedule_host \<Rightarrow> schedule_state \<Rightarrow> ('s, unit) engine_action" where
  "pauseScheduleAfterTimerFailure H state =
     seq getNow (\<lambda>errorNow.
     seq (lift (getNextScheduleOccurrence (sh_timeZone H) state errorNow)) (\<lambda>t.
       writeScheduleState H (state\<lparr>ss_status := SchedulePaused, ss_updatedAt := errorNow, ss_nextFireAt := Some t\<rparr>)
         (Some False) None []))"

definition runScheduleTimer ::
    "'s schedule_host \<Rightarrow> schedule_state \<Rightarrow> int \<Rightarrow> int \<Rightarrow> 's schedule_engine
     \<Rightarrow> (schedule_failure + unit) \<times> schedule_state \<times> 's schedule_engine" where
  "runScheduleTimer H state nextFireAt fireAt e =
     (case getNow e of
        (Inl err, e') \<Rightarrow> (Inl err, state, e')
      | (Inr now, e') \<Rightarrow>
          (case planScheduleTimerWork (sh_timeZone H) state nextFireAt fireAt now of
             Inl err \<Rightarrow> (Inl err, state, e')
           | Inr None \<Rightarrow> (Inr (), state, e')
           | Inr (Some work) \<Rightarrow>
               if tw_occurrencesToProcess work = [] then skipMissedOccurrences H work now state e'
               else processScheduleTimerOccurrences H (ss_backfill state) work now (tw_occurrencesToProcess work) state e'))"

definition handleScheduleTimer :: "'s schedule_host \<Rightarrow> timer_entry \<Rightarrow> ('s, unit) engine_action" where
  "handleScheduleTimer H entry e =
     (if deposed (en_internals e) then (Inr (), e)
      else case loadScheduleState H (te_workflowId entry) e of
        (Inl err, e') \<Rightarrow> (Inl err, e')
      | (Inr loaded, e') \<Rightarrow>
          if \<not> isCurrentActiveScheduleTimer loaded entry then (Inr (), e')
          else
            let state = the loaded; nextFireAt = the (ss_nextFireAt state)
            in case runScheduleTimer H state nextFireAt (resolveEffectiveScheduleFireAt state nextFireAt) e' of
                 (Inr _, _, e'') \<Rightarrow> (Inr (), e'')
               | (Inl (SchedulePersistence err), _, e'') \<Rightarrow> (Inl (SchedulePersistence err), e'')
               | (Inl _, nextState, e'') \<Rightarrow> pauseScheduleAfterTimerFailure H nextState e'')"

end
