(* ===== verification/Schedule_Properties.thy ===== *)
theory Schedule_Properties
  imports Schedules Timer_Scheduler_Properties
begin

text \<open>
  What the schedule operations guarantee over any store that meets the contract of \<open>cas_storage_spec\<close>: the
  keys of different schedules are apart, writing a record arms its timer, and creating, pausing, resuming,
  cancelling, updating and recovery leave every active schedule armed.
\<close>

section \<open>Sequencing\<close>

lemma seq_Inr: "seq m f e = (Inr y, e') \<longleftrightarrow> (\<exists>x e1. m e = (Inr x, e1) \<and> f x e1 = (Inr y, e'))"
  by (auto simp: seq_def split: prod.splits sum.splits)

lemma lift_Inr: "lift r e = (Inr y, e') \<longleftrightarrow> r = Inr y \<and> e' = e"
  by (auto simp: lift_def)

lemma ret_Inr: "ret x e = (Inr y, e') \<longleftrightarrow> x = y \<and> e' = e"
  by (auto simp: ret_def)

lemma throw_Inr: "\<not> throw err e = (Inr y, e')"
  by (simp add: throw_def)

lemma getNow_Inr: "getNow e = (Inr n, e') \<longleftrightarrow> n = en_clock e 0 \<and> e' = e\<lparr>en_clock := (\<lambda>n. en_clock e (Suc n))\<rparr>"
  by (auto simp: getNow_def)

lemma randomUUID_Inr:
  "randomUUID e = (Inr i, e') \<longleftrightarrow> i = en_uuids e 0 \<and> e' = e\<lparr>en_uuids := (\<lambda>n. en_uuids e (Suc n))\<rparr>"
  by (auto simp: randomUUID_def)

lemma scheduleKey_Inr: "scheduleKey k = Inr s \<longleftrightarrow> k = Some s"
  by (cases k) (simp_all add: scheduleKey_def)

lemmas action_iffs = seq_Inr lift_Inr ret_Inr throw_Inr getNow_Inr randomUUID_Inr scheduleKey_Inr

section \<open>Keys\<close>

definition tick_keys :: "jsstring \<Rightarrow> jsstring set" where
  "tick_keys i = {k. \<exists>t < 10 ^ 16. KEYS_scheduleTick t i = Some k}"

definition own_keys :: "jsstring \<Rightarrow> jsstring set" where
  "own_keys i = {k. KEYS_schedule i = Some k} \<union> tick_keys i \<union> {timerIndexKey (createScheduleTimerId i)}"

lemma schedule_key_form: "KEYS_schedule i = Some k \<longleftrightarrow> (\<exists>enc. encodeURIComponent i = Some enc \<and> k = js ''schedule:'' @ enc)"
  by (auto simp: KEYS_schedule_def encodeStorageKeyComponent_def split: option.splits)

lemma tick_key_form:
  "KEYS_scheduleTick t i = Some k \<longleftrightarrow>
     (\<exists>enc. encodeURIComponent i = Some enc \<and> k = js ''schedule-due:'' @ formatSortableTimestamp t @ 58 # enc)"
  by (auto simp: KEYS_scheduleTick_def encodeStorageKeyComponent_def formatSortableTimestamp_def js_def split: option.splits)

lemma encode_inject: "encodeURIComponent i = Some e \<Longrightarrow> encodeURIComponent j = Some e \<Longrightarrow> i = j"
  by (metis decode_encode option.inject)

lemma schedule_key_inject: "KEYS_schedule i = Some k \<Longrightarrow> KEYS_schedule j = Some k \<Longrightarrow> i = j"
  by (auto simp: schedule_key_form intro: encode_inject)

lemma tick_key_inject:
  assumes "KEYS_scheduleTick t i = Some k" and "KEYS_scheduleTick u j = Some k" and "t < 10 ^ 16" and "u < 10 ^ 16"
  shows "t = u \<and> i = j"
proof -
  obtain a b where e: "encodeURIComponent i = Some a" "encodeURIComponent j = Some b"
    "formatSortableTimestamp t @ 58 # a = formatSortableTimestamp u @ 58 # b"
    using assms(1,2) by (auto simp: tick_key_form)
  have "length (formatSortableTimestamp t) = length (formatSortableTimestamp u)"
    using assms(3,4) length_formatSortableTimestamp by simp
  then have "formatSortableTimestamp t = formatSortableTimestamp u" "a = b" using e(3) by auto
  then show ?thesis
    using e(1,2) decode_encode formatSortableTimestamp_eq_iff [OF assms(3,4)] by (metis option.inject)
qed

lemma key_families_differ:
  "js ''schedule:'' @ a \<noteq> js ''schedule-due:'' @ b" "js ''schedule:'' @ a \<noteq> timerIndexKey c"
  "js ''schedule-due:'' @ a \<noteq> timerIndexKey c"
  by (simp_all add: js_def timerIndexKey_def)

lemma tick_key_no_index: "k \<in> tick_keys i \<Longrightarrow> k \<noteq> timerIndexKey c \<and> timerIndexKey c \<noteq> k"
  using key_families_differ(3) key_families_differ(3) [symmetric] by (auto simp: tick_keys_def tick_key_form)

lemma own_keys_disjoint: "i \<noteq> j \<Longrightarrow> own_keys i \<inter> own_keys j = {}"
proof (rule equals0I)
  fix k
  assume ij: "i \<noteq> j" and k: "k \<in> own_keys i \<inter> own_keys j"
  have kinds: "KEYS_schedule x = Some k \<Longrightarrow> k \<notin> tick_keys y \<and> k \<noteq> timerIndexKey z"
    "k \<in> tick_keys y \<Longrightarrow> k \<noteq> timerIndexKey z" for x y z
    using key_families_differ by (auto simp: tick_keys_def schedule_key_form tick_key_form)
  have "k \<notin> tick_keys i \<or> k \<notin> tick_keys j"
    using ij tick_key_inject by (fastforce simp: tick_keys_def)
  moreover have "\<not> (KEYS_schedule i = Some k \<and> KEYS_schedule j = Some k)" using ij schedule_key_inject by blast
  moreover have "\<not> (k = timerIndexKey (createScheduleTimerId i) \<and> k = timerIndexKey (createScheduleTimerId j))"
    using ij by (simp add: timerIndexKey_def createScheduleTimerId_def)
  ultimately show False using k kinds unfolding own_keys_def by blast
qed

text \<open>The state of a store: every record has the id of its key, and an active schedule has its timer.\<close>

definition well_armed :: "value_codec \<Rightarrow> store \<Rightarrow> schedule_state \<Rightarrow> bool" where
  "well_armed C m s \<longleftrightarrow>
     (ss_status s = ScheduleActive \<longrightarrow>
        (\<exists>t key. ss_nextFireAt s = Some t \<and> valid_timestamp (resolveEffectiveScheduleFireAt s t) \<and>
           scheduleTickKey s t = Inr key \<and> m key \<noteq> None \<and>
           Option.bind (m (timerIndexKey (createScheduleTimerId (ss_id s)))) (vc_decode C) = Some (JString key)))"

definition stored_schedule :: "value_codec \<Rightarrow> store \<Rightarrow> jsstring \<Rightarrow> schedule_state option" where
  "stored_schedule C m i =
     (case KEYS_schedule i of
        None \<Rightarrow> None
      | Some key \<Rightarrow>
          (case m key of
             None \<Rightarrow> None
           | Some b \<Rightarrow> (case decodeScheduleState C b of Inr (Some s) \<Rightarrow> Some s | _ \<Rightarrow> None)))"

definition schedules_ok :: "value_codec \<Rightarrow> store \<Rightarrow> bool" where
  "schedules_ok C m \<longleftrightarrow> (\<forall>i s. stored_schedule C m i = Some s \<longrightarrow> ss_id s = i \<and> well_armed C m s)"

lemma tick_key_own:
  "valid_timestamp (resolveEffectiveScheduleFireAt s t) \<Longrightarrow> scheduleTickKey s t = Inr key \<Longrightarrow> key \<in> tick_keys (ss_id s)"
  by (auto simp: tick_keys_def scheduleTickKey_def scheduleKey_Inr valid_timestamp_def MAX_SAFE_INTEGER_def
      intro!: exI [of _ "nat (resolveEffectiveScheduleFireAt s t)"])

lemma well_armed_cong:
  assumes "well_armed C m s" and "\<And>k. k \<in> own_keys (ss_id s) \<Longrightarrow> m' k = m k"
  shows "well_armed C m' s"
  using assms tick_key_own by (fastforce simp: well_armed_def own_keys_def)

lemma stored_schedule_cong: "(\<And>k. k \<in> own_keys i \<Longrightarrow> m' k = m k) \<Longrightarrow> stored_schedule C m' i = stored_schedule C m i"
  by (auto simp: stored_schedule_def own_keys_def split: option.split)

text \<open>The same for all schedules but one, whose keys an operation is changing.\<close>

definition others_ok :: "value_codec \<Rightarrow> store \<Rightarrow> jsstring \<Rightarrow> bool" where
  "others_ok C m i \<longleftrightarrow> (\<forall>j s. j \<noteq> i \<longrightarrow> stored_schedule C m j = Some s \<longrightarrow> ss_id s = j \<and> well_armed C m s)"

lemma schedules_ok_others: "schedules_ok C m \<Longrightarrow> others_ok C m i"
  by (simp add: schedules_ok_def others_ok_def)

lemma others_ok_cong:
  assumes "others_ok C m i" and "\<And>k. k \<notin> own_keys i \<Longrightarrow> m' k = m k"
  shows "others_ok C m' i"
  unfolding others_ok_def
proof (intro allI impI)
  fix j s
  assume j: "j \<noteq> i" and s: "stored_schedule C m' j = Some s"
  have same: "m' k = m k" if "k \<in> own_keys j" for k using that j assms(2) own_keys_disjoint by blast
  then have "stored_schedule C m j = Some s" using s stored_schedule_cong [of j m' m] by metis
  then have "ss_id s = j" "well_armed C m s" using assms(1) j by (simp_all add: others_ok_def)
  then show "ss_id s = j \<and> well_armed C m' s" using same well_armed_cong by blast
qed

lemma schedules_ok_update:
  assumes "others_ok C m i" and "\<And>k. k \<notin> own_keys i \<Longrightarrow> m' k = m k"
    and "\<And>s. stored_schedule C m' i = Some s \<Longrightarrow> ss_id s = i \<and> well_armed C m' s"
  shows "schedules_ok C m'"
  using others_ok_cong [OF assms(1,2)] assms(3) unfolding schedules_ok_def others_ok_def by metis

section \<open>Writing a record\<close>

lemma timer_operations:
  "buildTimerBatchOperations C (scheduleTimerEntry s t) = Inr ops \<longleftrightarrow>
     valid_timestamp (resolveEffectiveScheduleFireAt s t) \<and>
     (\<exists>key. scheduleTickKey s t = Inr key \<and>
        ops = [Put key (vc_encode C (timerValue (scheduleTimerEntry s t))),
               Put (timerIndexKey (createScheduleTimerId (ss_id s))) (vc_encode C (JString key))])"
  by (auto simp: buildTimerBatchOperations_def scheduleTimerEntry_def and_then_Inr_iff timer_key_def scheduleTickKey_def
      scheduleKey_Inr valid_timestamp_def split: option.splits if_splits)

lemma write_operations_cases:
  assumes "scheduleWriteOperations C s includeTimer previous extra = Inr ops"
  obtains key timer where "KEYS_schedule (ss_id s) = Some key"
    "buildScheduleTimerReplacementOperations C s includeTimer previous = Inr timer"
    "ops = Put key (vc_encode C (scheduleValue s)) # timer @ extra"
  using assms by (auto simp: scheduleWriteOperations_def and_then_Inr_iff scheduleKey_Inr)

lemma replacement_keys:
  assumes "buildScheduleTimerReplacementOperations C s includeTimer previous = Inr timer"
    and "pred_option (\<lambda>p. ss_id p = ss_id s \<and> well_armed C m p) previous"
  shows "op_key ` set timer \<subseteq> own_keys (ss_id s)" and "length timer \<le> 3"
    and "KEYS_schedule (ss_id s) = Some key \<Longrightarrow> key \<notin> op_key ` set timer"
proof -
  obtain ds ns where d: "buildPreviousScheduleTimerDeleteOperations previous = Inr ds"
    and n: "buildNextScheduleTimerOperations C s includeTimer = Inr ns"
    and t: "timer = (if ns \<noteq> [] then ds @ ns else if previous = None then ds
                     else ds @ [Delete (timerIndexKey (createScheduleTimerId (ss_id s)))])"
    using assms(1) by (auto simp: buildScheduleTimerReplacementOperations_def and_then_Inr_iff)
  have ds: "op_key ` set ds \<subseteq> tick_keys (ss_id s) \<and> length ds \<le> 1"
  proof (cases "ds = []")
    case False
    then obtain p t key where p: "previous = Some p" "ss_status p = ScheduleActive" "ss_nextFireAt p = Some t"
      "scheduleTickKey p t = Inr key" "ds = [Delete key]"
      using d by (auto simp: buildPreviousScheduleTimerDeleteOperations_def and_then_Inr_iff split: option.splits if_splits)
    then have "valid_timestamp (resolveEffectiveScheduleFireAt p t)" "ss_id p = ss_id s"
      using assms(2) p by (auto simp: well_armed_def)
    then show ?thesis using p tick_key_own [of p t key] by simp
  qed simp
  have ns: "op_key ` set ns \<subseteq> tick_keys (ss_id s) \<union> {timerIndexKey (createScheduleTimerId (ss_id s))} \<and> length ns \<le> 2"
    using n tick_key_own by (auto simp: buildNextScheduleTimerOperations_def timer_operations map_sum_def
        split: option.splits if_splits sum.splits)
  have timer: "op_key ` set timer \<subseteq> tick_keys (ss_id s) \<union> {timerIndexKey (createScheduleTimerId (ss_id s))}"
    using ds ns t by auto
  then show "op_key ` set timer \<subseteq> own_keys (ss_id s)" by (auto simp: own_keys_def)
  show "length timer \<le> 3" using ds ns t by auto
  assume key: "KEYS_schedule (ss_id s) = Some key"
  then have "key \<notin> tick_keys (ss_id s) \<union> {timerIndexKey (createScheduleTimerId (ss_id s))}"
    using key_families_differ by (auto simp: tick_keys_def schedule_key_form tick_key_form)
  then show "key \<notin> op_key ` set timer" using timer by blast
qed

lemma schedules_ok_spare:
  assumes "schedules_ok C m" and "\<And>i k. k \<in> own_keys i \<Longrightarrow> m' k = m k"
  shows "schedules_ok C m'"
  using assms(1) well_armed_cong [of C m _ m'] stored_schedule_cong [of _ m' m C] assms(2)
  unfolding schedules_ok_def by metis

lemma decode_written:
  assumes "codec_roundtrip C" and "decodeScheduleState C (vc_encode C (scheduleValue s)) = Inr (Some t)"
  shows "t = s"
  using assms scheduleStateOf_value_unique by (simp add: decodeScheduleState_def codec_roundtrip_def)

lemma stored_written:
  assumes "codec_roundtrip C" and "KEYS_schedule i = Some key" and "m key = Some (vc_encode C (scheduleValue s))"
    and "stored_schedule C m i = Some t"
  shows "t = s"
  using assms decode_written by (auto simp: stored_schedule_def split: sum.splits option.splits)

lemma timer_armed:
  assumes "codec_roundtrip C" and "buildScheduleTimerReplacementOperations C s True previous = Inr timer" and "ss_nextFireAt s \<noteq> None"
  shows "well_armed C (apply_operations timer m) s"
proof (cases "ss_status s = ScheduleActive")
  case True
  obtain t where t: "ss_nextFireAt s = Some t" using assms(3) by blast
  obtain ds ns where ops: "buildTimerBatchOperations C (scheduleTimerEntry s t) = Inr ns" "timer = ds @ ns"
    using assms(2) True t
    by (auto simp: buildScheduleTimerReplacementOperations_def buildNextScheduleTimerOperations_def and_then_Inr_iff
        map_sum_def timer_operations split: sum.splits)
  then obtain key where key: "scheduleTickKey s t = Inr key" "valid_timestamp (resolveEffectiveScheduleFireAt s t)"
    "timer = ds @ [Put key (vc_encode C (timerValue (scheduleTimerEntry s t))),
             Put (timerIndexKey (createScheduleTimerId (ss_id s))) (vc_encode C (JString key))]"
    by (auto simp: timer_operations)
  have "key \<noteq> timerIndexKey (createScheduleTimerId (ss_id s))"
    using tick_key_own [OF key(2,1)] key_families_differ by (auto simp: tick_keys_def tick_key_form)
  then show ?thesis using key t assms(1) by (auto simp: well_armed_def codec_roundtrip_def)
qed (simp add: well_armed_def)

lemma write_keeps_schedules:
  assumes ok: "others_ok C m (ss_id s)" and C: "codec_roundtrip C"
    and w: "scheduleWriteOperations C s includeTimer previous extra = Inr ops"
    and previous: "pred_option (\<lambda>p. ss_id p = ss_id s \<and> well_armed C m p) previous"
    and extra: "\<And>i. op_key ` set extra \<inter> own_keys i = {}"
    and timer: "ss_status s = ScheduleActive \<Longrightarrow>
      includeTimer \<and> ss_nextFireAt s \<noteq> None \<or> \<not> includeTimer \<and> previous = None \<and> well_armed C m s"
  shows "schedules_ok C (apply_operations ops m)"
proof -
  obtain key ts where key: "KEYS_schedule (ss_id s) = Some key"
    and ts: "buildScheduleTimerReplacementOperations C s includeTimer previous = Inr ts"
    and ops: "ops = Put key (vc_encode C (scheduleValue s)) # ts @ extra"
    using w by (rule write_operations_cases)
  note own = replacement_keys [OF ts previous]
  define m' where "m' = apply_operations (Put key (vc_encode C (scheduleValue s)) # ts) m"
  have "schedules_ok C m'"
  proof (rule schedules_ok_update [OF ok])
    fix k
    assume "k \<notin> own_keys (ss_id s)"
    then have "k \<notin> op_key ` set (Put key (vc_encode C (scheduleValue s)) # ts)" using own(1) key by (auto simp: own_keys_def)
    then show "m' k = m k" unfolding m'_def by (rule apply_operations_other)
  next
    fix t
    assume t: "stored_schedule C m' (ss_id s) = Some t"
    have "m' key = Some (vc_encode C (scheduleValue s))"
      using apply_operations_other [OF own(3) [OF key]] by (simp add: m'_def)
    then have "t = s" using stored_written [OF C key _ t] by blast
    moreover have "well_armed C m' s"
    proof (cases "ss_status s = ScheduleActive \<and> \<not> includeTimer")
      case True
      then have "ts = []" "well_armed C m s"
        using ts timer by (auto simp: buildScheduleTimerReplacementOperations_def buildNextScheduleTimerOperations_def
            buildPreviousScheduleTimerDeleteOperations_def)
      moreover have "key \<noteq> k" if "k \<in> tick_keys (ss_id s) \<union> {timerIndexKey (createScheduleTimerId (ss_id s))}" for k
        using that key key_families_differ by (auto simp: tick_keys_def schedule_key_form tick_key_form)
      ultimately show ?thesis using tick_key_own by (fastforce simp: m'_def well_armed_def)
    next
      case False
      then show ?thesis using timer timer_armed [OF C, of s previous ts "m(key \<mapsto> vc_encode C (scheduleValue s))"] ts
        by (cases "ss_status s = ScheduleActive") (auto simp: m'_def well_armed_def)
    qed
    ultimately show "ss_id t = ss_id s \<and> well_armed C m' t" by simp
  qed
  then have "schedules_ok C (apply_operations extra m')"
    by (rule schedules_ok_spare) (use extra apply_operations_other in blast)
  then show ?thesis by (simp add: ops m'_def)
qed

text \<open>
  A store whose timers may have been lost: every record that decodes lies at the key of its id, and an
  active schedule knows its next occurrence.
\<close>

definition records_ok :: "value_codec \<Rightarrow> store \<Rightarrow> bool" where
  "records_ok C m \<longleftrightarrow>
     (\<forall>k b s. prefix (js ''schedule:'') k \<longrightarrow> isScheduleRecordKey k \<longrightarrow> m k = Some b \<longrightarrow>
        decodeScheduleState C b = Inr (Some s) \<longrightarrow>
        KEYS_schedule (ss_id s) = Some k \<and>
        (ss_status s = ScheduleActive \<longrightarrow>
           (\<exists>t. ss_nextFireAt s = Some t \<and> valid_timestamp (resolveEffectiveScheduleFireAt s t))))"

lemma record_key: "KEYS_schedule i = Some k \<Longrightarrow> prefix (js ''schedule:'') k \<and> isScheduleRecordKey k"
  using encode_no_colon by (auto simp: schedule_key_form isScheduleRecordKey_def colonUnit_def)

lemma stored_record: "stored_schedule C m i = Some s \<longleftrightarrow>
    (\<exists>k b. KEYS_schedule i = Some k \<and> m k = Some b \<and> decodeScheduleState C b = Inr (Some s))"
  by (auto simp: stored_schedule_def split: option.splits sum.splits)

lemma record_key_own: "prefix (js ''schedule:'') k \<Longrightarrow> k \<in> own_keys i \<Longrightarrow> KEYS_schedule i = Some k"
  using key_families_differ by (auto simp: own_keys_def tick_keys_def tick_key_form prefix_def)

lemma records_ok_stored:
  assumes "records_ok C m" and "stored_schedule C m i = Some s"
  shows "ss_id s = i"
proof -
  obtain k b where k: "KEYS_schedule i = Some k" "m k = Some b" "decodeScheduleState C b = Inr (Some s)"
    using assms(2) by (auto simp: stored_record)
  then have "KEYS_schedule (ss_id s) = Some k" using assms(1) record_key [OF k(1)] by (simp add: records_ok_def)
  then show ?thesis using k(1) by (rule schedule_key_inject)
qed

section \<open>Operations over a store that meets the contract\<close>

lemma fencedCommit_committed:
  assumes "fencedCommit S E s later ops [] = (Inr Committed, E', s')"
  shows "batch_op S s ops = (Inr (), s') \<or> (\<exists>c. storageConditionalBatch S s [c] ops = (Inr True, s'))"
  using assms by (auto simp: fencedCommit_def split: prod.splits sum.splits option.splits if_splits)

context cas_storage_spec
begin

lemma commit_applied:
  assumes "commitWrite H ops e = (Inr (), e')" and "sh_storage H = S" and "invar (en_store e)"
    and "length ops \<le> MAX_BATCH_OPERATIONS"
  shows "invar (en_store e') \<and> contents (en_store e') = apply_operations ops (contents (en_store e))"
proof -
  obtain E where c: "fencedCommit S (en_internals e) (en_store e) (sh_later H) ops [] = (Inr Committed, E, en_store e')"
    using assms(1,2) by (auto simp: commitWrite_def commitFencedEngineWrite_def split: prod.splits sum.splits fenced_commit_result.splits)
  have one: "length [x] \<le> MAX_BATCH_OPERATIONS" for x :: conditional_batch_condition by (simp add: MAX_BATCH_OPERATIONS_def)
  from fencedCommit_committed [OF c] show ?thesis
  proof
    assume "batch_op S (en_store e) ops = (Inr (), en_store e')"
    then show ?thesis using batch_spec [OF assms(3,4)] by blast
  next
    assume "\<exists>c. storageConditionalBatch S (en_store e) [c] ops = (Inr True, en_store e')"
    then obtain c where "storageConditionalBatch S (en_store e) [c] ops = (Inr True, en_store e')" by blast
    then show ?thesis using conditional_batch [OF assms(3) one [of c] assms(4)] by auto
  qed
qed

lemma load_stored:
  assumes "loadScheduleState H i e = (Inr r, e')" and "sh_storage H = S" and "invar (en_store e)"
  shows "e' = e \<and> r = stored_schedule (sh_codec H) (contents (en_store e)) i"
  using assms get_spec [OF assms(3)]
  by (auto simp: loadScheduleState_def action_iffs storageGet_def stored_schedule_def split: option.splits sum.splits)

lemma require_stored:
  assumes "requireScheduleState H i e = (Inr s, e')" and "sh_storage H = S" and "invar (en_store e)"
  shows "e' = e \<and> stored_schedule (sh_codec H) (contents (en_store e)) i = Some s"
  using assms load_stored [OF _ assms(2,3)]
  by (auto simp: requireScheduleState_def action_iffs split: option.splits)

lemma write_ok:
  assumes w: "writeScheduleState H s includeTimer previous extra e = (Inr (), e')"
    and H: "sh_storage H = S" "invar (en_store e)" "codec_roundtrip (sh_codec H)"
    and ok: "others_ok (sh_codec H) (contents (en_store e)) (ss_id s)"
    and previous: "pred_option (\<lambda>p. ss_id p = ss_id s \<and> well_armed (sh_codec H) (contents (en_store e)) p) previous"
    and extra: "\<And>i. op_key ` set extra \<inter> own_keys i = {}" "length extra \<le> 10"
    and timer: "ss_status s = ScheduleActive \<Longrightarrow>
      includeTimer \<noteq> Some False \<and> ss_nextFireAt s \<noteq> None \<or>
      includeTimer = Some False \<and> previous = None \<and> well_armed (sh_codec H) (contents (en_store e)) s"
  shows "invar (en_store e') \<and> schedules_ok (sh_codec H) (contents (en_store e'))"
proof -
  let ?inc = "case includeTimer of Some b \<Rightarrow> b | None \<Rightarrow> ss_status s = ScheduleActive"
  obtain ops where ops: "scheduleWriteOperations (sh_codec H) s ?inc previous extra = Inr ops" "commitWrite H ops e = (Inr (), e')"
    using w by (auto simp: writeScheduleState_def action_iffs)
  obtain key ts where "buildScheduleTimerReplacementOperations (sh_codec H) s ?inc previous = Inr ts"
    "ops = Put key (vc_encode (sh_codec H) (scheduleValue s)) # ts @ extra"
    using ops(1) by (rule write_operations_cases)
  then have "length ops \<le> MAX_BATCH_OPERATIONS"
    using replacement_keys(2) [OF _ previous] extra(2) by (fastforce simp: MAX_BATCH_OPERATIONS_def)
  from commit_applied [OF ops(2) H(1,2) this]
  have "invar (en_store e')" "contents (en_store e') = apply_operations ops (contents (en_store e))" by simp_all
  moreover have "schedules_ok (sh_codec H) (apply_operations ops (contents (en_store e)))"
    by (rule write_keeps_schedules [OF ok H(3) ops(1) previous extra(1)])
      (use timer in \<open>auto split: option.splits\<close>)
  ultimately show ?thesis by simp
qed

lemma cancel_timer_effect:
  assumes "cancelScheduleTimer H i e = (Inr (), e')" and H: "sh_storage H = S" "invar (en_store e)" "codec_roundtrip (sh_codec H)"
    and s: "stored_schedule (sh_codec H) (contents (en_store e)) i = Some s" "ss_status s = ScheduleActive"
    and ok: "schedules_ok (sh_codec H) (contents (en_store e))"
  shows "invar (en_store e') \<and> others_ok (sh_codec H) (contents (en_store e')) i"
proof -
  let ?C = "sh_codec H" and ?m = "contents (en_store e)" and ?idx = "timerIndexKey (createScheduleTimerId i)"
  have "ss_id s = i" "well_armed ?C ?m s" using ok s by (simp_all add: schedules_ok_def)
  then obtain key where key: "key \<in> tick_keys i" "Option.bind (?m ?idx) (vc_decode ?C) = Some (JString key)"
    using s(2) tick_key_own by (auto simp: well_armed_def)
  have two: "length [Delete key, Delete ?idx] \<le> MAX_BATCH_OPERATIONS" by (simp add: MAX_BATCH_OPERATIONS_def)
  obtain s' where b: "batch_op S (en_store e) [Delete key, Delete ?idx] = (Inr (), s')" "invar s'"
    "contents s' = apply_operations [Delete key, Delete ?idx] ?m"
    using batch_ok [OF H(2) two] by blast
  have "en_store e' = s'"
    using assms(1) H(1,3) get_spec [OF H(2), of ?idx] key b(1)
    by (auto simp: cancelScheduleTimer_def scheduler_cancel_def decodeTimer_def bind_eq_Some_conv Let_def)
  moreover have "others_ok ?C (contents s') i"
    by (rule others_ok_cong [OF schedules_ok_others [OF ok]])
      (use b(3) key(1) in \<open>auto simp: own_keys_def intro!: apply_operations_other [of _ "[_, _]", simplified]\<close>)
  ultimately show ?thesis using b(2) by simp
qed

definition engine_ok :: "'s schedule_host \<Rightarrow> 's schedule_engine \<Rightarrow> bool" where
  "engine_ok H e \<longleftrightarrow> invar (en_store e) \<and> schedules_ok (sh_codec H) (contents (en_store e))"

lemma engine_ok_fields [simp]:
  "engine_ok H (e\<lparr>en_uuids := u\<rparr>) = engine_ok H e" "engine_ok H (e\<lparr>en_clock := c\<rparr>) = engine_ok H e"
  "engine_ok H (e\<lparr>en_pendingScheduleCreations := p\<rparr>) = engine_ok H e"
  by (simp_all add: engine_ok_def)

lemma stored_ok:
  "engine_ok H e \<Longrightarrow> stored_schedule (sh_codec H) (contents (en_store e)) i = Some s \<Longrightarrow>
     ss_id s = i \<and> well_armed (sh_codec H) (contents (en_store e)) s"
  by (simp add: engine_ok_def schedules_ok_def)

lemma write_engine_ok:
  assumes "writeScheduleState H s includeTimer None [] e = (Inr (), e')"
    and "sh_storage H = S" "invar (en_store e)" "codec_roundtrip (sh_codec H)"
    and "others_ok (sh_codec H) (contents (en_store e)) (ss_id s)"
    and "ss_status s = ScheduleActive \<Longrightarrow> includeTimer \<noteq> Some False \<and> ss_nextFireAt s \<noteq> None"
  shows "engine_ok H e'"
  using write_ok [OF assms(1-5)] assms(6) by (simp add: engine_ok_def)

lemma engine_ok_others: "engine_ok H e \<Longrightarrow> others_ok (sh_codec H) (contents (en_store e)) i"
  by (simp add: engine_ok_def schedules_ok_others)

lemma schedule_keeps_armed:
  assumes "schedule H type input spec options e = (Inr i, e')" and "sh_storage H = S" "codec_roundtrip (sh_codec H)" "engine_ok H e"
  shows "engine_ok H e'"
proof -
  have create: "engine_ok H e2" if "createSchedule H type input spec' options' j e1 = (Inr i, e2)" "engine_ok H e1"
    for spec' options' j e1 e2
    using that assms(2,3) by (auto simp: createSchedule_def action_iffs storageGet_def engine_ok_def [of H e1] schedules_ok_others
        intro!: write_engine_ok split: if_splits)
  show ?thesis
    using assms(1,4)
    by (auto simp: schedule_def action_iffs throw_Inr split: if_splits option.splits prod.splits dest!: create)
qed

lemma pause_keeps_armed:
  assumes "pauseSchedule H i e = (Inr (), e')" and H: "sh_storage H = S" "codec_roundtrip (sh_codec H)" and ok: "engine_ok H e"
  shows "engine_ok H e'"
proof -
  obtain j s where j: "coerceScheduleId i = Inr j" and s: "requireScheduleState H j e = (Inr s, e)"
    and stored: "stored_schedule (sh_codec H) (contents (en_store e)) j = Some s"
    using assms(1) require_stored [OF _ H(1)] ok by (fastforce simp: pauseSchedule_def action_iffs engine_ok_def)
  have id: "ss_id s = j" using stored_ok [OF ok stored] by simp
  show ?thesis
  proof (cases "ss_status s = ScheduleActive")
    case True
    obtain e1 where e1: "cancelScheduleTimer H j e = (Inr (), e1)"
      using assms(1) j s True by (auto simp: pauseSchedule_def action_iffs)
    have "invar (en_store e1) \<and> others_ok (sh_codec H) (contents (en_store e1)) j"
      by (rule cancel_timer_effect [OF e1 H(1) _ H(2) stored True]) (use ok in \<open>simp_all add: engine_ok_def\<close>)
    then show ?thesis
      using assms(1) j s True e1 id H by (auto simp: pauseSchedule_def action_iffs intro!: write_engine_ok)
  qed (use assms(1) j s ok in \<open>auto simp: pauseSchedule_def action_iffs\<close>)
qed

lemma cancel_keeps_armed:
  assumes "cancelSchedule H i e = (Inr (), e')" and H: "sh_storage H = S" "codec_roundtrip (sh_codec H)" and ok: "engine_ok H e"
  shows "engine_ok H e'"
proof -
  obtain j s where j: "coerceScheduleId i = Inr j" and s: "requireScheduleState H j e = (Inr s, e)"
    and stored: "stored_schedule (sh_codec H) (contents (en_store e)) j = Some s"
    using assms(1) require_stored [OF _ H(1)] ok by (fastforce simp: cancelSchedule_def action_iffs engine_ok_def)
  have id: "ss_id s = j" using stored_ok [OF ok stored] by simp
  obtain e1 where e1: "(if ss_status s = ScheduleActive then cancelScheduleTimer H j else ret ()) e = (Inr (), e1)"
    using assms(1) j s by (auto simp: cancelSchedule_def action_iffs)
  have "invar (en_store e1) \<and> others_ok (sh_codec H) (contents (en_store e1)) j"
    using cancel_timer_effect [of H j e e1 s] e1 H stored ok
    by (auto simp: engine_ok_def ret_Inr schedules_ok_others split: if_splits)
  then show ?thesis
    using assms(1) j s e1 id H by (auto simp: cancelSchedule_def action_iffs intro!: write_engine_ok)
qed

lemma resume_keeps_armed:
  assumes "resumeSchedule H i e = (Inr (), e')" and H: "sh_storage H = S" "codec_roundtrip (sh_codec H)" and ok: "engine_ok H e"
  shows "engine_ok H e'"
proof -
  obtain j s where j: "coerceScheduleId i = Inr j" and s: "requireScheduleState H j e = (Inr s, e)"
    and stored: "stored_schedule (sh_codec H) (contents (en_store e)) j = Some s"
    using assms(1) require_stored [OF _ H(1)] ok by (fastforce simp: resumeSchedule_def action_iffs engine_ok_def)
  show ?thesis
    using assms(1) j s ok engine_ok_others [OF ok] H
    by (auto simp: resumeSchedule_def action_iffs engine_ok_def [of H e] intro!: write_engine_ok split: if_splits)
qed

lemma update_keeps_armed:
  assumes "updateSchedule H i spec options e = (Inr (), e')" and H: "sh_storage H = S" "codec_roundtrip (sh_codec H)"
    and ok: "engine_ok H e"
  shows "engine_ok H e'"
proof -
  obtain j sp op s e0 now e1 t e2 where r: "requireScheduleState H j e = (Inr s, e0)" "getNow e0 = (Inr now, e1)"
    and t: "(if ss_status s = ScheduleCancelled then ret None
             else seq (lift (nextForCadence H sp now)) (\<lambda>t. ret (Some t))) e1 = (Inr t, e2)"
    and w: "writeScheduleState H (applyScheduleUpdate s sp op now t) (Some (ss_status s = ScheduleActive)) (Some s) [] e2 = (Inr (), e')"
    using assms(1) unfolding updateSchedule_def seq_Inr lift_Inr by blast
  have stored: "stored_schedule (sh_codec H) (contents (en_store e)) j = Some s" and e0: "e0 = e"
    using require_stored [OF r(1) H(1)] ok by (simp_all add: engine_ok_def)
  have next_some: "ss_status s \<noteq> ScheduleCancelled \<Longrightarrow> t \<noteq> None" and store: "en_store e2 = en_store e"
    using t r(2) e0 by (auto simp: action_iffs split: if_splits)
  let ?s = "applyScheduleUpdate s sp op now t"
  have same: "ss_id ?s = ss_id s" "ss_status ?s = ss_status s" "ss_nextFireAt ?s = t"
    by (simp_all add: applyScheduleUpdate_def)
  have "invar (en_store e') \<and> schedules_ok (sh_codec H) (contents (en_store e'))"
    by (rule write_ok [OF w H(1) _ H(2)])
      (use ok stored_ok [OF ok stored] store same next_some in \<open>auto simp: engine_ok_def schedules_ok_others\<close>)
  then show ?thesis by (simp add: engine_ok_def)
qed

lemma has_timer_result:
  assumes "hasCurrentScheduleTimer H s t e = (Inr current, e')" and "sh_storage H = S" and "invar (en_store e)"
  shows "e' = e" and "current \<Longrightarrow> ss_nextFireAt s = Some t \<Longrightarrow> valid_timestamp (resolveEffectiveScheduleFireAt s t) \<Longrightarrow>
    well_armed (sh_codec H) (contents (en_store e)) s"
  using assms(1,2) get_spec [OF assms(3)]
  by (auto simp: hasCurrentScheduleTimer_def action_iffs storageGet_def well_armed_def split: if_splits option.splits)

text \<open>One schedule is recovered: its timer is there afterwards, and other records and timers are as before.\<close>

lemma recover_one:
  assumes r: "recoverScheduleTimer H s e = (Inr (), e')" and H: "sh_storage H = S" "codec_roundtrip (sh_codec H)"
    and e: "invar (en_store e)" and ok: "records_ok (sh_codec H) (contents (en_store e))"
    and stored: "stored_schedule (sh_codec H) (contents (en_store e)) (ss_id s) = Some s"
  shows "invar (en_store e') \<and> records_ok (sh_codec H) (contents (en_store e')) \<and>
    (\<forall>k. k \<notin> own_keys (ss_id s) \<longrightarrow> contents (en_store e') k = contents (en_store e) k) \<and>
    (\<forall>t. stored_schedule (sh_codec H) (contents (en_store e')) (ss_id s) = Some t \<longrightarrow> well_armed (sh_codec H) (contents (en_store e')) t)"
proof -
  let ?C = "sh_codec H" and ?m = "contents (en_store e)"
  obtain key b where key: "KEYS_schedule (ss_id s) = Some key" "?m key = Some b" "decodeScheduleState ?C b = Inr (Some s)"
    using stored by (auto simp: stored_record)
  show ?thesis
  proof (cases "ss_status s = ScheduleActive")
    case False
    then show ?thesis using r e ok stored by (simp add: recoverScheduleTimer_def ret_Inr well_armed_def)
  next
    case True
    obtain t where t: "ss_nextFireAt s = Some t" "valid_timestamp (resolveEffectiveScheduleFireAt s t)"
      using ok key record_key [OF key(1)] True unfolding records_ok_def by blast
    obtain current e1 where c: "hasCurrentScheduleTimer H s t e = (Inr current, e1)"
      "(if current then ret () else writeScheduleState H s None None []) e1 = (Inr (), e')"
      using r True t(1) by (auto simp: recoverScheduleTimer_def seq_Inr)
    note has = has_timer_result [OF c(1) H(1) e]
    show ?thesis
    proof (cases current)
      case True
      then show ?thesis using c(2) has t e ok stored by (simp add: ret_Inr)
    next
      case False
      obtain ops where ops: "scheduleWriteOperations ?C s True None [] = Inr ops" "commitWrite H ops e = (Inr (), e')"
        using c(2) False has(1) True by (auto simp: writeScheduleState_def action_iffs)
      obtain ts where ts: "buildScheduleTimerReplacementOperations ?C s True None = Inr ts"
        "ops = Put key (vc_encode ?C (scheduleValue s)) # ts"
        using ops(1) key(1) by (auto elim: write_operations_cases)
      note own = replacement_keys [OF ts(1), of ?m, simplified]
      have "length ops \<le> MAX_BATCH_OPERATIONS" using own(2) ts(2) by (simp add: MAX_BATCH_OPERATIONS_def)
      from commit_applied [OF ops(2) H(1) e this]
      have inv': "invar (en_store e')" and m': "contents (en_store e') = apply_operations ops ?m" by simp_all
      define m' where "m' = apply_operations ops ?m"
      have frame: "m' k = ?m k" if "k \<notin> own_keys (ss_id s)" for k
        unfolding m'_def by (rule apply_operations_other) (use that own(1) ts(2) key(1) in \<open>auto simp: own_keys_def\<close>)
      have rec: "m' key = Some (vc_encode ?C (scheduleValue s))"
        using apply_operations_other [OF own(3) [OF key(1)]] ts(2) by (simp add: m'_def)
      have armed: "well_armed ?C m' s" using timer_armed [OF H(2) ts(1)] t(1) ts(2) by (simp add: m'_def)
      have "records_ok ?C m'"
        unfolding records_ok_def
      proof (intro allI impI)
        fix k b' s'
        assume k: "prefix (js ''schedule:'') k" "isScheduleRecordKey k" "m' k = Some b'" "decodeScheduleState ?C b' = Inr (Some s')"
        show "KEYS_schedule (ss_id s') = Some k \<and> (ss_status s' = ScheduleActive \<longrightarrow>
          (\<exists>t. ss_nextFireAt s' = Some t \<and> valid_timestamp (resolveEffectiveScheduleFireAt s' t)))"
        proof (cases "k = key")
          case True
          then have "s' = s" using k(3,4) rec decode_written [OF H(2)] by simp
          then show ?thesis using True key(1) t by simp
        next
          case False
          then have "k \<notin> own_keys (ss_id s)" using record_key_own [OF k(1)] key(1) by auto
          then show ?thesis using ok k frame [of k] by (simp add: records_ok_def)
        qed
      qed
      moreover have "well_armed ?C m' t'" if "stored_schedule ?C m' (ss_id s) = Some t'" for t'
        using stored_written [OF H(2) key(1) rec that] armed by simp
      ultimately show ?thesis using inv' m' frame by (simp add: m'_def)
    qed
  qed
qed

lemma recover_entries:
  assumes "recoverEntries H entries e = (Inr (), e')" and H: "sh_storage H = S" "codec_roundtrip (sh_codec H)"
    and "invar (en_store e)" and "records_ok (sh_codec H) (contents (en_store e))" and "distinct (map fst entries)"
    and "\<And>k b. (k, b) \<in> set entries \<Longrightarrow> prefix (js ''schedule:'') k \<and> contents (en_store e) k = Some b"
    and "\<And>i s. stored_schedule (sh_codec H) (contents (en_store e)) i = Some s \<Longrightarrow>
      well_armed (sh_codec H) (contents (en_store e)) s \<or> (\<exists>k. KEYS_schedule i = Some k \<and> k \<in> fst ` set entries)"
  shows "invar (en_store e') \<and> schedules_ok (sh_codec H) (contents (en_store e'))"
  using assms(1,4-8)
proof (induction entries arbitrary: e)
  case Nil
  then show ?case using records_ok_stored by (fastforce simp: ret_Inr schedules_ok_def)
next
  case (Cons kb entries)
  let ?C = "sh_codec H" and ?m = "\<lambda>e. contents (en_store e)"
  obtain key b where kb: "kb = (key, b)" by force
  have key: "prefix (js ''schedule:'') key" "?m e key = Some b" using Cons.prems(5) kb by auto
  show ?case
  proof (cases "isScheduleRecordKey key \<and> (\<exists>s. decodeScheduleState ?C b = Inr (Some s))")
    case False
    have "\<not> (KEYS_schedule i = Some key \<and> stored_schedule ?C (?m e) i = Some s)" for i s
      using False key(2) record_key by (auto simp: stored_record)
    then have "well_armed ?C (?m e) s \<or> (\<exists>k. KEYS_schedule i = Some k \<and> k \<in> fst ` set entries)"
      if "stored_schedule ?C (?m e) i = Some s" for i s
      using Cons.prems(6) [OF that] that kb by auto
    moreover have "recoverEntries H entries e = (Inr (), e')"
      using Cons.prems(1) kb False by (auto simp: action_iffs split: if_splits option.splits)
    ultimately show ?thesis using Cons.IH [of e] Cons.prems by auto
  next
    case True
    then obtain s where s: "decodeScheduleState ?C b = Inr (Some s)" by blast
    have id: "KEYS_schedule (ss_id s) = Some key"
      using Cons.prems(3) True key s by (auto simp: records_ok_def)
    then have stored: "stored_schedule ?C (?m e) (ss_id s) = Some s" using key(2) s by (auto simp: stored_record)
    obtain e1 where e1: "recoverScheduleTimer H s e = (Inr (), e1)" "recoverEntries H entries e1 = (Inr (), e')"
      using Cons.prems(1) kb True s by (auto simp: action_iffs)
    from recover_one [OF e1(1) H Cons.prems(2,3) stored]
    have one: "invar (en_store e1)" "records_ok ?C (?m e1)" "\<And>k. k \<notin> own_keys (ss_id s) \<Longrightarrow> ?m e1 k = ?m e k"
      "\<And>t. stored_schedule ?C (?m e1) (ss_id s) = Some t \<Longrightarrow> well_armed ?C (?m e1) t" by blast+
    show ?thesis
    proof (rule Cons.IH [OF e1(2) one(1,2)])
      show "distinct (map fst entries)" using Cons.prems(4) by simp
    next
      fix k c
      assume k: "(k, c) \<in> set entries"
      then have k': "prefix (js ''schedule:'') k" "?m e k = Some c" using Cons.prems(5) by auto
      moreover have "k \<noteq> key" using k Cons.prems(4) kb by force
      then have "k \<notin> own_keys (ss_id s)" using record_key_own [OF k'(1), of "ss_id s"] id by auto
      ultimately show "prefix (js ''schedule:'') k \<and> ?m e1 k = Some c" using one(3) by simp
    next
      fix i t
      assume t: "stored_schedule ?C (?m e1) i = Some t"
      show "well_armed ?C (?m e1) t \<or> (\<exists>k. KEYS_schedule i = Some k \<and> k \<in> fst ` set entries)"
      proof (cases "i = ss_id s")
        case False
        have same: "?m e1 k = ?m e k" if "k \<in> own_keys i" for k using that False own_keys_disjoint one(3) by blast
        then have "stored_schedule ?C (?m e) i = Some t" using t stored_schedule_cong [of i "?m e1" "?m e"] by metis
        moreover have "ss_id t = i" using records_ok_stored [OF one(2) t] .
        ultimately show ?thesis
          using Cons.prems(6) [of i t] same well_armed_cong [of ?C "?m e" t "?m e1"] kb id False schedule_key_inject by auto
      qed (use t one(4) in simp)
    qed
  qed
qed

lemma scan_all:
  assumes "finite (dom m)" and "p \<noteq> []" "last p \<noteq> -1"
  shows "distinct (map fst (scan_entries m p default_scan_options))"
    and "(k, b) \<in> set (scan_entries m p default_scan_options) \<longleftrightarrow> prefix p k \<and> m k = Some b"
proof -
  have "scan_keys m p default_scan_options = sorted_list_of_set {k \<in> dom m. prefix p k}"
    using in_prefix_range_iff [OF assms(2,3)]
    by (simp add: scan_keys_def default_scan_options_def matchesScanOptions_def Let_def)
  moreover have "finite {k \<in> dom m. prefix p k}" using assms(1) by simp
  ultimately show "distinct (map fst (scan_entries m p default_scan_options))"
    and "(k, b) \<in> set (scan_entries m p default_scan_options) \<longleftrightarrow> prefix p k \<and> m k = Some b"
    by (auto simp: scan_entries_def comp_def)
qed

lemma recovery_rearms:
  assumes "recoverOrphanedScheduleTimers H e = (Inr (), e')" and H: "sh_storage H = S" "codec_roundtrip (sh_codec H)"
    and e: "invar (en_store e)" "records_ok (sh_codec H) (contents (en_store e))"
  shows "invar (en_store e') \<and> schedules_ok (sh_codec H) (contents (en_store e'))"
proof -
  let ?p = "js ''schedule:''" and ?m = "contents (en_store e)"
  let ?entries = "scan_entries ?m ?p default_scan_options"
  have p: "?p \<noteq> []" "last ?p \<noteq> -1" by (simp_all add: js_def)
  have run: "recoverEntries H ?entries e = (Inr (), e')"
    using assms(1) H(1) scan_spec [OF e(1) p(1)] by (simp add: recoverOrphanedScheduleTimers_def action_iffs storageScan_def)
  note scan = scan_all [OF finite_contents [OF e(1)] p]
  show ?thesis
  proof (rule recover_entries [OF run H e scan(1)])
    fix i s
    assume "stored_schedule (sh_codec H) ?m i = Some s"
    then obtain k b where "KEYS_schedule i = Some k" "?m k = Some b" by (auto simp: stored_record)
    then show "well_armed (sh_codec H) ?m s \<or> (\<exists>k. KEYS_schedule i = Some k \<and> k \<in> fst ` set ?entries)"
      using scan(2) [of k b] record_key by (metis fst_conv imageI)
  qed (simp add: scan(2))
qed

end

end
