(* ===== verification/Schedule_Timer_Properties.thy ===== *)
theory Schedule_Timer_Properties
  imports Schedule_Properties
begin

text \<open>
  What the timer of a schedule guarantees: the occurrences it processes, what an occurrence starts under
  each overlap policy, and that the schedule is armed again.
\<close>

section \<open>Occurrences advance\<close>

abbreviation cadence_next :: "time_zone \<Rightarrow> schedule_state \<Rightarrow> int \<Rightarrow> schedule_failure + int" where
  "cadence_next \<equiv> getNextScheduleOccurrence"

lemma map_sum_Inr: "map_sum f g r = Inr y \<longleftrightarrow> (\<exists>x. r = Inr x \<and> y = g x)"
  by (cases r) auto

lemma cadence_next_cases:
  assumes "cadence_next tz s x = Inr y"
  obtains (interval) n where "ss_intervalMs s = Some n"
    "getNextIntervalOccurrence (JFin (of_int (ss_createdAt s))) (JFin (of_int n)) (JFin (of_int x)) = Inr y"
  | (cron) c e where "ss_intervalMs s = None" "ss_cronExpression s = Some c" "parseCronExpression c = Inr e"
    "getNextCronOccurrence e (of_int x) tz = Inr y"
  using assms
  by (auto simp: getNextScheduleOccurrence_def cadenceOf_def resolveScheduleCadence_def nextOccurrence_def and_then_Inr_iff
      map_sum_Inr nextCronOccurrenceOf_def split: option.splits)

lemma cadence_next_after: "cadence_next tz s x = Inr y \<Longrightarrow> x < y"
  by (erule cadence_next_cases) (auto dest!: next_interval_after next_cron_after)

text \<open>The distance of consecutive occurrences: the interval, or the second of a cron expression.\<close>

definition occurrence_gap :: "schedule_state \<Rightarrow> int" where
  "occurrence_gap s = (case ss_intervalMs s of Some n \<Rightarrow> n | None \<Rightarrow> 1000)"

definition regular_occurrence :: "schedule_state \<Rightarrow> int \<Rightarrow> bool" where
  "regular_occurrence s t \<longleftrightarrow>
     (case ss_intervalMs s of Some n \<Rightarrow> on_grid (ss_createdAt s) n t | None \<Rightarrow> 1000 dvd t)"

lemma cadence_next_gap:
  assumes "cadence_next tz s x = Inr y" and "regular_occurrence s x"
  shows "x + occurrence_gap s \<le> y"
  using assms(1)
proof (cases rule: cadence_next_cases)
  case (interval n)
  obtain i where i: "of_int n = (of_int i :: rat)" "0 < i"
    "y = (if \<lceil>of_int x :: rat\<rceil> < \<lceil>of_int (ss_createdAt s) :: rat\<rceil> then \<lceil>of_int (ss_createdAt s) :: rat\<rceil> + i
          else \<lceil>of_int (ss_createdAt s) :: rat\<rceil> + ((\<lceil>of_int x :: rat\<rceil> - \<lceil>of_int (ss_createdAt s) :: rat\<rceil>) div i + 1) * i)"
    using next_interval_Inr [OF interval(2)] by metis
  then have "n = i" and y: "y = (if x < ss_createdAt s then ss_createdAt s + i
      else ss_createdAt s + ((x - ss_createdAt s) div i + 1) * i)" by simp_all
  then have "on_grid (ss_createdAt s) n y" "x < y" "0 < n" using i(2) next_on_grid(1,2) [OF i(2)] by simp_all
  then show ?thesis
    using grid_gap [of n "ss_createdAt s" x y] assms(2) interval(1) by (simp add: occurrence_gap_def regular_occurrence_def)
next
  case (cron c e)
  then have "\<lfloor>(of_int x :: rat) / 1000\<rfloor> * 1000 + 1000 \<le> y"
    unfolding getNextCronOccurrence_def normalize_int
    by (auto simp: and_then_Inr_iff dest: cronSearch_sound split: if_splits)
  moreover obtain k where "x = 1000 * k" using assms(2) cron(1) by (auto simp: regular_occurrence_def)
  ultimately show ?thesis using cron(1) by (simp add: occurrence_gap_def)
qed

text \<open>The occurrences a timer collects or counts are successive ones, and the next fire time follows the last.\<close>

definition successive :: "time_zone \<Rightarrow> schedule_state \<Rightarrow> int list \<Rightarrow> bool" where
  "successive tz s xs \<longleftrightarrow> successively (\<lambda>a b. cadence_next tz s a = Inr b) xs"

lemma interval_loop_successive:
  assumes "collectLoopFrom (of_int (ss_createdAt s)) (of_int n) through m acc (of_int x) = Inr xs" and "ss_intervalMs s = Some n"
  shows "\<exists>ys. xs = acc @ map of_int ys \<and> successive tz s ys \<and> (ys \<noteq> [] \<longrightarrow> hd ys = x) \<and>
    (of_int x \<le> through \<and> below_maximum (length acc) m \<longrightarrow> ys \<noteq> [])"
  using assms(1)
proof (induction "of_int (ss_createdAt s) :: rat" "of_int n :: rat" through m acc "of_int x :: rat" arbitrary: x xs rule: collectLoopFrom.induct)
  case (1 through m acc)
  show ?case
  proof (cases "of_int x \<le> through \<and> below_maximum (length acc) m")
    case True
    then obtain y where y: "getNextIntervalOccurrence (JFin (of_int (ss_createdAt s))) (JFin (of_int n)) (JFin (of_int x)) = Inr y"
      "collectLoopFrom (of_int (ss_createdAt s)) (of_int n) through m (acc @ [of_int x]) (of_int y) = Inr xs"
      using 1(2) by (subst (asm) collectLoopFrom.simps) (auto split: sum.splits)
    obtain ys where ys: "xs = (acc @ [of_int x]) @ map of_int ys" "successive tz s ys" "ys \<noteq> [] \<longrightarrow> hd ys = y"
      using 1(1) [OF True y(1) refl y(2)] by auto
    have "cadence_next tz s x = Inr y"
      using y(1) assms(2) by (simp add: getNextScheduleOccurrence_def cadenceOf_def resolveScheduleCadence_def nextOccurrence_def)
    then show ?thesis using ys by (intro exI [of _ "x # ys"]) (auto simp: successive_def successively_Cons)
  next
    case False
    then have "xs = acc" using 1(2) by (subst (asm) collectLoopFrom.simps) auto
    then show ?thesis using False by (auto simp: successive_def intro!: exI [of _ "[]"])
  qed
qed

lemma cron_loop_successive:
  assumes "collectCronFrom e tz through m acc (of_int x) = Inr xs" and "ss_intervalMs s = None" "ss_cronExpression s = Some c"
    "parseCronExpression c = Inr e"
  shows "\<exists>ys. xs = acc @ map of_int ys \<and> successive tz s ys \<and> (ys \<noteq> [] \<longrightarrow> hd ys = x) \<and>
    (of_int x \<le> through \<and> below_maximum (length acc) m \<longrightarrow> ys \<noteq> [])"
  using assms
proof (induction e tz through m acc "of_int x :: rat" arbitrary: x xs rule: collectCronFrom.induct)
  case (1 e tz through m acc)
  show ?case
  proof (cases "of_int x \<le> through \<and> below_maximum (length acc) m")
    case True
    then obtain y where y: "getNextCronOccurrence e (of_int x) tz = Inr y"
      "collectCronFrom e tz through m (acc @ [of_int x]) (of_int y) = Inr xs"
      using 1(2) by (subst (asm) collectCronFrom.simps) (auto split: sum.splits)
    obtain ys where ys: "xs = (acc @ [of_int x]) @ map of_int ys" "successive tz s ys" "ys \<noteq> [] \<longrightarrow> hd ys = y"
      using 1(1) [OF True y(1) refl y(2) 1(3-5)] by auto
    have "cadence_next tz s x = Inr y"
      using y(1) 1(3-5) by (simp add: getNextScheduleOccurrence_def cadenceOf_def resolveScheduleCadence_def
          nextOccurrence_def nextCronOccurrenceOf_def)
    then show ?thesis using ys by (intro exI [of _ "x # ys"]) (auto simp: successive_def successively_Cons)
  next
    case False
    then have "xs = acc" using 1(2) by (subst (asm) collectCronFrom.simps) auto
    then show ?thesis using False by (auto simp: successive_def intro!: exI [of _ "[]"])
  qed
qed

lemma collected_successive:
  assumes "collectDueScheduleOccurrences tz s x through n = Inr xs"
  shows "successive tz s xs" and "xs \<noteq> [] \<Longrightarrow> hd xs = x" and "x \<le> through \<Longrightarrow> xs \<noteq> []"
proof -
  have bound: "maximumOccurrences (Some (JFin (of_nat n))) = Inr m \<Longrightarrow> below_maximum 0 m" for m
    by (auto simp: maximumOccurrences_def below_maximum_def split: if_splits)
  have floors: "map floor (map of_int ys :: rat list) = ys" for ys by (simp add: comp_def)
  have "\<exists>ys. xs = ys \<and> successive tz s ys \<and> (ys \<noteq> [] \<longrightarrow> hd ys = x) \<and> (x \<le> through \<longrightarrow> ys \<noteq> [])"
  proof (cases "ss_intervalMs s")
    case (Some i)
    then obtain rs m where "maximumOccurrences (Some (JFin (of_nat n))) = Inr m" "xs = map floor rs"
      "collectLoopFrom (of_int (ss_createdAt s)) (of_int i) (of_int through) m [] (of_int x) = Inr rs"
      using assms by (auto simp: collectDueScheduleOccurrences_def cadenceOf_def resolveScheduleCadence_def dueOccurrences_def
          map_sum_Inr and_then_Inr_iff collectDueIntervalOccurrences_def)
    then show ?thesis using interval_loop_successive [OF _ Some, of "of_int through" m "[]" x rs tz] bound floors by auto
  next
    case None
    then obtain c e rs m where "ss_cronExpression s = Some c" "parseCronExpression c = Inr e"
      "maximumOccurrences (Some (JFin (of_nat n))) = Inr m" "xs = map floor rs"
      "collectCronFrom e tz (of_int through) m [] (of_int x) = Inr rs"
      using assms by (auto simp: collectDueScheduleOccurrences_def cadenceOf_def resolveScheduleCadence_def dueOccurrences_def
          map_sum_Inr and_then_Inr_iff collectDueCronOccurrences_def split: option.splits)
    then show ?thesis using cron_loop_successive [OF _ None, of e tz "of_int through" m "[]" x rs c] bound floors by auto
  qed
  then show "successive tz s xs" and "xs \<noteq> [] \<Longrightarrow> hd xs = x" and "x \<le> through \<Longrightarrow> xs \<noteq> []" by auto
qed

lemma successive_next:
  assumes "successive tz s (x # xs)" and "cadence_next tz s (last (x # xs)) = Inr y"
  shows "\<exists>z. cadence_next tz s x = Inr z \<and> z \<le> y"
  using assms
proof (induction xs arbitrary: x)
  case (Cons z xs)
  then have "\<exists>u. cadence_next tz s z = Inr u \<and> u \<le> y" by (auto simp: successive_def)
  then show ?case using Cons.prems cadence_next_after by (fastforce simp: successive_def)
qed auto

lemma missed_loop:
  assumes "countMissedLoop tz s through fuel n x0 x = Inr (n', last0, y)" and "cadence_next tz s x0 = Inr x"
  shows "cadence_next tz s last0 = Inr y \<and> x \<le> y"
  using assms
proof (induction fuel arbitrary: n x0 x)
  case (Suc fuel)
  show ?case
  proof (cases "x \<le> through")
    case True
    then obtain z where "cadence_next tz s x = Inr z" "countMissedLoop tz s through fuel (Suc n) x z = Inr (n', last0, y)" "x < z"
      using Suc.prems(1) by (auto simp: and_then_Inr_iff split: if_splits)
    then show ?thesis using Suc.IH by fastforce
  qed (use Suc.prems in auto)
qed auto

text \<open>The next fire time of a timer that was due leaves a whole gap.\<close>

lemma planned_next:
  assumes "planScheduleTimerWork tz s t fireAt now = Inr (Some work)" and "t \<le> fireAt"
    and "resolveNextScheduleFireAt tz s work now = Inr y"
  shows "\<exists>z. cadence_next tz s t = Inr z \<and> z \<le> y"
proof -
  obtain found where f: "collectDueScheduleOccurrences tz s t (max now fireAt)
      (if ss_backfill s then MAX_SCHEDULE_BACKFILL_OCCURRENCES_PER_TICK else 2) = Inr found" "found \<noteq> []"
    using assms(1) by (auto simp: planScheduleTimerWork_def and_then_Inr_iff split: if_splits)
  note c = collected_successive [OF f(1)]
  obtain xs where xs: "found = t # xs" using c(2) f(2) by (cases found) auto
  show ?thesis
  proof (cases "\<not> ss_backfill s \<and> now - fireAt > SCHEDULE_LATE_GRACE_MILLISECONDS")
    case True
    then obtain n0 o0 where m: "countMissedLoop tz s now MAX_MISSED_FIRE_COUNT_PER_TICK 0 t t = Inr (n0, ms_lastMissedFireAt (the (tw_missedOccurrences work)), o0)"
      "tw_missedOccurrences work \<noteq> None" "tw_skipMissedOccurrences work"
      using assms(1) f by (auto simp: planScheduleTimerWork_def and_then_Inr_iff countMissedScheduleOccurrences_def)
    obtain fuel where "MAX_MISSED_FIRE_COUNT_PER_TICK = Suc fuel"
      using that [of 255] by (simp add: MAX_MISSED_FIRE_COUNT_PER_TICK_def MAX_SCHEDULE_BACKFILL_OCCURRENCES_PER_TICK_def)
    note run = m(1) [unfolded this]
    have "t \<le> now" using True assms(2) by (simp add: SCHEDULE_LATE_GRACE_MILLISECONDS_def)
    with run obtain z where z: "cadence_next tz s t = Inr z"
      "countMissedLoop tz s now fuel (Suc 0) t z = Inr (n0, ms_lastMissedFireAt (the (tw_missedOccurrences work)), o0)"
      by (auto simp: and_then_Inr_iff split: if_splits)
    have "cadence_next tz s (ms_lastMissedFireAt (the (tw_missedOccurrences work))) = Inr y"
      using assms(3) m(2,3) by (auto simp: resolveNextScheduleFireAt_def)
    then show ?thesis using missed_loop [OF z(2,1)] z(1) by auto
  next
    case False
    then have work: "tw_occurrencesToProcess work = (if ss_backfill s then found else take 1 found)" "\<not> tw_skipMissedOccurrences work"
      using assms(1) f by (auto simp: planScheduleTimerWork_def and_then_Inr_iff split: if_splits)
    then have "cadence_next tz s (last (if ss_backfill s then found else take 1 found)) = Inr y"
      using assms(3) f(2) by (auto simp: resolveNextScheduleFireAt_def split: if_splits)
    then show ?thesis
      using successive_next [of tz s t xs y] c(1) xs by (auto simp: successive_def split: if_splits)
  qed
qed

section \<open>What an occurrence keeps\<close>

definition same_schedule :: "schedule_state \<Rightarrow> schedule_state \<Rightarrow> bool" where
  "same_schedule s t \<longleftrightarrow>
     ss_id t = ss_id s \<and> ss_status t = ss_status s \<and> ss_cronExpression t = ss_cronExpression s \<and>
     ss_intervalMs t = ss_intervalMs s \<and> ss_createdAt t = ss_createdAt s \<and> ss_jitterMs t = ss_jitterMs s \<and>
     ss_overlap t = ss_overlap s \<and> ss_backfill t = ss_backfill s"

lemma same_schedule_refl [simp]: "same_schedule s s"
  by (simp add: same_schedule_def)

lemma same_schedule_trans: "same_schedule s t \<Longrightarrow> same_schedule t u \<Longrightarrow> same_schedule s u"
  by (simp add: same_schedule_def)

lemma same_schedule_next: "same_schedule s t \<Longrightarrow> cadence_next tz t = cadence_next tz s"
  by (auto simp: same_schedule_def getNextScheduleOccurrence_def cadenceOf_def)

lemma same_schedule_fire: "same_schedule s t \<Longrightarrow> resolveEffectiveScheduleFireAt t = resolveEffectiveScheduleFireAt s"
  by (auto simp: same_schedule_def resolveEffectiveScheduleFireAt_def)

lemma same_schedule_resolve: "same_schedule s t \<Longrightarrow> resolveNextScheduleFireAt tz t = resolveNextScheduleFireAt tz s"
  by (intro ext) (simp add: resolveNextScheduleFireAt_def same_schedule_next)

lemma refresh_same:
  "refreshScheduledWorkflowState H s e = (Inr (t, status), e') \<Longrightarrow> same_schedule s t"
  by (auto simp: refreshScheduledWorkflowState_def action_iffs clearScheduleCurrentWorkflow_def same_schedule_def
      split: option.splits if_splits)

lemma drain_same: "drainQueuedScheduleRun H s w e = (Inr t, e') \<Longrightarrow> same_schedule s t"
  by (auto simp: drainQueuedScheduleRun_def action_iffs same_schedule_def Let_def split: list.splits)

lemma blocked_same: "applyBlockedScheduleOccurrence H s active occurrence e = (Inr t, e') \<Longrightarrow> same_schedule s t"
  by (auto simp: applyBlockedScheduleOccurrence_def startScheduleRunInOccupiedSlot_def action_iffs same_schedule_def
      clearScheduleCurrentWorkflow_def split: schedule_overlap.splits if_splits)

definition slotBeforeOccurrence ::
    "'s schedule_host \<Rightarrow> schedule_state \<Rightarrow> workflow_status option \<Rightarrow> ('s, schedule_state \<times> bool) engine_action" where
  "slotBeforeOccurrence H r status =
     (if \<not> scheduledRunOccupiesSlot status \<and> ss_queuedRuns r \<noteq> []
      then seq (drainQueuedScheduleRun H r None) (\<lambda>s. ret (s, True)) else ret (r, scheduledRunOccupiesSlot status))"

definition occurrenceInSlot ::
    "'s schedule_host \<Rightarrow> schedule_state \<Rightarrow> bool \<Rightarrow> int option \<Rightarrow> ('s, schedule_state) engine_action" where
  "occurrenceInSlot H u active occurrence =
     (if ss_overlap u = OverlapAllow then
        seq (startScheduledRun H u \<lparr>rs_occurrence = occurrence, rs_workflowId = None,
               rs_scheduleStateAfterStart = None, rs_completedWorkflowId = None\<rparr>) (\<lambda>_. ret u)
      else applyBlockedScheduleOccurrence H u active occurrence)"

lemma occurrence_phases:
  "applyScheduleOccurrence H s occurrence =
     seq (refreshScheduledWorkflowState H s) (\<lambda>p. seq (slotBeforeOccurrence H (fst p) (snd p)) (\<lambda>q.
       occurrenceInSlot H (fst q) (snd q) occurrence))"
  by (simp add: applyScheduleOccurrence_def slotBeforeOccurrence_def occurrenceInSlot_def Let_def case_prod_unfold)

lemma occurrence_same:
  assumes "applyScheduleOccurrence H s occurrence e = (Inr t, e')"
  shows "same_schedule s t"
proof -
  obtain r status e1 u active e2 where r: "refreshScheduledWorkflowState H s e = (Inr (r, status), e1)"
    and u: "slotBeforeOccurrence H r status e1 = (Inr (u, active), e2)"
    and t: "occurrenceInSlot H u active occurrence e2 = (Inr t, e')"
    using assms unfolding occurrence_phases seq_Inr by auto
  have "same_schedule r u" using u drain_same by (auto simp: slotBeforeOccurrence_def action_iffs split: if_splits)
  moreover have "same_schedule u t" using t blocked_same by (auto simp: occurrenceInSlot_def action_iffs split: if_splits)
  ultimately show ?thesis using refresh_same [OF r] same_schedule_trans by blast
qed

lemma settle_same: "settleBackfillScheduleState H s e = (Inr t, e') \<Longrightarrow> same_schedule s t"
  by (auto simp: settleBackfillScheduleState_def action_iffs split: option.splits prod.splits dest!: refresh_same)

section \<open>What the handler keeps of the store\<close>

text \<open>An action of the engine, and a host all of whose actions, keep an invariant of the store.\<close>

definition keeps :: "('s \<Rightarrow> bool) \<Rightarrow> ('s, 'a) engine_action \<Rightarrow> bool" where
  "keeps P a \<longleftrightarrow> (\<forall>e. P (en_store e) \<longrightarrow> P (en_store (snd (a e))))"

definition host_keeps :: "('s \<Rightarrow> bool) \<Rightarrow> 's schedule_host \<Rightarrow> bool" where
  "host_keeps P H \<longleftrightarrow>
     (\<forall>s. P s \<longrightarrow> P (sh_later H s)) \<and> (\<forall>w. keeps P (sh_workflowStatus H w)) \<and>
     (\<forall>type input w ops. keeps P (sh_startWorkflow H type input w ops)) \<and> (\<forall>w. keeps P (sh_cancelWorkflow H w)) \<and>
     (\<forall>w. keeps P (sh_failWorkflow H w)) \<and> keeps P (sh_flushStarts H) \<and> (\<forall>w. keeps P (sh_waitForTurn H w))"

lemma keepsD: "keeps P a \<Longrightarrow> a e = (r, e') \<Longrightarrow> P (en_store e) \<Longrightarrow> P (en_store e')"
  by (force simp: keeps_def)

lemma keeps_seq: "keeps P m \<Longrightarrow> (\<And>x. keeps P (f x)) \<Longrightarrow> keeps P (seq m f)"
  by (fastforce simp: keeps_def seq_def split: prod.splits sum.splits)

lemma keeps_basic:
  "keeps P (ret x)" "keeps P (throw err)" "keeps P (lift r)" "keeps P getNow" "keeps P randomUUID"
  "keeps P (dispatchEvent ev)" "keeps P (storageGet H k)" "keeps P (registerRun w res)"
  by (simp_all add: keeps_def ret_def throw_def lift_def getNow_def randomUUID_def dispatchEvent_def storageGet_def registerRun_def)

lemma keeps_if: "(b \<Longrightarrow> keeps P x) \<Longrightarrow> (\<not> b \<Longrightarrow> keeps P y) \<Longrightarrow> keeps P (if b then x else y)"
  by simp

lemmas keeps_intros = keeps_seq keeps_basic keeps_if

lemma host_keeps_failUnavailable: "host_keeps P H \<Longrightarrow> keeps P (failUnavailable H w res)"
  by (simp add: host_keeps_def keeps_def failUnavailable_def)

lemma keeps_start: "host_keeps P H \<Longrightarrow> keeps P (startScheduledRun H s options)"
  unfolding startScheduledRun_def Let_def
  by (intro keeps_intros host_keeps_failUnavailable) (auto simp: host_keeps_def keeps_basic split: option.split)

lemma keeps_blocked: "host_keeps P H \<Longrightarrow> keeps P (applyBlockedScheduleOccurrence H s active occurrence)"
  unfolding applyBlockedScheduleOccurrence_def startScheduleRunInOccupiedSlot_def
  by (auto intro!: keeps_intros keeps_start simp: host_keeps_def split: schedule_overlap.split option.split)

lemma keeps_drain: "host_keeps P H \<Longrightarrow> keeps P (drainQueuedScheduleRun H s w)"
  unfolding drainQueuedScheduleRun_def Let_def by (auto intro!: keeps_intros keeps_start split: list.split)

lemma persist_Inr: "persistScheduleTimerState H s includeTimer e = (Inr u, e') \<longleftrightarrow> writeScheduleState H s includeTimer None [] e = (Inr u, e')"
  by (auto simp: persistScheduleTimerState_def split: prod.splits sum.splits)

lemma apply_timer_same:
  assumes "applyTimerOccurrence H work now s occurrence final e = (Inr t, e')"
  shows "same_schedule s t \<and> (final \<longrightarrow> (\<exists>y. resolveNextScheduleFireAt (sh_timeZone H) s work now = Inr y \<and> ss_nextFireAt t = Some y))"
proof -
  obtain u e1 where u: "applyScheduleOccurrence H s (Some occurrence) e = (Inr u, e1)"
    and t: "(if final then seq (lift (resolveNextScheduleFireAt (sh_timeZone H) (u\<lparr>ss_lastFireAt := Some occurrence, ss_updatedAt := now\<rparr>) work now))
               (\<lambda>y. ret (u\<lparr>ss_lastFireAt := Some occurrence, ss_updatedAt := now, ss_nextFireAt := Some y\<rparr>))
             else ret (u\<lparr>ss_lastFireAt := Some occurrence, ss_updatedAt := now\<rparr>)) e1 = (Inr t, e')"
    using assms unfolding applyTimerOccurrence_def Let_def seq_Inr [of "applyScheduleOccurrence H s (Some occurrence)"] by auto
  define f where "f = u\<lparr>ss_lastFireAt := Some occurrence, ss_updatedAt := now\<rparr>"
  have f: "same_schedule s f" using occurrence_same [OF u] by (simp add: same_schedule_def f_def)
  show ?thesis
  proof (cases final)
    case True
    then obtain y where "resolveNextScheduleFireAt (sh_timeZone H) f work now = Inr y" "t = f\<lparr>ss_nextFireAt := Some y\<rparr>"
      using t by (auto simp: action_iffs f_def)
    then show ?thesis using f fun_cong [OF fun_cong [OF same_schedule_resolve [OF f]]] by (simp add: same_schedule_def)
  next
    case False
    then show ?thesis using t f by (simp add: ret_Inr f_def [symmetric])
  qed
qed

lemma settle_timer_cases:
  assumes "settleTimerOccurrence H work now s final e = (Inr t, e')"
  shows "\<exists>v e1. settleBackfillScheduleState H s e = (Inr v, e1) \<and>
    (if final then \<exists>y. resolveNextScheduleFireAt (sh_timeZone H) v work now = Inr y \<and>
       t = v\<lparr>ss_updatedAt := now, ss_nextFireAt := Some y\<rparr> \<and> writeScheduleState H t None None [] e1 = (Inr (), e')
     else t = v \<and> e' = e1)"
proof -
  obtain v e1 where v: "settleBackfillScheduleState H s e = (Inr v, e1)"
    and t: "(if final then
         seq (lift (resolveNextScheduleFireAt (sh_timeZone H) v work now)) (\<lambda>t.
           let rearmed = v\<lparr>ss_updatedAt := now, ss_nextFireAt := Some t\<rparr>
           in seq (persistScheduleTimerState H rearmed None) (\<lambda>_. ret rearmed))
       else ret v) e1 = (Inr t, e')"
    using assms unfolding settleTimerOccurrence_def seq_Inr [of "settleBackfillScheduleState H s"] by blast
  show ?thesis
  proof (cases final)
    case True
    then show ?thesis using v t by (auto simp: action_iffs Let_def persist_Inr)
  next
    case False
    then show ?thesis using v t by (simp add: ret_Inr)
  qed
qed

lemma settle_timer_same:
  assumes "settleTimerOccurrence H work now s final e = (Inr t, e')"
  shows "same_schedule s t"
proof -
  obtain v e1 where "settleBackfillScheduleState H s e = (Inr v, e1)" "same_schedule v t"
    using settle_timer_cases [OF assms] by (auto simp: same_schedule_def split: if_splits)
  then show ?thesis using settle_same same_schedule_trans by blast
qed

context cas_storage_spec
begin

lemma keeps_delete: "sh_storage H = S \<Longrightarrow> keeps invar (storageDelete H k)"
  using delete_spec by (fastforce simp: keeps_def storageDelete_def split: prod.splits)

lemma keeps_commit:
  assumes "sh_storage H = S" and "host_keeps invar H" and "length ops \<le> MAX_BATCH_OPERATIONS"
  shows "keeps invar (commitWrite H ops)"
  unfolding keeps_def
proof (intro allI impI)
  fix e :: "'s schedule_engine"
  assume e: "invar (en_store e)"
  have later: "invar x \<Longrightarrow> invar (sh_later H x)" for x using assms(2) by (simp add: host_keeps_def)
  have batch: "invar s'" if "batch_op S (en_store e) ops = (r, s')" for r s' using batch_spec [OF e assms(3) that] by blast
  have cond: "invar s'" if "storageConditionalBatch S (en_store e) [c] ops = (r, s')" for c r s'
    using conditional_batch [OF e _ assms(3), of "[c]"] that e by (auto simp: MAX_BATCH_OPERATIONS_def split: if_splits)
  have "invar (snd (snd (fencedCommit S (en_internals e) (en_store e) (sh_later H) ops [])))"
    using e batch cond later by (auto simp: fencedCommit_def split: prod.splits sum.splits option.splits if_splits)
  then show "invar (en_store (snd (commitWrite H ops e)))"
    using assms(1) by (auto simp: commitWrite_def commitFencedEngineWrite_def split: prod.splits sum.splits fenced_commit_result.splits)
qed

lemma keeps_write:
  assumes "sh_storage H = S" and "host_keeps invar H"
  shows "keeps invar (writeScheduleState H s includeTimer None [])"
proof (cases "scheduleWriteOperations (sh_codec H) s (case includeTimer of Some b \<Rightarrow> b | None \<Rightarrow> ss_status s = ScheduleActive) None []")
  case (Inl err)
  then show ?thesis by (simp add: writeScheduleState_def keeps_def seq_def lift_def)
next
  case (Inr ops)
  then have "length ops \<le> MAX_BATCH_OPERATIONS"
    by (rule write_operations_cases) (use replacement_keys(2) [where previous = None] in \<open>fastforce simp: MAX_BATCH_OPERATIONS_def\<close>)
  then have "keeps invar (commitWrite H ops)" by (rule keeps_commit [OF assms])
  then show ?thesis using Inr by (simp add: writeScheduleState_def keeps_def seq_def lift_def)
qed

lemma keeps_persist: "sh_storage H = S \<Longrightarrow> host_keeps invar H \<Longrightarrow> keeps invar (persistScheduleTimerState H s includeTimer)"
  using keeps_write [of H s includeTimer]
  by (fastforce simp: keeps_def persistScheduleTimerState_def split: prod.splits sum.splits)

lemma keeps_refresh: "sh_storage H = S \<Longrightarrow> host_keeps invar H \<Longrightarrow> keeps invar (refreshScheduledWorkflowState H s)"
  unfolding refreshScheduledWorkflowState_def
  by (auto intro!: keeps_intros keeps_delete simp: host_keeps_def split: option.split)

lemma keeps_occurrence: "sh_storage H = S \<Longrightarrow> host_keeps invar H \<Longrightarrow> keeps invar (applyScheduleOccurrence H s occurrence)"
  unfolding occurrence_phases slotBeforeOccurrence_def occurrenceInSlot_def
  by (intro keeps_intros keeps_refresh keeps_drain keeps_start keeps_blocked)

lemma keeps_settle: "sh_storage H = S \<Longrightarrow> host_keeps invar H \<Longrightarrow> keeps invar (settleBackfillScheduleState H s)"
  unfolding settleBackfillScheduleState_def
  by (auto intro!: keeps_intros keeps_refresh simp: host_keeps_def split: option.split)

lemma keeps_apply_timer:
  "sh_storage H = S \<Longrightarrow> host_keeps invar H \<Longrightarrow> keeps invar (applyTimerOccurrence H work now s occurrence final)"
  unfolding applyTimerOccurrence_def Let_def by (intro keeps_intros keeps_occurrence)

lemma keeps_settle_timer:
  "sh_storage H = S \<Longrightarrow> host_keeps invar H \<Longrightarrow> keeps invar (settleTimerOccurrence H work now s final)"
  unfolding settleTimerOccurrence_def Let_def by (intro keeps_intros keeps_settle keeps_persist)

text \<open>The last thing a timer does that was processed is to write the record with its next timer.\<close>

definition rearms :: "'s schedule_host \<Rightarrow> schedule_state \<Rightarrow> int \<Rightarrow> schedule_state \<Rightarrow> 's schedule_engine \<Rightarrow> bool" where
  "rearms H s y t e' \<longleftrightarrow> same_schedule s t \<and> ss_nextFireAt t = Some y \<and>
     (\<exists>e e1 includeTimer. invar (en_store e) \<and> includeTimer \<noteq> Some False \<and>
        writeScheduleState H t includeTimer None [] e = (Inr (), e1) \<and> en_store e' = en_store e1)"

lemma rearmsI:
  "same_schedule s t \<Longrightarrow> ss_nextFireAt t = Some y \<Longrightarrow> invar (en_store e) \<Longrightarrow> includeTimer \<noteq> Some False \<Longrightarrow>
   writeScheduleState H t includeTimer None [] e = (Inr (), e1) \<Longrightarrow> en_store e' = en_store e1 \<Longrightarrow> rearms H s y t e'"
  unfolding rearms_def by blast

lemma process_occurrences_result:
  assumes "processScheduleTimerOccurrences H backfill work now occurrences s e = (r, t, e')"
    and H: "sh_storage H = S" "host_keeps invar H" and "invar (en_store e)"
  shows "invar (en_store e') \<and> same_schedule s t \<and>
    (r = Inr () \<longrightarrow> occurrences \<noteq> [] \<longrightarrow>
      (\<exists>y. resolveNextScheduleFireAt (sh_timeZone H) s work now = Inr y \<and> rearms H s y t e'))"
  using assms(1,4)
proof (induction occurrences arbitrary: s e)
  case Nil
  then show ?case by simp
next
  case (Cons x xs)
  note keep = keepsD [OF keeps_apply_timer [OF H]] keepsD [OF keeps_persist [OF H]] keepsD [OF keeps_settle_timer [OF H]]
  show ?case
  proof (cases "applyTimerOccurrence H work now s x (xs = []) e")
    case (Pair a e1)
    have e1: "invar (en_store e1)" using keep(1) [OF Pair] Cons.prems(2) by simp
    show ?thesis
    proof (cases a)
      case (Inl err)
      then show ?thesis using Cons.prems(1) Pair e1 by (auto simp: Let_def)
    next
      case (Inr p)
      have p: "same_schedule s p" "xs = [] \<Longrightarrow> \<exists>y. resolveNextScheduleFireAt (sh_timeZone H) s work now = Inr y \<and> ss_nextFireAt p = Some y"
        using apply_timer_same [of H work now s x "xs = []" e p e1] Pair Inr by simp_all
      obtain b e2 where w: "persistScheduleTimerState H p (Some (xs = [])) e1 = (b, e2)" by force
      have e2: "invar (en_store e2)" using keep(2) [OF w e1] .
      show ?thesis
      proof (cases b)
        case (Inl err)
        then show ?thesis using Cons.prems(1) Pair Inr w e2 p by (auto simp: Let_def)
      next
        case w': (Inr u)
        show ?thesis
        proof (cases "backfill \<and> ss_currentWorkflowId p \<noteq> None")
          case False
          then have run: "processScheduleTimerOccurrences H backfill work now xs p e2 = (r, t, e')"
            using Cons.prems(1) Pair Inr w w' by (auto simp: Let_def)
          have "rearms H s y p e2" if "xs = []" "ss_nextFireAt p = Some y" for y
            by (rule rearmsI [OF p(1) that(2) e1, of "Some True"]) (use that w w' in \<open>simp_all add: persist_Inr\<close>)
          then show ?thesis
            using Cons.IH [OF run e2] p run same_schedule_trans [OF p(1)] same_schedule_resolve [OF p(1)]
            by (cases "xs = []") (auto simp: rearms_def)
        next
          case True
          obtain c e3 where st: "settleTimerOccurrence H work now p (xs = []) e2 = (c, e3)" by force
          have e3: "invar (en_store e3)" using keep(3) [OF st e2] .
          show ?thesis
          proof (cases c)
            case (Inl err)
            then show ?thesis using Cons.prems(1) Pair Inr w w' True st e3 p by (auto simp: Let_def)
          next
            case c: (Inr q)
            have run: "processScheduleTimerOccurrences H backfill work now xs q e3 = (r, t, e')"
              using Cons.prems(1) Pair Inr w w' True st c by (auto simp: Let_def)
            have q: "same_schedule s q" using settle_timer_same st c p(1) same_schedule_trans by blast
            have "\<exists>y. resolveNextScheduleFireAt (sh_timeZone H) s work now = Inr y \<and> rearms H s y q e3" if empty: "xs = []"
            proof -
              obtain v e4 y where v: "settleBackfillScheduleState H p e2 = (Inr v, e4)"
                "resolveNextScheduleFireAt (sh_timeZone H) v work now = Inr y" "q = v\<lparr>ss_updatedAt := now, ss_nextFireAt := Some y\<rparr>"
                "writeScheduleState H q None None [] e4 = (Inr (), e3)"
                using settle_timer_cases [of H work now p "xs = []" e2 q e3] st c empty by auto
              have "same_schedule s v" using settle_same [OF v(1)] p(1) same_schedule_trans by blast
              then have "resolveNextScheduleFireAt (sh_timeZone H) s work now = Inr y" using v(2) same_schedule_resolve by metis
              moreover have "invar (en_store e4)" by (rule keepsD [OF keeps_settle [OF H] v(1) e2])
              ultimately show ?thesis using rearmsI [OF q _ _ _ v(4)] v(3) by auto
            qed
            then show ?thesis
              using Cons.IH [OF run e3] q run same_schedule_trans [OF q] same_schedule_resolve [OF q]
              by (cases "xs = []") (auto simp: rearms_def)
          qed
        qed
      qed
    qed
  qed
qed

lemma skip_result:
  assumes "skipMissedOccurrences H work now s e = (r, t, e')" and H: "sh_storage H = S" "host_keeps invar H" and "invar (en_store e)"
  shows "invar (en_store e') \<and> same_schedule s t \<and>
    (r = Inr () \<longrightarrow> (\<exists>y. resolveNextScheduleFireAt (sh_timeZone H) s work now = Inr y \<and> rearms H s y t e'))"
proof (cases "resolveNextScheduleFireAt (sh_timeZone H) s work now")
  case (Inl err)
  then show ?thesis using assms by (auto simp: skipMissedOccurrences_def)
next
  case (Inr y)
  define t' where "t' = (case tw_missedOccurrences work of
                 None \<Rightarrow> s\<lparr>ss_updatedAt := now, ss_nextFireAt := Some y\<rparr>
               | Some m \<Rightarrow> s\<lparr>ss_updatedAt := now, ss_nextFireAt := Some y, ss_lastMissedFireAt := Some (ms_lastMissedFireAt m),
                             ss_missedFireCount := ss_missedFireCount s + int (ms_count m)\<rparr>)"
  have t': "same_schedule s t'" "ss_nextFireAt t' = Some y" by (auto simp: t'_def same_schedule_def split: option.split)
  obtain a e1 where w: "persistScheduleTimerState H t' None e = (a, e1)" by force
  have e1: "invar (en_store e1)" by (rule keepsD [OF keeps_persist [OF H] w assms(4)])
  have "t = t'" and "en_store e' = en_store e1" and "r = Inr () \<Longrightarrow> a = Inr ()"
    using assms(1) Inr w
    by (auto simp: skipMissedOccurrences_def t'_def seq_def dispatchEvent_def ret_def Let_def split: option.splits sum.splits prod.splits)
  moreover have "a = Inr () \<Longrightarrow> writeScheduleState H t' None None [] e = (Inr (), e1)" using w by (simp add: persist_Inr)
  ultimately show ?thesis using t' e1 Inr rearmsI [OF t' assms(4), of None] by auto
qed

lemma run_result:
  assumes "runScheduleTimer H s t fireAt e = (r, u, e')" and H: "sh_storage H = S" "host_keeps invar H" and "invar (en_store e)"
    and "t \<le> fireAt"
  shows "invar (en_store e') \<and> same_schedule s u \<and>
    (r = Inr () \<longrightarrow> (\<exists>y z. cadence_next (sh_timeZone H) s t = Inr z \<and> z \<le> y \<and> rearms H s y u e'))"
proof -
  define now e1 where "now = en_clock e 0" and "e1 = e\<lparr>en_clock := (\<lambda>n. en_clock e (Suc n))\<rparr>"
  have e1: "invar (en_store e1)" "getNow e = (Inr now, e1)" using assms(4) by (simp_all add: e1_def now_def getNow_def)
  show ?thesis
  proof (cases "planScheduleTimerWork (sh_timeZone H) s t fireAt now")
    case (Inl err)
    then show ?thesis using assms(1) e1 by (auto simp: runScheduleTimer_def)
  next
    case (Inr planned)
    have "collectDueScheduleOccurrences (sh_timeZone H) s t (max now fireAt) n \<noteq> Inr []" for n
      using collected_successive(3) [of "sh_timeZone H" s t "max now fireAt" n "[]"] max.coboundedI2 [OF assms(5), of now] by blast
    then have "planned \<noteq> None" using Inr by (auto simp: planScheduleTimerWork_def and_then_Inr_iff split: if_splits)
    then obtain work where work: "planScheduleTimerWork (sh_timeZone H) s t fireAt now = Inr (Some work)" using Inr by auto
    have step: "invar (en_store e') \<and> same_schedule s u \<and>
        (r = Inr () \<longrightarrow> (\<exists>y. resolveNextScheduleFireAt (sh_timeZone H) s work now = Inr y \<and> rearms H s y u e'))"
      using assms(1) e1 work skip_result [OF _ H e1(1)] process_occurrences_result [OF _ H e1(1)]
      by (auto simp: runScheduleTimer_def split: if_splits)
    then show ?thesis using planned_next [OF work assms(5)] by blast
  qed
qed

lemma handler_result:
  assumes "handleScheduleTimer H (scheduleTimerEntry s t) e = (Inr (), e')" and H: "sh_storage H = S" "host_keeps invar H"
    and e: "invar (en_store e)" "\<not> deposed (en_internals e)"
    and s: "stored_schedule (sh_codec H) (contents (en_store e)) (ss_id s) = Some s" "ss_status s = ScheduleActive" "ss_nextFireAt s = Some t"
  shows "\<exists>u e0 e1 includeTimer. invar (en_store e0) \<and> writeScheduleState H u includeTimer None [] e0 = (Inr (), e1) \<and>
    en_store e' = en_store e1 \<and> ss_id u = ss_id s \<and>
    (ss_status u = SchedulePaused \<or>
     includeTimer \<noteq> Some False \<and> same_schedule s u \<and>
       (\<exists>y z. cadence_next (sh_timeZone H) s t = Inr z \<and> z \<le> y \<and> ss_nextFireAt u = Some y))"
proof -
  let ?fire = "resolveEffectiveScheduleFireAt s t"
  have fire: "t \<le> ?fire" using jitter_offset_bounds(1) by (simp add: resolveEffectiveScheduleFireAt_def)
  have entry: "te_workflowId (scheduleTimerEntry s t) = ss_id s" "isCurrentActiveScheduleTimer (Some s) (scheduleTimerEntry s t)"
    using s by (simp_all add: scheduleTimerEntry_def isCurrentActiveScheduleTimer_def)
  obtain l el where l: "loadScheduleState H (ss_id s) e = (l, el)" by force
  obtain loaded where loaded: "l = Inr loaded"
    using assms(1) l e(2) entry(1) by (cases l) (auto simp: handleScheduleTimer_def)
  have le: "loaded = Some s" "el = e" using load_stored [OF l [unfolded loaded] H(1) e(1)] s(1) by simp_all
  obtain r u e2 where run: "runScheduleTimer H s t ?fire e = (r, u, e2)" by (cases "runScheduleTimer H s t ?fire e") auto
  note result = run_result [OF run H e(1) fire]
  show ?thesis
  proof (cases r)
    case (Inr x)
    have "e' = e2"
      using Inr assms(1) e(2) entry l loaded le s(3) run by (auto simp: handleScheduleTimer_def Let_def)
    moreover have "same_schedule s v \<Longrightarrow> ss_id v = ss_id s" for v by (simp add: same_schedule_def)
    moreover have "r = Inr ()" using Inr by simp
    ultimately show ?thesis using result unfolding rearms_def by blast
  next
    case (Inl err)
    then have "pauseScheduleAfterTimerFailure H u e2 = (Inr (), e')"
      using assms(1) e(2) entry l loaded le s(3) run by (auto simp: handleScheduleTimer_def Let_def split: schedule_failure.splits)
    then obtain n y e3 where w: "writeScheduleState H (u\<lparr>ss_status := SchedulePaused, ss_updatedAt := n, ss_nextFireAt := Some y\<rparr>)
        (Some False) None [] e3 = (Inr (), e')" "en_store e3 = en_store e2"
      by (auto simp: pauseScheduleAfterTimerFailure_def action_iffs)
    moreover have "ss_id u = ss_id s" "invar (en_store e2)" using result by (simp_all add: same_schedule_def)
    ultimately show ?thesis
      by (intro exI [of _ "u\<lparr>ss_status := SchedulePaused, ss_updatedAt := n, ss_nextFireAt := Some y\<rparr>"] exI [of _ e3]
          exI [of _ e'] exI [of _ "Some False"]) simp
  qed
qed

lemma write_effect:
  assumes "writeScheduleState H u includeTimer None [] e = (Inr (), e')" and "sh_storage H = S" "codec_roundtrip (sh_codec H)" "invar (en_store e)"
  shows "\<exists>key. KEYS_schedule (ss_id u) = Some key \<and>
    contents (en_store e') key = Some (vc_encode (sh_codec H) (scheduleValue u)) \<and>
    (includeTimer \<noteq> Some False \<longrightarrow> ss_nextFireAt u \<noteq> None \<longrightarrow> well_armed (sh_codec H) (contents (en_store e')) u)"
proof -
  let ?C = "sh_codec H" and ?inc = "case includeTimer of Some b \<Rightarrow> b | None \<Rightarrow> ss_status u = ScheduleActive"
  obtain ops where ops: "scheduleWriteOperations ?C u ?inc None [] = Inr ops" "commitWrite H ops e = (Inr (), e')"
    using assms(1) by (auto simp: writeScheduleState_def action_iffs)
  obtain key ts where key: "KEYS_schedule (ss_id u) = Some key"
    and ts: "buildScheduleTimerReplacementOperations ?C u ?inc None = Inr ts"
    and eq: "ops = Put key (vc_encode ?C (scheduleValue u)) # ts @ []"
    using ops(1) by (rule write_operations_cases)
  note own = replacement_keys [OF ts, of Map.empty, simplified]
  have "length ops \<le> MAX_BATCH_OPERATIONS" using own(2) eq by (simp add: MAX_BATCH_OPERATIONS_def)
  from commit_applied [OF ops(2) assms(2,4) this]
  have m': "contents (en_store e') = apply_operations ts ((contents (en_store e))(key \<mapsto> vc_encode ?C (scheduleValue u)))"
    using eq by simp
  have "contents (en_store e') key = Some (vc_encode ?C (scheduleValue u))"
    unfolding m' using apply_operations_other [OF own(3) [OF key]] by simp
  moreover have "well_armed ?C (contents (en_store e')) u" if "includeTimer \<noteq> Some False" "ss_nextFireAt u \<noteq> None"
  proof (cases "ss_status u = ScheduleActive")
    case True
    then have "?inc" using that(1) by (auto split: option.split)
    then show ?thesis using timer_armed [OF assms(3) ts [simplified \<open>?inc\<close>]] that(2) ts unfolding m' by simp
  qed (simp add: well_armed_def)
  ultimately show ?thesis using key by blast
qed

end

section \<open>A tick of the scheduler\<close>

text \<open>The callback of the scheduler for the timer of a schedule, as \<open>handleTimerFired\<close> dispatches it.\<close>

definition scheduleTimerCallback :: "'s schedule_host \<Rightarrow> 's schedule_engine \<Rightarrow> 's timer_callback" where
  "scheduleTimerCallback H e entry sch s =
     (case handleScheduleTimer H entry (e\<lparr>en_scheduler := sch, en_store := s\<rparr>) of
        (r, e') \<Rightarrow> (case r of Inr _ \<Rightarrow> CallbackReturned | Inl _ \<Rightarrow> CallbackThrew, en_scheduler e', en_store e'))"

lemma process_timer:
  assumes "processSelectedTimer S C (scheduleTimerCallback H e) \<lparr>st_key = key, st_entry = entry\<rparr> [] now (en_scheduler e) (en_store e)
      = (TimerProcessed, cleanup, sch', store')"
  obtains e' where "handleScheduleTimer H entry e = (Inr (), e')" "store' = en_store e'"
    "cleanup = appendTimerCleanupOperationsAfterCallback S C \<lparr>st_key = key, st_entry = entry\<rparr> [] store'"
proof -
  have "e\<lparr>en_scheduler := en_scheduler e, en_store := en_store e\<rparr> = e" by simp
  then show thesis
    using assms that by (auto simp: processSelectedTimer_def scheduleTimerCallback_def split: if_splits prod.splits sum.splits callback_outcome.splits)
qed

lemma effective_advances:
  assumes "same_schedule s u" and "t + occurrence_gap s \<le> y" and "pred_option (\<lambda>j. j \<le> occurrence_gap s) (ss_jitterMs s)"
    and "0 < occurrence_gap s"
  shows "resolveEffectiveScheduleFireAt s t < resolveEffectiveScheduleFireAt u y"
proof -
  have "computeScheduleJitterOffset (ss_id s) t (ss_jitterMs s) < occurrence_gap s"
    using assms(3,4) jitter_offset_bounds(2) [of "ss_jitterMs s"]
    by (cases "ss_jitterMs s") (auto simp: computeScheduleJitterOffset_def intro: less_le_trans [OF pos_mod_bound])
  then show ?thesis
    using assms(1,2) jitter_offset_bounds(1) [of "ss_id u" y "ss_jitterMs u"]
    by (simp add: resolveEffectiveScheduleFireAt_def same_schedule_def)
qed

context cas_storage_spec
begin

lemma cleanup_shape:
  assumes "invar x" and "te_kind entry = ScheduleTick"
    and ops: "ops = appendTimerCleanupOperationsAfterCallback S C \<lparr>st_key = key, st_entry = entry\<rparr> [] x"
  shows "set ops \<subseteq> {Delete key, Delete (timerIndexKey (te_id entry))}"
    and "Option.bind (contents x (timerIndexKey (te_id entry))) (vc_decode C) = Some (JString k) \<Longrightarrow> k \<noteq> key \<Longrightarrow> ops = [Delete key]"
  using assms(2) get_spec [OF assms(1)]
  by (auto simp: ops appendTimerCleanupOperationsAfterCallback_def buildTimerCleanupOperations_def buildTimerIndexDeleteOperation_def
      buildScheduleTimerIndexDeleteOperation_def decodeTimer_def isString_def and_then_def Let_def
      split: option.splits sum.splits if_splits)

lemma tick_rearms:
  assumes H: "sh_storage H = S" "host_keeps invar H" "codec_roundtrip (sh_codec H)"
    and e: "invar (en_store e)" "\<not> deposed (en_internals e)"
    and s: "stored_schedule (sh_codec H) (contents (en_store e)) (ss_id s) = Some s" "ss_status s = ScheduleActive" "ss_nextFireAt s = Some t"
    and key: "scheduleTickKey s t = Inr key" "valid_timestamp (resolveEffectiveScheduleFireAt s t)"
    and regular: "regular_occurrence s t" "0 < occurrence_gap s" "pred_option (\<lambda>j. j \<le> occurrence_gap s) (ss_jitterMs s)"
    and p: "processSelectedTimer S (sh_codec H) (scheduleTimerCallback H e) \<lparr>st_key = key, st_entry = scheduleTimerEntry s t\<rparr> [] now
      (en_scheduler e) (en_store e) = (TimerProcessed, cleanup, sch', store')"
  shows "\<exists>u rk. KEYS_schedule (ss_id s) = Some rk \<and>
    apply_operations cleanup (contents store') rk = Some (vc_encode (sh_codec H) (scheduleValue u)) \<and> ss_id u = ss_id s \<and>
    (ss_status u = SchedulePaused \<or> ss_status u = ScheduleActive \<and>
       (\<exists>y. ss_nextFireAt u = Some y \<and> t + occurrence_gap s \<le> y) \<and>
       well_armed (sh_codec H) (apply_operations cleanup (contents store')) u)"
proof -
  let ?C = "sh_codec H" and ?idx = "timerIndexKey (createScheduleTimerId (ss_id s))"
  obtain e' where h: "handleScheduleTimer H (scheduleTimerEntry s t) e = (Inr (), e')" and st: "store' = en_store e'"
    and cl: "cleanup = appendTimerCleanupOperationsAfterCallback S ?C \<lparr>st_key = key, st_entry = scheduleTimerEntry s t\<rparr> [] store'"
    using p by (rule process_timer)
  obtain u e0 e1 inc where u: "invar (en_store e0)" "writeScheduleState H u inc None [] e0 = (Inr (), e1)"
    "en_store e' = en_store e1" "ss_id u = ss_id s"
    "ss_status u = SchedulePaused \<or> inc \<noteq> Some False \<and> same_schedule s u \<and>
       (\<exists>y z. cadence_next (sh_timeZone H) s t = Inr z \<and> z \<le> y \<and> ss_nextFireAt u = Some y)"
    using handler_result [OF h H(1,2) e s] by blast
  obtain rk where rk: "KEYS_schedule (ss_id s) = Some rk" "contents store' rk = Some (vc_encode ?C (scheduleValue u))"
    and armed: "inc \<noteq> Some False \<longrightarrow> ss_nextFireAt u \<noteq> None \<longrightarrow> well_armed ?C (contents store') u"
    using write_effect [OF u(2) H(1,3) u(1)] u(3,4) st by auto
  have "invar store'" using keepsD [OF keeps_write [OF H(1,2)] u(2,1)] u(3) st by simp
  moreover have entry: "te_kind (scheduleTimerEntry s t) = ScheduleTick" "te_id (scheduleTimerEntry s t) = createScheduleTimerId (ss_id s)"
    by (simp_all add: scheduleTimerEntry_def)
  ultimately have shape: "set cleanup \<subseteq> {Delete key, Delete ?idx}"
    and exact: "\<And>k. Option.bind (contents store' ?idx) (vc_decode ?C) = Some (JString k) \<Longrightarrow> k \<noteq> key \<Longrightarrow> cleanup = [Delete key]"
    using cleanup_shape [OF _ entry(1) cl] by (simp_all add: entry(2))
  have "rk \<noteq> key" "rk \<noteq> ?idx"
    using rk(1) tick_key_own [OF key(2,1)] key_families_differ by (auto simp: tick_keys_def schedule_key_form tick_key_form)
  then have "apply_operations cleanup (contents store') rk = contents store' rk"
    using shape by (intro apply_operations_other) auto
  moreover have "ss_status u = ScheduleActive \<and> (\<exists>y. ss_nextFireAt u = Some y \<and> t + occurrence_gap s \<le> y) \<and>
      well_armed ?C (apply_operations cleanup (contents store')) u" if not_paused: "ss_status u \<noteq> SchedulePaused"
  proof -
    obtain y z where y: "inc \<noteq> Some False" "same_schedule s u" "cadence_next (sh_timeZone H) s t = Inr z" "z \<le> y" "ss_nextFireAt u = Some y"
      using u(5) not_paused by blast
    have active: "ss_status u = ScheduleActive" using y(2) s(2) by (simp add: same_schedule_def)
    have gap: "t + occurrence_gap s \<le> y" using cadence_next_gap [OF y(3) regular(1)] y(4) by simp
    have wa: "well_armed ?C (contents store') u" using armed y(1,5) by simp
    then obtain k where k: "valid_timestamp (resolveEffectiveScheduleFireAt u y)" "scheduleTickKey u y = Inr k" "contents store' k \<noteq> None"
      "Option.bind (contents store' ?idx) (vc_decode ?C) = Some (JString k)"
      using active y(5) u(4) by (auto simp: well_armed_def)
    have "k \<noteq> key"
    proof
      assume "k = key"
      then have "nat (resolveEffectiveScheduleFireAt u y) = nat (resolveEffectiveScheduleFireAt s t)"
        using k(1,2) key tick_key_inject [of _ _ key] unfolding scheduleTickKey_def scheduleKey_Inr valid_timestamp_def MAX_SAFE_INTEGER_def
        by fastforce
      then show False
        using effective_advances [OF y(2) gap regular(3,2)] k(1) key(2) by (simp add: valid_timestamp_def)
    qed
    then have "cleanup = [Delete key]" and idx: "?idx \<noteq> key"
      using exact [OF k(4)] tick_key_no_index [OF tick_key_own [OF key(2,1)]] by auto
    then have "well_armed ?C (apply_operations cleanup (contents store')) u"
      using k y(5) \<open>k \<noteq> key\<close> u(4) by (auto simp: well_armed_def)
    then show ?thesis using active gap y(5) by blast
  qed
  ultimately show ?thesis using rk u(4) by auto
qed

end

end
