(* ===== verification/Sample_Codec.thy ===== *)
theory Sample_Codec
  imports Timer_Scheduler_Properties Lease
begin

text \<open>
  A concrete codec of values that meets the hypothesis \<open>codec_roundtrip\<close>: it writes a value as a list of
  numbers, with the lengths of strings, arrays and objects first, and every number in unary. Theorems that
  take the MessagePack codec as a parameter are instantiated with it.
\<close>

section \<open>Writing\<close>

fun numberTokens :: "jsnum \<Rightarrow> nat list" where
  "numberTokens (JFin r) = [0, if r < 0 then 1 else 0, nat \<bar>fst (quotient_of r)\<bar>, nat (snd (quotient_of r))]"
| "numberTokens JNaN = [1]"
| "numberTokens JInf = [2]"
| "numberTokens JNegInf = [3]"

definition stringTokens :: "jsstring \<Rightarrow> nat list" where
  "stringTokens s = length s # map unat s"

fun tokens :: "jsval \<Rightarrow> nat list" where
  "tokens JUndefined = [0]"
| "tokens JNull = [1]"
| "tokens (JBool b) = [2, if b then 1 else 0]"
| "tokens (JNumber n) = 3 # numberTokens n"
| "tokens (JString s) = 4 # stringTokens s"
| "tokens (JBytes b) = 5 # length b # map unat b"
| "tokens (JArray vs) = 6 # length vs # concat (map tokens vs)"
| "tokens (JObject fs) = 7 # length fs # concat (map (\<lambda>(k, v). stringTokens k @ tokens v) fs)"

section \<open>Reading\<close>

fun readNumber :: "nat list \<Rightarrow> (jsnum \<times> nat list) option" where
  "readNumber (0 # s # a # b # r) = Some (JFin (of_int ((if s = 1 then -1 else 1) * int a) / of_int (int b)), r)"
| "readNumber (Suc 0 # r) = Some (JNaN, r)"
| "readNumber (Suc (Suc 0) # r) = Some (JInf, r)"
| "readNumber (Suc (Suc (Suc 0)) # r) = Some (JNegInf, r)"
| "readNumber _ = None"

definition readUnits :: "nat \<Rightarrow> nat list \<Rightarrow> ('a :: len word list \<times> nat list) option" where
  "readUnits n r = (if length r < n then None else Some (map of_nat (take n r), drop n r))"

definition readString :: "nat list \<Rightarrow> (jsstring \<times> nat list) option" where
  "readString ts = (case ts of [] \<Rightarrow> None | n # r \<Rightarrow> readUnits n r)"

fun readValue :: "nat \<Rightarrow> nat list \<Rightarrow> (jsval \<times> nat list) option"
  and readValues :: "nat \<Rightarrow> nat \<Rightarrow> nat list \<Rightarrow> (jsval list \<times> nat list) option"
  and readFields :: "nat \<Rightarrow> nat \<Rightarrow> nat list \<Rightarrow> ((jsstring \<times> jsval) list \<times> nat list) option" where
  "readValue 0 ts = None"
| "readValue (Suc fuel) ts =
     (case ts of
        [] \<Rightarrow> None
      | c # r \<Rightarrow>
          if c = 0 then Some (JUndefined, r)
          else if c = 1 then Some (JNull, r)
          else if c = 2 then (case r of [] \<Rightarrow> None | b # r' \<Rightarrow> Some (JBool (b = 1), r'))
          else if c = 3 then map_option (\<lambda>(n, r'). (JNumber n, r')) (readNumber r)
          else if c = 4 then map_option (\<lambda>(s, r'). (JString s, r')) (readString r)
          else if c = 5 then (case r of [] \<Rightarrow> None | n # r' \<Rightarrow> map_option (\<lambda>(b, r''). (JBytes b, r'')) (readUnits n r'))
          else (case r of
                  [] \<Rightarrow> None
                | n # r' \<Rightarrow>
                    if c = 6 then map_option (\<lambda>(vs, r''). (JArray vs, r'')) (readValues fuel n r')
                    else map_option (\<lambda>(fs, r''). (JObject fs, r'')) (readFields fuel n r')))"
| "readValues fuel 0 ts = Some ([], ts)"
| "readValues 0 (Suc n) ts = None"
| "readValues (Suc fuel) (Suc n) ts =
     Option.bind (readValue fuel ts) (\<lambda>(v, r). Option.bind (readValues fuel n r) (\<lambda>(vs, r'). Some (v # vs, r')))"
| "readFields fuel 0 ts = Some ([], ts)"
| "readFields 0 (Suc n) ts = None"
| "readFields (Suc fuel) (Suc n) ts =
     Option.bind (readString ts) (\<lambda>(k, r0). Option.bind (readValue fuel r0) (\<lambda>(v, r).
       Option.bind (readFields fuel n r) (\<lambda>(fs, r'). Some ((k, v) # fs, r'))))"

fun readTokens :: "nat \<Rightarrow> bytes \<Rightarrow> nat list" where
  "readTokens n [] = []"
| "readTokens n (b # bs) = (if b = 0 then readTokens (Suc n) bs else n # readTokens 0 bs)"

definition sampleCodec :: value_codec where
  "sampleCodec = \<lparr>vc_encode = (\<lambda>v. concat (map unary (tokens v))),
     vc_decode = (\<lambda>b. let ts = readTokens 0 b in
       case readValue (length ts) ts of Some (v, []) \<Rightarrow> Some v | _ \<Rightarrow> None)\<rparr>"

section \<open>Round trip\<close>

lemma readNumber_tokens: "readNumber (numberTokens n @ r) = Some (n, r)"
proof (cases n)
  case (JFin q)
  obtain a b where ab: "quotient_of q = (a, b)" by force
  have b: "0 < b" and q: "q = of_int a / of_int b" using quotient_of_denom_pos [OF ab] quotient_of_div [OF ab] by simp_all
  have sign: "q < 0 \<longleftrightarrow> a < 0" using b q by (simp add: divide_less_0_iff)
  have "of_int ((if q < 0 then -1 else 1) * \<bar>a\<bar>) = (of_int a :: rat)" unfolding sign by auto
  then show ?thesis using JFin ab b q by (auto simp: abs_if split: if_splits)
qed (simp_all add: numeral_2_eq_2 numeral_3_eq_3)

lemma readUnits_tokens: "readUnits (length u) (map unat u @ r) = Some (u, r)"
  by (simp add: readUnits_def comp_def)

lemma readString_tokens: "readString (stringTokens s @ r) = Some (s, r)"
  by (simp add: readString_def stringTokens_def readUnits_tokens)

lemma tokens_nonempty: "0 < length (tokens v)"
  by (cases v) simp_all

lemma read_tokens: "length (tokens v) \<le> fuel \<Longrightarrow> readValue fuel (tokens v @ r) = Some (v, r)"
proof (induction v arbitrary: fuel r)
  case (JArray vs)
  have list: "length (concat (map tokens vs)) < f \<Longrightarrow> readValues f (length vs) (concat (map tokens vs) @ r) = Some (vs, r)" for f r
    using JArray.IH
  proof (induction vs arbitrary: f r)
    case (Cons v vs)
    obtain g where g: "f = Suc g" using Cons.prems(1) by (cases f) auto
    then have "length (tokens v) \<le> g" "length (concat (map tokens vs)) < g"
      using Cons.prems(1) tokens_nonempty [of v] by (simp_all del: length_greater_0_conv)
    then show ?case using g Cons.IH Cons.prems(2) by simp
  qed simp
  then show ?case using JArray.prems by (cases fuel) auto
next
  case (JObject fs)
  let ?t = "\<lambda>(k, v). stringTokens k @ tokens v"
  have ih: "\<forall>x \<in> set fs. \<forall>fuel r. length (tokens (snd x)) \<le> fuel \<longrightarrow> readValue fuel (tokens (snd x) @ r) = Some (snd x, r)"
    using JObject.IH by (metis Basic_BNFs.snds.intros)
  have list: "length (concat (map ?t fs)) < f \<Longrightarrow> readFields f (length fs) (concat (map ?t fs) @ r) = Some (fs, r)" for f r
    using ih
  proof (induction fs arbitrary: f r)
    case (Cons kv fs)
    obtain k v where kv: "kv = (k, v)" by force
    obtain g where g: "f = Suc g" using Cons.prems(1) by (cases f) auto
    then have "length (tokens v) \<le> g" "length (concat (map ?t fs)) < g"
      using Cons.prems(1) tokens_nonempty [of v] kv by (simp_all del: length_greater_0_conv)
    moreover have "readFields g (length fs) (concat (map ?t fs) @ r) = Some (fs, r)"
      by (rule Cons.IH [OF calculation(2)]) (use Cons.prems(2) in auto)
    ultimately show ?case using g kv Cons.prems(2) by (auto simp: readString_tokens)
  qed simp
  then show ?case using JObject.prems by (cases fuel) auto
qed (case_tac [!] fuel, auto simp: readNumber_tokens readString_tokens readUnits_tokens)

lemma readTokens_unary: "readTokens n (unary k @ r) = (n + k) # readTokens 0 r"
  by (induction k arbitrary: n) (simp_all add: unary_def)

lemma readTokens_all: "readTokens 0 (concat (map unary ts)) = ts"
  by (induction ts) (simp_all add: readTokens_unary)

lemma sampleCodec_roundtrip: "codec_roundtrip sampleCodec"
  using read_tokens [of _ _ "[]"] by (simp add: codec_roundtrip_def sampleCodec_def readTokens_all)

end
