(* ===== verification/Schedule_Guarantees.thy ===== *)
theory Schedule_Guarantees
  imports Schedule_Timer_Properties Sample_Codec
begin

text \<open>
  The guarantees of the schedules over the memory store: the records that are stored, the timers of active
  schedules after every operation, after recovery and after a tick, and the ways a timer or a cancellation is lost.
\<close>

section \<open>The end of a scheduled run\<close>

text \<open>
  What is asked of the engine that starts a run: it commits the operations it is given, and neither it nor
  the failing of a run touches the record, the timer or the timer index of any schedule otherwise.
\<close>

definition run_commits :: "('s \<Rightarrow> bool) \<Rightarrow> ('s \<Rightarrow> store) \<Rightarrow> 's schedule_host \<Rightarrow> bool" where
  "run_commits invar contents H \<longleftrightarrow>
     (\<forall>type input w ops e e'. invar (en_store e) \<longrightarrow> sh_startWorkflow H type input w ops e = (Inr (), e') \<longrightarrow>
        invar (en_store e') \<and>
        (\<forall>i. \<forall>k \<in> own_keys i. contents (en_store e') k = apply_operations ops (contents (en_store e)) k)) \<and>
     (\<forall>w e. invar (en_store e) \<longrightarrow>
        invar (en_store (snd (sh_failWorkflow H w e))) \<and>
        (\<forall>i. \<forall>k \<in> own_keys i. contents (en_store (snd (sh_failWorkflow H w e))) k = contents (en_store e) k))"

lemma own_key_family:
  "k \<in> own_keys i \<Longrightarrow> prefix (js ''schedule:'') k \<or> prefix (js ''schedule-due:'') k \<or> prefix (js ''timer-idx:'') k"
  by (auto simp: own_keys_def tick_keys_def tick_key_form schedule_key_form timerIndexKey_def prefix_def)

lemma rendered_family: "renderKey (Lit name # parts) = Some k \<Longrightarrow> prefix (js name) k"
  by (auto simp: prefix_def split: option.splits)

lemma other_family:
  assumes "prefix (js name) k" and "name \<in> {''schedule-run:'', ''schedule-run-link:'', ''schedule-run-by-schedule:'',
    ''wf-cleanup-needed:'', ''wf-has-services:''}"
  shows "k \<notin> own_keys i"
proof
  assume "k \<in> own_keys i"
  then obtain own where own: "prefix (js own) k" "own \<in> {''schedule:'', ''schedule-due:'', ''timer-idx:''}"
    using own_key_family by blast
  then have "prefix (js name) (js own) \<or> prefix (js own) (js name)" using assms(1) prefix_same_cases by blast
  then show False using assms(2) own(2) by (elim insertE emptyE) (simp_all add: js_def)
qed

lemma run_key_forms:
  "KEYS_scheduleRun w = Some k \<Longrightarrow> k \<notin> own_keys i" "KEYS_scheduleRunLink w = Some k \<Longrightarrow> k \<notin> own_keys i"
  "KEYS_scheduleRunBySchedule j w = Some k \<Longrightarrow> k \<notin> own_keys i" "KEYS_terminalCleanupNeeded w = Some k \<Longrightarrow> k \<notin> own_keys i"
  "KEYS_workflowHasServices w = Some k \<Longrightarrow> k \<notin> own_keys i"
  unfolding KEYS_scheduleRun_def KEYS_scheduleRunLink_def KEYS_scheduleRunBySchedule_def KEYS_terminalCleanupNeeded_def
    KEYS_workflowHasServices_def
  by (drule rendered_family, rule other_family, assumption, simp)+

lemma well_armed_same:
  "same_schedule s t \<Longrightarrow> ss_nextFireAt t = ss_nextFireAt s \<Longrightarrow> well_armed C m t = well_armed C m s"
  using same_schedule_fire [of s t] by (auto simp: well_armed_def same_schedule_def scheduleTickKey_def)

lemma well_armed_put:
  assumes "KEYS_schedule i = Some key" and "well_armed C m s"
  shows "well_armed C (m(key \<mapsto> b)) s"
proof -
  have "timerIndexKey c \<noteq> key" for c using assms(1) key_families_differ(2) unfolding schedule_key_form by metis
  moreover have "k \<noteq> key" if "k \<in> tick_keys (ss_id s)" for k
    using that assms(1) key_families_differ(1) unfolding schedule_key_form tick_keys_def tick_key_form mem_Collect_eq by metis
  ultimately show ?thesis using assms(2) tick_key_own [of s] unfolding well_armed_def by fastforce
qed

lemma run_operations:
  assumes "scheduleRunOperations C s w options = Inr ops" and "rs_scheduleStateAfterStart options = Some t"
  obtains key xs ys where "KEYS_schedule (ss_id t) = Some key" "ops = xs @ Put key (vc_encode C (scheduleValue t)) # ys"
    "\<And>i. op_key ` set (xs @ ys) \<inter> own_keys i = {}"
proof -
  define metadata where "metadata = encodeScheduleRunMetadata C (ss_id s) (rs_occurrence options)"
  define completed where "completed = (case rs_completedWorkflowId options of None \<Rightarrow> []
    | Some w \<Rightarrow> (case KEYS_scheduleRun w of None \<Rightarrow> [] | Some k \<Rightarrow> [Delete k]))"
  have c: "op_key ` set completed \<inter> own_keys i = {}" for i
    using run_key_forms(1) by (auto simp: completed_def split: option.splits)
  obtain run link bySchedule cleanup key where k: "KEYS_scheduleRun w = Some run" "KEYS_scheduleRunLink w = Some link"
    "KEYS_scheduleRunBySchedule (ss_id s) w = Some bySchedule" "KEYS_terminalCleanupNeeded w = Some cleanup"
    "KEYS_schedule (ss_id t) = Some key"
    "ops = [Put run metadata, Put link metadata, Put bySchedule [], Put cleanup []] @ Put key (vc_encode C (scheduleValue t)) # completed"
    using assms
    by (auto simp: scheduleRunOperations_def and_then_Inr_iff scheduleKey_Inr Let_def metadata_def completed_def split: option.splits)
  show thesis
    by (rule that [OF k(5,6)]) (use k(1-4) c run_key_forms in \<open>auto simp: run_key_forms\<close>)
qed

lemma start_cases:
  assumes "startScheduledRun H s options e = (Inr started, e')" and "rs_workflowId options = Some w"
  obtains ops services e1 e2 e3 where "scheduleRunOperations (sh_codec H) s w options = Inr ops"
    "serviceOperations w (resolveScheduledRunServices H w s (rs_occurrence options)) = Inr services"
    "en_store e1 = en_store e" "sh_startWorkflow H (ss_workflowType s) (ss_input s) w (ops @ services) e1 = (Inr (), e2)"
    "en_store e3 = en_store e2" "failUnavailable H w (resolveScheduledRunServices H w s (rs_occurrence options)) e3 = (Inr (), e')"
proof -
  have steps: "registerRun w r e = (Inr (), e1) \<Longrightarrow> en_store e1 = en_store e"
    "dispatchEvent v e = (Inr (), e1) \<Longrightarrow> en_store e1 = en_store e" for r v and e e1 :: "'a schedule_engine"
    by (auto simp: registerRun_def dispatchEvent_def)
  obtain ops services e1 e2 e3 where "scheduleRunOperations (sh_codec H) s w options = Inr ops"
    "serviceOperations w (resolveScheduledRunServices H w s (rs_occurrence options)) = Inr services"
    "registerRun w (resolveScheduledRunServices H w s (rs_occurrence options)) e = (Inr (), e1)"
    "sh_startWorkflow H (ss_workflowType s) (ss_input s) w (ops @ services) e1 = (Inr (), e2)"
    "dispatchEvent (ScheduleFired (ss_id s) w (en_clock e2 0) (rs_occurrence options)) (e2\<lparr>en_clock := (\<lambda>n. en_clock e2 (Suc n))\<rparr>) = (Inr (), e3)"
    "failUnavailable H w (resolveScheduledRunServices H w s (rs_occurrence options)) e3 = (Inr (), e')"
    using assms by (auto simp: startScheduledRun_def action_iffs Let_def)
  then show thesis using that [of ops services e1 e2 e3] steps(1) [of _ e e1] steps(2) [of _ _ e3] by fastforce
qed

context cas_storage_spec
begin

lemma drain_keeps_armed:
  assumes "drainQueuedScheduleRun H s w e = (Inr t, e')" and H: "run_commits invar contents H" "codec_roundtrip (sh_codec H)"
    and ok: "engine_ok H e" "well_armed (sh_codec H) (contents (en_store e)) s" and "ss_queuedRuns s \<noteq> []"
  shows "engine_ok H e'"
proof -
  let ?C = "sh_codec H" and ?m = "contents (en_store e)"
  obtain queued rest where q: "ss_queuedRuns s = queued # rest" using assms(6) by (cases "ss_queuedRuns s") auto
  define workflowId where "workflowId = qr_workflowId queued"
  define options where "options = \<lparr>rs_occurrence = qr_occurrence queued, rs_workflowId = Some workflowId,
    rs_scheduleStateAfterStart = Some t, rs_completedWorkflowId = w\<rparr>"
  have t: "t = s\<lparr>ss_currentWorkflowId := Some workflowId, ss_queuedRuns := rest\<rparr>"
    using assms(1) q by (auto simp: drainQueuedScheduleRun_def action_iffs Let_def workflowId_def)
  have options: "rs_scheduleStateAfterStart options = Some t" "rs_workflowId options = Some workflowId" by (simp_all add: options_def)
  obtain started where start: "startScheduledRun H s options e = (Inr started, e')"
    using assms(1) q by (auto simp: drainQueuedScheduleRun_def action_iffs Let_def workflowId_def options_def)
  define resolution where "resolution = resolveScheduledRunServices H workflowId s (rs_occurrence options)"
  obtain ops services e1 e2 e3 where run: "scheduleRunOperations ?C s workflowId options = Inr ops"
    "serviceOperations workflowId resolution = Inr services" "en_store e1 = en_store e"
    "sh_startWorkflow H (ss_workflowType s) (ss_input s) workflowId (ops @ services) e1 = (Inr (), e2)"
    "en_store e3 = en_store e2" "failUnavailable H workflowId resolution e3 = (Inr (), e')"
    unfolding resolution_def using start_cases [OF start options(2)] by blast
  obtain key xs ys where key: "KEYS_schedule (ss_id t) = Some key" "ops = xs @ Put key (vc_encode ?C (scheduleValue t)) # ys"
    "\<And>i. op_key ` set (xs @ ys) \<inter> own_keys i = {}"
    using run_operations [OF run(1) options(1)] by blast
  have services: "op_key ` set services \<inter> own_keys i = {}" for i
    using run(2) run_key_forms(5) by (auto simp: serviceOperations_def and_then_Inr_iff scheduleKey_Inr split: option.splits)
  have inv2: "invar (en_store e2)" and m2: "\<And>i k. k \<in> own_keys i \<Longrightarrow> contents (en_store e2) k = apply_operations (ops @ services) ?m k"
    using H(1) run(3,4) ok(1) unfolding run_commits_def engine_ok_def by metis+
  have fin: "invar (en_store e') \<and> (\<forall>i. \<forall>k \<in> own_keys i. contents (en_store e') k = contents (en_store e2) k)"
    using H(1) run(5,6) inv2 unfolding run_commits_def failUnavailable_def by (auto split: if_splits)
  let ?m1 = "?m(key \<mapsto> vc_encode ?C (scheduleValue t))"
  have agree: "contents (en_store e') k = ?m1 k" if "k \<in> own_keys i" for i k
  proof -
    have "k \<notin> op_key ` set xs" "k \<notin> op_key ` set ys" "k \<notin> op_key ` set services" using key(3) [of i] services [of i] that by auto
    then show ?thesis using fin m2 that key(2) by (simp add: apply_operations_other)
  qed
  have same: "same_schedule s t" "ss_nextFireAt t = ss_nextFireAt s" using t by (simp_all add: same_schedule_def)
  have "well_armed ?C ?m1 t"
    using well_armed_put [OF key(1)] ok(2) well_armed_same [OF same] by blast
  moreover have "u = t" if "stored_schedule ?C ?m1 (ss_id t) = Some u" for u
    using stored_written [OF H(2) key(1) _ that] by simp
  moreover have "key \<in> own_keys (ss_id t)" using key(1) by (simp add: own_keys_def)
  then have "k \<notin> own_keys (ss_id t) \<Longrightarrow> ?m1 k = ?m k" for k by auto
  ultimately have "schedules_ok ?C ?m1"
    using schedules_ok_update [OF engine_ok_others [OF ok(1)], of "ss_id t" ?m1] by blast
  then have "schedules_ok ?C (contents (en_store e'))" by (rule schedules_ok_spare) (rule agree)
  then show ?thesis using fin by (simp add: engine_ok_def)
qed

lemma terminal_keeps_armed:
  assumes "handleScheduledWorkflowTerminal H w e = (Inr (), e')" and H: "sh_storage H = S" "codec_roundtrip (sh_codec H)"
    "run_commits invar contents H" and ok: "engine_ok H e"
  shows "engine_ok H e'"
proof -
  let ?C = "sh_codec H" and ?m = "contents (en_store e)"
  have inv: "invar (en_store e)" using ok by (simp add: engine_ok_def)
  have one: "length [Delete key] \<le> MAX_BATCH_OPERATIONS" for key :: jsstring by (simp add: MAX_BATCH_OPERATIONS_def)
  have transient: "engine_ok H e'" if d: "deleteTransientScheduleRunMetadata H w e = (Inr (), e')"
  proof -
    obtain key where key: "KEYS_scheduleRun w = Some key" "commitWrite H [Delete key] e = (Inr (), e')"
      using d by (auto simp: deleteTransientScheduleRunMetadata_def action_iffs)
    from commit_applied [OF key(2) H(1) inv one]
    have m': "invar (en_store e')" "contents (en_store e') = ?m(key := None)" by simp_all
    have "schedules_ok ?C (?m(key := None))"
      by (rule schedules_ok_spare [of ?C ?m]) (use ok run_key_forms(1) [OF key(1)] in \<open>auto simp: engine_ok_def\<close>)
    then show ?thesis using m' by (simp add: engine_ok_def)
  qed
  have settle: "engine_ok H e'" if d: "settleScheduledWorkflow H s w e = (Inr (), e')" and s: "ss_id s = i"
    "well_armed ?C ?m s" for s i
  proof -
    define c where "c = (clearScheduleCurrentWorkflow s)\<lparr>ss_updatedAt := en_clock e 0\<rparr>"
    define e1 where "e1 = e\<lparr>en_clock := (\<lambda>n. en_clock e (Suc n))\<rparr>"
    have e1: "engine_ok H e1" "en_store e1 = en_store e" using ok by (simp_all add: e1_def)
    have armed: "well_armed ?C ?m c"
      using s(2) well_armed_same [of s c] by (simp add: c_def clearScheduleCurrentWorkflow_def same_schedule_def)
    show ?thesis
    proof (cases "ss_status c = ScheduleActive \<and> ss_queuedRuns c \<noteq> []")
      case True
      then obtain t where "drainQueuedScheduleRun H c (Some w) e1 = (Inr t, e')"
        using d by (auto simp: settleScheduledWorkflow_def action_iffs Let_def c_def e1_def)
      then show ?thesis by (rule drain_keeps_armed) (use H e1 armed True in simp_all)
    next
      case False
      then obtain key where key: "KEYS_scheduleRun w = Some key"
        "writeScheduleState H c (Some False) None [Delete key] e1 = (Inr (), e')"
        using d by (auto simp: settleScheduledWorkflow_def action_iffs Let_def c_def e1_def split: if_splits)
      from write_ok [OF key(2) H(1) _ H(2)] show ?thesis
        using e1 armed inv run_key_forms(1) [OF key(1)] engine_ok_others [OF e1(1)] by (simp add: engine_ok_def)
    qed
  qed
  obtain key r where key: "KEYS_scheduleRun w = Some key" "storageGet H key e = (Inr r, e)"
    using assms(1) by (auto simp: handleScheduledWorkflowTerminal_def action_iffs storageGet_def)
  show ?thesis
  proof (cases "\<exists>b i o0. r = Some b \<and> decodeScheduleRunMetadata ?C b = Some (i, o0)")
    case True
    then obtain b i o0 where b: "r = Some b" "decodeScheduleRunMetadata ?C b = Some (i, o0)" by blast
    obtain l e1 where l: "loadScheduleState H i e = (Inr l, e1)"
      "(case l of None \<Rightarrow> deleteTransientScheduleRunMetadata H w
        | Some s \<Rightarrow> if ss_currentWorkflowId s \<noteq> Some w then deleteTransientScheduleRunMetadata H w
                   else settleScheduledWorkflow H s w) e1 = (Inr (), e')"
      using assms(1) key b by (auto simp: handleScheduledWorkflowTerminal_def action_iffs)
    have "e1 = e" "l = stored_schedule ?C ?m i" using load_stored [OF l(1) H(1) inv] by simp_all
    then show ?thesis
      using l(2) transient settle stored_ok [OF ok, of i] by (auto split: option.splits if_splits)
  next
    case False
    then show ?thesis
      using assms(1) key transient ok by (auto simp: handleScheduledWorkflowTerminal_def action_iffs split: option.splits)
  qed
qed

lemma cleanup_of_same_key:
  assumes "invar x" and "te_kind entry = ScheduleTick"
    and "Option.bind (contents x (timerIndexKey (te_id entry))) (vc_decode C) = Some (JString key)"
  shows "appendTimerCleanupOperationsAfterCallback S C \<lparr>st_key = key, st_entry = entry\<rparr> [] x
    = [Delete key, Delete (timerIndexKey (te_id entry))]"
  using assms(2,3) get_spec [OF assms(1)]
  by (auto simp: appendTimerCleanupOperationsAfterCallback_def buildTimerCleanupOperations_def buildTimerIndexDeleteOperation_def
      buildScheduleTimerIndexDeleteOperation_def decodeTimer_def isString_def and_then_def Let_def bind_eq_Some_conv
      split: option.splits sum.splits if_splits)

lemma tick_collision:
  assumes H: "sh_storage H = S" "host_keeps invar H" "codec_roundtrip (sh_codec H)"
    and e: "invar (en_store e)" "\<not> deposed (en_internals e)"
    and s: "stored_schedule (sh_codec H) (contents (en_store e)) (ss_id s) = Some s" "ss_status s = ScheduleActive" "ss_nextFireAt s = Some t"
    and key: "scheduleTickKey s t = Inr key" "valid_timestamp (resolveEffectiveScheduleFireAt s t)"
    and p: "processSelectedTimer S (sh_codec H) (scheduleTimerCallback H e) \<lparr>st_key = key, st_entry = scheduleTimerEntry s t\<rparr> [] now
      (en_scheduler e) (en_store e) = (TimerProcessed, cleanup, sch', store')"
    and u: "stored_schedule (sh_codec H) (contents store') (ss_id s) = Some u" "ss_status u = ScheduleActive"
      "ss_nextFireAt u = Some y" "resolveEffectiveScheduleFireAt s y = resolveEffectiveScheduleFireAt s t"
  shows "stored_schedule (sh_codec H) (apply_operations cleanup (contents store')) (ss_id s) = Some u \<and>
    apply_operations cleanup (contents store') key = None \<and>
    apply_operations cleanup (contents store') (timerIndexKey (createScheduleTimerId (ss_id s))) = None"
proof -
  let ?C = "sh_codec H" and ?idx = "timerIndexKey (createScheduleTimerId (ss_id s))"
  obtain e' where h: "handleScheduleTimer H (scheduleTimerEntry s t) e = (Inr (), e')" and st: "store' = en_store e'"
    and cl: "cleanup = appendTimerCleanupOperationsAfterCallback S ?C \<lparr>st_key = key, st_entry = scheduleTimerEntry s t\<rparr> [] store'"
    using p by (rule process_timer)
  obtain v e0 e1 inc where v: "invar (en_store e0)" "writeScheduleState H v inc None [] e0 = (Inr (), e1)"
    "en_store e' = en_store e1" "ss_id v = ss_id s" "ss_status v = SchedulePaused \<or> inc \<noteq> Some False \<and> same_schedule s v"
    using handler_result [OF h H(1,2) e s] by blast
  obtain rk where rk: "KEYS_schedule (ss_id s) = Some rk" "contents store' rk = Some (vc_encode ?C (scheduleValue v))"
    and armed: "inc \<noteq> Some False \<longrightarrow> ss_nextFireAt v \<noteq> None \<longrightarrow> well_armed ?C (contents store') v"
    using write_effect [OF v(2) H(1,3) v(1)] v(3,4) st by auto
  have uv: "u = v" by (rule stored_written [OF H(3) rk u(1)])
  have same: "same_schedule s v" "inc \<noteq> Some False" using v(5) u(2) uv by auto
  have "scheduleTickKey v y = Inr key"
    using key(1) same(1) same_schedule_fire [OF same(1)] u(4) v(4) by (simp add: scheduleTickKey_def)
  then have idx: "Option.bind (contents store' ?idx) (vc_decode ?C) = Some (JString key)"
    using armed same(2) u(2,3) uv v(4) by (auto simp: well_armed_def)
  have inv': "invar store'" using keepsD [OF keeps_write [OF H(1,2)] v(2,1)] v(3) st by simp
  have c: "cleanup = [Delete key, Delete ?idx]"
    using cleanup_of_same_key [OF inv', of "scheduleTimerEntry s t" ?C key] idx cl by (simp add: scheduleTimerEntry_def)
  have "rk \<noteq> key" "rk \<noteq> ?idx"
    using rk(1) tick_key_own [OF key(2,1)] key_families_differ by (auto simp: tick_keys_def schedule_key_form tick_key_form)
  then have "apply_operations cleanup (contents store') rk = contents store' rk" using c by simp
  then have "stored_schedule ?C (apply_operations cleanup (contents store')) (ss_id s) = stored_schedule ?C (contents store') (ss_id s)"
    using rk(1) by (simp add: stored_schedule_def)
  then show ?thesis using u(1) c by simp
qed

lemma undecodable_entry:
  assumes "(k, b) \<in> set entries" and "isScheduleRecordKey k" and "vc_decode (sh_codec H) b = None"
  shows "recoverEntries H entries e \<noteq> (Inr (), e')"
  using assms(1)
proof (induction entries arbitrary: e)
  case (Cons kb entries)
  then show ?case
    using assms(2,3) by (cases kb) (auto simp: action_iffs decodeScheduleState_def)
qed simp

end

section \<open>Reachable states\<close>

text \<open>
  The operations of the engine that return, in any order, with writes of its other parts between them. A
  run that ends may start the next one of the queue.
\<close>

inductive schedule_step ::
    "memory_storage schedule_host \<Rightarrow> memory_storage schedule_engine \<Rightarrow> memory_storage schedule_engine \<Rightarrow> bool" for H where
  Create: "schedule H type input spec options e = (Inr i, e') \<Longrightarrow> schedule_step H e e'"
| Pause: "pauseSchedule H i e = (Inr (), e') \<Longrightarrow> schedule_step H e e'"
| Resume: "resumeSchedule H i e = (Inr (), e') \<Longrightarrow> schedule_step H e e'"
| Cancel: "cancelSchedule H i e = (Inr (), e') \<Longrightarrow> schedule_step H e e'"
| Update: "updateSchedule H i spec options e = (Inr (), e') \<Longrightarrow> schedule_step H e e'"
| Terminal: "handleScheduledWorkflowTerminal H w e = (Inr (), e') \<Longrightarrow> schedule_step H e e'"
| Elsewhere: "memory_invar (en_store e') \<Longrightarrow>
    (\<And>i k. k \<in> own_keys i \<Longrightarrow> memory_contents (en_store e') k = memory_contents (en_store e) k) \<Longrightarrow> schedule_step H e e'"

inductive schedule_reachable :: "memory_storage schedule_host \<Rightarrow> memory_storage schedule_engine \<Rightarrow> bool" for H where
  Initial: "memory_invar (en_store e) \<Longrightarrow> (\<And>i k. k \<in> own_keys i \<Longrightarrow> memory_contents (en_store e) k = None) \<Longrightarrow> schedule_reachable H e"
| Step: "schedule_reachable H e \<Longrightarrow> schedule_step H e e' \<Longrightarrow> schedule_reachable H e'"

lemma step_keeps_armed:
  assumes "schedule_step H e e'" and H: "sh_storage H = memoryStorage" "codec_roundtrip (sh_codec H)"
    "run_commits memory_invar memory_contents H" and ok: "mem_cas.engine_ok H e"
  shows "mem_cas.engine_ok H e'"
  using assms(1)
proof cases
  case Elsewhere
  then show ?thesis
    using ok schedules_ok_spare [of "sh_codec H" "memory_contents (en_store e)"] by (simp add: mem_cas.engine_ok_def)
next
  case Create
  then show ?thesis by (rule mem_cas.schedule_keeps_armed) (use H ok in simp_all)
next
  case Pause
  then show ?thesis by (rule mem_cas.pause_keeps_armed) (use H ok in simp_all)
next
  case Resume
  then show ?thesis by (rule mem_cas.resume_keeps_armed) (use H ok in simp_all)
next
  case Cancel
  then show ?thesis by (rule mem_cas.cancel_keeps_armed) (use H ok in simp_all)
next
  case Update
  then show ?thesis by (rule mem_cas.update_keeps_armed) (use H ok in simp_all)
next
  case Terminal
  then show ?thesis by (rule mem_cas.terminal_keeps_armed) (use H ok in simp_all)
qed

lemma reachable_armed:
  assumes "schedule_reachable H e" and "sh_storage H = memoryStorage" "codec_roundtrip (sh_codec H)"
    "run_commits memory_invar memory_contents H"
  shows "mem_cas.engine_ok H e"
  using assms(1)
proof induction
  case (Initial e)
  have "stored_schedule (sh_codec H) (memory_contents (en_store e)) i = None" for i
    using Initial(2) [of _ i] by (auto simp: stored_schedule_def own_keys_def split: option.splits)
  then show ?case using Initial(1) by (simp add: mem_cas.engine_ok_def schedules_ok_def)
qed (use step_keeps_armed assms(2-4) in blast)

section \<open>A sample schedule\<close>

text \<open>
  A schedule that fires every millisecond, with or without a jitter, a host that commits what it is given, and
  what one tick makes of it.
\<close>

definition demoSchedule :: "int option \<Rightarrow> schedule_state" where
  "demoSchedule jitter =
     \<lparr>ss_id = js ''s'', ss_workflowType = js ''w'', ss_input = JNull, ss_description = None, ss_cronExpression = None,
      ss_intervalMs = Some 1, ss_status = ScheduleActive, ss_overlap = OverlapAllow, ss_backfill = False, ss_jitterMs = jitter,
      ss_createdAt = 0, ss_updatedAt = 0, ss_lastFireAt = None, ss_lastMissedFireAt = None, ss_missedFireCount = 0,
      ss_nextFireAt = Some 1, ss_currentWorkflowId = None, ss_queuedRuns = []\<rparr>"

definition demoStart :: "jsstring \<Rightarrow> jsval \<Rightarrow> jsstring \<Rightarrow> batch_operation list \<Rightarrow> (memory_storage, unit) engine_action" where
  "demoStart type input w ops e =
     (case batch_op memoryStorage (en_store e) ops of (r, s) \<Rightarrow> (map_sum ScheduleStorage id r, e\<lparr>en_store := s\<rparr>))"

definition demoScheduleHost :: "memory_storage schedule_host" where
  "demoScheduleHost =
     \<lparr>sh_storage = memoryStorage, sh_codec = sampleCodec, sh_timeZone = UTC, sh_localeLess = (<), sh_registered = (\<lambda>_. True),
      sh_later = id, sh_workflowStatus = (\<lambda>_. ret None), sh_startWorkflow = demoStart, sh_cancelWorkflow = (\<lambda>_. ret ()),
      sh_failWorkflow = (\<lambda>_. ret ()), sh_flushStarts = ret (), sh_waitForTurn = (\<lambda>_. ret ()), sh_resolveServices = None\<rparr>"

definition demoEngine :: "int \<Rightarrow> (jsstring \<times> bytes) list \<Rightarrow> memory_storage schedule_engine" where
  "demoEngine now entries =
     \<lparr>en_internals = \<lparr>ownershipLease = False, deposed = False, leaseManager = None, depositionWarnings = 0\<rparr>,
      en_scheduler = newScheduler None, en_pendingScheduleCreations = [], en_workflowServices = [],
      en_workflowsNeedingTerminalCleanup = [], en_events = [], en_clock = (\<lambda>_. now), en_uuids = (\<lambda>_. js ''r''),
      en_store = \<lparr>mem_data = entries\<rparr>\<rparr>"

lemma demo_host [simp]:
  "sh_storage demoScheduleHost = memoryStorage" "sh_codec demoScheduleHost = sampleCodec"
  "sh_timeZone demoScheduleHost = UTC" "sh_startWorkflow demoScheduleHost = demoStart" "sh_resolveServices demoScheduleHost = None"
  by (simp_all add: demoScheduleHost_def)

lemma demo_keys:
  "KEYS_schedule (js ''s'') = Some (js ''schedule:s'')" "KEYS_scheduleRun (js ''r'') = Some (js ''schedule-run:r'')"
  "KEYS_scheduleRunLink (js ''r'') = Some (js ''schedule-run-link:r'')"
  "KEYS_scheduleRunBySchedule (js ''s'') (js ''r'') = Some (js ''schedule-run-by-schedule:s:r'')"
  "KEYS_terminalCleanupNeeded (js ''r'') = Some (js ''wf-cleanup-needed:r'')"
  by code_simp+

lemma demo_valid: "valid_schedule (demoSchedule None)" "valid_schedule (demoSchedule (Some 2))"
  by (simp_all add: valid_schedule_def demoSchedule_def valid_cadence_def valid_timestamp_def MAX_SAFE_INTEGER_def valid_identifier_def
      assertValidWorkflowId_def MAX_WORKFLOW_ID_LENGTH_def containsControlCharacter_def js_def)

lemma demo_text: "textEncode (js ''s'' @ 0 # numberString 1) = [115, 0, 49]" "textEncode (js ''s'' @ 0 # numberString 2) = [115, 0, 50]"
proof -
  have n: "numberString 1 = [49]" "numberString 2 = [50]" by code_simp+
  show "textEncode (js ''s'' @ 0 # numberString 1) = [115, 0, 49]" "textEncode (js ''s'' @ 0 # numberString 2) = [115, 0, 50]"
    unfolding n by (simp_all add: js_def isHighSurrogate_def isLowSurrogate_def utf8Octets_def)
qed

lemma demo_fnv:
  "foldl (\<lambda>h b. (h XOR ucast b) * FNV_PRIME_64) FNV_OFFSET_BASIS_64 [115, 0, 49 :: 8 word] = 0x81bdce195c7741b5"
  "foldl (\<lambda>h b. (h XOR ucast b) * FNV_PRIME_64) FNV_OFFSET_BASIS_64 [115, 0, 50 :: 8 word] = 0x81bdcb195c773c9c"
  by (simp_all add: FNV_OFFSET_BASIS_64_def FNV_PRIME_64_def)

lemma demo_hex:
  "hexBigInt (hashString (js ''s'' @ 0 # numberString 1)) = 0x81bdce195c7741b5"
  "hexBigInt (hashString (js ''s'' @ 0 # numberString 2)) = 0x81bdcb195c773c9c"
  unfolding hashString_def demo_text fnv1a64_def demo_fnv Let_def
  by (simp_all add: hexDigits.simps padStart_def hexBigInt_def)

lemma demo_offset: "computeScheduleJitterOffset (js ''s'') 1 (Some 2) = 1" "computeScheduleJitterOffset (js ''s'') 2 (Some 2) = 0"
  using demo_hex by (simp_all add: computeScheduleJitterOffset_def)

lemma demo_fire:
  "resolveEffectiveScheduleFireAt (demoSchedule (Some 2)) 1 = 2" "resolveEffectiveScheduleFireAt (demoSchedule (Some 2)) 2 = 2"
  "resolveEffectiveScheduleFireAt (demoSchedule None) t = t"
  using demo_offset by (simp_all add: resolveEffectiveScheduleFireAt_def demoSchedule_def computeScheduleJitterOffset_def [of _ _ None])

lemma demo_plan:
  "planScheduleTimerWork UTC (demoSchedule None) 1 1 1 = Inr (Some \<lparr>tw_dueOccurrences = [1], tw_missedOccurrences = None,
     tw_occurrencesToProcess = [1], tw_skipMissedOccurrences = False\<rparr>)"
  "planScheduleTimerWork UTC (demoSchedule (Some 2)) 1 2 2 = Inr (Some \<lparr>tw_dueOccurrences = [1, 2], tw_missedOccurrences = None,
     tw_occurrencesToProcess = [1], tw_skipMissedOccurrences = False\<rparr>)"
  by code_simp+

lemma demo_next: "getNextScheduleOccurrence UTC (demoSchedule j) 1 = Inr 2"
proof -
  have "getNextScheduleOccurrence UTC (demoSchedule None) 1 = Inr 2" by code_simp
  then show ?thesis by (simp add: getNextScheduleOccurrence_def cadenceOf_def demoSchedule_def)
qed

lemma demo_norm:
  "normalizeScheduleSpec (JObject [(js ''every'', JNumber (JFin 5))]) = Inr (IntervalSpec 5)"
  "normalizeScheduleOptions (JObject [(js ''id'', JString (js ''s''))]) = Inr \<lparr>so_overlapPolicy = OverlapSkip, so_backfill = False,
     so_id = Some (js ''s''), so_description = None, so_jitterMs = None\<rparr>"
  by code_simp+

lemma commit_plain:
  assumes "sh_storage H = memoryStorage" "\<not> deposed (en_internals e)" "\<not> ownershipLease (en_internals e)"
    and "memory_invar (en_store e)" and "length ops \<le> MAX_BATCH_OPERATIONS"
  obtains s' where "commitWrite H ops e = (Inr (), e\<lparr>en_store := s'\<rparr>)" "memory_invar s'"
proof -
  obtain s' where "batch_op memoryStorage (en_store e) ops = (Inr (), s')" "memory_invar s'"
    using mem.batch_ok [OF assms(4,5)] by blast
  moreover from this have "commitWrite H ops e = (Inr (), e\<lparr>en_store := s'\<rparr>)"
    using assms(1-3)
    by (simp add: commitWrite_def commitFencedEngineWrite_def fencedCommit_def resolveFenceEpochOrHalt_def split: unit.split)
  ultimately show thesis using that by blast
qed

lemma write_plain:
  assumes H: "sh_storage H = memoryStorage" "codec_roundtrip (sh_codec H)"
    and e: "\<not> deposed (en_internals e)" "\<not> ownershipLease (en_internals e)" "memory_invar (en_store e)"
    and u: "ss_nextFireAt u = Some t" "KEYS_schedule (ss_id u) = Some rk" "scheduleTickKey u t = Inr key"
      "valid_timestamp (resolveEffectiveScheduleFireAt u t)" "valid_schedule u"
  obtains s' where "writeScheduleState H u (Some True) None [] e = (Inr (), e\<lparr>en_store := s'\<rparr>)"
    "writeScheduleState H u None None [] e = (Inr (), e\<lparr>en_store := s'\<rparr>) \<or> ss_status u \<noteq> ScheduleActive" "memory_invar s'"
    "stored_schedule (sh_codec H) (memory_contents s') (ss_id u) = Some u"
proof -
  have "\<exists>ops. scheduleWriteOperations (sh_codec H) u True None [] = Inr ops \<and> length ops \<le> MAX_BATCH_OPERATIONS"
    using u(1-4) iffD2 [OF timer_operations [of "sh_codec H" u t]]
    by (auto simp: scheduleWriteOperations_def buildScheduleTimerReplacementOperations_def buildPreviousScheduleTimerDeleteOperations_def
        buildNextScheduleTimerOperations_def and_then_def scheduleKey_def MAX_BATCH_OPERATIONS_def)
  then obtain ops where ops: "scheduleWriteOperations (sh_codec H) u True None [] = Inr ops" "length ops \<le> MAX_BATCH_OPERATIONS" by blast
  obtain s' where s': "commitWrite H ops e = (Inr (), e\<lparr>en_store := s'\<rparr>)" "memory_invar s'"
    using commit_plain [OF H(1) e ops(2)] by blast
  have w: "writeScheduleState H u (Some True) None [] e = (Inr (), e\<lparr>en_store := s'\<rparr>)"
    using ops(1) s'(1) by (simp add: writeScheduleState_def seq_def lift_def)
  moreover have "writeScheduleState H u None None [] e = (Inr (), e\<lparr>en_store := s'\<rparr>) \<or> ss_status u \<noteq> ScheduleActive"
    using ops(1) s'(1) by (auto simp: writeScheduleState_def seq_def lift_def)
  moreover have "stored_schedule (sh_codec H) (memory_contents s') (ss_id u) = Some u"
    using mem_cas.write_effect [OF w H e(3)] u(2) H(2) schedule_value_roundtrip [OF u(5)]
    by (auto simp: stored_record decodeScheduleState_def codec_roundtrip_def)
  ultimately show thesis using that s'(2) by blast
qed

definition demoScheduled :: "int \<Rightarrow> int option \<Rightarrow> memory_storage schedule_engine" where
  "demoScheduled now j = demoEngine now [(js ''schedule:s'', vc_encode sampleCodec (scheduleValue (demoSchedule j)))]"

lemma demo_load:
  assumes "valid_schedule (demoSchedule j)"
  shows "loadScheduleState demoScheduleHost (js ''s'') (demoScheduled now j) = (Inr (Some (demoSchedule j)), demoScheduled now j)"
    and "stored_schedule sampleCodec (memory_contents (en_store (demoScheduled now j))) (js ''s'') = Some (demoSchedule j)"
    and "memory_invar (en_store (demoScheduled now j))"
  using schedule_value_roundtrip [OF assms(1)] sampleCodec_roundtrip
  by (simp_all add: demoScheduled_def loadScheduleState_def seq_def lift_def scheduleKey_def demo_keys storageGet_def stored_schedule_def
      memoryStorage_def memory_get_def memory_contents_def memory_invar_def demoEngine_def ret_def decodeScheduleState_def codec_roundtrip_def)

lemma demo_start:
  assumes "en_uuids e 0 = js ''r''" and "memory_invar (en_store e)" and "ss_id s = js ''s''"
  obtains e' where "startScheduledRun demoScheduleHost s \<lparr>rs_occurrence = occurrence, rs_workflowId = None,
      rs_scheduleStateAfterStart = None, rs_completedWorkflowId = None\<rparr> e = (Inr (js ''r''), e')"
    "memory_invar (en_store e')" "en_internals e' = en_internals e"
proof -
  let ?m = "encodeScheduleRunMetadata sampleCodec (js ''s'') occurrence"
  let ?ops = "[Put (js ''schedule-run:r'') ?m, Put (js ''schedule-run-link:r'') ?m, Put (js ''schedule-run-by-schedule:s:r'') [],
    Put (js ''wf-cleanup-needed:r'') []]"
  have "length ?ops \<le> MAX_BATCH_OPERATIONS" by (simp add: MAX_BATCH_OPERATIONS_def)
  then obtain s' where s': "batch_op memoryStorage (en_store e) ?ops = (Inr (), s')" "memory_invar s'"
    using mem.batch_ok [OF assms(2)] by blast
  let ?r = "startScheduledRun demoScheduleHost s \<lparr>rs_occurrence = occurrence, rs_workflowId = None,
    rs_scheduleStateAfterStart = None, rs_completedWorkflowId = None\<rparr> e"
  have "fst ?r = Inr (js ''r'') \<and> memory_invar (en_store (snd ?r)) \<and> en_internals (snd ?r) = en_internals e"
    using s' assms by (simp add: startScheduledRun_def seq_def randomUUID_def lift_def scheduleRunOperations_def
        and_then_def scheduleKey_def demo_keys resolveScheduledRunServices_def serviceOperations_def registerRun_def demoStart_def
        getNow_def dispatchEvent_def failUnavailable_def ret_def Let_def)
  then show thesis using that [of "snd ?r"] by (simp add: prod_eq_iff)
qed

lemma tick_from_start:
  assumes H: "sh_storage H = memoryStorage" "sh_codec H = sampleCodec" "sh_timeZone H = UTC"
    and v: "valid_schedule (demoSchedule j)" and fire: "resolveEffectiveScheduleFireAt (demoSchedule j) 1 = now"
    "resolveEffectiveScheduleFireAt (demoSchedule j) 2 = 2" and now: "0 \<le> now" "now \<le> 2"
    and plan: "planScheduleTimerWork UTC (demoSchedule j) 1 now now = Inr (Some work)" "tw_occurrencesToProcess work = [1]"
      "\<not> tw_skipMissedOccurrences work"
    and e1: "e1 = (demoScheduled now j)\<lparr>en_clock := (\<lambda>n. en_clock (demoScheduled now j) (Suc n))\<rparr>"
    and start: "startScheduledRun H (demoSchedule j) \<lparr>rs_occurrence = Some 1, rs_workflowId = None,
      rs_scheduleStateAfterStart = None, rs_completedWorkflowId = None\<rparr> e1 = (Inr (js ''r''), e2)"
    and e2: "memory_invar (en_store e2)" "en_internals e2 = en_internals e1"
  obtains e' where "handleScheduleTimer H (scheduleTimerEntry (demoSchedule j) 1) (demoScheduled now j) = (Inr (), e')"
    "stored_schedule sampleCodec (memory_contents (en_store e')) (js ''s'') =
       Some ((demoSchedule j)\<lparr>ss_lastFireAt := Some 1, ss_updatedAt := now, ss_nextFireAt := Some 2\<rparr>)"
proof -
  let ?s = "demoSchedule j" and ?e = "demoScheduled now j"
  let ?u = "?s\<lparr>ss_lastFireAt := Some 1, ss_updatedAt := now, ss_nextFireAt := Some 2\<rparr>"
  have fields: "ss_id ?s = js ''s''" "ss_status ?s = ScheduleActive" "ss_nextFireAt ?s = Some 1" "ss_overlap ?s = OverlapAllow"
    "ss_currentWorkflowId ?s = None" "ss_queuedRuns ?s = []" "\<not> ss_backfill ?s" by (simp_all add: demoSchedule_def)
  have engine: "en_clock ?e 0 = now" "en_internals e1 = en_internals ?e"
    "\<not> deposed (en_internals ?e)" "\<not> ownershipLease (en_internals ?e)"
    by (simp_all add: e1 demoScheduled_def demoEngine_def)
  have same: "same_schedule ?s ?u" by (simp add: same_schedule_def)
  have next_fire: "resolveNextScheduleFireAt UTC t work now = Inr 2" if "same_schedule ?s t" for t
    using plan(2,3) demo_next [of j] same_schedule_next [OF that] by (simp add: resolveNextScheduleFireAt_def)
  have "applyScheduleOccurrence H ?s (Some 1) e1 = (Inr ?s, e2)"
    using start fields by (simp add: applyScheduleOccurrence_def refreshScheduledWorkflowState_def seq_def ret_def scheduledRunOccupiesSlot_def)
  then have "applyTimerOccurrence H work now ?s 1 True e1 = (Inr ?u, e2)"
    using H(3) next_fire [of "?s\<lparr>ss_lastFireAt := Some 1, ss_updatedAt := now\<rparr>"]
    by (simp add: applyTimerOccurrence_def seq_def lift_def ret_def same_schedule_def Let_def)
  moreover obtain key' where "scheduleTickKey ?u 2 = Inr key'"
  proof -
    have "KEYS_scheduleTick 2 (js ''s'') = Some (js ''schedule-due:0000000000000002:s'')" by code_simp
    then show thesis using that same_schedule_fire [OF same] fire(2) fields(1) by (simp add: scheduleTickKey_def scheduleKey_def)
  qed
  then obtain s' where w: "writeScheduleState H ?u (Some True) None [] e2 = (Inr (), e2\<lparr>en_store := s'\<rparr>)"
    "stored_schedule sampleCodec (memory_contents s') (js ''s'') = Some ?u"
    using write_plain [of H e2 ?u 2 "js ''schedule:s''" key'] H engine e2 fields v demo_keys(1) sampleCodec_roundtrip same_schedule_fire [OF same] fire(2) now
    by (auto simp: valid_timestamp_def MAX_SAFE_INTEGER_def valid_schedule_def)
  ultimately have run: "runScheduleTimer H ?s 1 now ?e = (Inr (), ?u, e2\<lparr>en_store := s'\<rparr>)"
    using H(3) engine(1) plan fields by (simp add: runScheduleTimer_def getNow_def e1 [symmetric] persistScheduleTimerState_def Let_def)
  have "storageGet H = storageGet demoScheduleHost" using H(1) by (intro ext) (simp add: storageGet_def)
  then have "loadScheduleState H (js ''s'') ?e = (Inr (Some ?s), ?e)"
    using demo_load(1) [OF v, of now] unfolding loadScheduleState_def H(2) demo_host(2) by simp
  then have "handleScheduleTimer H (scheduleTimerEntry ?s 1) ?e = (Inr (), e2\<lparr>en_store := s'\<rparr>)"
    using run engine(3) fields fire(1)
    by (simp add: handleScheduleTimer_def scheduleTimerEntry_def isCurrentActiveScheduleTimer_def Let_def)
  then show thesis by (rule that) (use w(2) in simp)
qed

lemma demo_tick:
  assumes "valid_schedule (demoSchedule j)" and "resolveEffectiveScheduleFireAt (demoSchedule j) 1 = now"
    "resolveEffectiveScheduleFireAt (demoSchedule j) 2 = 2" and "0 \<le> now" "now \<le> 2"
    and "planScheduleTimerWork UTC (demoSchedule j) 1 now now = Inr (Some work)" "tw_occurrencesToProcess work = [1]"
      "\<not> tw_skipMissedOccurrences work"
  obtains cleanup sch' store' where "processSelectedTimer memoryStorage sampleCodec (scheduleTimerCallback demoScheduleHost (demoScheduled now j))
      \<lparr>st_key = key, st_entry = scheduleTimerEntry (demoSchedule j) 1\<rparr> [] 0 (en_scheduler (demoScheduled now j)) (en_store (demoScheduled now j))
      = (TimerProcessed, cleanup, sch', store')"
    "stored_schedule sampleCodec (memory_contents store') (js ''s'') =
       Some ((demoSchedule j)\<lparr>ss_lastFireAt := Some 1, ss_updatedAt := now, ss_nextFireAt := Some 2\<rparr>)"
proof -
  let ?e = "demoScheduled now j"
  define e1 where "e1 = ?e\<lparr>en_clock := (\<lambda>n. en_clock ?e (Suc n))\<rparr>"
  have "en_uuids e1 0 = js ''r''" "memory_invar (en_store e1)" "ss_id (demoSchedule j) = js ''s''"
    using demo_load(3) [OF assms(1), of now] by (simp_all add: e1_def demoScheduled_def demoEngine_def demoSchedule_def)
  then obtain e2 where start: "startScheduledRun demoScheduleHost (demoSchedule j) \<lparr>rs_occurrence = Some 1, rs_workflowId = None,
      rs_scheduleStateAfterStart = None, rs_completedWorkflowId = None\<rparr> e1 = (Inr (js ''r''), e2)"
    and e2: "memory_invar (en_store e2)" "en_internals e2 = en_internals e1"
    using demo_start [of e1 "demoSchedule j" "Some 1"] by metis
  obtain e' where e': "handleScheduleTimer demoScheduleHost (scheduleTimerEntry (demoSchedule j) 1) ?e = (Inr (), e')"
    "stored_schedule sampleCodec (memory_contents (en_store e')) (js ''s'') =
       Some ((demoSchedule j)\<lparr>ss_lastFireAt := Some 1, ss_updatedAt := now, ss_nextFireAt := Some 2\<rparr>)"
    by (rule tick_from_start [OF _ _ _ assms e1_def start e2]) simp_all
  then show thesis
    by (intro that [OF _ e'(2)]) (auto simp: processSelectedTimer_def scheduleTimerCallback_def isDeferred_def newScheduler_def
        demoScheduled_def demoEngine_def)
qed

lemma demo_host_keeps: "host_keeps memory_invar demoScheduleHost" "run_commits memory_invar memory_contents demoScheduleHost"
proof -
  have start: "memory_invar (en_store e') \<and> (r = Inr () \<longrightarrow> memory_contents (en_store e') = apply_operations ops (memory_contents (en_store e)))"
    if "demoStart type input w ops e = (r, e')" "memory_invar (en_store e)" for type input w ops e r e'
    using that mem.batch_spec [of "en_store e" ops] mem.batch_over [of ops "en_store e"]
    by (cases "length ops \<le> MAX_BATCH_OPERATIONS") (auto simp: demoStart_def split: prod.splits)
  have "keeps memory_invar (demoStart type input w ops)" for type input w ops
    unfolding keeps_def using start by (metis prod.collapse)
  then show "host_keeps memory_invar demoScheduleHost"
    by (simp add: host_keeps_def demoScheduleHost_def keeps_def ret_def)
  show "run_commits memory_invar memory_contents demoScheduleHost"
    using start by (auto simp: run_commits_def demoScheduleHost_def ret_def)
qed

text \<open>A host whose start of a run is overtaken by a cancellation of the schedule.\<close>

definition demoRaceHost :: "memory_storage schedule_host" where
  "demoRaceHost = demoScheduleHost\<lparr>sh_startWorkflow :=
     (\<lambda>type input w ops. seq (demoStart type input w ops) (\<lambda>_. cancelSchedule demoScheduleHost (JString (js ''s''))))\<rparr>"

lemma keeps_memory: "keeps memory_invar (cancelSchedule demoScheduleHost i)"
proof -
  have load: "keeps memory_invar (requireScheduleState demoScheduleHost j)" for j
    unfolding requireScheduleState_def loadScheduleState_def
    by (intro keeps_seq) (auto simp: keeps_def lift_def storageGet_def ret_def throw_def split: option.splits)
  have batch: "batch_op memoryStorage m [Delete a, Delete b] = (r, s') \<Longrightarrow> memory_invar m \<Longrightarrow> memory_invar s'" for m a b r s'
    using mem.batch_spec [of m "[Delete a, Delete b]" r s'] by (simp add: MAX_BATCH_OPERATIONS_def)
  have delete: "delete_op memoryStorage m k = (r, s') \<Longrightarrow> memory_invar m \<Longrightarrow> memory_invar s'" for m k r s'
    using mem.delete_spec by blast
  have "memory_invar s'" if "scheduler_cancel memoryStorage C k sch m = (r, sch', s')" "memory_invar m" for C k sch m r sch' s'
    using that by (auto simp: scheduler_cancel_def Let_def dest: batch delete split: sum.splits option.splits jsval.splits prod.splits)
  then have cancel: "keeps memory_invar (cancelScheduleTimer demoScheduleHost j)" for j
    by (auto simp: keeps_def cancelScheduleTimer_def split: prod.split)
  show ?thesis
    unfolding cancelSchedule_def
    by (intro keeps_seq keeps_if load cancel mem_cas.keeps_write demo_host_keeps(1))
      (simp_all add: keeps_def lift_def ret_def getNow_def)
qed

lemma demo_race_keeps: "host_keeps memory_invar demoRaceHost"
proof -
  have "keeps memory_invar (demoStart type input w ops)" for type input w ops
    using demo_host_keeps(1) by (simp add: host_keeps_def)
  then show ?thesis
    using demo_host_keeps(1) keeps_memory unfolding demoRaceHost_def host_keeps_def by (auto intro: keeps_seq)
qed

lemma demo_cancel:
  assumes e: "\<not> deposed (en_internals e)" "\<not> ownershipLease (en_internals e)" "memory_invar (en_store e)"
    and m: "memory_contents (en_store e) (js ''schedule:s'') = Some (vc_encode sampleCodec (scheduleValue (demoSchedule None)))"
      "memory_contents (en_store e) (timerIndexKey (createScheduleTimerId (js ''s''))) = None"
  obtains e' where "cancelSchedule demoScheduleHost (JString (js ''s'')) e = (Inr (), e')" "memory_invar (en_store e')"
    "en_internals e' = en_internals e"
proof -
  let ?H = demoScheduleHost and ?s = "demoSchedule None"
  have fields: "ss_id ?s = js ''s''" "ss_status ?s = ScheduleActive" by (simp_all add: demoSchedule_def)
  have "loadScheduleState ?H (js ''s'') e = (Inr (Some ?s), e)"
    using m(1) mem.get_spec [OF e(3)] schedule_value_roundtrip [OF demo_valid(1)] sampleCodec_roundtrip
    by (simp add: loadScheduleState_def seq_def lift_def scheduleKey_def demo_keys storageGet_def decodeScheduleState_def codec_roundtrip_def)
  then have load: "requireScheduleState ?H (js ''s'') e = (Inr ?s, e)" by (simp add: requireScheduleState_def seq_def ret_def)
  define e1 where "e1 = e\<lparr>en_scheduler := releaseDeferredTimer (createScheduleTimerId (js ''s'')) (en_scheduler e)\<rparr>"
  have timer: "cancelScheduleTimer ?H (js ''s'') e = (Inr (), e1)"
    using m(2) mem.get_spec [OF e(3)] by (simp add: cancelScheduleTimer_def scheduler_cancel_def e1_def Let_def)
  define e2 where "e2 = e1\<lparr>en_clock := (\<lambda>n. en_clock e1 (Suc n))\<rparr>"
  let ?c = "?s\<lparr>ss_status := ScheduleCancelled, ss_updatedAt := en_clock e1 0, ss_nextFireAt := None, ss_queuedRuns := []\<rparr>"
  let ?ops = "[Put (js ''schedule:s'') (vc_encode sampleCodec (scheduleValue ?c))]"
  have "length ?ops \<le> MAX_BATCH_OPERATIONS" by (simp add: MAX_BATCH_OPERATIONS_def)
  then obtain s' where s': "commitWrite ?H ?ops e2 = (Inr (), e2\<lparr>en_store := s'\<rparr>)" "memory_invar s'"
    using commit_plain [of ?H e2 ?ops] e by (auto simp: e1_def e2_def)
  have "scheduleWriteOperations sampleCodec ?c False None [] = Inr ?ops"
    using fields demo_keys(1)
    by (simp add: scheduleWriteOperations_def buildScheduleTimerReplacementOperations_def buildPreviousScheduleTimerDeleteOperations_def
        buildNextScheduleTimerOperations_def and_then_def scheduleKey_def)
  then have "writeScheduleState ?H ?c (Some False) None [] e2 = (Inr (), e2\<lparr>en_store := s'\<rparr>)"
    using s'(1) by (simp add: writeScheduleState_def seq_def lift_def)
  moreover have "coerceScheduleId (JString (js ''s'')) = Inr (js ''s'')" by code_simp
  ultimately have "cancelSchedule ?H (JString (js ''s'')) e = (Inr (), e2\<lparr>en_store := s'\<rparr>)"
    using load timer fields by (simp add: cancelSchedule_def seq_def lift_def getNow_def e2_def [symmetric])
  then show thesis by (rule that) (use s'(2) in \<open>simp_all add: e1_def e2_def\<close>)
qed

lemma demo_race:
  obtains e' where "handleScheduleTimer demoRaceHost (scheduleTimerEntry (demoSchedule None) 1) (demoScheduled 1 None) = (Inr (), e')"
proof -
  let ?s = "demoSchedule None" and ?e = "demoScheduled 1 None" and ?m = "encodeScheduleRunMetadata sampleCodec (js ''s'') (Some 1)"
  let ?ops = "[Put (js ''schedule-run:r'') ?m, Put (js ''schedule-run-link:r'') ?m, Put (js ''schedule-run-by-schedule:s:r'') [],
    Put (js ''wf-cleanup-needed:r'') []]"
  define e1 where "e1 = ?e\<lparr>en_clock := (\<lambda>n. en_clock ?e (Suc n))\<rparr>"
  define e2 where "e2 = e1\<lparr>en_uuids := (\<lambda>n. en_uuids e1 (Suc n)), en_workflowsNeedingTerminalCleanup := [js ''r'']\<rparr>"
  have fields: "ss_id ?s = js ''s''" by (simp add: demoSchedule_def)
  have e1: "en_uuids e1 0 = js ''r''" "en_workflowsNeedingTerminalCleanup e1 = []" "\<not> deposed (en_internals e2)" "\<not> ownershipLease (en_internals e2)"
    "en_internals e2 = en_internals e1" "en_store e2 = en_store ?e" "memory_invar (en_store e2)"
    "memory_contents (en_store e2) = [js ''schedule:s'' \<mapsto> vc_encode sampleCodec (scheduleValue ?s)]"
    by (simp_all add: e1_def e2_def demoScheduled_def demoEngine_def memory_invar_def memory_contents_def)
  have "length ?ops \<le> MAX_BATCH_OPERATIONS" by (simp add: MAX_BATCH_OPERATIONS_def)
  then obtain s' where s': "batch_op memoryStorage (en_store e2) ?ops = (Inr (), s')" "memory_invar s'"
    "memory_contents s' = apply_operations ?ops (memory_contents (en_store e2))"
    using mem.batch_ok [OF e1(7)] by blast
  have "memory_contents s' (js ''schedule:s'') = Some (vc_encode sampleCodec (scheduleValue ?s))"
    "memory_contents s' (timerIndexKey (createScheduleTimerId (js ''s''))) = None"
    using s'(3) e1(8) by (simp_all add: js_def timerIndexKey_def createScheduleTimerId_def)
  then obtain e3 where e3: "cancelSchedule demoScheduleHost (JString (js ''s'')) (e2\<lparr>en_store := s'\<rparr>) = (Inr (), e3)"
    "memory_invar (en_store e3)" "en_internals e3 = en_internals e2"
    using demo_cancel [of "e2\<lparr>en_store := s'\<rparr>"] e1(3,4) s'(2) by auto
  have race: "sh_storage demoRaceHost = memoryStorage" "sh_codec demoRaceHost = sampleCodec" "sh_timeZone demoRaceHost = UTC"
    "sh_resolveServices demoRaceHost = None" by (simp_all add: demoRaceHost_def)
  define e4 where "e4 = e3\<lparr>en_clock := (\<lambda>n. en_clock e3 (Suc n)), en_events := en_events e3 @ [ScheduleFired (js ''s'') (js ''r'') (en_clock e3 0) (Some 1)]\<rparr>"
  have "sh_startWorkflow demoRaceHost (ss_workflowType ?s) (ss_input ?s) (js ''r'') ?ops e2 = (Inr (), e3)"
    using s'(1) e3(1) by (simp add: demoRaceHost_def seq_def demoStart_def)
  then have start: "startScheduledRun demoRaceHost ?s \<lparr>rs_occurrence = Some 1, rs_workflowId = None,
      rs_scheduleStateAfterStart = None, rs_completedWorkflowId = None\<rparr> e1 = (Inr (js ''r''), e4)"
    using e1(1,2) fields race by (simp add: startScheduledRun_def seq_def randomUUID_def lift_def scheduleRunOperations_def
        and_then_def scheduleKey_def demo_keys resolveScheduledRunServices_def serviceOperations_def registerRun_def
        getNow_def dispatchEvent_def failUnavailable_def ret_def Let_def e2_def e4_def)
  show thesis
    by (rule tick_from_start [OF race(1-3) demo_valid(1) demo_fire(3) demo_fire(3) _ _ demo_plan(1) _ _ e1_def start])
      (use that e1(5) e3(2,3) in \<open>simp_all add: e4_def\<close>)
qed

definition demoCreated :: schedule_state where
  "demoCreated = (demoSchedule None)\<lparr>ss_overlap := OverlapSkip, ss_intervalMs := Some 5, ss_nextFireAt := Some 5\<rparr>"

lemma demo_created: "valid_schedule demoCreated" "ss_id demoCreated = js ''s''" "ss_nextFireAt demoCreated = Some 5"
  "ss_status demoCreated = ScheduleActive" "resolveEffectiveScheduleFireAt demoCreated 5 = 5"
  "scheduleTickKey demoCreated 5 = Inr (js ''schedule-due:0000000000000005:s'')"
proof -
  show "valid_schedule demoCreated"
    using demo_valid(1) by (simp add: demoCreated_def valid_schedule_def demoSchedule_def valid_cadence_def valid_timestamp_def MAX_SAFE_INTEGER_def)
  show id: "ss_id demoCreated = js ''s''" "ss_nextFireAt demoCreated = Some 5" "ss_status demoCreated = ScheduleActive"
    by (simp_all add: demoCreated_def demoSchedule_def)
  show fire: "resolveEffectiveScheduleFireAt demoCreated 5 = 5"
    by (simp add: resolveEffectiveScheduleFireAt_def computeScheduleJitterOffset_def demoCreated_def demoSchedule_def)
  have "KEYS_scheduleTick 5 (js ''s'') = Some (js ''schedule-due:0000000000000005:s'')" by code_simp
  then show "scheduleTickKey demoCreated 5 = Inr (js ''schedule-due:0000000000000005:s'')"
    using id fire by (simp add: scheduleTickKey_def scheduleKey_def)
qed

lemma demo_create:
  obtains e' where "schedule demoScheduleHost (js ''w'') JNull (JObject [(js ''every'', JNumber (JFin 5))])
      (JObject [(js ''id'', JString (js ''s''))]) (demoEngine 0 []) = (Inr (js ''s''), e')"
    "stored_schedule sampleCodec (memory_contents (en_store e')) (js ''s'') = Some demoCreated"
proof -
  define e1 where "e1 = (demoEngine 0 [])\<lparr>en_pendingScheduleCreations := [js ''s'']\<rparr>"
  define e2 where "e2 = e1\<lparr>en_clock := (\<lambda>n. en_clock e1 (Suc n))\<rparr>"
  have e: "en_clock e1 0 = 0" "\<not> deposed (en_internals e2)" "\<not> ownershipLease (en_internals e2)" "memory_invar (en_store e2)"
    "get_op memoryStorage (en_store e1) k = Inr None" for k
    by (simp_all add: e1_def e2_def demoEngine_def memory_invar_def memoryStorage_def memory_get_def)
  have next_fire: "nextForCadence demoScheduleHost (IntervalSpec 5) 0 = Inr 5"
  proof -
    have "nextOccurrence UTC (IntervalCadence 5 0) 0 = Inr 5" by code_simp
    then show ?thesis by (simp add: nextForCadence_def cadenceFields_def resolveScheduleCadence_def and_then_def)
  qed
  obtain s' where w: "writeScheduleState demoScheduleHost demoCreated None None [] e2 = (Inr (), e2\<lparr>en_store := s'\<rparr>)"
    "stored_schedule sampleCodec (memory_contents s') (js ''s'') = Some demoCreated"
    using write_plain [of demoScheduleHost e2 demoCreated 5 "js ''schedule:s''" "js ''schedule-due:0000000000000005:s''"]
      demo_created e demo_keys(1) sampleCodec_roundtrip by (auto simp: valid_timestamp_def MAX_SAFE_INTEGER_def)
  have "createSchedule demoScheduleHost (js ''w'') JNull (IntervalSpec 5) \<lparr>so_overlapPolicy = OverlapSkip, so_backfill = False,
     so_id = Some (js ''s''), so_description = None, so_jitterMs = None\<rparr> (js ''s'') e1 = (Inr (js ''s''), e2\<lparr>en_store := s'\<rparr>)"
    using w(1) next_fire e by (simp add: createSchedule_def seq_def lift_def scheduleKey_def demo_keys storageGet_def getNow_def ret_def
        e2_def [symmetric] cadenceFields_def demoCreated_def demoSchedule_def)
  moreover have "en_pendingScheduleCreations (demoEngine 0 []) = []" by (simp add: demoEngine_def)
  ultimately show thesis
    using demo_norm w(2)
    by (intro that [of "e2\<lparr>en_store := s', en_pendingScheduleCreations := removeAll (js ''s'') (en_pendingScheduleCreations (e2\<lparr>en_store := s'\<rparr>))\<rparr>"])
      (simp_all add: schedule_def seq_def lift_def ret_def e1_def demoScheduleHost_def)
qed

lemma singleton_entries: "distinct (map fst xs) \<Longrightarrow> set xs = {x} \<Longrightarrow> xs = [x]"
  by (cases xs; cases "tl xs") (auto simp: insert_eq_iff)

section \<open>Properties\<close>

text \<open>
  C24: a stored schedule is read back as it was written exactly when it is valid: its identifiers are
  non-empty, not too long and free of control characters, it has one cadence, its times and counts are safe
  integers, and its queued runs are distinct and apart from the current one.
\<close>

theorem schedule_record_roundtrip:
  assumes "codec_roundtrip C"
  shows "decodeScheduleState C (vc_encode C (scheduleValue s)) = Inr (Some s) \<longleftrightarrow> valid_schedule s"
  using assms schedule_value_roundtrip scheduleStateOf_valid by (auto simp: decodeScheduleState_def codec_roundtrip_def)

theorem schedule_record_roundtrip_witness:
  "decodeScheduleState sampleCodec (vc_encode sampleCodec (scheduleValue (demoSchedule (Some 2)))) = Inr (Some (demoSchedule (Some 2)))"
  using schedule_record_roundtrip [OF sampleCodec_roundtrip] demo_valid(2) by simp

text \<open>
  C6: an active schedule never loses its timer to the operations of the engine. In every state reachable by
  creating, pausing, resuming, cancelling and updating schedules and by the end of scheduled runs, one after the
  other and each of which returned, with other writes between them, a stored active schedule has a next fire time, a timer
  entry at its jittered fire time, and a timer index that names this entry.
\<close>

theorem active_schedules_stay_armed:
  assumes "sh_storage H = memoryStorage" and "codec_roundtrip (sh_codec H)" and "run_commits memory_invar memory_contents H"
    and "schedule_reachable H e" and "stored_schedule (sh_codec H) (memory_contents (en_store e)) i = Some s"
    and "ss_status s = ScheduleActive"
  shows "\<exists>t key. ss_nextFireAt s = Some t \<and> scheduleTickKey s t = Inr key \<and> memory_contents (en_store e) key \<noteq> None \<and>
    Option.bind (memory_contents (en_store e) (timerIndexKey (createScheduleTimerId i))) (vc_decode (sh_codec H)) = Some (JString key)"
  using mem_cas.stored_ok [OF reachable_armed [OF assms(4,1-3)] assms(5)] assms(6) by (auto simp: well_armed_def)

theorem active_schedules_stay_armed_witness:
  "\<exists>e t key. schedule_reachable demoScheduleHost e \<and> stored_schedule sampleCodec (memory_contents (en_store e)) (js ''s'') = Some demoCreated \<and>
    scheduleTickKey demoCreated t = Inr key \<and> memory_contents (en_store e) key \<noteq> None"
proof -
  obtain e where e: "schedule demoScheduleHost (js ''w'') JNull (JObject [(js ''every'', JNumber (JFin 5))])
      (JObject [(js ''id'', JString (js ''s''))]) (demoEngine 0 []) = (Inr (js ''s''), e)"
    "stored_schedule sampleCodec (memory_contents (en_store e)) (js ''s'') = Some demoCreated"
    by (rule demo_create)
  have "schedule_reachable demoScheduleHost (demoEngine 0 [])"
    by (rule Initial) (simp_all add: demoEngine_def memory_invar_def memory_contents_def)
  then have "schedule_reachable demoScheduleHost e" using e(1) by (blast intro: Step Create)
  then show ?thesis
    using active_schedules_stay_armed [of demoScheduleHost e "js ''s''" demoCreated] e(2) demo_created(4) demo_host_keeps(2) sampleCodec_roundtrip
    by auto
qed

text \<open>
  C16: recovery gives every active schedule its timer. If the records of the store are those of their keys and
  have fire times within the range of the timer keys, then after \<open>recoverOrphanedScheduleTimers\<close> returns
  every stored active schedule is armed, whichever timers and indexes were missing or stale before.
\<close>

theorem recovery_arms_every_schedule:
  assumes "sh_storage H = memoryStorage" and "codec_roundtrip (sh_codec H)" and "memory_invar (en_store e)"
    and "records_ok (sh_codec H) (memory_contents (en_store e))" and "recoverOrphanedScheduleTimers H e = (Inr (), e')"
    and "stored_schedule (sh_codec H) (memory_contents (en_store e')) i = Some s"
  shows "well_armed (sh_codec H) (memory_contents (en_store e')) s"
  using mem_cas.recovery_rearms [OF assms(5,1-4)] assms(6) by (auto simp: schedules_ok_def)

theorem recovery_arms_every_schedule_witness:
  "\<exists>e'. recoverOrphanedScheduleTimers demoScheduleHost (demoScheduled 1 None) = (Inr (), e') \<and>
     well_armed sampleCodec (memory_contents (en_store e')) (demoSchedule None)"
proof -
  let ?e = "demoScheduled 1 None" and ?s = "demoSchedule None" and ?k = "js ''schedule:s''" and ?tick = "js ''schedule-due:0000000000000001:s''"
  let ?b = "vc_encode sampleCodec (scheduleValue ?s)" and ?p = "js ''schedule:''"
  have m: "memory_contents (en_store ?e) = [?k \<mapsto> ?b]" by (simp add: demoScheduled_def demoEngine_def memory_contents_def)
  have fields: "ss_id ?s = js ''s''" "ss_status ?s = ScheduleActive" "ss_nextFireAt ?s = Some 1" by (simp_all add: demoSchedule_def)
  have dec: "decodeScheduleState sampleCodec ?b = Inr (Some ?s)"
    using schedule_value_roundtrip [OF demo_valid(1)] sampleCodec_roundtrip by (simp add: decodeScheduleState_def codec_roundtrip_def)
  have key: "prefix ?p ?k" "isScheduleRecordKey ?k" by (simp_all add: js_def isScheduleRecordKey_def)
  have inv: "memory_invar (en_store ?e)" using demo_load(3) [OF demo_valid(1)] .
  have p: "?p \<noteq> []" "last ?p \<noteq> -1" by (simp_all add: js_def)
  have scan: "scan_op memoryStorage (en_store ?e) ?p default_scan_options = Inr [(?k, ?b)]"
  proof -
    let ?xs = "scan_entries [?k \<mapsto> ?b] ?p default_scan_options"
    have "distinct (map fst ?xs)" "set ?xs = {(?k, ?b)}"
      using mem_cas.scan_all [OF mem.finite_contents [OF inv] p] key(1) unfolding m by (auto split: if_splits)
    then have "?xs = [(?k, ?b)]" using singleton_entries by blast
    then show ?thesis using mem.scan_spec [OF inv p(1)] m by simp
  qed
  have tick: "scheduleTickKey ?s 1 = Inr ?tick"
  proof -
    have "KEYS_scheduleTick 1 (js ''s'') = Some ?tick" by code_simp
    then show ?thesis using fields demo_fire(3) by (simp add: scheduleTickKey_def scheduleKey_def)
  qed
  obtain s' where w: "writeScheduleState demoScheduleHost ?s None None [] ?e = (Inr (), ?e\<lparr>en_store := s'\<rparr>)"
    "stored_schedule sampleCodec (memory_contents s') (js ''s'') = Some ?s"
    using write_plain [of demoScheduleHost ?e ?s 1 ?k ?tick] fields tick inv demo_keys(1) demo_valid(1) demo_fire(3) sampleCodec_roundtrip
    by (auto simp: demoScheduled_def demoEngine_def valid_timestamp_def MAX_SAFE_INTEGER_def)
  have "get_op memoryStorage (en_store ?e) ?tick = Inr None"
    using mem.get_spec [OF inv] m by (simp add: js_def)
  then have run: "recoverOrphanedScheduleTimers demoScheduleHost ?e = (Inr (), ?e\<lparr>en_store := s'\<rparr>)"
    using scan key(2) dec fields tick w(1)
    by (simp add: recoverOrphanedScheduleTimers_def recoverScheduleTimer_def hasCurrentScheduleTimer_def seq_def lift_def ret_def
        storageScan_def storageGet_def)
  have "records_ok sampleCodec (memory_contents (en_store ?e))"
    unfolding m using dec fields demo_keys(1) demo_fire(3)
    by (auto simp: records_ok_def valid_timestamp_def MAX_SAFE_INTEGER_def split: if_splits)
  then have "well_armed sampleCodec (memory_contents s') ?s"
    using recovery_arms_every_schedule [of demoScheduleHost ?e "?e\<lparr>en_store := s'\<rparr>" "js ''s''" ?s] run w(2) inv sampleCodec_roundtrip by simp
  then show ?thesis using run by auto
qed

text \<open>
  C7: a schedule that fired fires again. When the scheduler has processed the timer of an active schedule
  whose jitter is at most the distance of its occurrences, and has deleted what it cleans up, the record is
  that of a schedule that is paused, or that is active with a next fire time at least one distance later
  and is armed for it.
\<close>

theorem fired_schedule_is_rearmed:
  assumes "sh_storage H = memoryStorage" and "host_keeps memory_invar H" and "codec_roundtrip (sh_codec H)"
    and "memory_invar (en_store e)" and "\<not> deposed (en_internals e)"
    and "stored_schedule (sh_codec H) (memory_contents (en_store e)) (ss_id s) = Some s" and "ss_status s = ScheduleActive"
    and "ss_nextFireAt s = Some t" and "scheduleTickKey s t = Inr key" and "valid_timestamp (resolveEffectiveScheduleFireAt s t)"
    and "regular_occurrence s t" and "0 < occurrence_gap s" and "pred_option (\<lambda>j. j \<le> occurrence_gap s) (ss_jitterMs s)"
    and "processSelectedTimer memoryStorage (sh_codec H) (scheduleTimerCallback H e)
      \<lparr>st_key = key, st_entry = scheduleTimerEntry s t\<rparr> [] now (en_scheduler e) (en_store e) = (TimerProcessed, cleanup, sch', store')"
  shows "\<exists>u rk. KEYS_schedule (ss_id s) = Some rk \<and>
    apply_operations cleanup (memory_contents store') rk = Some (vc_encode (sh_codec H) (scheduleValue u)) \<and> ss_id u = ss_id s \<and>
    (ss_status u = SchedulePaused \<or> ss_status u = ScheduleActive \<and>
       (\<exists>y. ss_nextFireAt u = Some y \<and> t + occurrence_gap s \<le> y) \<and>
       well_armed (sh_codec H) (apply_operations cleanup (memory_contents store')) u)"
  using assms by (rule mem_cas.tick_rearms)

theorem fired_schedule_is_rearmed_witness:
  "\<exists>cleanup sch' store' u. processSelectedTimer memoryStorage sampleCodec (scheduleTimerCallback demoScheduleHost (demoScheduled 1 None))
      \<lparr>st_key = js ''schedule-due:0000000000000001:s'', st_entry = scheduleTimerEntry (demoSchedule None) 1\<rparr> [] 0
      (en_scheduler (demoScheduled 1 None)) (en_store (demoScheduled 1 None)) = (TimerProcessed, cleanup, sch', store') \<and>
    apply_operations cleanup (memory_contents store') (js ''schedule:s'') = Some (vc_encode sampleCodec (scheduleValue u)) \<and>
    (ss_status u = SchedulePaused \<or> ss_status u = ScheduleActive \<and> (\<exists>y. ss_nextFireAt u = Some y \<and> 2 \<le> y) \<and>
       well_armed sampleCodec (apply_operations cleanup (memory_contents store')) u)"
proof -
  let ?e = "demoScheduled 1 None" and ?s = "demoSchedule None" and ?key = "js ''schedule-due:0000000000000001:s''"
  have fields: "ss_id ?s = js ''s''" "ss_status ?s = ScheduleActive" "ss_nextFireAt ?s = Some 1" "ss_intervalMs ?s = Some 1"
    "ss_createdAt ?s = 0" "ss_jitterMs ?s = None" by (simp_all add: demoSchedule_def)
  obtain cleanup sch' store' where p: "processSelectedTimer memoryStorage sampleCodec (scheduleTimerCallback demoScheduleHost ?e)
      \<lparr>st_key = ?key, st_entry = scheduleTimerEntry ?s 1\<rparr> [] 0 (en_scheduler ?e) (en_store ?e) = (TimerProcessed, cleanup, sch', store')"
    by (rule demo_tick [OF demo_valid(1) demo_fire(3) demo_fire(3) _ _ demo_plan(1), of ?key]) simp_all
  have "\<not> deposed (en_internals ?e)" by (simp add: demoScheduled_def demoEngine_def)
  moreover have "scheduleTickKey ?s 1 = Inr ?key"
  proof -
    have "KEYS_scheduleTick 1 (js ''s'') = Some ?key" by code_simp
    then show ?thesis using fields demo_fire(3) by (simp add: scheduleTickKey_def scheduleKey_def)
  qed
  moreover have "regular_occurrence ?s 1" "occurrence_gap ?s = 1" using fields by (simp_all add: regular_occurrence_def on_grid_def occurrence_gap_def)
  ultimately have "\<exists>u rk. KEYS_schedule (ss_id ?s) = Some rk \<and>
    apply_operations cleanup (memory_contents store') rk = Some (vc_encode (sh_codec demoScheduleHost) (scheduleValue u)) \<and> ss_id u = ss_id ?s \<and>
    (ss_status u = SchedulePaused \<or> ss_status u = ScheduleActive \<and>
       (\<exists>y. ss_nextFireAt u = Some y \<and> 1 + occurrence_gap ?s \<le> y) \<and>
       well_armed (sh_codec demoScheduleHost) (apply_operations cleanup (memory_contents store')) u)"
    by (intro fired_schedule_is_rearmed [where e = ?e and key = ?key and sch' = sch' and now = 0])
      (use p fields demo_load(2,3) [OF demo_valid(1)] demo_host_keeps(1) sampleCodec_roundtrip demo_fire(3) in
        \<open>simp_all add: valid_timestamp_def MAX_SAFE_INTEGER_def\<close>)
  then show ?thesis using p fields demo_keys(1) \<open>occurrence_gap ?s = 1\<close> by auto
qed

text \<open>
  C39: a jitter larger than the distance of the occurrences can lose the timer. When the next occurrence has
  the same jittered fire time as the one that was processed, the handler arms the same key again, and the
  scheduler then deletes this entry and the index: the schedule is still active and has no timer.
\<close>

theorem jitter_collision_loses_timer:
  assumes "sh_storage H = memoryStorage" and "host_keeps memory_invar H" and "codec_roundtrip (sh_codec H)"
    and "memory_invar (en_store e)" and "\<not> deposed (en_internals e)"
    and "stored_schedule (sh_codec H) (memory_contents (en_store e)) (ss_id s) = Some s" and "ss_status s = ScheduleActive"
    and "ss_nextFireAt s = Some t" and "scheduleTickKey s t = Inr key" and "valid_timestamp (resolveEffectiveScheduleFireAt s t)"
    and "processSelectedTimer memoryStorage (sh_codec H) (scheduleTimerCallback H e)
      \<lparr>st_key = key, st_entry = scheduleTimerEntry s t\<rparr> [] now (en_scheduler e) (en_store e) = (TimerProcessed, cleanup, sch', store')"
    and "stored_schedule (sh_codec H) (memory_contents store') (ss_id s) = Some u" and "ss_status u = ScheduleActive"
    and "ss_nextFireAt u = Some y" and "resolveEffectiveScheduleFireAt s y = resolveEffectiveScheduleFireAt s t"
  shows "stored_schedule (sh_codec H) (apply_operations cleanup (memory_contents store')) (ss_id s) = Some u \<and>
    apply_operations cleanup (memory_contents store') key = None \<and>
    apply_operations cleanup (memory_contents store') (timerIndexKey (createScheduleTimerId (ss_id s))) = None"
  using assms by (rule mem_cas.tick_collision)

theorem jitter_collision_loses_timer_witness:
  "\<exists>cleanup sch' store' u. processSelectedTimer memoryStorage sampleCodec (scheduleTimerCallback demoScheduleHost (demoScheduled 2 (Some 2)))
      \<lparr>st_key = js ''schedule-due:0000000000000002:s'', st_entry = scheduleTimerEntry (demoSchedule (Some 2)) 1\<rparr> [] 0
      (en_scheduler (demoScheduled 2 (Some 2))) (en_store (demoScheduled 2 (Some 2))) = (TimerProcessed, cleanup, sch', store') \<and>
    stored_schedule sampleCodec (apply_operations cleanup (memory_contents store')) (js ''s'') = Some u \<and>
    ss_status u = ScheduleActive \<and> ss_nextFireAt u = Some 2 \<and>
    apply_operations cleanup (memory_contents store') (js ''schedule-due:0000000000000002:s'') = None"
proof -
  let ?j = "Some 2 :: int option" let ?e = "demoScheduled 2 ?j" and ?s = "demoSchedule ?j" and ?key = "js ''schedule-due:0000000000000002:s''"
  let ?u = "?s\<lparr>ss_lastFireAt := Some 1, ss_updatedAt := 2, ss_nextFireAt := Some 2\<rparr>"
  have fields: "ss_id ?s = js ''s''" "ss_status ?s = ScheduleActive" "ss_nextFireAt ?s = Some 1" by (simp_all add: demoSchedule_def)
  obtain cleanup sch' store' where p: "processSelectedTimer memoryStorage sampleCodec (scheduleTimerCallback demoScheduleHost ?e)
      \<lparr>st_key = ?key, st_entry = scheduleTimerEntry ?s 1\<rparr> [] 0 (en_scheduler ?e) (en_store ?e) = (TimerProcessed, cleanup, sch', store')"
    and u: "stored_schedule sampleCodec (memory_contents store') (js ''s'') = Some ?u"
    by (rule demo_tick [OF demo_valid(2) demo_fire(1,2) _ _ demo_plan(2), of ?key]) simp_all
  have "\<not> deposed (en_internals ?e)" by (simp add: demoScheduled_def demoEngine_def)
  moreover have "scheduleTickKey ?s 1 = Inr ?key"
  proof -
    have "KEYS_scheduleTick 2 (js ''s'') = Some ?key" by code_simp
    then show ?thesis using fields demo_fire(1) by (simp add: scheduleTickKey_def scheduleKey_def)
  qed
  ultimately have "stored_schedule (sh_codec demoScheduleHost) (apply_operations cleanup (memory_contents store')) (ss_id ?s) = Some ?u \<and>
    apply_operations cleanup (memory_contents store') ?key = None \<and>
    apply_operations cleanup (memory_contents store') (timerIndexKey (createScheduleTimerId (ss_id ?s))) = None"
    by (intro jitter_collision_loses_timer [where e = ?e and key = ?key and sch' = sch' and now = 0 and y = 2 and u = ?u])
      (use p u fields demo_load(2,3) [OF demo_valid(2)] demo_host_keeps(1) sampleCodec_roundtrip demo_fire(1,2) in
        \<open>simp_all add: valid_timestamp_def MAX_SAFE_INTEGER_def\<close>)
  then show ?thesis using p fields by (intro exI [of _ cleanup] exI [of _ sch'] exI [of _ store'] exI [of _ ?u]) simp
qed

text \<open>
  C38: a cancellation that arrives while the timer of a schedule is being handled is lost. Only the update of a
  schedule waits for the timer handler. Whatever the start of the run does in between, even a complete
  \<open>cancelSchedule\<close>, the handler writes the state it loaded before: when it returns, the record is that of
  an active or a paused schedule.
\<close>

theorem cancel_during_tick_is_lost:
  assumes "sh_storage H = memoryStorage" and "host_keeps memory_invar H" and "codec_roundtrip (sh_codec H)"
    and "memory_invar (en_store e)" and "\<not> deposed (en_internals e)"
    and "stored_schedule (sh_codec H) (memory_contents (en_store e)) (ss_id s) = Some s" and "ss_status s = ScheduleActive"
    and "ss_nextFireAt s = Some t" and "handleScheduleTimer H (scheduleTimerEntry s t) e = (Inr (), e')"
  shows "\<exists>u rk. KEYS_schedule (ss_id s) = Some rk \<and>
    memory_contents (en_store e') rk = Some (vc_encode (sh_codec H) (scheduleValue u)) \<and> ss_status u \<noteq> ScheduleCancelled"
proof -
  obtain u e0 e1 inc where u: "memory_invar (en_store e0)" "writeScheduleState H u inc None [] e0 = (Inr (), e1)"
    "en_store e' = en_store e1" "ss_id u = ss_id s" "ss_status u = SchedulePaused \<or> same_schedule s u"
    using mem_cas.handler_result [OF assms(9,1,2,4-8)] by blast
  then have "ss_status u \<noteq> ScheduleCancelled" using assms(7) by (auto simp: same_schedule_def)
  then show ?thesis using mem_cas.write_effect [OF u(2) assms(1,3) u(1)] u(3,4) by auto
qed

theorem cancel_during_tick_is_lost_witness:
  "\<exists>e'. handleScheduleTimer demoRaceHost (scheduleTimerEntry (demoSchedule None) 1) (demoScheduled 1 None) = (Inr (), e') \<and>
    (\<exists>u. memory_contents (en_store e') (js ''schedule:s'') = Some (vc_encode sampleCodec (scheduleValue u)) \<and> ss_status u \<noteq> ScheduleCancelled)"
proof -
  let ?s = "demoSchedule None" and ?e = "demoScheduled 1 None"
  obtain e' where e': "handleScheduleTimer demoRaceHost (scheduleTimerEntry ?s 1) ?e = (Inr (), e')" by (rule demo_race)
  have "\<exists>u rk. KEYS_schedule (ss_id ?s) = Some rk \<and>
      memory_contents (en_store e') rk = Some (vc_encode (sh_codec demoRaceHost) (scheduleValue u)) \<and> ss_status u \<noteq> ScheduleCancelled"
    by (rule cancel_during_tick_is_lost [of demoRaceHost ?e ?s 1 e'])
      (use e' demo_load(2,3) [OF demo_valid(1), of 1] demo_race_keeps sampleCodec_roundtrip in
        \<open>simp_all add: demoRaceHost_def demoSchedule_def demoScheduled_def demoEngine_def\<close>)
  then show ?thesis using e' demo_keys(1) by (auto simp: demoRaceHost_def demoSchedule_def)
qed

text \<open>
  C40: one schedule record that does not decode stops recovery. If any record under \<open>schedule:\<close> holds bytes the
  codec rejects, \<open>recoverOrphanedScheduleTimers\<close> throws, although a record that decodes to a malformed value
  is skipped.
\<close>

theorem undecodable_record_stops_recovery:
  assumes "sh_storage H = memoryStorage" and "memory_invar (en_store e)" and "prefix (js ''schedule:'') k"
    and "isScheduleRecordKey k" and "memory_contents (en_store e) k = Some b" and "vc_decode (sh_codec H) b = None"
  shows "recoverOrphanedScheduleTimers H e \<noteq> (Inr (), e')"
proof -
  let ?p = "js ''schedule:''" and ?m = "memory_contents (en_store e)"
  have p: "?p \<noteq> []" "last ?p \<noteq> -1" by (simp_all add: js_def)
  have "(k, b) \<in> set (scan_entries ?m ?p default_scan_options)"
    using mem_cas.scan_all(2) [OF mem.finite_contents [OF assms(2)] p] assms(3,5) by simp
  then show ?thesis
    using mem_cas.undecodable_entry [OF _ assms(4,6)] mem.scan_spec [OF assms(2) p(1)] assms(1)
    by (auto simp: recoverOrphanedScheduleTimers_def action_iffs storageScan_def)
qed

theorem undecodable_record_stops_recovery_witness:
  "recoverOrphanedScheduleTimers demoScheduleHost (demoEngine 1 [(js ''schedule:s'', [])]) \<noteq> (Inr (), demoEngine 1 [(js ''schedule:s'', [])])"
  by (rule undecodable_record_stops_recovery [where k = "js ''schedule:s''" and b = "[]"])
    (simp_all add: demoEngine_def memory_invar_def memory_contents_def isScheduleRecordKey_def js_def sampleCodec_def)

text \<open>
  C23: while a run of the schedule occupies its slot, an occurrence starts nothing under the policies \<open>skip\<close> and
  \<open>queue\<close>: it returns with the store and the dispatched events as they were, and the schedule unchanged or
  with exactly one run more at the end of its queue, whose id, time and occurrence are those of the moment.
\<close>

theorem occupied_slot_starts_nothing:
  assumes "ss_currentWorkflowId s = Some w" and "sh_workflowStatus H w e = (Inr status, e)" and "scheduledRunOccupiesSlot status"
    and "ss_overlap s = OverlapSkip \<or> ss_overlap s = OverlapQueue"
  shows "\<exists>e'. applyScheduleOccurrence H s occurrence e =
      (Inr (if ss_overlap s = OverlapSkip then s
            else s\<lparr>ss_queuedRuns := ss_queuedRuns s @
              [\<lparr>qr_workflowId = en_uuids e 0, qr_queuedAt = en_clock e 0, qr_occurrence = occurrence\<rparr>]\<rparr>), e') \<and>
    en_store e' = en_store e \<and> en_events e' = en_events e"
  using assms
  by (auto simp: applyScheduleOccurrence_def refreshScheduledWorkflowState_def applyBlockedScheduleOccurrence_def seq_def ret_def
      randomUUID_def getNow_def)

theorem occupied_slot_starts_nothing_witness:
  "\<exists>e'. applyScheduleOccurrence (demoScheduleHost\<lparr>sh_workflowStatus := (\<lambda>_. ret (Some WorkflowRunning))\<rparr>)
       ((demoSchedule None)\<lparr>ss_overlap := OverlapQueue, ss_currentWorkflowId := Some (js ''a'')\<rparr>) (Some 1) (demoScheduled 1 None) =
     (Inr ((demoSchedule None)\<lparr>ss_overlap := OverlapQueue, ss_currentWorkflowId := Some (js ''a''),
        ss_queuedRuns := [\<lparr>qr_workflowId = js ''r'', qr_queuedAt = 1, qr_occurrence = Some 1\<rparr>]\<rparr>), e') \<and>
     en_store e' = en_store (demoScheduled 1 None)"
  using occupied_slot_starts_nothing [of "(demoSchedule None)\<lparr>ss_overlap := OverlapQueue, ss_currentWorkflowId := Some (js ''a'')\<rparr>" "js ''a''"
      "demoScheduleHost\<lparr>sh_workflowStatus := (\<lambda>_. ret (Some WorkflowRunning))\<rparr>" "demoScheduled 1 None" "Some WorkflowRunning" "Some 1"]
  by (auto simp: ret_def scheduledRunOccupiesSlot_def demoScheduled_def demoEngine_def demoSchedule_def)

end
