(* ===== verification/Sliding_Window.thy ===== *)
theory Sliding_Window
  imports Weft_Prelude
begin

text \<open>
  The sliding time windows of \<open>src/src/alerting/sliding-window.ts\<close>: a counter of failures and a histogram of
  values, both a chronological array whose old part is found by binary search. The histogram also keeps its
  values sorted. The locale \<open>sliding_window\<close> is what both promise: what is kept is what was recorded within
  the window.
\<close>

section \<open>Binary search\<close>






section \<open>CounterWindow\<close>








section \<open>HistogramWindow\<close>









section \<open>What a window keeps\<close>

















section \<open>Ranks\<close>





section \<open>Properties\<close>



end
