(* ===== verification/Spec2Isabelle.thy ===== *)
theory Spec2Isabelle
  imports Weft_Prelude Storage_Interface Memory_Storage Scoped_Storage Lock_Record Rate_Limit
    Storage_Keys Atomic_State Lease Checkpoint_Replay Event_Log_Properties Deadline_Tracker Task_Queue
    Worker_Registry Schedule_Interval Calendar Cron Cron_Utc Timer_Scheduler_Properties Schedule_State Schedules
    Schedule_Properties Schedule_Timer_Properties Sample_Codec Schedule_Guarantees Sliding_Window
begin

text \<open>
  Weft is a durable workflow engine in TypeScript. A workflow is a generator function whose progress
  is checkpointed into a key-value store and recovered from it; activities run in the engine or on
  remote workers behind a server. This development models the parts of the program that carry its
  guarantees and proves them; the theories follow the source files, one group of definitions per file,
  under the names of the source where they are free.

  \<^bold>\<open>How the parts fit together.\<close> Everything durable goes through the \<open>Storage\<close> interface. On its
  conditional batch rest the versioned state slots of \<open>atomic-state.ts\<close>, on those the durable
  semaphore, mutex and rate limiter. The engine owns the store through a lease with a fencing epoch;
  its writes are conditional on the epoch. Workflow progress is an event log with a hash chain, whose
  entries also carry the results pruned out of checkpoints; compaction deletes old entries and keeps
  what recovery needs in a watermark. The server hands activities to workers: the registry chooses a
  connected worker, the task queue serves long polls, the deadline tracker finds tasks whose worker
  went silent. Time reaches the engine through the timer scheduler, which scans the timer keys of the
  store and the volatile timers and fires what is due; intervals and cron expressions say when the next
  timer of a schedule is due. A schedule is a record with a timer: its timer handler starts runs under an
  overlap policy and arms the next timer, and recovery arms what a crash left without one. Beside the
  engine, alert rules watch failure rates and durations over sliding windows.

  \<^bold>\<open>Theories and sources\<close> (paths under \<open>src/src\<close>).

  \<^item> \<open>Weft_Prelude\<close>: JavaScript strings, numbers, decoded values, array methods and \<open>Map\<close>, and the
    lemmas on lists and association lists the other theories share.
  \<^item> \<open>Storage_Interface\<close>: \<open>storage/interface.ts\<close>, \<open>batch-limits.ts\<close>, \<open>delete-range.ts\<close>,
    \<open>derived-operations.ts\<close>, \<open>capabilities.ts\<close>. A storage is a record of operations over a state; the
    locales \<open>storage_spec\<close> and \<open>cas_storage_spec\<close> are its contract, and the derived operations are
    proved from it. Lemmas: range bounds are exact, fallbacks agree with native operations.
  \<^item> \<open>Memory_Storage\<close>: \<open>storage/memory.ts\<close>, all methods, interpreted in both locales; conditional
    batches are atomic, scans sorted and complete. A scan reads each value when it comes to its key; it is
    the snapshot of the contract as long as nobody writes in its range meanwhile.
  \<^item> \<open>Scoped_Storage\<close>: \<open>storage/scoped-storage.ts\<close>, the prefixing decorator; a scope satisfies the
    contract again and sibling scopes do not see each other.
  \<^item> \<open>Storage_Keys\<close>: key encoding and the \<open>KEYS\<close> registry of \<open>storage/interface.ts\<close>; keys of
    the builders modelled, which encode all their arguments, never collide, event keys sort by sequence
    number.
  \<^item> \<open>Atomic_State\<close>: \<open>core/atomic-state.ts\<close>; a compare-and-swap update with interference between its
    reads and its commit takes effect on the very store the others left at the commit when reads are not
    torn, and makes progress; a torn read loses an update.
  \<^item> \<open>Lock_Record\<close>: \<open>core/concurrency-lock-record.ts\<close>, \<open>core/concurrency.ts\<close>; permits are never
    exceeded over any interleaving, waiters are served in order, expired contenders do not block.
  \<^item> \<open>Rate_Limit\<close>: \<open>core/rate-limit-record.ts\<close>, \<open>core/rate-limiter.ts\<close>; the number of grants is
    bounded by capacity and elapsed intervals.
  \<^item> \<open>Lease\<close>: \<open>core/engine/lease-codec.ts\<close>, \<open>lease-manager.ts\<close>, \<open>lease-health.ts\<close>,
    \<open>lease-deposition.ts\<close>, \<open>fenced-write.ts\<close>; a step relation of several instances over one store, in
    which a deposed instance commits nothing and at most one instance can write.
  \<^item> \<open>Checkpoint_Replay\<close>: \<open>core/engine/checkpoint-replay.ts\<close>; pruning and hydration are inverse.
  \<^item> \<open>Event_Log\<close>, \<open>Event_Log_Properties\<close>: \<open>core/event-log.ts\<close>, \<open>event-log-shared.ts\<close>,
    \<open>event-log-verify.ts\<close>, \<open>core/engine/event-log-compaction.ts\<close> and the hash of
    \<open>runtime/portable.ts\<close>; verification raises no false alarm under concurrent commits, the head
    determines an accepted log up to hash collisions, compaction preserves the recovery of checkpoints
    that reached the deleted steps.
  \<^item> \<open>Deadline_Tracker\<close>: \<open>server/deadline-tracker.ts\<close>; the array heap with lazy deletion refines a
    finite map (locale \<open>deadline_index\<close>).
  \<^item> \<open>Task_Queue\<close>: \<open>server/task-queue.ts\<close>, \<open>task-queue-types.ts\<close>, \<open>task-queue-summary.ts\<close>; no
    worker waits beside work it could do; a task is held by one worker and every pending task expires,
    for all ids but those a result was reported for before any worker took them; the policies order
    arrivals.
  \<^item> \<open>Worker_Registry\<close>: \<open>worker/registry.ts\<close> and \<open>worker/registry/\<close>; routing finds a best eligible
    worker, round robin is fair, the fair-share counters (locale \<open>counter_ledger\<close>) and the loads are the
    numbers of in-flight tasks, with what each operation that breaks this can do to them.
  \<^item> \<open>Schedule_Interval\<close>: \<open>core/scheduler/duration.ts\<close>, \<open>core/schedule/interval-occurrence.ts\<close>; the
    collected occurrences of an interval are exactly its multiples in the window, the backoff grows to
    its maximum.
  \<^item> \<open>Calendar\<close>: the calendar of the JavaScript \<open>Date\<close> object in UTC, with days and dates inverse.
  \<^item> \<open>Cron\<close>, \<open>Cron_Utc\<close>: \<open>core/schedule/cron-*.ts\<close>; parsed fields stay in range, an occurrence
    matches its expression, and in UTC the search returns the earliest match.
  \<^item> \<open>Timer_Scheduler\<close>, \<open>Timer_Scheduler_Properties\<close>: \<open>core/scheduler/scheduler-class.ts\<close>,
    \<open>timer-batch.ts\<close>, \<open>timer-sources.ts\<close>, \<open>timer-deferral.ts\<close>; a tick fires the due timers in
    order, deletes exactly those it processed, and reaches every due timer that decodes.
  \<^item> \<open>Schedule_State\<close>: \<open>core/types/schedules.ts\<close>, \<open>core/engine/validation/schedule.ts\<close>,
    \<open>schedule-options.ts\<close>, \<open>schedule-occurrence.ts\<close>, \<open>schedule-jitter.ts\<close>,
    \<open>schedule-run-metadata.ts\<close>; the decoder accepts exactly valid records and reads back what was
    written.
  \<^item> \<open>Schedules\<close>, \<open>Schedule_Properties\<close>, \<open>Schedule_Timer_Properties\<close>, \<open>Schedule_Guarantees\<close>:
    \<open>core/engine/schedules.ts\<close>, \<open>schedule-run.ts\<close>, \<open>schedule-overlap.ts\<close>, \<open>schedule-timer.ts\<close> and
    the schedule part of \<open>storage-io.ts\<close>, as actions on an engine state. The lemmas are proved over any
    store that meets the contract: the operations keep active schedules armed, recovery arms them, a
    processed tick arms the next one. The last theory states this for the memory store, with a step
    relation over the operations, and three ways the guarantee is lost.
  \<^item> \<open>Sliding_Window\<close>: \<open>alerting/sliding-window.ts\<close>; the failure rate and the percentiles are those of
    the events within the window (locale \<open>sliding_window\<close>, with an instance for each of the two classes).
  \<^item> \<open>Sample_Codec\<close>: a codec of values with a proved round trip, for instances of the theorems.

  \<^bold>\<open>Conventions.\<close> An asynchronous operation is the function it computes; where another process can act
  between two awaits and it matters, the awaits take storage states of their own (\<open>Atomic_State\<close>,
  \<open>Lease\<close>, \<open>Event_Log\<close>). A throw is \<open>Inl\<close> or \<open>None\<close>, a callback or a settled promise an effect in the
  result, a running timer a part of the state whose firing is an operation. Clock readings are
  arguments. A scan is the point-in-time view that \<open>capabilities.ts\<close> calls a snapshot; the in-memory
  adapter reads later than that (\<open>memory_scan_during\<close>), and theorems whose callbacks write during a scan say
  what they leave alone. A run relation allows every public operation in any order; what a property needs
  beyond that it states over what the run has recorded. Numbers are rationals or integers; rounding of doubles is not modelled, the hash is at
  64 bits and the lease epoch at 8 bytes.

  \<^bold>\<open>Parameters.\<close> The MessagePack codec and JSON come from outside the sources: they are arguments of the
  definitions, with their round trips as hypotheses, for the values the program gives them (lone surrogates, which
  MessagePack does not keep, are outside), which the witnesses discharge for concrete codecs. So are the
  time zone data behind \<open>Intl.DateTimeFormat\<close>, the string collation of \<open>localeCompare\<close>, the callback
  and commit that the engine passes to the timer scheduler, and the callbacks that start, cancel and fail the
  workflow of a schedule. The hypotheses on these say that they keep the invariant of the store, and where a
  run is started from a queue that they commit the operations they are given.

  \<^bold>\<open>Bounds.\<close> The verifier tries five times, as the source does; the retry loop of an update has the
  attempts of its options; the acquire loop of the lease runs on fuel, and a theorem shows that it
  returns once the poll intervals cover the configured window. Event sequence numbers are below \<open>10 ^ 10\<close>, the width to which the
  keys pad them. The heap loops are total functions. The cron search has the 100,000 rounds of the
  source, and a theorem shows that they suffice in UTC; a timer scan has the source's limit of 1,000
  entries beyond the deferred ones.

  \<^bold>\<open>Not modelled.\<close> The engine class and workflow lifecycle (\<open>core/engine/index.ts\<close> and the handlers
  around it), updates, signals and reviews: asynchronous orchestration, around generators the user writes, of
  the parts above. The database adapters, HTTP and websocket transport, clients, command line, telemetry
  and scripts are input and output around these parts. Error message texts, log output and defensive copies
  are left out throughout.
\<close>

end
